(* ===== verification/Prelude.thy ===== *)
theory Prelude
  imports Main "HOL-Library.Word"
begin

text \<open>
  Shared vocabulary of the development: the C integer types as words, the byte order of the
  hosts the programs are built for (little endian x86-64 and aarch64), and generic lemmas on
  words and lists that the component theories use.
\<close>

unbundle bit_operations_syntax

section \<open>C integer types\<close>

type_synonym u8 = "8 word"
type_synonym u16 = "16 word"
type_synonym u32 = "32 word"
type_synonym u64 = "64 word"

text \<open>\<^verbatim>\<open>(uint32_t)x\<close> and the other narrowing and widening casts between unsigned types
  are \<open>ucast\<close>.\<close>

text \<open>The error numbers of \<^verbatim>\<open>errno.h\<close> that the components return, negated.\<close>

definition EINVAL :: int where "EINVAL = 22"
definition ENOENT :: int where "ENOENT = 2"
definition ENOSPC :: int where "ENOSPC = 28"
definition ENOBUFS :: int where "ENOBUFS = 105"

named_theorems c_defs \<open>definitions of C helper functions, for unfolding\<close>
named_theorems word_facts \<open>facts that move word arithmetic to nat\<close>

lemma unat_less_32 [simp]: "unat (x :: u32) < 4294967296"
  by (rule order.strict_trans2 [OF unsigned_less]) simp

lemma unat_less_64 [simp]: "unat (x :: u64) < 18446744073709551616"
  by (rule order.strict_trans2 [OF unsigned_less]) simp

lemma unat_less_16 [simp]: "unat (x :: u16) < 65536"
  by (rule order.strict_trans2 [OF unsigned_less]) simp

lemma unat_less_8 [simp]: "unat (x :: u8) < 256"
  by (rule order.strict_trans2 [OF unsigned_less]) simp

lemma unat_add_no_wrap [word_facts]:
  "unat (x :: 'a::len word) + unat y < 2 ^ LENGTH('a) \<Longrightarrow> unat (x + y) = unat x + unat y"
  by (simp add: unat_word_ariths)

lemma unat_Suc_no_wrap [word_facts]:
  "x \<noteq> - 1 \<Longrightarrow> unat ((x :: 'a::len word) + 1) = Suc (unat x)"
  by (metis Suc_eq_plus1 add.commute unatSuc add_eq_0_iff)

lemma unat_sub_no_wrap [word_facts]:
  "y \<le> x \<Longrightarrow> unat ((x :: 'a::len word) - y) = unat x - unat y"
  by (simp add: unat_sub)

lemma le_minus_one_iff_less:
  "y \<noteq> 0 \<Longrightarrow> x \<le> (y :: 'a::len word) - 1 \<longleftrightarrow> x < y"
  using unat_gt_0 [of y] by (simp add: word_le_nat_alt word_less_nat_alt unat_minus_one) arith

section \<open>Lists\<close>

lemma set_takeWhile_mono:
  "(\<And>x. P x \<Longrightarrow> Q x) \<Longrightarrow> set (takeWhile P xs) \<subseteq> set (takeWhile Q xs)"
  by (induction xs) auto

lemma filter_neq_id [simp]: "t \<notin> set xs \<Longrightarrow> filter (\<lambda>x. x \<noteq> t) xs = xs"
  by (induction xs) auto

end
