(* ===== verification/NetHeaders.thy ===== *)
theory NetHeaders
  imports Prelude
begin

text \<open>
  Packet headers in memory and the Internet checksum, \<^verbatim>\<open>lib/net/rte_ip.h\<close>. Memory is a list of
  bytes; a field of a packed header is read and written at its offset, in the byte order of a
  little-endian host, and \<^verbatim>\<open>rte_cpu_to_be_16\<close> swaps bytes. A pointer to a header is the list of
  bytes from that header on.
\<close>

section \<open>Loads and stores\<close>

definition ld8 :: "u8 list \<Rightarrow> nat \<Rightarrow> u8" where
  "ld8 m off = m ! off"

definition ld16 :: "u8 list \<Rightarrow> nat \<Rightarrow> u16" where
  "ld16 m off = ucast (m ! off) OR push_bit 8 (ucast (m ! (off + 1)))"

definition ld32 :: "u8 list \<Rightarrow> nat \<Rightarrow> u32" where
  "ld32 m off = ucast (ld16 m off) OR push_bit 16 (ucast (ld16 m (off + 2)))"

definition ld64 :: "u8 list \<Rightarrow> nat \<Rightarrow> u64" where
  "ld64 m off = ucast (ld32 m off) OR push_bit 32 (ucast (ld32 m (off + 4)))"

definition st8 :: "nat \<Rightarrow> u8 \<Rightarrow> u8 list \<Rightarrow> u8 list" where
  "st8 off v m = m[off := v]"

definition st16 :: "nat \<Rightarrow> u16 \<Rightarrow> u8 list \<Rightarrow> u8 list" where
  "st16 off v m = m[off := ucast v, off + 1 := ucast (drop_bit 8 v)]"

definition st32 :: "nat \<Rightarrow> u32 \<Rightarrow> u8 list \<Rightarrow> u8 list" where
  "st32 off v m = st16 (off + 2) (ucast (drop_bit 16 v)) (st16 off (ucast v) m)"

definition st64 :: "nat \<Rightarrow> u64 \<Rightarrow> u8 list \<Rightarrow> u8 list" where
  "st64 off v m = st32 (off + 4) (ucast (drop_bit 32 v)) (st32 off (ucast v) m)"

definition st_bytes :: "nat \<Rightarrow> u8 list \<Rightarrow> u8 list \<Rightarrow> u8 list" where
  "st_bytes off bs m = take off m @ bs @ drop (off + length bs) m"

definition bswap16 :: "u16 \<Rightarrow> u16" where
  "bswap16 v = push_bit 8 v OR drop_bit 8 v"

definition RTE_ETHER_TYPE_IPV4 :: u16 where "RTE_ETHER_TYPE_IPV4 = 0x0800"

section \<open>The Internet checksum\<close>

text \<open>Header fields: \<^verbatim>\<open>version_ihl\<close> at 0, \<^verbatim>\<open>total_length\<close> at 2, \<^verbatim>\<open>next_proto_id\<close> at 9,
  \<^verbatim>\<open>hdr_checksum\<close> at 10, \<^verbatim>\<open>src_addr\<close> at 12, \<^verbatim>\<open>dst_addr\<close> at 16.\<close>

definition IPPROTO_UDP :: u8 where "IPPROTO_UDP = 17"

definition rte_ipv4_hdr_len :: "u8 list \<Rightarrow> u8" where
  "rte_ipv4_hdr_len ip = (ld8 ip 0 AND 0x0f) * 4"

fun rte_raw_cksum_add :: "u8 list \<Rightarrow> u32 \<Rightarrow> u32" where
  "rte_raw_cksum_add [] s = s"
| "rte_raw_cksum_add [b] s = s + ucast b"
| "rte_raw_cksum_add (a # b # bs) s = rte_raw_cksum_add bs (s + ucast (ld16 [a, b] 0))"

definition rte_raw_cksum_reduce :: "u32 \<Rightarrow> u16" where
  "rte_raw_cksum_reduce s =
     (let s = drop_bit 16 (s AND 0xffff0000) + (s AND 0xffff);
          s = drop_bit 16 (s AND 0xffff0000) + (s AND 0xffff)
      in ucast s)"

definition rte_raw_cksum :: "u8 list \<Rightarrow> u16" where
  "rte_raw_cksum buf = rte_raw_cksum_reduce (rte_raw_cksum_add buf 0)"

definition rte_ipv4_cksum :: "u8 list \<Rightarrow> u16" where
  "rte_ipv4_cksum ip = NOT (rte_raw_cksum (take (unat (rte_ipv4_hdr_len ip)) ip))"

text \<open>\<open>seg\<close> says that \<^verbatim>\<open>ol_flags\<close> asks for TCP or UDP segmentation.\<close>

definition rte_ipv4_phdr_cksum :: "u8 list \<Rightarrow> bool \<Rightarrow> u16" where
  "rte_ipv4_phdr_cksum ip seg =
     (let len = (if seg then 0 else bswap16 (bswap16 (ld16 ip 2) - ucast (rte_ipv4_hdr_len ip)))
      in rte_raw_cksum (take 8 (drop 12 ip) @ [0, ld8 ip 9] @ [ucast len, ucast (drop_bit 8 len)]))"

definition rte_ipv4_udptcp_cksum_raw :: "u8 list \<Rightarrow> u8 list \<Rightarrow> u16" where
  "rte_ipv4_udptcp_cksum_raw ip l4 =
     (let ip_hdr_len = ucast (rte_ipv4_hdr_len ip) :: u32; l3_len = ucast (bswap16 (ld16 ip 2)) :: u32
      in if l3_len < ip_hdr_len then 0
         else let l4_len = l3_len - ip_hdr_len;
                  cksum = ucast (rte_raw_cksum (take (unat l4_len) l4)) + (ucast (rte_ipv4_phdr_cksum ip False) :: u32);
                  cksum = drop_bit 16 (cksum AND 0xffff0000) + (cksum AND 0xffff)
              in ucast cksum)"

definition rte_ipv4_udptcp_cksum :: "u8 list \<Rightarrow> u8 list \<Rightarrow> u16" where
  "rte_ipv4_udptcp_cksum ip l4 =
     (let cksum = NOT (rte_ipv4_udptcp_cksum_raw ip l4)
      in if cksum = 0 \<and> ld8 ip 9 = IPPROTO_UDP then 0xffff else cksum)"

definition rte_ipv4_udptcp_cksum_verify :: "u8 list \<Rightarrow> u8 list \<Rightarrow> int" where
  "rte_ipv4_udptcp_cksum_verify ip l4 = (if rte_ipv4_udptcp_cksum_raw ip l4 \<noteq> 0xffff then - 1 else 0)"

section \<open>Arithmetic of the sum\<close>

text \<open>The exact sum of the 16-bit words of a buffer, an odd last byte counting as a low byte.\<close>

fun sum16 :: "u8 list \<Rightarrow> nat" where
  "sum16 [] = 0"
| "sum16 [b] = unat b"
| "sum16 (a # b # bs) = unat a + 256 * unat b + sum16 bs"

lemma unat_widen [simp]:
  "unat (ucast (b :: u8) :: u16) = unat b" "unat (ucast (b :: u8) :: u32) = unat b"
  "unat (ucast (h :: u16) :: u32) = unat h"
proof -
  have "unat b < 256" "unat h < 65536" by (rule unat_less_8, rule unat_less_16)
  then show "unat (ucast b :: u16) = unat b" "unat (ucast b :: u32) = unat b" "unat (ucast h :: u32) = unat h"
    by (simp_all add: unsigned_ucast_eq take_bit_eq_mod del: unat_less_8 unat_less_16)
qed

lemma unat_u8_le: "unat (b :: u8) \<le> 255"
  using unat_less_8 [of b] by linarith

lemma unat_u16_le: "unat (h :: u16) \<le> 65535"
  using unat_less_16 [of h] by linarith

lemma unat_ld16: "unat (ld16 m off) = unat (m ! off) + 256 * unat (m ! (off + 1))"
proof -
  let ?a = "m ! off" and ?b = "m ! (off + 1)"
  have d: "(ucast ?a :: u16) AND push_bit 8 (ucast ?b) = 0"
    by (rule bit_eqI) (auto simp: bit_simps dest: bit_imp_le_length)
  have "ld16 m off = ucast ?a + push_bit 8 (ucast ?b)"
    using d by (simp add: ld16_def disjunctive_add_eq_or)
  moreover have "unat (push_bit 8 (ucast ?b :: u16)) = 256 * unat ?b"
    using unat_u8_le [of ?b] by (simp only: unsigned_push_bit_eq unat_widen) (simp add: take_bit_eq_mod push_bit_eq_mult)
  ultimately show ?thesis
    using unat_u8_le [of ?a] unat_u8_le [of ?b] by (simp only:) (subst unat_add_no_wrap, simp_all)
qed

lemma sum16_le: "sum16 m \<le> 65535 * ((length m + 1) div 2)"
proof (induction m rule: sum16.induct)
  case (2 b)
  show ?case using unat_u8_le [of b] by simp
next
  case (3 a b bs)
  have "unat a + 256 * unat b \<le> 65535" using unat_u8_le [of a] unat_u8_le [of b] by linarith
  then show ?case using 3 by simp
qed simp

lemma unat_cksum_add:
  "unat s + sum16 m < 2 ^ 32 \<Longrightarrow> unat (rte_raw_cksum_add m s) = unat s + sum16 m"
proof (induction m s rule: rte_raw_cksum_add.induct)
  case (2 b s)
  then show ?case by (simp add: unat_add_no_wrap)
next
  case (3 a b bs s)
  have w: "unat (ucast (ld16 [a, b] 0) :: u32) = unat a + 256 * unat b"
    by (simp add: unat_ld16)
  then have s: "unat (s + ucast (ld16 [a, b] 0)) = unat s + (unat a + 256 * unat b)"
    using 3 by (subst unat_add_no_wrap) simp_all
  show ?case using 3 by (simp add: s)
qed simp

lemma unat_fold16: "unat (drop_bit 16 (s AND 0xffff0000) + (s AND 0xffff) :: u32) = unat s div 65536 + unat s mod 65536"
proof -
  have hi: "drop_bit 16 (s AND 0xffff0000) = drop_bit 16 s"
  proof (rule bit_word_eqI)
    fix n assume "n < LENGTH(32)"
    have m: "(0xffff0000 :: u32) = push_bit 16 (mask 16)" by (simp add: mask_eq_exp_minus_1 push_bit_eq_mult)
    show "bit (drop_bit 16 (s AND 0xffff0000)) n = bit (drop_bit 16 s) n"
      unfolding m using bit_imp_le_length [of s "16 + n"] by (auto simp: bit_simps)
  qed
  have lo: "s AND 0xffff = take_bit 16 s"
    by (simp add: take_bit_eq_mask mask_eq_exp_minus_1)
  have u: "unat (drop_bit 16 s) = unat s div 65536" "unat (take_bit 16 s) = unat s mod 65536"
    by (simp_all add: drop_bit_eq_div take_bit_eq_mod unat_div unat_mod)
  have "unat s div 65536 < 65536" using unsigned_less [of s] by (simp add: less_mult_imp_div_less)
  then have "unat s div 65536 + unat s mod 65536 < 2 ^ 32"
    using mod_less_divisor [of 65536 "unat s"] by simp
  then show ?thesis unfolding hi lo by (subst unat_add_no_wrap) (simp_all add: u)
qed

text \<open>One's-complement reduction: congruent modulo 65535, and 0 only for 0.\<close>

definition fold16 :: "nat \<Rightarrow> nat" where
  "fold16 n = n div 65536 + n mod 65536"

lemma fold16_mod: "fold16 n mod 65535 = n mod 65535"
proof -
  have "n = 65535 * (n div 65536) + fold16 n" unfolding fold16_def by simp
  then show ?thesis by (metis mod_mult_self4)
qed

lemma fold16_zero: "fold16 n = 0 \<longleftrightarrow> n = 0"
  by (auto simp: fold16_def)

lemma unat_cksum_reduce:
  "unat (rte_raw_cksum_reduce s) = fold16 (fold16 (unat s)) \<and> fold16 (fold16 (unat s)) < 65536"
proof -
  let ?f = "\<lambda>s :: u32. drop_bit 16 (s AND 0xffff0000) + (s AND 0xffff)"
  have f: "unat (?f s) = fold16 (unat s)" for s by (simp only: fold16_def unat_fold16)
  have "unat s < 4294967296" using unsigned_less [of s] by simp
  then have "fold16 (unat s) \<le> 131070" unfolding fold16_def by linarith
  have small: "fold16 n < 65536" if "n \<le> 131070" for n
  proof -
    have "n = 65536 * (n div 65536) + n mod 65536" "n mod 65536 < 65536" by simp_all
    then show ?thesis using that unfolding fold16_def by (cases "n div 65536 = 0") linarith+
  qed
  have b: "fold16 (fold16 (unat s)) < 65536" by (rule small) fact
  have "rte_raw_cksum_reduce s = ucast (?f (?f s))" by (simp only: rte_raw_cksum_reduce_def Let_def)
  moreover have "unat (ucast w :: u16) = unat w mod 65536" for w :: u32
    by (simp add: unsigned_ucast_eq take_bit_eq_mod)
  ultimately show ?thesis using b by (simp only: f) simp
qed

lemma unat_raw_cksum:
  assumes "length m \<le> 65536"
  shows "unat (rte_raw_cksum m) mod 65535 = sum16 m mod 65535" "unat (rte_raw_cksum m) = 0 \<longleftrightarrow> sum16 m = 0"
    "unat (rte_raw_cksum m) < 65536"
proof -
  have "(length m + 1) div 2 \<le> 32768" using assms by simp
  then have "65535 * ((length m + 1) div 2) < 2 ^ 32" by simp
  then have "unat (rte_raw_cksum_add m 0) = sum16 m"
    using sum16_le [of m] by (subst unat_cksum_add) simp_all
  then show "unat (rte_raw_cksum m) mod 65535 = sum16 m mod 65535" "unat (rte_raw_cksum m) = 0 \<longleftrightarrow> sum16 m = 0"
    "unat (rte_raw_cksum m) < 65536"
    using unat_cksum_reduce [of "rte_raw_cksum_add m 0"]
    by (simp_all add: rte_raw_cksum_def fold16_mod fold16_zero)
qed

lemma unat_not16: "unat (NOT (v :: u16)) = 65535 - unat v"
proof -
  have "NOT v = - 1 - v" by (simp add: not_eq_complement)
  moreover have "unat (- 1 - v) = unat (- 1 :: u16) - unat v" by (rule unat_sub) (rule word_order.extremum)
  ultimately show ?thesis by (simp add: unsigned_minus_1_eq_mask mask_eq_exp_minus_1)
qed

section \<open>Stores\<close>

lemma length_st [simp]:
  "length (st8 o1 v m) = length m" "length (st16 o1 h m) = length m" "length (st32 o1 w m) = length m"
  "length (st64 o1 x m) = length m"
  by (simp_all add: st8_def st16_def st32_def st64_def)

lemma length_st_bytes [simp]: "off + length bs \<le> length m \<Longrightarrow> length (st_bytes off bs m) = length m"
  by (simp add: st_bytes_def)

lemma nth_st8 [simp]: "off < length m \<Longrightarrow> st8 off v m ! i = (if i = off then v else m ! i)"
  by (simp add: st8_def nth_list_update)

lemma nth_st16 [simp]:
  "off + 1 < length m \<Longrightarrow> st16 off v m ! i =
     (if i = off then ucast v else if i = off + 1 then ucast (drop_bit 8 v) else m ! i)"
  by (auto simp: st16_def nth_list_update)

lemma nth_st_bytes [simp]:
  "off + length bs \<le> length m \<Longrightarrow> i < length m \<Longrightarrow> st_bytes off bs m ! i =
     (if off \<le> i \<and> i < off + length bs then bs ! (i - off) else m ! i)"
  by (auto simp: st_bytes_def nth_append min_def)

lemma drop_st16: "n \<le> off \<Longrightarrow> drop n (st16 off v m) = st16 (off - n) v (drop n m)"
  by (simp add: st16_def drop_update_swap Suc_diff_le)

lemma take_st16: "take n (st16 off v m) = st16 off v (take n m)"
  by (simp add: st16_def take_update_swap)

lemma st16_beyond [simp]: "length m \<le> off \<Longrightarrow> st16 off v m = m"
  by (simp add: st16_def list_update_beyond)

lemma unat_bytes16: "unat (ucast (v :: u16) :: u8) + 256 * unat (ucast (drop_bit 8 v) :: u8) = unat v"
proof -
  have v: "unat v < 65536" by (rule unat_less_16)
  have "unat (drop_bit 8 v) = unat v div 256" by (simp add: drop_bit_eq_div unat_div)
  moreover have "unat v div 256 < 256" using v by (simp add: less_mult_imp_div_less)
  ultimately have "unat (ucast (drop_bit 8 v) :: u8) = unat v div 256"
    by (simp add: unsigned_ucast_eq take_bit_eq_mod)
  moreover have "unat (ucast v :: u8) = unat v mod 256" by (simp add: unsigned_ucast_eq take_bit_eq_mod)
  ultimately show ?thesis by simp
qed

lemma ld16_st16 [simp]: "off + 1 < length m \<Longrightarrow> ld16 (st16 off v m) off = v"
  by (simp add: word_unat_eq_iff unat_ld16 unat_bytes16)

lemma two_bytes: "1 < length m \<Longrightarrow> \<exists>a b bs. m = a # b # bs"
  by (cases m; cases "tl m") auto

lemma sum16_st16:
  "2 * i + 1 < length m \<Longrightarrow> sum16 (st16 (2 * i) v m) + unat (ld16 m (2 * i)) = sum16 m + unat v"
proof (induction i arbitrary: m)
  case 0
  then obtain a b bs where "m = a # b # bs" using two_bytes [of m] by auto
  then show ?case using unat_bytes16 [of v] by (simp add: st16_def unat_ld16)
next
  case (Suc i)
  then obtain a b bs where m: "m = a # b # bs" using two_bytes [of m] by auto
  then have "2 * i + 1 < length bs" using Suc.prems by simp
  from Suc.IH [OF this] show ?case by (simp add: m st16_def unat_ld16)
qed

section \<open>A checksum field checks out exactly when it was zero\<close>

definition cksum_blank :: "u16 \<Rightarrow> bool" where
  "cksum_blank k \<longleftrightarrow> k = 0 \<or> k = 0xffff"

lemma cksum_blank_mod: "cksum_blank k \<longleftrightarrow> unat k mod 65535 = 0"
proof -
  have "unat k \<le> 65535" by (rule unat_u16_le)
  then have "unat k mod 65535 = 0 \<longleftrightarrow> unat k = 0 \<or> unat k = 65535"
    by (cases "unat k = 65535") auto
  then show ?thesis by (auto simp: cksum_blank_def word_unat_eq_iff)
qed

text \<open>The arithmetic: \<open>s\<close> is the sum with the field at \<open>k\<close>, \<open>c\<close> the complement stored instead, \<open>r\<close>
  the checksum of the result.\<close>

lemma complement_checks:
  fixes s k c n r :: nat
  assumes c: "(c + s) mod 65535 = 0" and n: "n + k = s + c" "0 < n"
    and r: "r mod 65535 = n mod 65535" "r = 0 \<longleftrightarrow> n = 0" "r < 65536"
  shows "r = 65535 \<longleftrightarrow> k mod 65535 = 0"
proof -
  have "(n + k) mod 65535 = 0" using c n(1) by (simp add: add.commute)
  then have "n mod 65535 = 0 \<longleftrightarrow> k mod 65535 = 0"
    unfolding mod_eq_0_iff_dvd using dvd_add_right_iff [of 65535 n k] dvd_add_left_iff [of 65535 k n] by blast
  moreover have "r mod 65535 = 0 \<longleftrightarrow> r = 65535"
    using r(2,3) n(2) by (cases "r = 65535") auto
  ultimately show ?thesis using r(1) by metis
qed

lemma ipv4_cksum_verifies_iff:
  assumes len: "20 \<le> length ip" and ihl: "ld8 ip 0 = 0x45"
  shows "rte_raw_cksum (take 20 (st16 10 (rte_ipv4_cksum ip) ip)) = 0xffff \<longleftrightarrow> cksum_blank (ld16 ip 10)"
proof -
  let ?h = "take 20 ip" and ?c = "rte_ipv4_cksum ip" and ?k = "ld16 ip 10"
  let ?n = "st16 10 ?c ?h"
  have hl: "rte_ipv4_hdr_len ip = 20" using ihl by (simp add: rte_ipv4_hdr_len_def)
  have lh: "length ?h = 20" using len by simp
  note R = unat_raw_cksum [of ?h] unat_raw_cksum [of ?n]
  have c: "unat ?c = 65535 - unat (rte_raw_cksum ?h)" by (simp add: rte_ipv4_cksum_def hl unat_not16)
  have le: "unat (rte_raw_cksum ?h) \<le> 65535" by (rule unat_u16_le)
  have "(unat ?c + unat (rte_raw_cksum ?h)) mod 65535 = 0" using c le by simp
  then have cs: "(unat ?c + sum16 ?h) mod 65535 = 0"
    using mod_add_cong [OF refl R(1), of "unat ?c"] lh by simp
  have k: "ld16 ?h 10 = ?k" using len by (simp add: ld16_def)
  have n: "sum16 ?n + unat ?k = sum16 ?h + unat ?c"
    using sum16_st16 [of 5 ?h ?c] lh by (simp add: k)
  have "?n ! 0 = 0x45" using ihl len by (simp add: ld8_def)
  moreover obtain a b bs where nn: "?n = a # b # bs" using two_bytes [of ?n] len by auto
  ultimately have pos: "0 < sum16 ?n" by (simp add: nn)
  have "unat (rte_raw_cksum ?n) = 65535 \<longleftrightarrow> unat ?k mod 65535 = 0"
    by (rule complement_checks [OF cs n pos]) (use R(4-6) lh in simp_all)
  moreover have "rte_raw_cksum ?n = 0xffff \<longleftrightarrow> unat (rte_raw_cksum ?n) = 65535"
    by (simp add: word_unat_eq_iff)
  ultimately show ?thesis by (simp add: take_st16 cksum_blank_mod)
qed

lemma sum16_pos: "m ! 0 \<noteq> 0 \<Longrightarrow> m \<noteq> [] \<Longrightarrow> 0 < sum16 m"
  by (cases m rule: sum16.cases) (auto simp: unat_gt_0)

lemma sum16_append: "even (length m) \<Longrightarrow> sum16 (m @ n) = sum16 m + sum16 n"
  by (induction m rule: sum16.induct) auto

text \<open>The combined sum of a UDP or TCP datagram and its pseudo header.\<close>

lemma udptcp_raw:
  assumes hl: "rte_ipv4_hdr_len ip = 20" and tl: "unat (bswap16 (ld16 ip 2)) = 20 + length l4"
    and len: "length ip \<ge> 20" "length l4 \<le> 60000" and proto: "ld8 ip 9 \<noteq> 0"
  obtains ph where "0 < ph" "\<And>l. length l = length l4 \<Longrightarrow>
      unat (rte_ipv4_udptcp_cksum_raw ip l) mod 65535 = (sum16 l + ph) mod 65535 \<and>
      unat (rte_ipv4_udptcp_cksum_raw ip l) \<noteq> 0"
proof -
  let ?ph = "rte_ipv4_phdr_cksum ip False"
  let ?len = "bswap16 (bswap16 (ld16 ip 2) - ucast (rte_ipv4_hdr_len ip))"
  let ?psd = "take 8 (drop 12 ip) @ [0, ld8 ip 9] @ [ucast ?len, ucast (drop_bit 8 ?len)]"
  have "sum16 ?psd = sum16 (take 8 (drop 12 ip)) + sum16 ([0, ld8 ip 9] @ [ucast ?len, ucast (drop_bit 8 ?len)])"
    by (rule sum16_append) (use len(1) in simp)
  moreover have "0 < sum16 ([0, ld8 ip 9] @ [ucast ?len, ucast (drop_bit 8 ?len)])"
    using proto by (simp add: unat_gt_0)
  ultimately have "0 < sum16 ?psd" by linarith
  then have pos: "0 < unat ?ph"
    using unat_raw_cksum(2) [of ?psd] len(1) by (auto simp: rte_ipv4_phdr_cksum_def Let_def)
  have "unat (rte_ipv4_udptcp_cksum_raw ip l) mod 65535 = (sum16 l + unat ?ph) mod 65535 \<and>
      unat (rte_ipv4_udptcp_cksum_raw ip l) \<noteq> 0" if l: "length l = length l4" for l
  proof -
    let ?s = "ucast (rte_raw_cksum l) + ucast ?ph :: u32"
    let ?l3 = "ucast (bswap16 (ld16 ip 2)) :: u32" and ?hl = "ucast (rte_ipv4_hdr_len ip) :: u32"
    have h: "unat ?hl = 20" by (simp add: hl)
    have l3: "unat ?l3 = 20 + length l4" using tl by simp
    have nl: "\<not> ?l3 < ?hl" unfolding word_less_nat_alt h l3 by simp
    have "unat (?l3 - ?hl) = length l4"
      using l3 h by (simp add: unat_sub word_le_nat_alt)
    then have tk: "take (unat (?l3 - ?hl)) l = l" using l by simp
    have raw: "rte_ipv4_udptcp_cksum_raw ip l = ucast (drop_bit 16 (?s AND 0xffff0000) + (?s AND 0xffff))"
      using nl by (simp only: rte_ipv4_udptcp_cksum_raw_def Let_def if_False tk)
    have le: "unat (rte_raw_cksum l) \<le> 65535" "unat ?ph \<le> 65535" by (rule unat_u16_le)+
    then have s: "unat ?s = unat (rte_raw_cksum l) + unat ?ph" by (subst unat_add_no_wrap) simp_all
    have w: "unat (ucast w :: u16) = unat w mod 65536" for w :: u32 by (simp add: unsigned_ucast_eq take_bit_eq_mod)
    have f: "unat (rte_ipv4_udptcp_cksum_raw ip l) = fold16 (unat ?s) mod 65536"
      by (simp only: raw w unat_fold16 fold16_def)
    have "fold16 (unat ?s) < 65536"
    proof -
      have n: "unat ?s \<le> 131070" using s le by linarith
      have "unat ?s = 65536 * (unat ?s div 65536) + unat ?s mod 65536" "unat ?s mod 65536 < 65536" by simp_all
      then show ?thesis using n unfolding fold16_def by (cases "unat ?s div 65536 = 0") linarith+
    qed
    then have f': "unat (rte_ipv4_udptcp_cksum_raw ip l) = fold16 (unat ?s)" by (simp only: f mod_less)
    have "length l \<le> 65536" using l len(2) by simp
    from mod_add_cong [OF unat_raw_cksum(1) [OF this] refl, of "unat ?ph"]
    show ?thesis using pos by (simp only: f' fold16_mod fold16_zero s) simp
  qed
  then show ?thesis using that [of "unat ?ph"] pos by blast
qed

lemma udptcp_cksum_verifies_iff:
  assumes hl: "rte_ipv4_hdr_len ip = 20" and tl: "unat (bswap16 (ld16 ip 2)) = 20 + length l4"
    and len: "length ip \<ge> 20" "length l4 \<le> 60000" "8 \<le> length l4" and proto: "ld8 ip 9 = IPPROTO_UDP"
  shows "rte_ipv4_udptcp_cksum_verify ip (st16 6 (rte_ipv4_udptcp_cksum ip l4) l4) = 0 \<longleftrightarrow> cksum_blank (ld16 l4 6)"
proof -
  let ?c = "rte_ipv4_udptcp_cksum ip l4" and ?raw = "rte_ipv4_udptcp_cksum_raw ip"
  let ?n = "st16 6 ?c l4"
  have p: "ld8 ip 9 \<noteq> 0" using proto by (simp add: IPPROTO_UDP_def)
  obtain ph where ph: "0 < ph" "\<And>l. length l = length l4 \<Longrightarrow>
      unat (?raw l) mod 65535 = (sum16 l + ph) mod 65535 \<and> unat (?raw l) \<noteq> 0"
    using udptcp_raw [OF hl tl len(1,2) p] by blast
  have le: "unat (?raw l4) \<le> 65535" by (rule unat_u16_le)
  have "(unat ?c + unat (?raw l4)) mod 65535 = 0"
  proof (cases "NOT (?raw l4) = 0")
    case True
    have "65535 - unat (?raw l4) = 0" using arg_cong [OF True, of unat] by (simp add: unat_not16)
    then have "unat (?raw l4) = 65535" using le by linarith
    then show ?thesis using True proto by (simp add: rte_ipv4_udptcp_cksum_def Let_def)
  next
    case False
    then show ?thesis using le by (simp add: rte_ipv4_udptcp_cksum_def Let_def unat_not16)
  qed
  moreover have "(unat ?c + (sum16 l4 + ph)) mod 65535 = (unat ?c + unat (?raw l4)) mod 65535"
    by (rule mod_add_cong) (use ph(2) [of l4] in simp_all)
  ultimately have cs: "(unat ?c + (sum16 l4 + ph)) mod 65535 = 0" by simp
  have n: "sum16 ?n + ph + unat (ld16 l4 6) = sum16 l4 + ph + unat ?c"
    using sum16_st16 [of 3 l4 ?c] len(3) by simp
  have "unat (?raw ?n) = 65535 \<longleftrightarrow> unat (ld16 l4 6) mod 65535 = 0"
    by (rule complement_checks [OF cs n]) (use ph(1) ph(2) [of ?n] unat_less_16 [of "?raw ?n"] in simp_all)
  moreover have "?raw ?n = 0xffff \<longleftrightarrow> unat (?raw ?n) = 65535" by (simp add: word_unat_eq_iff)
  ultimately show ?thesis by (simp add: rte_ipv4_udptcp_cksum_verify_def cksum_blank_mod)
qed

section \<open>Reading back what was stored\<close>

lemma bswap16_const [simp]: "bswap16 0x0800 = 8" "bswap16 9999 = 0x0f27" "bswap16 37 = 0x2500"
  "bswap16 17 = 0x1100" "bswap16 0 = 0" "bswap16 8 = 0x0800" "bswap16 0x2500 = 37" "bswap16 0x1100 = 17"
  by (simp_all add: bswap16_def)

lemma ld16_eqI: "off + 1 < length m \<Longrightarrow> m ! off = ucast v \<Longrightarrow> m ! (off + 1) = ucast (drop_bit 8 v) \<Longrightarrow> ld16 m off = v"
  by (simp add: word_unat_eq_iff unat_ld16 unat_bytes16)

lemma nth_st32 [simp]:
  "off + 3 < length m \<Longrightarrow> st32 off v m ! i =
     (if i = off then ucast v else if i = off + 1 then ucast (drop_bit 8 v)
      else if i = off + 2 then ucast (drop_bit 16 v) else if i = off + 3 then ucast (drop_bit 24 v) else m ! i)"
proof -
  have b: "(ucast (ucast (v :: u32) :: u16) :: u8) = ucast v"
    "(ucast (ucast (drop_bit 16 v) :: u16) :: u8) = ucast (drop_bit 16 v)"
    "(ucast (drop_bit 8 (ucast v :: u16)) :: u8) = ucast (drop_bit 8 v)"
    "(ucast (drop_bit 8 (ucast (drop_bit 16 v) :: u16)) :: u8) = ucast (drop_bit 24 v)"
    by (rule bit_word_eqI, auto simp: bit_simps)+
  assume "off + 3 < length m"
  then show ?thesis by (auto simp: st32_def b)
qed

lemma ld32_bytes:
  assumes "m ! off = ucast v" "m ! (off + 1) = ucast (drop_bit 8 v)"
    "m ! (off + 2) = ucast (drop_bit 16 v)" "m ! (off + 3) = ucast (drop_bit 24 v)"
  shows "ld32 m off = v"
proof -
  have s: "off + 2 + 1 = off + 3" by simp
  have "bit (ld32 m off) n = bit v n" if "n < 32" for n
  proof -
    consider "n < 8" | "8 \<le> n" "n < 16" | "16 \<le> n" "n < 24" | "24 \<le> n" by linarith
    then show ?thesis
      using that unfolding ld32_def ld16_def s assms by cases (auto simp: bit_simps)
  qed
  then show ?thesis by (intro bit_word_eqI) simp
qed

lemma ld32_cong:
  assumes "m ! off = m' ! off" "m ! (off + 1) = m' ! (off + 1)" "m ! (off + 2) = m' ! (off + 2)" "m ! (off + 3) = m' ! (off + 3)"
  shows "ld32 m off = ld32 m' off"
proof -
  have s: "off + 2 + 1 = off + 3" by simp
  show ?thesis unfolding ld32_def ld16_def s assms ..
qed

lemma nth_st64 [simp]:
  assumes "off + 7 < length m"
  shows "st64 off v m ! i = (if off \<le> i \<and> i < off + 8 then ucast (drop_bit (8 * (i - off)) v) else m ! i)"
proof -
  have b: "(ucast (drop_bit n (ucast v :: u32)) :: u8) = ucast (drop_bit n v)" if "n \<le> 24" for n
    using that by (intro bit_word_eqI) (auto simp: bit_simps)
  have c: "(ucast (drop_bit n (ucast (drop_bit 32 v) :: u32)) :: u8) = ucast (drop_bit (n + 32) v)" if "n \<le> 24" for n
    using that by (intro bit_word_eqI) (auto simp: bit_simps ac_simps)
  have i: "off \<le> i \<and> i < off + 8 \<Longrightarrow> i \<in> {off, off + 1, off + 2, off + 3, off + 4, off + 5, off + 6, off + 7}" by auto
  show ?thesis
    using assms b [of 0] b [of 8] b [of 16] b [of 24] c [of 0] c [of 8] c [of 16] c [of 24] i
    by (auto simp: st64_def)
qed

lemma ld64_bytes:
  assumes "\<And>i. i < 8 \<Longrightarrow> m ! (off + i) = ucast (drop_bit (8 * i) v)"
  shows "ld64 m off = v"
proof -
  have b: "(ucast (drop_bit n (ucast v :: u32)) :: u8) = ucast (drop_bit n v)" if "n \<le> 24" for n
    using that by (intro bit_word_eqI) (auto simp: bit_simps)
  have c: "(ucast (drop_bit n (ucast (drop_bit 32 v) :: u32)) :: u8) = ucast (drop_bit (n + 32) v)" if "n \<le> 24" for n
    using that by (intro bit_word_eqI) (auto simp: bit_simps ac_simps)
  have lo: "ld32 m off = ucast v"
    using assms [of 0] assms [of 1] assms [of 2] assms [of 3] b [of 0] b [of 8] b [of 16] b [of 24]
    by (intro ld32_bytes) simp_all
  have hi: "ld32 m (off + 4) = ucast (drop_bit 32 v)"
    using assms [of 4] assms [of 5] assms [of 6] assms [of 7] c [of 0] c [of 8] c [of 16] c [of 24]
    by (intro ld32_bytes) (simp_all add: add.commute [of off])
  show ?thesis
    unfolding ld64_def lo hi by (rule bit_word_eqI) (auto simp: bit_simps)
qed

end
