(* ===== verification/RteMbuf.thy ===== *)
theory RteMbuf
  imports NetHeaders
begin

text \<open>
  Packet buffers, \<^verbatim>\<open>lib/mbuf/rte_mbuf.h\<close> and \<^verbatim>\<open>rte_mbuf.c\<close>: the operations on the data of a packet. A
  segment is a record with the memory of its buffer; a packet is the non-empty list of its segments
  in the order of the \<^verbatim>\<open>next\<close> pointers, its head first. The packet length and the number of segments
  are fields of the head. The sanity checks are empty in a build without \<^verbatim>\<open>RTE_LIBRTE_MBUF_DEBUG\<close>.
  A pointer into a packet is the pair of a segment number and an offset into its buffer; \<open>None\<close> as an
  outer result is a read through a null \<^verbatim>\<open>next\<close> pointer or a write past a buffer.
\<close>

section \<open>Data\<close>

record mbuf =
  mb_buf :: "u8 list"
  mb_off :: u16
  mb_len :: u16
  mb_pkt_len :: u32
  mb_nb_segs :: u16
  mb_refcnt :: u16
  mb_flags :: u64
  mb_vlan_tci :: u16
  mb_l2_len :: "7 word"
  mb_outer_l2_len :: "7 word"

type_synonym pkt = "mbuf list"

definition EOVERFLOW :: int where "EOVERFLOW = 75"
definition RTE_MBUF_F_EXTERNAL :: u64 where "RTE_MBUF_F_EXTERNAL = push_bit 61 1"
definition RTE_MBUF_F_INDIRECT :: u64 where "RTE_MBUF_F_INDIRECT = push_bit 62 1"
definition RTE_MBUF_MAX_NB_SEGS :: nat where "RTE_MBUF_MAX_NB_SEGS = 65535"
definition RTE_PKTMBUF_HEADROOM :: u16 where "RTE_PKTMBUF_HEADROOM = 128"

definition buf_len :: "mbuf \<Rightarrow> u16" where
  "buf_len m = of_nat (length (mb_buf m))"

fun upd_head :: "(mbuf \<Rightarrow> mbuf) \<Rightarrow> pkt \<Rightarrow> pkt" where
  "upd_head f [] = []"
| "upd_head f (m # ms) = f m # ms"

fun upd_last :: "(mbuf \<Rightarrow> mbuf) \<Rightarrow> pkt \<Rightarrow> pkt" where
  "upd_last f [] = []"
| "upd_last f [m] = [f m]"
| "upd_last f (m # n # ms) = m # upd_last f (n # ms)"

section \<open>Operations\<close>

definition rte_pktmbuf_reset_headroom :: "mbuf \<Rightarrow> mbuf" where
  "rte_pktmbuf_reset_headroom m = m\<lparr>mb_off := min RTE_PKTMBUF_HEADROOM (buf_len m)\<rparr>"

definition rte_pktmbuf_headroom :: "mbuf \<Rightarrow> u16" where
  "rte_pktmbuf_headroom m = mb_off m"

definition rte_pktmbuf_tailroom :: "mbuf \<Rightarrow> u16" where
  "rte_pktmbuf_tailroom m = buf_len m - rte_pktmbuf_headroom m - mb_len m"

fun rte_pktmbuf_lastseg :: "pkt \<Rightarrow> mbuf option" where
  "rte_pktmbuf_lastseg [] = None"
| "rte_pktmbuf_lastseg [m] = Some m"
| "rte_pktmbuf_lastseg (m # n # ms) = rte_pktmbuf_lastseg (n # ms)"

text \<open>\<open>Some None\<close> is the null pointer that reports a failure.\<close>

fun rte_pktmbuf_prepend :: "pkt \<Rightarrow> u16 \<Rightarrow> ((nat \<times> nat) option \<times> pkt) option" where
  "rte_pktmbuf_prepend [] len = None"
| "rte_pktmbuf_prepend (m # ms) len =
     (if len > rte_pktmbuf_headroom m then Some (None, m # ms)
      else let m = m\<lparr>mb_off := mb_off m - len, mb_len := mb_len m + len, mb_pkt_len := mb_pkt_len m + ucast len\<rparr>
           in Some (Some (0, unat (mb_off m)), m # ms))"

definition rte_pktmbuf_append :: "pkt \<Rightarrow> u16 \<Rightarrow> ((nat \<times> nat) option \<times> pkt) option" where
  "rte_pktmbuf_append p len =
     (case rte_pktmbuf_lastseg p of
        None \<Rightarrow> None
      | Some l \<Rightarrow>
          if len > rte_pktmbuf_tailroom l then Some (None, p)
          else Some (Some (length p - 1, unat (mb_off l) + unat (mb_len l)),
            upd_head (\<lambda>m. m\<lparr>mb_pkt_len := mb_pkt_len m + ucast len\<rparr>)
              (upd_last (\<lambda>m. m\<lparr>mb_len := mb_len m + len\<rparr>) p)))"

fun rte_pktmbuf_adj :: "pkt \<Rightarrow> u16 \<Rightarrow> ((nat \<times> nat) option \<times> pkt) option" where
  "rte_pktmbuf_adj [] len = None"
| "rte_pktmbuf_adj (m # ms) len =
     (if len > mb_len m then Some (None, m # ms)
      else let m = m\<lparr>mb_len := mb_len m - len, mb_off := mb_off m + len, mb_pkt_len := mb_pkt_len m - ucast len\<rparr>
           in Some (Some (0, unat (mb_off m)), m # ms))"

definition rte_pktmbuf_trim :: "pkt \<Rightarrow> u16 \<Rightarrow> (int \<times> pkt) option" where
  "rte_pktmbuf_trim p len =
     (case rte_pktmbuf_lastseg p of
        None \<Rightarrow> None
      | Some l \<Rightarrow>
          if len > mb_len l then Some (- 1, p)
          else Some (0, upd_head (\<lambda>m. m\<lparr>mb_pkt_len := mb_pkt_len m - ucast len\<rparr>)
              (upd_last (\<lambda>m. m\<lparr>mb_len := mb_len m - len\<rparr>) p)))"

fun rte_pktmbuf_is_contiguous :: "pkt \<Rightarrow> bool" where
  "rte_pktmbuf_is_contiguous [] = False"
| "rte_pktmbuf_is_contiguous (m # ms) = (mb_nb_segs m = 1)"

text \<open>Chaining empties nothing: the segments of the tail become segments of the head. The result is
  \<open>- EOVERFLOW\<close> with both packets as they were, or 0 with the joined packet.\<close>

fun rte_pktmbuf_chain :: "pkt \<Rightarrow> pkt \<Rightarrow> (int \<times> pkt \<times> pkt) option" where
  "rte_pktmbuf_chain (h # hs) (t # ts) =
     (if unat (mb_nb_segs h) + unat (mb_nb_segs t) > RTE_MBUF_MAX_NB_SEGS
      then Some (- EOVERFLOW, h # hs, t # ts)
      else Some (0, upd_head (\<lambda>m. m\<lparr>mb_nb_segs := mb_nb_segs h + mb_nb_segs t,
          mb_pkt_len := mb_pkt_len h + mb_pkt_len t\<rparr>) (h # hs) @ t\<lparr>mb_pkt_len := ucast (mb_len t)\<rparr> # ts, []))"
| "rte_pktmbuf_chain _ _ = None"

text \<open>What \<^verbatim>\<open>rte_pktmbuf_read\<close> returns: null, a pointer into a segment, or the caller's buffer with the
  bytes copied into it.\<close>

datatype read_result = Read_null | Read_ptr nat nat | Read_copy "u8 list"

fun skip_segs :: "nat \<Rightarrow> pkt \<Rightarrow> u32 \<Rightarrow> (nat \<times> pkt \<times> u32) option" where
  "skip_segs i [] off = None"
| "skip_segs i (m # ms) off =
     (if off \<ge> ucast (mb_len m) then skip_segs (i + 1) ms (off - ucast (mb_len m)) else Some (i, m # ms, off))"

fun copy_segs :: "pkt \<Rightarrow> u32 \<Rightarrow> u32 \<Rightarrow> u8 list option" where
  "copy_segs [] off len = (if len > 0 then None else Some [])"
| "copy_segs (m # ms) off len =
     (if len > 0 then
        let copy_len = ucast (mb_len m) - off;
            copy_len = (if copy_len > len then len else copy_len);
            bs = take (unat copy_len) (drop (unat (mb_off m) + unat off) (mb_buf m))
        in map_option ((@) bs) (copy_segs ms 0 (len - copy_len))
      else Some [])"

fun rte_pktmbuf_read_slow :: "pkt \<Rightarrow> u32 \<Rightarrow> u32 \<Rightarrow> read_result option" where
  "rte_pktmbuf_read_slow [] off len = None"
| "rte_pktmbuf_read_slow (h # hs) off len =
     (if off + len > mb_pkt_len h then Some Read_null
      else case skip_segs 0 (h # hs) off of
          None \<Rightarrow> None
        | Some (i, segs, off) \<Rightarrow>
            (case segs of
               [] \<Rightarrow> None
             | m # _ \<Rightarrow>
                 if off + len \<le> ucast (mb_len m) then Some (Read_ptr i (unat (mb_off m) + unat off))
                 else map_option Read_copy (copy_segs segs off len)))"

fun rte_pktmbuf_read :: "pkt \<Rightarrow> u32 \<Rightarrow> u32 \<Rightarrow> read_result option" where
  "rte_pktmbuf_read [] off len = None"
| "rte_pktmbuf_read (m # ms) off len =
     (if off + len \<le> ucast (mb_len m) then Some (Read_ptr 0 (unat (mb_off m) + unat off))
      else rte_pktmbuf_read_slow (m # ms) off len)"

text \<open>\<open>gather\<close> is the loop of \<^verbatim>\<open>__rte_pktmbuf_linearize\<close>: the data of the next segments is appended at
  \<open>pos\<close> in the first buffer. The segments freed are the second result.\<close>

definition seg_data :: "mbuf \<Rightarrow> u8 list" where
  "seg_data m = take (unat (mb_len m)) (drop (unat (mb_off m)) (mb_buf m))"

fun gather :: "pkt \<Rightarrow> nat \<Rightarrow> u8 list \<Rightarrow> u8 list option" where
  "gather [] pos b = Some b"
| "gather (m # ms) pos b =
     (if length b < pos + unat (mb_len m) then None
      else gather ms (pos + unat (mb_len m)) (st_bytes pos (seg_data m) b))"

fun rte_pktmbuf_linearize_slow :: "pkt \<Rightarrow> (int \<times> pkt \<times> mbuf list) option" where
  "rte_pktmbuf_linearize_slow [] = None"
| "rte_pktmbuf_linearize_slow (m # ms) =
     (let copy_len = mb_pkt_len m - ucast (mb_len m)
      in if copy_len > ucast (rte_pktmbuf_tailroom m) then Some (- 1, m # ms, [])
         else case gather ms (unat (mb_off m) + unat (mb_len m)) (mb_buf m) of
             None \<Rightarrow> None
           | Some b \<Rightarrow> Some (0, [m\<lparr>mb_buf := b, mb_len := ucast (mb_pkt_len m), mb_nb_segs := 1\<rparr>], ms))"

definition rte_pktmbuf_linearize :: "pkt \<Rightarrow> (int \<times> pkt \<times> mbuf list) option" where
  "rte_pktmbuf_linearize p =
     (if rte_pktmbuf_is_contiguous p then Some (0, p, []) else rte_pktmbuf_linearize_slow p)"

section \<open>Well-formed packets and their payload\<close>

definition seg_ok :: "mbuf \<Rightarrow> bool" where
  "seg_ok m \<longleftrightarrow> length (mb_buf m) < 65536 \<and> unat (mb_off m) + unat (mb_len m) \<le> length (mb_buf m)"

definition payload :: "pkt \<Rightarrow> u8 list" where
  "payload p = concat (map seg_data p)"

definition pkt_ok :: "pkt \<Rightarrow> bool" where
  "pkt_ok p \<longleftrightarrow> p \<noteq> [] \<and> (\<forall>m\<in>set p. seg_ok m) \<and> unat (mb_pkt_len (hd p)) = length (payload p) \<and>
     unat (mb_nb_segs (hd p)) = length p"

lemma length_seg_data [simp]: "seg_ok m \<Longrightarrow> length (seg_data m) = unat (mb_len m)"
  unfolding seg_ok_def seg_data_def length_take length_drop by linarith

lemma seg_upd [simp]:
  "seg_ok (m\<lparr>mb_pkt_len := a\<rparr>) = seg_ok m" "seg_ok (m\<lparr>mb_nb_segs := b\<rparr>) = seg_ok m"
  "seg_ok (m\<lparr>mb_flags := c\<rparr>) = seg_ok m" "seg_ok (m\<lparr>mb_vlan_tci := d\<rparr>) = seg_ok m"
  "seg_ok (m\<lparr>mb_l2_len := e\<rparr>) = seg_ok m" "seg_ok (m\<lparr>mb_outer_l2_len := e\<rparr>) = seg_ok m"
  "seg_data (m\<lparr>mb_pkt_len := a\<rparr>) = seg_data m" "seg_data (m\<lparr>mb_nb_segs := b\<rparr>) = seg_data m"
  "seg_data (m\<lparr>mb_flags := c\<rparr>) = seg_data m" "seg_data (m\<lparr>mb_vlan_tci := d\<rparr>) = seg_data m"
  "seg_data (m\<lparr>mb_l2_len := e\<rparr>) = seg_data m" "seg_data (m\<lparr>mb_outer_l2_len := e\<rparr>) = seg_data m"
  by (simp_all add: seg_ok_def seg_data_def)

lemma payload_simps [simp]:
  "payload [] = []" "payload (m # ms) = seg_data m @ payload ms" "payload (p @ q) = payload p @ payload q"
  by (simp_all add: payload_def)

lemma tailroom:
  assumes "seg_ok m"
  shows "unat (rte_pktmbuf_tailroom m) = length (mb_buf m) - unat (mb_off m) - unat (mb_len m)"
proof -
  have b: "unat (buf_len m) = length (mb_buf m)" using assms by (simp add: buf_len_def seg_ok_def unat_of_nat)
  have "mb_off m \<le> buf_len m" using assms by (simp add: word_le_nat_alt b seg_ok_def)
  then have o: "unat (buf_len m - mb_off m) = length (mb_buf m) - unat (mb_off m)"
    by (simp add: unat_sub_no_wrap b)
  have "mb_len m \<le> buf_len m - mb_off m" using assms unfolding word_le_nat_alt o seg_ok_def by linarith
  then show ?thesis
    by (simp add: rte_pktmbuf_tailroom_def rte_pktmbuf_headroom_def unat_sub_no_wrap o)
qed

lemma lastseg_last: "p \<noteq> [] \<Longrightarrow> rte_pktmbuf_lastseg p = Some (last p)"
  by (induction p rule: rte_pktmbuf_lastseg.induct) auto

lemma upd_last_eq: "p \<noteq> [] \<Longrightarrow> upd_last f p = butlast p @ [f (last p)]"
  by (induction f p rule: upd_last.induct) auto

lemma upd_head_eq: "p \<noteq> [] \<Longrightarrow> upd_head f p = f (hd p) # tl p"
  by (cases p) auto

lemma unat_grow16:
  "unat (a :: u16) + unat b < 65536 \<Longrightarrow> unat (a + b) = unat a + unat b"
  by (simp add: unat_add_no_wrap)

lemma unat_grow32:
  "unat (a :: u32) + unat (b :: u16) < 2 ^ 32 \<Longrightarrow> unat (a + ucast b) = unat a + unat b"
  by (subst unat_add_no_wrap) simp_all

lemma unat_shrink32:
  "unat (b :: u16) \<le> unat (a :: u32) \<Longrightarrow> unat (a - ucast b) = unat a - unat b"
  by (subst unat_sub_no_wrap) (simp_all add: word_le_nat_alt)

lemma seg_data_extend:
  assumes "seg_ok m" "unat n \<le> length (mb_buf m) - unat (mb_off m) - unat (mb_len m)"
  shows "seg_ok (m\<lparr>mb_len := mb_len m + n\<rparr>)"
    "seg_data (m\<lparr>mb_len := mb_len m + n\<rparr>)
      = seg_data m @ take (unat n) (drop (unat (mb_off m) + unat (mb_len m)) (mb_buf m))"
proof -
  have "unat (mb_len m) + unat n < 65536" using assms unfolding seg_ok_def by linarith
  note u = unat_grow16 [OF this]
  show "seg_ok (m\<lparr>mb_len := mb_len m + n\<rparr>)" using assms by (simp add: seg_ok_def u, linarith)
  show "seg_data (m\<lparr>mb_len := mb_len m + n\<rparr>)
      = seg_data m @ take (unat n) (drop (unat (mb_off m) + unat (mb_len m)) (mb_buf m))"
    by (simp add: seg_data_def u take_add add.commute [of "unat (mb_off m)"])
qed

lemma prepend_spec:
  assumes ok: "pkt_ok p" and n: "len \<le> rte_pktmbuf_headroom (hd p)" "length (payload p) + unat len < 2 ^ 32"
  shows "\<exists>q x. rte_pktmbuf_prepend p len = Some (Some (0, unat (mb_off (hd q))), q) \<and> pkt_ok q \<and>
     payload q = x @ payload p \<and> length x = unat len \<and> tl q = tl p \<and> mb_buf (hd q) = mb_buf (hd p)"
proof -
  obtain m ms where p: "p = m # ms" using ok by (cases p) (auto simp: pkt_ok_def)
  have ok': "seg_ok m" "\<forall>m\<in>set ms. seg_ok m" "unat (mb_pkt_len m) = length (payload p)" "unat (mb_nb_segs m) = length p"
    using ok by (simp_all add: p pkt_ok_def)
  let ?m = "m\<lparr>mb_off := mb_off m - len, mb_len := mb_len m + len, mb_pkt_len := mb_pkt_len m + ucast len\<rparr>"
  have le: "unat len \<le> unat (mb_off m)" using n(1) by (simp add: p rte_pktmbuf_headroom_def word_le_nat_alt)
  have o: "unat (mb_off m - len) = unat (mb_off m) - unat len" using le by (simp add: unat_sub_no_wrap word_le_nat_alt)
  have "unat (mb_len m) + unat len < 65536" using le ok'(1) unfolding seg_ok_def by linarith
  note l = unat_grow16 [OF this]
  have pl: "unat (mb_pkt_len m + ucast len) = unat (mb_pkt_len m) + unat len"
    using n(2) ok'(3) by (intro unat_grow32) simp
  let ?x = "take (unat len) (drop (unat (mb_off m) - unat len) (mb_buf m))"
  have "seg_data ?m = take (unat len + unat (mb_len m)) (drop (unat (mb_off m) - unat len) (mb_buf m))"
    by (simp add: seg_data_def o l add.commute [of "unat len"])
  also have "\<dots> = ?x @ seg_data m" using le by (simp add: take_add seg_data_def)
  finally have sd: "seg_data ?m = ?x @ seg_data m" .
  have x: "length ?x = unat len" using le ok'(1) unfolding seg_ok_def length_take length_drop by linarith
  have s: "seg_ok ?m" using ok'(1) le by (simp add: seg_ok_def o l)
  have "rte_pktmbuf_prepend p len = Some (Some (0, unat (mb_off ?m)), ?m # ms)"
    using n(1) by (simp add: p Let_def not_less)
  moreover have "pkt_ok (?m # ms)"
    using ok' s x by (simp add: pkt_ok_def p pl sd l)
  ultimately show ?thesis
    using x by (intro exI [of _ "?m # ms"] exI [of _ ?x]) (simp add: p sd [simplified seg_upd])
qed

lemma adj_spec:
  assumes ok: "pkt_ok p" and n: "len \<le> mb_len (hd p)"
  shows "\<exists>q. rte_pktmbuf_adj p len = Some (Some (0, unat (mb_off (hd q))), q) \<and> pkt_ok q \<and>
     payload q = drop (unat len) (payload p) \<and> tl q = tl p \<and> mb_buf (hd q) = mb_buf (hd p)"
proof -
  obtain m ms where p: "p = m # ms" using ok by (cases p) (auto simp: pkt_ok_def)
  have ok': "seg_ok m" "\<forall>m\<in>set ms. seg_ok m" "unat (mb_pkt_len m) = length (payload p)" "unat (mb_nb_segs m) = length p"
    using ok by (simp_all add: p pkt_ok_def)
  let ?m = "m\<lparr>mb_len := mb_len m - len, mb_off := mb_off m + len, mb_pkt_len := mb_pkt_len m - ucast len\<rparr>"
  have le: "unat len \<le> unat (mb_len m)" using n by (simp add: p word_le_nat_alt)
  have l: "unat (mb_len m - len) = unat (mb_len m) - unat len" using le by (simp add: unat_sub_no_wrap word_le_nat_alt)
  have "unat (mb_off m) + unat len < 65536" using le ok'(1) unfolding seg_ok_def by linarith
  note o = unat_grow16 [OF this]
  have "unat len \<le> unat (mb_pkt_len m)" using ok'(3) le ok'(1) by (simp add: p)
  note pl = unat_shrink32 [OF this]
  have sd: "seg_data ?m = drop (unat len) (seg_data m)"
    by (simp add: seg_data_def l o drop_take add.commute [of "unat len"])
  have s: "seg_ok ?m" using ok'(1) le by (simp add: seg_ok_def o l)
  have "rte_pktmbuf_adj p len = Some (Some (0, unat (mb_off ?m)), ?m # ms)"
    using n by (simp add: p Let_def not_less)
  moreover have "pkt_ok (?m # ms)" using ok' s le by (simp add: pkt_ok_def p pl sd l)
  ultimately show ?thesis
    using le ok'(1) by (intro exI [of _ "?m # ms"]) (simp add: p sd [simplified seg_upd])
qed

lemma pkt_snoc:
  assumes "pkt_ok p"
  obtains ms l where "p = ms @ [l]" "seg_ok l" "\<forall>m\<in>set ms. seg_ok m"
  using assms that [of "butlast p" "last p"] in_set_butlastD [of _ p]
  by (simp add: pkt_ok_def)

text \<open>Changing the last segment and the packet length of the head.\<close>

lemma upd_ends:
  assumes ok: "pkt_ok (ms @ [l])" and l': "seg_ok l'" "mb_nb_segs l' = mb_nb_segs l" "mb_pkt_len l' = mb_pkt_len l"
    and g: "unat (g (mb_pkt_len (hd (ms @ [l])))) = length (payload (ms @ [l']))"
  shows "pkt_ok (upd_head (\<lambda>m. m\<lparr>mb_pkt_len := g (mb_pkt_len m)\<rparr>) (ms @ [l']))"
    "payload (upd_head (\<lambda>m. m\<lparr>mb_pkt_len := g (mb_pkt_len m)\<rparr>) (ms @ [l'])) = payload (ms @ [l'])"
  using assms by (cases ms; simp add: pkt_ok_def seg_data_def seg_ok_def)+

lemma append_spec:
  assumes ok: "pkt_ok p" and n: "len \<le> rte_pktmbuf_tailroom (last p)" "length (payload p) + unat len < 2 ^ 32"
  shows "\<exists>q x ptr. rte_pktmbuf_append p len = Some (Some ptr, q) \<and> pkt_ok q \<and>
     payload q = payload p @ x \<and> length x = unat len"
proof -
  obtain ms l where p: "p = ms @ [l]" and sl: "seg_ok l" using pkt_snoc [OF ok] by metis
  let ?l = "l\<lparr>mb_len := mb_len l + len\<rparr>"
  let ?x = "take (unat len) (drop (unat (mb_off l) + unat (mb_len l)) (mb_buf l))"
  have t: "unat len \<le> length (mb_buf l) - unat (mb_off l) - unat (mb_len l)"
    using n(1) by (simp add: p word_le_nat_alt tailroom [OF sl])
  have x: "length ?x = unat len" using t unfolding length_take length_drop by linarith
  have sd: "payload (ms @ [?l]) = payload p @ ?x" using seg_data_extend(2) [OF sl t] by (simp add: p)
  have "unat (mb_pkt_len (hd p)) = length (payload p)" using ok by (simp add: pkt_ok_def)
  then have g: "unat (mb_pkt_len (hd (ms @ [l])) + ucast len) = length (payload (ms @ [?l]))"
    using n(2) x unfolding sd by (subst unat_grow32) (simp_all add: p)
  have "rte_pktmbuf_append p len = Some (Some (length p - 1, unat (mb_off l) + unat (mb_len l)),
      upd_head (\<lambda>m. m\<lparr>mb_pkt_len := mb_pkt_len m + ucast len\<rparr>) (ms @ [?l]))"
    using n(1) by (simp add: rte_pktmbuf_append_def p lastseg_last upd_last_eq not_less)
  moreover have "pkt_ok (upd_head (\<lambda>m. m\<lparr>mb_pkt_len := mb_pkt_len m + ucast len\<rparr>) (ms @ [?l]))"
    by (rule upd_ends [where g = "\<lambda>w. w + ucast len", OF ok [unfolded p] seg_data_extend(1) [OF sl t] _ _ g]) simp_all
  moreover have "payload (upd_head (\<lambda>m. m\<lparr>mb_pkt_len := mb_pkt_len m + ucast len\<rparr>) (ms @ [?l])) = payload p @ ?x"
    unfolding sd [symmetric] by (rule upd_ends [where g = "\<lambda>w. w + ucast len", OF ok [unfolded p] seg_data_extend(1) [OF sl t] _ _ g]) simp_all
  ultimately show ?thesis using x by blast
qed

lemma trim_spec:
  assumes ok: "pkt_ok p" and n: "len \<le> mb_len (last p)"
  shows "\<exists>q. rte_pktmbuf_trim p len = Some (0, q) \<and> pkt_ok q \<and>
     payload q = take (length (payload p) - unat len) (payload p)"
proof -
  obtain ms l where p: "p = ms @ [l]" and sl: "seg_ok l" using pkt_snoc [OF ok] by metis
  let ?l = "l\<lparr>mb_len := mb_len l - len\<rparr>"
  have le: "unat len \<le> unat (mb_len l)" using n by (simp add: p word_le_nat_alt)
  have u: "unat (mb_len l - len) = unat (mb_len l) - unat len" using le by (simp add: unat_sub_no_wrap word_le_nat_alt)
  have s: "seg_ok ?l" using sl le by (simp add: seg_ok_def u, linarith)
  have sd: "seg_data ?l = take (unat (mb_len l) - unat len) (seg_data l)"
    by (simp add: seg_data_def u min_def)
  have pl: "payload (ms @ [?l]) = take (length (payload p) - unat len) (payload p)"
    using le sl by (simp add: p sd)
  have "unat (mb_pkt_len (hd p)) = length (payload p)" using ok by (simp add: pkt_ok_def)
  then have g: "unat (mb_pkt_len (hd (ms @ [l])) - ucast len) = length (payload (ms @ [?l]))"
    using le sl unfolding pl by (subst unat_shrink32) (simp_all add: p)
  have "rte_pktmbuf_trim p len = Some (0, upd_head (\<lambda>m. m\<lparr>mb_pkt_len := mb_pkt_len m - ucast len\<rparr>) (ms @ [?l]))"
    using n by (simp add: rte_pktmbuf_trim_def p lastseg_last upd_last_eq not_less)
  moreover have "pkt_ok (upd_head (\<lambda>m. m\<lparr>mb_pkt_len := mb_pkt_len m - ucast len\<rparr>) (ms @ [?l]))"
    by (rule upd_ends [where g = "\<lambda>w. w - ucast len", OF ok [unfolded p] s _ _ g]) simp_all
  moreover have "payload (upd_head (\<lambda>m. m\<lparr>mb_pkt_len := mb_pkt_len m - ucast len\<rparr>) (ms @ [?l])) =
      take (length (payload p) - unat len) (payload p)"
    unfolding pl [symmetric] by (rule upd_ends [where g = "\<lambda>w. w - ucast len", OF ok [unfolded p] s _ _ g]) simp_all
  ultimately show ?thesis by blast
qed

section \<open>Reading, chaining, linearizing\<close>

text \<open>The bytes a result of \<^verbatim>\<open>rte_pktmbuf_read\<close> stands for.\<close>

fun read_bytes :: "pkt \<Rightarrow> u32 \<Rightarrow> read_result \<Rightarrow> u8 list option" where
  "read_bytes p len Read_null = None"
| "read_bytes p len (Read_ptr i off) =
     (if i < length p then Some (take (unat len) (drop off (mb_buf (p ! i)))) else None)"
| "read_bytes p len (Read_copy bs) = Some bs"

lemma unat_ucast16 [simp]: "unat (ucast (x :: u16) :: u32) = unat x"
  by (rule unat_widen)

lemma skip_segs_spec:
  assumes "\<forall>m\<in>set p. seg_ok m" "unat off < length (payload p)"
  shows "\<exists>k m ms o'. skip_segs i p off = Some (i + k, m # ms, o') \<and> k < length p \<and> p ! k = m \<and> ms = drop (k + 1) p \<and>
     unat o' < unat (mb_len m) \<and> unat o' \<le> unat off \<and> drop (unat off) (payload p) = drop (unat o') (seg_data m) @ payload ms"
  using assms
proof (induction p arbitrary: i off)
  case (Cons m ms)
  show ?case
  proof (cases "off \<ge> ucast (mb_len m)")
    case True
    then have le: "unat (mb_len m) \<le> unat off" by (simp add: word_le_nat_alt)
    have o: "unat (off - ucast (mb_len m)) = unat off - unat (mb_len m)" by (rule unat_shrink32 [OF le])
    have l: "length (seg_data m) = unat (mb_len m)" using Cons.prems by simp
    have "unat (off - ucast (mb_len m)) < length (payload ms)"
      using Cons.prems(2) le l by (simp add: o)
    with Cons.IH [of "off - ucast (mb_len m)" "i + 1"] Cons.prems(1)
    obtain k n ns o' where k: "skip_segs (i + 1) ms (off - ucast (mb_len m)) = Some (i + 1 + k, n # ns, o')"
      "k < length ms" "ms ! k = n" "ns = drop (k + 1) ms" "unat o' < unat (mb_len n)" "unat o' \<le> unat (off - ucast (mb_len m))"
      "drop (unat (off - ucast (mb_len m))) (payload ms) = drop (unat o') (seg_data n) @ payload ns"
      by auto
    have "drop (unat off) (payload (m # ms)) = drop (unat o') (seg_data n) @ payload ns"
      using k(7) le l by (simp add: o)
    moreover have "unat o' \<le> unat off" using k(6) o by linarith
    ultimately show ?thesis using k True by (intro exI [of _ "Suc k"] exI [of _ n] exI [of _ ns] exI [of _ o']) simp
  next
    case False
    then have lt: "unat off < unat (mb_len m)" by (simp add: word_le_nat_alt not_le)
    then show ?thesis using False Cons.prems by (intro exI [of _ 0]) simp
  qed
qed simp

lemma copy_segs_spec:
  assumes "\<forall>m\<in>set p. seg_ok m" "p \<noteq> [] \<Longrightarrow> unat off \<le> unat (mb_len (hd p))" "unat off + unat len \<le> length (payload p)"
    "p = [] \<Longrightarrow> len = 0"
  shows "copy_segs p off len = Some (take (unat len) (drop (unat off) (payload p)))"
  using assms
proof (induction p arbitrary: off len)
  case (Cons m ms)
  show ?case
  proof (cases "len = 0")
    case False
    then have lp: "0 < len" by (simp add: word_gt_0)
    have sl: "length (seg_data m) = unat (mb_len m)" using Cons.prems by simp
    have ol: "unat off \<le> unat (mb_len m)" using Cons.prems(2) by simp
    let ?avail = "ucast (mb_len m) - off"
    have av: "unat ?avail = unat (mb_len m) - unat off"
      using ol by (simp add: unat_sub_no_wrap word_le_nat_alt)
    define c where "c = (if ?avail > len then len else ?avail)"
    have c: "unat c = min (unat len) (unat (mb_len m) - unat off)"
      by (auto simp: c_def word_less_nat_alt av min_def)
    have cl: "c \<le> len" by (auto simp: c_def word_le_nat_alt word_less_nat_alt)
    have r: "unat (len - c) = unat len - unat c" using cl by (simp add: unat_sub_no_wrap)
    have bs: "take (unat c) (drop (unat (mb_off m) + unat off) (mb_buf m)) = take (unat c) (drop (unat off) (seg_data m))"
      using c by (simp add: seg_data_def drop_take min_def add.commute) 
    have "copy_segs ms 0 (len - c) = Some (take (unat (len - c)) (drop (unat (0 :: u32)) (payload ms)))"
    proof (rule Cons.IH)
      show "\<forall>m\<in>set ms. seg_ok m" using Cons.prems(1) by simp
      show "unat (0 :: u32) \<le> unat (mb_len (hd ms))" by simp
      show "unat (0 :: u32) + unat (len - c) \<le> length (payload ms)"
        using Cons.prems(3) sl c ol by (simp add: r min_def, linarith)
      show "ms = [] \<Longrightarrow> len - c = 0"
        using Cons.prems(3) sl c ol r by (simp add: word_unat_eq_iff min_def)
    qed
    then have "copy_segs (m # ms) off len =
        Some (take (unat c) (drop (unat off) (seg_data m)) @ take (unat (len - c)) (payload ms))"
      using lp by (simp add: Let_def c_def [symmetric] bs)
    also have "take (unat c) (drop (unat off) (seg_data m)) @ take (unat (len - c)) (payload ms) =
        take (unat len) (drop (unat off) (payload (m # ms)))"
      using ol by (auto simp: sl c r min_def)
    finally show ?thesis .
  qed (simp add: word_gt_0)
qed simp

lemma read_ptr_bytes:
  assumes "seg_ok m" "unat o1 + unat len \<le> unat (mb_len m)"
  shows "take (unat len) (drop (unat (mb_off m) + unat o1) (mb_buf m)) = take (unat len) (drop (unat o1) (seg_data m))"
  using assms by (simp add: seg_data_def drop_take min_def add.commute)

lemma read_spec:
  assumes ok: "pkt_ok p" and n: "unat off + unat len \<le> length (payload p)" "unat off < length (payload p)"
  shows "\<exists>r. rte_pktmbuf_read p off len = Some r \<and> read_bytes p len r = Some (take (unat len) (drop (unat off) (payload p)))"
proof -
  obtain m ms where p: "p = m # ms" using ok by (cases p) (auto simp: pkt_ok_def)
  have ok': "\<forall>m\<in>set p. seg_ok m" "unat (mb_pkt_len m) = length (payload p)" "seg_ok m"
    using ok by (simp_all add: p pkt_ok_def)
  have b32: "length (payload p) < 2 ^ 32" unfolding ok'(2) [symmetric] by simp
  then have s: "unat (off + len) = unat off + unat len" using n by (intro unat_add_no_wrap) simp
  show ?thesis
  proof (cases "off + len \<le> ucast (mb_len m)")
    case True
    then have "unat off + unat len \<le> unat (mb_len m)" by (simp add: word_le_nat_alt s)
    with read_ptr_bytes [OF ok'(3) this] show ?thesis using True ok'(3) by (simp add: p)
  next
    case F: False
    from skip_segs_spec [OF ok'(1) n(2), of 0]
    obtain k q qs o' where k: "skip_segs 0 p off = Some (k, q # qs, o')" "k < length p" "p ! k = q"
      "qs = drop (k + 1) p" "unat o' < unat (mb_len q)" "drop (unat off) (payload p) = drop (unat o') (seg_data q) @ payload qs"
      "unat o' \<le> unat off"
      by auto
    have nn: "\<not> off + len > mb_pkt_len m" using n(1) by (simp add: word_less_nat_alt s ok'(2))
    have q: "seg_ok q" "\<forall>m\<in>set (q # qs). seg_ok m" using k ok'(1) nth_mem by (auto dest: in_set_dropD)
    have rd: "rte_pktmbuf_read p off len = (if o' + len \<le> ucast (mb_len q) then Some (Read_ptr k (unat (mb_off q) + unat o'))
        else map_option Read_copy (copy_segs (q # qs) o' len))"
      using F nn k(1) by (simp add: p)
    have lp: "unat len \<le> length (drop (unat o') (seg_data q) @ payload qs)"
      unfolding k(6) [symmetric] length_drop using n by linarith
    have tot: "unat o' + unat len \<le> length (payload (q # qs))" using lp k(5) q by simp
    have "unat o' + unat len < 2 ^ 32" using k(7) n(1) b32 by linarith
    then have s': "unat (o' + len) = unat o' + unat len" by (intro unat_add_no_wrap) simp
    show ?thesis
    proof (cases "o' + len \<le> ucast (mb_len q)")
      case True
      then have b: "unat o' + unat len \<le> unat (mb_len q)" by (simp add: word_le_nat_alt s')
      then show ?thesis using True k q read_ptr_bytes [OF q(1) b] by (simp add: rd)
    next
      case False
      have "copy_segs (q # qs) o' len = Some (take (unat len) (drop (unat o') (payload (q # qs))))"
        by (rule copy_segs_spec) (use q k(5) tot in simp_all)
      then show ?thesis using False k(5,6) q by (simp add: rd)
    qed
  qed
qed

lemma gather_spec:
  assumes "\<forall>m\<in>set ms. seg_ok m" "pos + length (payload ms) \<le> length b"
  shows "\<exists>b'. gather ms pos b = Some b' \<and> length b' = length b \<and>
     take (pos + length (payload ms)) b' = take pos b @ payload ms"
  using assms
proof (induction ms arbitrary: pos b)
  case (Cons m ms)
  have l: "length (seg_data m) = unat (mb_len m)" using Cons.prems by simp
  let ?b = "st_bytes pos (seg_data m) b"
  have fit: "pos + unat (mb_len m) + length (payload ms) \<le> length b" using Cons.prems(2) l by simp
  have lb: "length ?b = length b" using fit l by simp
  obtain b' where b': "gather ms (pos + unat (mb_len m)) ?b = Some b'" "length b' = length b"
    "take (pos + unat (mb_len m) + length (payload ms)) b' = take (pos + unat (mb_len m)) ?b @ payload ms"
    using Cons.IH [of "pos + unat (mb_len m)" ?b] Cons.prems(1) fit unfolding lb by auto
  have "take (pos + unat (mb_len m)) ?b = take pos b @ seg_data m"
    using fit l by (simp add: st_bytes_def)
  then show ?case using b' fit l by (simp add: add.assoc)
qed simp

lemma linearize_spec:
  assumes ok: "pkt_ok p"
  shows "(\<exists>q freed. rte_pktmbuf_linearize p = Some (0, q, freed) \<and> length q = 1 \<and> pkt_ok q \<and> payload q = payload p \<and>
       freed = tl p) \<or>
     (rte_pktmbuf_linearize p = Some (- 1, p, []) \<and>
       length (payload p) - unat (mb_len (hd p)) > unat (rte_pktmbuf_tailroom (hd p)))"
proof -
  obtain m ms where p: "p = m # ms" using ok by (cases p) (auto simp: pkt_ok_def)
  have ok': "seg_ok m" "\<forall>m\<in>set ms. seg_ok m" "unat (mb_pkt_len m) = length (payload p)" "unat (mb_nb_segs m) = length p"
    using ok by (simp_all add: p pkt_ok_def)
  show ?thesis
  proof (cases "mb_nb_segs m = 1")
    case True
    then have "length p = 1" using ok'(4) by simp
    then show ?thesis using True ok by (simp add: rte_pktmbuf_linearize_def p)
  next
    case False
    let ?c = "mb_pkt_len m - ucast (mb_len m)"
    have pl: "length (payload p) = unat (mb_len m) + length (payload ms)" using ok'(1) by (simp add: p)
    have c: "unat ?c = length (payload ms)"
      using ok'(3) pl by (subst unat_shrink32) simp_all
    show ?thesis
    proof (cases "?c > ucast (rte_pktmbuf_tailroom m)")
      case True
      then have "unat (rte_pktmbuf_tailroom m) < unat ?c" by (simp only: word_less_nat_alt unat_ucast16)
      then show ?thesis using True False pl by (simp add: rte_pktmbuf_linearize_def p c)
    next
      case F: False
      then have room: "length (payload ms) \<le> unat (rte_pktmbuf_tailroom m)"
        by (simp only: not_less word_le_nat_alt unat_ucast16 c)
      let ?pos = "unat (mb_off m) + unat (mb_len m)"
      have fit: "?pos + length (payload ms) \<le> length (mb_buf m)"
        using room ok'(1) unfolding tailroom [OF ok'(1)] seg_ok_def by linarith
      obtain b where b: "gather ms ?pos (mb_buf m) = Some b" "length b = length (mb_buf m)"
        "take (?pos + length (payload ms)) b = take ?pos (mb_buf m) @ payload ms"
        using gather_spec [OF ok'(2) fit] by blast
      let ?m = "m\<lparr>mb_buf := b, mb_len := ucast (mb_pkt_len m), mb_nb_segs := 1\<rparr>"
      have "length (payload p) < 65536" using fit ok'(1) pl unfolding seg_ok_def by linarith
      then have len: "unat (ucast (mb_pkt_len m) :: u16) = length (payload p)"
        using ok'(3) by (simp add: unsigned_ucast_eq take_bit_eq_mod)
      have "seg_data ?m = drop (unat (mb_off m)) (take (?pos + length (payload ms)) b)"
        by (simp add: seg_data_def len pl drop_take)
      also have "\<dots> = payload p"
        unfolding b(3) using ok'(1) by (simp add: p seg_ok_def seg_data_def drop_take)
      finally have sd: "seg_data ?m = payload p" .
      have "seg_ok ?m" using ok'(1) fit pl b(2) by (simp add: seg_ok_def len)
      then have "pkt_ok [?m]" using ok'(3) by (simp add: pkt_ok_def sd len)
      then show ?thesis using F False b(1) sd by (simp add: rte_pktmbuf_linearize_def p)
    qed
  qed
qed

lemma chain_spec:
  assumes ok: "pkt_ok p" "pkt_ok q" and n: "length (payload p) + length (payload q) < 2 ^ 32"
  shows "if length p + length q \<le> RTE_MBUF_MAX_NB_SEGS
    then \<exists>r. rte_pktmbuf_chain p q = Some (0, r, []) \<and> pkt_ok r \<and> payload r = payload p @ payload q \<and> length r = length p + length q
    else rte_pktmbuf_chain p q = Some (- EOVERFLOW, p, q)"
proof -
  obtain h hs t ts where p: "p = h # hs" and q: "q = t # ts"
    using ok by (cases p; cases q) (auto simp: pkt_ok_def)
  have ok': "seg_ok h" "\<forall>m\<in>set hs. seg_ok m" "unat (mb_pkt_len h) = length (payload p)" "unat (mb_nb_segs h) = length p"
    "seg_ok t" "\<forall>m\<in>set ts. seg_ok m" "unat (mb_pkt_len t) = length (payload q)" "unat (mb_nb_segs t) = length q"
    using ok by (simp_all add: p q pkt_ok_def)
  show ?thesis
  proof (cases "length p + length q \<le> RTE_MBUF_MAX_NB_SEGS")
    case True
    let ?h = "h\<lparr>mb_nb_segs := mb_nb_segs h + mb_nb_segs t, mb_pkt_len := mb_pkt_len h + mb_pkt_len t\<rparr>"
    let ?r = "?h # hs @ t\<lparr>mb_pkt_len := ucast (mb_len t)\<rparr> # ts"
    have l: "unat (mb_pkt_len h + mb_pkt_len t) = length (payload p) + length (payload q)"
      using n ok'(3,7) by (subst unat_add_no_wrap) simp_all
    have s: "unat (mb_nb_segs h + mb_nb_segs t) = length p + length q"
      using True ok'(4,8) by (subst unat_grow16) (simp_all add: RTE_MBUF_MAX_NB_SEGS_def)
    have "rte_pktmbuf_chain p q = Some (0, ?r, [])"
      using True ok'(4,8) by (simp add: p q)
    moreover have pl: "payload ?r = payload p @ payload q" by (simp add: p q)
    moreover have "pkt_ok ?r"
      using ok'(1,2,5,6) l s by (auto simp: pkt_ok_def p q)
    ultimately show ?thesis using True by (simp add: p q)
  next
    case False
    then show ?thesis using ok'(4,8) by (simp add: p q)
  qed
qed

section \<open>Properties\<close>

text \<open>C32: The data operations of a well-formed packet act on its payload as their names say, and leave it
  well formed: prepend and append put \<open>len\<close> bytes (of whatever the buffer held) in front and behind, adj and
  trim remove \<open>len\<close> bytes; without the room, or the bytes, they report it and change nothing.\<close>

theorem pktmbuf_data_ops:
  assumes ok: "pkt_ok p" and n: "length (payload p) + unat len < 2 ^ 32"
  shows "(if len \<le> rte_pktmbuf_headroom (hd p)
      then \<exists>q x ptr. rte_pktmbuf_prepend p len = Some (Some ptr, q) \<and> pkt_ok q \<and> payload q = x @ payload p \<and> length x = unat len
      else rte_pktmbuf_prepend p len = Some (None, p)) \<and>
    (if len \<le> rte_pktmbuf_tailroom (last p)
      then \<exists>q x ptr. rte_pktmbuf_append p len = Some (Some ptr, q) \<and> pkt_ok q \<and> payload q = payload p @ x \<and> length x = unat len
      else rte_pktmbuf_append p len = Some (None, p)) \<and>
    (if len \<le> mb_len (hd p)
      then \<exists>q ptr. rte_pktmbuf_adj p len = Some (Some ptr, q) \<and> pkt_ok q \<and> payload q = drop (unat len) (payload p)
      else rte_pktmbuf_adj p len = Some (None, p)) \<and>
    (if len \<le> mb_len (last p)
      then \<exists>q. rte_pktmbuf_trim p len = Some (0, q) \<and> pkt_ok q \<and> payload q = take (length (payload p) - unat len) (payload p)
      else rte_pktmbuf_trim p len = Some (- 1, p))"
proof -
  obtain m ms where p: "p = m # ms" using ok by (cases p) (auto simp: pkt_ok_def)
  have "len \<le> rte_pktmbuf_headroom (hd p) \<Longrightarrow> \<exists>q x ptr. rte_pktmbuf_prepend p len = Some (Some ptr, q) \<and> pkt_ok q \<and>
      payload q = x @ payload p \<and> length x = unat len"
    using prepend_spec [OF ok _ n] by blast
  moreover have "len \<le> rte_pktmbuf_tailroom (last p) \<Longrightarrow> \<exists>q x ptr. rte_pktmbuf_append p len = Some (Some ptr, q) \<and> pkt_ok q \<and>
      payload q = payload p @ x \<and> length x = unat len"
    using append_spec [OF ok _ n] by blast
  moreover have "len \<le> mb_len (hd p) \<Longrightarrow> \<exists>q ptr. rte_pktmbuf_adj p len = Some (Some ptr, q) \<and> pkt_ok q \<and>
      payload q = drop (unat len) (payload p)"
    using adj_spec [OF ok] by blast
  moreover have "\<not> len \<le> rte_pktmbuf_headroom (hd p) \<Longrightarrow> rte_pktmbuf_prepend p len = Some (None, p)"
    "\<not> len \<le> mb_len (hd p) \<Longrightarrow> rte_pktmbuf_adj p len = Some (None, p)"
    by (simp_all add: p not_le)
  moreover have "\<not> len \<le> rte_pktmbuf_tailroom (last p) \<Longrightarrow> rte_pktmbuf_append p len = Some (None, p)"
    "\<not> len \<le> mb_len (last p) \<Longrightarrow> rte_pktmbuf_trim p len = Some (- 1, p)"
    using lastseg_last [of p] by (simp_all add: rte_pktmbuf_append_def rte_pktmbuf_trim_def p not_le)
  ultimately show ?thesis using trim_spec [OF ok] by presburger
qed

definition demo_seg :: mbuf where
  "demo_seg = \<lparr>mb_buf = [1, 2, 3, 4, 5, 6, 7, 8], mb_off = 2, mb_len = 4, mb_pkt_len = 8, mb_nb_segs = 2, mb_refcnt = 1,
     mb_flags = 0, mb_vlan_tci = 0, mb_l2_len = 0, mb_outer_l2_len = 0\<rparr>"

definition demo_pkt :: pkt where
  "demo_pkt = [demo_seg, demo_seg\<lparr>mb_pkt_len := 4, mb_nb_segs := 1\<rparr>]"

lemma demo_pkt: "pkt_ok demo_pkt" "payload demo_pkt = [3, 4, 5, 6, 3, 4, 5, 6]"
  by (simp_all add: demo_pkt_def demo_seg_def pkt_ok_def seg_ok_def payload_def seg_data_def)

lemma pktmbuf_data_ops_witness:
  "\<exists>q ptr. rte_pktmbuf_adj demo_pkt 3 = Some (Some ptr, q) \<and> pkt_ok q \<and> payload q = [6, 3, 4, 5, 6]"
proof -
  have n: "length (payload demo_pkt) + unat (3 :: u16) < 2 ^ 32" by (simp add: demo_pkt(2))
  have "3 \<le> mb_len (hd demo_pkt)" by (simp add: demo_pkt_def demo_seg_def)
  with pktmbuf_data_ops [OF demo_pkt(1) n] show ?thesis by (simp add: demo_pkt(2))
qed

text \<open>C33: \<^verbatim>\<open>rte_pktmbuf_read\<close> of a range inside a well-formed packet gives the bytes of that range, in place
  or copied, however the packet is split into segments.\<close>

theorem pktmbuf_read_range:
  assumes "pkt_ok p" "unat off + unat len \<le> length (payload p)" "unat off < length (payload p)"
  shows "\<exists>r. rte_pktmbuf_read p off len = Some r \<and> read_bytes p len r = Some (take (unat len) (drop (unat off) (payload p)))"
  by (rule read_spec [OF assms])

lemma pktmbuf_read_range_witness:
  "\<exists>r. rte_pktmbuf_read demo_pkt 3 2 = Some r \<and> read_bytes demo_pkt 2 r = Some [6, 3]"
proof -
  have "unat (3 :: u32) + unat (2 :: u32) \<le> length (payload demo_pkt)" "unat (3 :: u32) < length (payload demo_pkt)"
    by (simp_all add: demo_pkt)
  from pktmbuf_read_range [OF demo_pkt(1) this] show ?thesis by (simp add: demo_pkt)
qed

text \<open>Linearizing a well-formed packet either leaves one segment with the same payload and frees the
  others, or, when the first segment has too little room behind its data, fails and changes nothing.\<close>

theorem linearize_keeps_payload:
  assumes "pkt_ok p"
  shows "(\<exists>q freed. rte_pktmbuf_linearize p = Some (0, q, freed) \<and> length q = 1 \<and> pkt_ok q \<and> payload q = payload p \<and>
       freed = tl p) \<or>
     (rte_pktmbuf_linearize p = Some (- 1, p, []) \<and>
       length (payload p) - unat (mb_len (hd p)) > unat (rte_pktmbuf_tailroom (hd p)))"
  by (rule linearize_spec [OF assms])

lemma linearize_keeps_payload_witness:
  "rte_pktmbuf_linearize demo_pkt = Some (- 1, demo_pkt, [])"
  using linearize_keeps_payload [OF demo_pkt(1)]
  by (auto simp: rte_pktmbuf_linearize_def demo_pkt_def demo_seg_def rte_pktmbuf_tailroom_def
      rte_pktmbuf_headroom_def buf_len_def)

end
