(* ===== verification/RteRing.thy ===== *)
theory RteRing
  imports Prelude "HOL-Library.Monad_Syntax"
begin

text \<open>
  The lock-free ring, \<^verbatim>\<open>lib/ring\<close>: creation, the copies of elements, and enqueue and dequeue run by one
  thread alone (\<open>RteRingThreads\<close> has their interleavings), in all four synchronisation modes. The elements
  behind the structure are a list of 32-bit words; an element of \<open>esize\<close> bytes is \<open>esize div 4\<close> words.
  Reading or writing outside of the ring or of the table of the caller is the trap \<open>None\<close>, and so is a wait
  that no other thread can end. One record stands for the union of the three head and tail structures: the
  counts are those of the relaxed mode.
\<close>

section \<open>Creation\<close>

datatype rte_ring_sync_type = RTE_RING_SYNC_MT | RTE_RING_SYNC_ST | RTE_RING_SYNC_MT_RTS | RTE_RING_SYNC_MT_HTS

datatype rte_ring_queue_behavior = RTE_RING_QUEUE_FIXED | RTE_RING_QUEUE_VARIABLE

record rte_ring_headtail =
  ht_head :: u32
  ht_tail :: u32
  ht_head_cnt :: u32
  ht_tail_cnt :: u32
  ht_sync :: rte_ring_sync_type
  htd_max :: u32

record rte_ring =
  r_name :: string
  r_flags :: u32
  r_size :: u32
  r_mask :: u32
  r_capacity :: u32
  r_prod :: rte_ring_headtail
  r_cons :: rte_ring_headtail
  r_mem :: "u32 list"

definition RING_F_SP_ENQ :: u32 where "RING_F_SP_ENQ = 0x0001"
definition RING_F_SC_DEQ :: u32 where "RING_F_SC_DEQ = 0x0002"
definition RING_F_EXACT_SZ :: u32 where "RING_F_EXACT_SZ = 0x0004"
definition RTE_RING_SZ_MASK :: u32 where "RTE_RING_SZ_MASK = 0x7fffffff"
definition RING_F_MP_RTS_ENQ :: u32 where "RING_F_MP_RTS_ENQ = 0x0008"
definition RING_F_MC_RTS_DEQ :: u32 where "RING_F_MC_RTS_DEQ = 0x0010"
definition RING_F_MP_HTS_ENQ :: u32 where "RING_F_MP_HTS_ENQ = 0x0020"
definition RING_F_MC_HTS_DEQ :: u32 where "RING_F_MC_HTS_DEQ = 0x0040"

definition RING_F_MASK :: u32 where
  "RING_F_MASK = RING_F_SP_ENQ OR RING_F_SC_DEQ OR RING_F_EXACT_SZ OR RING_F_MP_RTS_ENQ OR RING_F_MC_RTS_DEQ OR
     RING_F_MP_HTS_ENQ OR RING_F_MC_HTS_DEQ"

lemmas ring_flags = RING_F_SP_ENQ_def RING_F_SC_DEQ_def RING_F_EXACT_SZ_def RING_F_MP_RTS_ENQ_def
  RING_F_MC_RTS_DEQ_def RING_F_MP_HTS_ENQ_def RING_F_MC_HTS_DEQ_def RING_F_MASK_def

definition RTE_RING_NAMESIZE :: nat where "RTE_RING_NAMESIZE = 29"
definition HTD_MAX_DEF :: u32 where "HTD_MAX_DEF = 8"
definition ENAMETOOLONG :: int where "ENAMETOOLONG = 36"
definition ENOTSUP :: int where "ENOTSUP = 95"

definition rte_combine32ms1b :: "u32 \<Rightarrow> u32" where
  "rte_combine32ms1b x =
     (let x = x OR drop_bit 1 x;
          x = x OR drop_bit 2 x;
          x = x OR drop_bit 4 x;
          x = x OR drop_bit 8 x
      in x OR drop_bit 16 x)"

definition rte_align32pow2 :: "u32 \<Rightarrow> u32" where
  "rte_align32pow2 x = rte_combine32ms1b (x - 1) + 1"

definition POWEROF2 :: "u32 \<Rightarrow> bool" where
  "POWEROF2 x \<longleftrightarrow> (x - 1) AND x = 0"

text \<open>The size of the structure and of a cache line depend on the host and are arguments.\<close>

definition rte_ring_get_memsize_elem :: "nat \<Rightarrow> nat \<Rightarrow> u32 \<Rightarrow> u32 \<Rightarrow> int" where
  "rte_ring_get_memsize_elem sizeof_ring line esize count =
     (if esize mod 4 \<noteq> 0 then - EINVAL
      else if \<not> POWEROF2 count \<or> count > RTE_RING_SZ_MASK then - EINVAL
      else int ((sizeof_ring + unat count * unat esize + (line - 1)) div line * line))"

definition zero_headtail :: rte_ring_headtail where
  "zero_headtail = \<lparr>ht_head = 0, ht_tail = 0, ht_head_cnt = 0, ht_tail_cnt = 0, ht_sync = RTE_RING_SYNC_MT, htd_max = 0\<rparr>"

definition zero_ring :: "u32 list \<Rightarrow> rte_ring" where
  "zero_ring mem = \<lparr>r_name = '''', r_flags = 0, r_size = 0, r_mask = 0, r_capacity = 0, r_prod = zero_headtail,
     r_cons = zero_headtail, r_mem = mem\<rparr>"

definition reset_headtail :: "rte_ring_headtail \<Rightarrow> rte_ring_headtail" where
  "reset_headtail ht = (case ht_sync ht of
     RTE_RING_SYNC_MT_RTS \<Rightarrow> ht\<lparr>ht_head := 0, ht_head_cnt := 0, ht_tail := 0, ht_tail_cnt := 0\<rparr>
   | _ \<Rightarrow> ht\<lparr>ht_head := 0, ht_tail := 0\<rparr>)"

definition rte_ring_reset :: "rte_ring \<Rightarrow> rte_ring" where
  "rte_ring_reset r = r\<lparr>r_prod := reset_headtail (r_prod r), r_cons := reset_headtail (r_cons r)\<rparr>"

text \<open>The two modes, or the error.\<close>

definition get_sync_type :: "u32 \<Rightarrow> (rte_ring_sync_type \<times> rte_ring_sync_type) option" where
  "get_sync_type flags = do {
     let p = flags AND (RING_F_SP_ENQ OR RING_F_MP_RTS_ENQ OR RING_F_MP_HTS_ENQ);
     let c = flags AND (RING_F_SC_DEQ OR RING_F_MC_RTS_DEQ OR RING_F_MC_HTS_DEQ);
     prod_st \<leftarrow> (if p = 0 then Some RTE_RING_SYNC_MT else if p = RING_F_SP_ENQ then Some RTE_RING_SYNC_ST
       else if p = RING_F_MP_RTS_ENQ then Some RTE_RING_SYNC_MT_RTS
       else if p = RING_F_MP_HTS_ENQ then Some RTE_RING_SYNC_MT_HTS else None);
     cons_st \<leftarrow> (if c = 0 then Some RTE_RING_SYNC_MT else if c = RING_F_SC_DEQ then Some RTE_RING_SYNC_ST
       else if c = RING_F_MC_RTS_DEQ then Some RTE_RING_SYNC_MT_RTS
       else if c = RING_F_MC_HTS_DEQ then Some RTE_RING_SYNC_MT_HTS else None);
     Some (prod_st, cons_st) }"

definition set_htd_max :: "rte_ring_headtail \<Rightarrow> u32 \<Rightarrow> int \<times> rte_ring_headtail" where
  "set_htd_max ht v = (if ht_sync ht \<noteq> RTE_RING_SYNC_MT_RTS then (- ENOTSUP, ht) else (0, ht\<lparr>htd_max := v\<rparr>))"

text \<open>A failed call leaves the structure as far as it was written.\<close>

definition rte_ring_init :: "rte_ring \<Rightarrow> string \<Rightarrow> u32 \<Rightarrow> u32 \<Rightarrow> int \<times> rte_ring" where
  "rte_ring_init r name count flags =
     (if flags AND NOT RING_F_MASK \<noteq> 0 then (- EINVAL, r)
      else let r = (zero_ring (r_mem r))\<lparr>r_name := take (RTE_RING_NAMESIZE - 1) name\<rparr> in
        if length name \<ge> RTE_RING_NAMESIZE then (- ENAMETOOLONG, r)
        else let r = r\<lparr>r_flags := flags\<rparr> in
          case get_sync_type flags of
            None \<Rightarrow> (- EINVAL, r)
          | Some (ps, cs) \<Rightarrow>
              let r = r\<lparr>r_prod := (r_prod r)\<lparr>ht_sync := ps\<rparr>, r_cons := (r_cons r)\<lparr>ht_sync := cs\<rparr>\<rparr> in
              if flags AND RING_F_EXACT_SZ = 0 \<and> (\<not> POWEROF2 count \<or> count > RTE_RING_SZ_MASK) then (- EINVAL, r)
              else let r = (if flags AND RING_F_EXACT_SZ \<noteq> 0
                     then let sz = rte_align32pow2 (count + 1) in r\<lparr>r_size := sz, r_mask := sz - 1, r_capacity := count\<rparr>
                     else r\<lparr>r_size := count, r_mask := count - 1, r_capacity := count - 1\<rparr>);
                   r = (if flags AND RING_F_MP_RTS_ENQ \<noteq> 0
                     then r\<lparr>r_prod := snd (set_htd_max (r_prod r) (r_capacity r div HTD_MAX_DEF))\<rparr> else r);
                   r = (if flags AND RING_F_MC_RTS_DEQ \<noteq> 0
                     then r\<lparr>r_cons := snd (set_htd_max (r_cons r) (r_capacity r div HTD_MAX_DEF))\<rparr> else r)
                in (0, r))"

section \<open>Copying elements\<close>

text \<open>Element \<open>si\<close> of \<open>w\<close> words of one table to element \<open>di\<close> of another.\<close>

definition copy_elem :: "nat \<Rightarrow> u32 list \<Rightarrow> nat \<Rightarrow> u32 list \<Rightarrow> nat \<Rightarrow> u32 list option" where
  "copy_elem w dst di src si =
     (if (di + 1) * w \<le> length dst \<and> (si + 1) * w \<le> length src
      then Some (take (di * w) dst @ take w (drop (si * w) src) @ drop ((di + 1) * w) dst) else None)"

text \<open>A run of statements \<open>idx++\<close>, \<open>i++\<close>; \<open>f idx i\<close> copies between entry \<open>idx\<close> of the ring and entry \<open>i\<close> of
  the table of the caller.\<close>

fun run_copies :: "(nat \<Rightarrow> nat \<Rightarrow> 'm \<Rightarrow> 'm option) \<Rightarrow> nat \<Rightarrow> nat \<Rightarrow> nat \<Rightarrow> 'm \<Rightarrow> 'm option" where
  "run_copies f 0 idx i m = Some m"
| "run_copies f (Suc c) idx i m = do { m \<leftarrow> f idx i m; run_copies f c (idx + 1) (i + 1) m }"

text \<open>The loop unrolled \<open>k\<close> times, up to \<open>lim\<close>.\<close>

function copy_blocks :: "(nat \<Rightarrow> nat \<Rightarrow> 'm \<Rightarrow> 'm option) \<Rightarrow> nat \<Rightarrow> nat \<Rightarrow> nat \<Rightarrow> nat \<Rightarrow> 'm \<Rightarrow> (nat \<times> nat \<times> 'm) option" where
  "copy_blocks f k lim idx i m =
     (if i < lim \<and> 0 < k then do { m \<leftarrow> run_copies f k idx i m; copy_blocks f k lim (idx + k) (i + k) m }
      else Some (idx, i, m))"
  by pat_completeness auto
termination
  by (relation "measure (\<lambda>(f, k, lim, idx, i, m). lim - i)") auto

declare copy_blocks.simps [simp del]

definition ring_copy :: "(nat \<Rightarrow> nat \<Rightarrow> 'm \<Rightarrow> 'm option) \<Rightarrow> u32 \<Rightarrow> u32 \<Rightarrow> u32 \<Rightarrow> u32 \<Rightarrow> 'm \<Rightarrow> 'm option" where
  "ring_copy f k ring_size idx n m =
     (if idx + n \<le> ring_size then do {
        (idx, i, m) \<leftarrow> copy_blocks f (unat k) (unat (n AND NOT (k - 1))) (unat idx) 0 m;
        run_copies f (unat (n AND (k - 1))) idx i m }
      else let c = unat ring_size - unat idx in do {
        m \<leftarrow> run_copies f c (unat idx) 0 m;
        run_copies f (unat n - c) 0 c m })"

definition rte_ring_enqueue_elems_32 :: "u32 \<Rightarrow> u32 \<Rightarrow> u32 list \<Rightarrow> u32 \<Rightarrow> u32 list \<Rightarrow> u32 list option" where
  "rte_ring_enqueue_elems_32 ring_size idx obj n mem =
     ring_copy (\<lambda>idx i mem. copy_elem 1 mem idx obj i) 8 ring_size idx n mem"

definition rte_ring_enqueue_elems_64 :: "rte_ring \<Rightarrow> u32 \<Rightarrow> u32 list \<Rightarrow> u32 \<Rightarrow> u32 list option" where
  "rte_ring_enqueue_elems_64 r prod_head obj n =
     ring_copy (\<lambda>idx i mem. copy_elem 2 mem idx obj i) 4 (r_size r) (prod_head AND r_mask r) n (r_mem r)"

definition rte_ring_enqueue_elems_128 :: "rte_ring \<Rightarrow> u32 \<Rightarrow> u32 list \<Rightarrow> u32 \<Rightarrow> u32 list option" where
  "rte_ring_enqueue_elems_128 r prod_head obj n =
     ring_copy (\<lambda>idx i mem. copy_elem 4 mem idx obj i) 2 (r_size r) (prod_head AND r_mask r) n (r_mem r)"

definition rte_ring_enqueue_elems :: "rte_ring \<Rightarrow> u32 \<Rightarrow> u32 list \<Rightarrow> u32 \<Rightarrow> u32 \<Rightarrow> u32 list option" where
  "rte_ring_enqueue_elems r prod_head obj esize num =
     (if esize = 8 then rte_ring_enqueue_elems_64 r prod_head obj num
      else if esize = 16 then rte_ring_enqueue_elems_128 r prod_head obj num
      else let scale = esize div 4; idx = prod_head AND r_mask r
           in rte_ring_enqueue_elems_32 (r_size r * scale) (idx * scale) obj (num * scale) (r_mem r))"

definition rte_ring_dequeue_elems_32 :: "u32 \<Rightarrow> u32 \<Rightarrow> u32 list \<Rightarrow> u32 \<Rightarrow> u32 list \<Rightarrow> u32 list option" where
  "rte_ring_dequeue_elems_32 ring_size idx obj n mem =
     ring_copy (\<lambda>idx i obj. copy_elem 1 obj i mem idx) 8 ring_size idx n obj"

definition rte_ring_dequeue_elems_64 :: "rte_ring \<Rightarrow> u32 \<Rightarrow> u32 list \<Rightarrow> u32 \<Rightarrow> u32 list option" where
  "rte_ring_dequeue_elems_64 r cons_head obj n =
     ring_copy (\<lambda>idx i obj. copy_elem 2 obj i (r_mem r) idx) 4 (r_size r) (cons_head AND r_mask r) n obj"

definition rte_ring_dequeue_elems_128 :: "rte_ring \<Rightarrow> u32 \<Rightarrow> u32 list \<Rightarrow> u32 \<Rightarrow> u32 list option" where
  "rte_ring_dequeue_elems_128 r cons_head obj n =
     ring_copy (\<lambda>idx i obj. copy_elem 4 obj i (r_mem r) idx) 2 (r_size r) (cons_head AND r_mask r) n obj"

definition rte_ring_dequeue_elems :: "rte_ring \<Rightarrow> u32 \<Rightarrow> u32 list \<Rightarrow> u32 \<Rightarrow> u32 \<Rightarrow> u32 list option" where
  "rte_ring_dequeue_elems r cons_head obj esize num =
     (if esize = 8 then rte_ring_dequeue_elems_64 r cons_head obj num
      else if esize = 16 then rte_ring_dequeue_elems_128 r cons_head obj num
      else let scale = esize div 4; idx = cons_head AND r_mask r
           in rte_ring_dequeue_elems_32 (r_size r * scale) (idx * scale) obj (num * scale) (r_mem r))"

section \<open>Moving heads and tails\<close>

text \<open>How many of \<open>n\<close> elements fit: the same statements in all modes, for producers and consumers.\<close>

definition ring_room :: "rte_ring_queue_behavior \<Rightarrow> u32 \<Rightarrow> u32 \<Rightarrow> u32" where
  "ring_room behavior avail n =
     (if n > avail then (if behavior = RTE_RING_QUEUE_FIXED then 0 else avail) else n)"

text \<open>Number, old head, new head, free entries and ring. Alone, the compare-and-set succeeds.\<close>

definition rte_ring_move_prod_head ::
  "rte_ring \<Rightarrow> u32 \<Rightarrow> rte_ring_queue_behavior \<Rightarrow> u32 \<times> u32 \<times> u32 \<times> u32 \<times> rte_ring" where
  "rte_ring_move_prod_head r n behavior =
     (let old_head = ht_head (r_prod r);
          free_entries = r_capacity r + ht_tail (r_cons r) - old_head;
          n = ring_room behavior free_entries n
      in if n = 0 then (0, old_head, old_head, free_entries, r)
         else (n, old_head, old_head + n, free_entries, r\<lparr>r_prod := (r_prod r)\<lparr>ht_head := old_head + n\<rparr>\<rparr>))"

definition rte_ring_move_cons_head ::
  "rte_ring \<Rightarrow> u32 \<Rightarrow> rte_ring_queue_behavior \<Rightarrow> u32 \<times> u32 \<times> u32 \<times> u32 \<times> rte_ring" where
  "rte_ring_move_cons_head r n behavior =
     (let old_head = ht_head (r_cons r);
          entries = ht_tail (r_prod r) - old_head;
          n = ring_room behavior entries n
      in if n = 0 then (0, old_head, old_head, entries, r)
         else (n, old_head, old_head + n, entries, r\<lparr>r_cons := (r_cons r)\<lparr>ht_head := old_head + n\<rparr>\<rparr>))"

definition rte_ring_update_tail :: "rte_ring_headtail \<Rightarrow> u32 \<Rightarrow> u32 \<Rightarrow> bool \<Rightarrow> rte_ring_headtail option" where
  "rte_ring_update_tail ht old_val new_val single =
     (if \<not> single \<and> ht_tail ht \<noteq> old_val then None else Some (ht\<lparr>ht_tail := new_val\<rparr>))"

definition rte_ring_hts_move_prod_head ::
  "rte_ring \<Rightarrow> u32 \<Rightarrow> rte_ring_queue_behavior \<Rightarrow> (u32 \<times> u32 \<times> u32 \<times> rte_ring) option" where
  "rte_ring_hts_move_prod_head r num behavior =
     (let op = r_prod r in
      if ht_head op \<noteq> ht_tail op then None
      else let free_entries = r_capacity r + ht_tail (r_cons r) - ht_head op;
               n = ring_room behavior free_entries num
           in Some (n, ht_head op, free_entries,
                if n = 0 then r else r\<lparr>r_prod := op\<lparr>ht_head := ht_head op + n\<rparr>\<rparr>))"

definition rte_ring_hts_move_cons_head ::
  "rte_ring \<Rightarrow> u32 \<Rightarrow> rte_ring_queue_behavior \<Rightarrow> (u32 \<times> u32 \<times> u32 \<times> rte_ring) option" where
  "rte_ring_hts_move_cons_head r num behavior =
     (let op = r_cons r in
      if ht_head op \<noteq> ht_tail op then None
      else let entries = ht_tail (r_prod r) - ht_head op;
               n = ring_room behavior entries num
           in Some (n, ht_head op, entries,
                if n = 0 then r else r\<lparr>r_cons := op\<lparr>ht_head := ht_head op + n\<rparr>\<rparr>))"

definition rte_ring_hts_update_tail :: "rte_ring_headtail \<Rightarrow> u32 \<Rightarrow> u32 \<Rightarrow> rte_ring_headtail" where
  "rte_ring_hts_update_tail ht old_tail num = ht\<lparr>ht_tail := old_tail + num\<rparr>"

definition rte_ring_rts_move_prod_head ::
  "rte_ring \<Rightarrow> u32 \<Rightarrow> rte_ring_queue_behavior \<Rightarrow> (u32 \<times> u32 \<times> u32 \<times> rte_ring) option" where
  "rte_ring_rts_move_prod_head r num behavior =
     (let oh = r_prod r in
      if ht_head oh - ht_tail oh > htd_max oh then None
      else let free_entries = r_capacity r + ht_tail (r_cons r) - ht_head oh;
               n = ring_room behavior free_entries num
           in Some (n, ht_head oh, free_entries,
                if n = 0 then r else r\<lparr>r_prod := oh\<lparr>ht_head := ht_head oh + n, ht_head_cnt := ht_head_cnt oh + 1\<rparr>\<rparr>))"

definition rte_ring_rts_move_cons_head ::
  "rte_ring \<Rightarrow> u32 \<Rightarrow> rte_ring_queue_behavior \<Rightarrow> (u32 \<times> u32 \<times> u32 \<times> rte_ring) option" where
  "rte_ring_rts_move_cons_head r num behavior =
     (let oh = r_cons r in
      if ht_head oh - ht_tail oh > htd_max oh then None
      else let entries = ht_tail (r_prod r) - ht_head oh;
               n = ring_room behavior entries num
           in Some (n, ht_head oh, entries,
                if n = 0 then r else r\<lparr>r_cons := oh\<lparr>ht_head := ht_head oh + n, ht_head_cnt := ht_head_cnt oh + 1\<rparr>\<rparr>))"

definition rte_ring_rts_update_tail :: "rte_ring_headtail \<Rightarrow> rte_ring_headtail" where
  "rte_ring_rts_update_tail ht =
     (let cnt = ht_tail_cnt ht + 1; ht = ht\<lparr>ht_tail_cnt := cnt\<rparr>
      in if cnt = ht_head_cnt ht then ht\<lparr>ht_tail := ht_head ht\<rparr> else ht)"

section \<open>Enqueue and dequeue\<close>

text \<open>The number of elements, the free space (or what is still available) and what was changed.\<close>

definition rte_ring_do_enqueue_elem ::
  "rte_ring \<Rightarrow> u32 list \<Rightarrow> u32 \<Rightarrow> u32 \<Rightarrow> rte_ring_queue_behavior \<Rightarrow> bool \<Rightarrow> (u32 \<times> u32 \<times> rte_ring) option" where
  "rte_ring_do_enqueue_elem r obj_table esize n behavior is_sp =
     (let (n, prod_head, prod_next, free_entries, r) = rte_ring_move_prod_head r n behavior in
      if n = 0 then Some (n, free_entries - n, r)
      else do {
        mem \<leftarrow> rte_ring_enqueue_elems r prod_head obj_table esize n;
        ht \<leftarrow> rte_ring_update_tail (r_prod r) prod_head prod_next is_sp;
        Some (n, free_entries - n, r\<lparr>r_mem := mem, r_prod := ht\<rparr>) })"

definition rte_ring_do_dequeue_elem ::
  "rte_ring \<Rightarrow> u32 list \<Rightarrow> u32 \<Rightarrow> u32 \<Rightarrow> rte_ring_queue_behavior \<Rightarrow> bool \<Rightarrow> (u32 \<times> u32 \<times> u32 list \<times> rte_ring) option" where
  "rte_ring_do_dequeue_elem r obj_table esize n behavior is_sc =
     (let (n, cons_head, cons_next, entries, r) = rte_ring_move_cons_head r n behavior in
      if n = 0 then Some (n, entries - n, obj_table, r)
      else do {
        obj \<leftarrow> rte_ring_dequeue_elems r cons_head obj_table esize n;
        ht \<leftarrow> rte_ring_update_tail (r_cons r) cons_head cons_next is_sc;
        Some (n, entries - n, obj, r\<lparr>r_cons := ht\<rparr>) })"

definition rte_ring_do_hts_enqueue_elem ::
  "rte_ring \<Rightarrow> u32 list \<Rightarrow> u32 \<Rightarrow> u32 \<Rightarrow> rte_ring_queue_behavior \<Rightarrow> (u32 \<times> u32 \<times> rte_ring) option" where
  "rte_ring_do_hts_enqueue_elem r obj_table esize n behavior = do {
     (n, h, free, r) \<leftarrow> rte_ring_hts_move_prod_head r n behavior;
     r \<leftarrow> (if n \<noteq> 0 then do {
         mem \<leftarrow> rte_ring_enqueue_elems r h obj_table esize n;
         Some (r\<lparr>r_mem := mem, r_prod := rte_ring_hts_update_tail (r_prod r) h n\<rparr>) } else Some r);
     Some (n, free - n, r) }"

definition rte_ring_do_hts_dequeue_elem ::
  "rte_ring \<Rightarrow> u32 list \<Rightarrow> u32 \<Rightarrow> u32 \<Rightarrow> rte_ring_queue_behavior \<Rightarrow> (u32 \<times> u32 \<times> u32 list \<times> rte_ring) option" where
  "rte_ring_do_hts_dequeue_elem r obj_table esize n behavior = do {
     (n, h, entries, r) \<leftarrow> rte_ring_hts_move_cons_head r n behavior;
     (obj, r) \<leftarrow> (if n \<noteq> 0 then do {
         obj \<leftarrow> rte_ring_dequeue_elems r h obj_table esize n;
         Some (obj, r\<lparr>r_cons := rte_ring_hts_update_tail (r_cons r) h n\<rparr>) } else Some (obj_table, r));
     Some (n, entries - n, obj, r) }"

definition rte_ring_do_rts_enqueue_elem ::
  "rte_ring \<Rightarrow> u32 list \<Rightarrow> u32 \<Rightarrow> u32 \<Rightarrow> rte_ring_queue_behavior \<Rightarrow> (u32 \<times> u32 \<times> rte_ring) option" where
  "rte_ring_do_rts_enqueue_elem r obj_table esize n behavior = do {
     (n, h, free, r) \<leftarrow> rte_ring_rts_move_prod_head r n behavior;
     r \<leftarrow> (if n \<noteq> 0 then do {
         mem \<leftarrow> rte_ring_enqueue_elems r h obj_table esize n;
         Some (r\<lparr>r_mem := mem, r_prod := rte_ring_rts_update_tail (r_prod r)\<rparr>) } else Some r);
     Some (n, free - n, r) }"

definition rte_ring_do_rts_dequeue_elem ::
  "rte_ring \<Rightarrow> u32 list \<Rightarrow> u32 \<Rightarrow> u32 \<Rightarrow> rte_ring_queue_behavior \<Rightarrow> (u32 \<times> u32 \<times> u32 list \<times> rte_ring) option" where
  "rte_ring_do_rts_dequeue_elem r obj_table esize n behavior = do {
     (n, h, entries, r) \<leftarrow> rte_ring_rts_move_cons_head r n behavior;
     (obj, r) \<leftarrow> (if n \<noteq> 0 then do {
         obj \<leftarrow> rte_ring_dequeue_elems r h obj_table esize n;
         Some (obj, r\<lparr>r_cons := rte_ring_rts_update_tail (r_cons r)\<rparr>) } else Some (obj_table, r));
     Some (n, entries - n, obj, r) }"

section \<open>Interface\<close>

text \<open>The one-line functions of each mode are written out in the branches.\<close>

definition rte_ring_enqueue_bulk_elem :: "rte_ring \<Rightarrow> u32 list \<Rightarrow> u32 \<Rightarrow> u32 \<Rightarrow> (u32 \<times> u32 \<times> rte_ring) option" where
  "rte_ring_enqueue_bulk_elem r obj_table esize n = (case ht_sync (r_prod r) of
     RTE_RING_SYNC_MT \<Rightarrow> rte_ring_do_enqueue_elem r obj_table esize n RTE_RING_QUEUE_FIXED False
   | RTE_RING_SYNC_ST \<Rightarrow> rte_ring_do_enqueue_elem r obj_table esize n RTE_RING_QUEUE_FIXED True
   | RTE_RING_SYNC_MT_RTS \<Rightarrow> rte_ring_do_rts_enqueue_elem r obj_table esize n RTE_RING_QUEUE_FIXED
   | RTE_RING_SYNC_MT_HTS \<Rightarrow> rte_ring_do_hts_enqueue_elem r obj_table esize n RTE_RING_QUEUE_FIXED)"

definition rte_ring_enqueue_burst_elem :: "rte_ring \<Rightarrow> u32 list \<Rightarrow> u32 \<Rightarrow> u32 \<Rightarrow> (u32 \<times> u32 \<times> rte_ring) option" where
  "rte_ring_enqueue_burst_elem r obj_table esize n = (case ht_sync (r_prod r) of
     RTE_RING_SYNC_MT \<Rightarrow> rte_ring_do_enqueue_elem r obj_table esize n RTE_RING_QUEUE_VARIABLE False
   | RTE_RING_SYNC_ST \<Rightarrow> rte_ring_do_enqueue_elem r obj_table esize n RTE_RING_QUEUE_VARIABLE True
   | RTE_RING_SYNC_MT_RTS \<Rightarrow> rte_ring_do_rts_enqueue_elem r obj_table esize n RTE_RING_QUEUE_VARIABLE
   | RTE_RING_SYNC_MT_HTS \<Rightarrow> rte_ring_do_hts_enqueue_elem r obj_table esize n RTE_RING_QUEUE_VARIABLE)"

definition rte_ring_dequeue_bulk_elem :: "rte_ring \<Rightarrow> u32 list \<Rightarrow> u32 \<Rightarrow> u32 \<Rightarrow> (u32 \<times> u32 \<times> u32 list \<times> rte_ring) option" where
  "rte_ring_dequeue_bulk_elem r obj_table esize n = (case ht_sync (r_cons r) of
     RTE_RING_SYNC_MT \<Rightarrow> rte_ring_do_dequeue_elem r obj_table esize n RTE_RING_QUEUE_FIXED False
   | RTE_RING_SYNC_ST \<Rightarrow> rte_ring_do_dequeue_elem r obj_table esize n RTE_RING_QUEUE_FIXED True
   | RTE_RING_SYNC_MT_RTS \<Rightarrow> rte_ring_do_rts_dequeue_elem r obj_table esize n RTE_RING_QUEUE_FIXED
   | RTE_RING_SYNC_MT_HTS \<Rightarrow> rte_ring_do_hts_dequeue_elem r obj_table esize n RTE_RING_QUEUE_FIXED)"

definition rte_ring_dequeue_burst_elem :: "rte_ring \<Rightarrow> u32 list \<Rightarrow> u32 \<Rightarrow> u32 \<Rightarrow> (u32 \<times> u32 \<times> u32 list \<times> rte_ring) option" where
  "rte_ring_dequeue_burst_elem r obj_table esize n = (case ht_sync (r_cons r) of
     RTE_RING_SYNC_MT \<Rightarrow> rte_ring_do_dequeue_elem r obj_table esize n RTE_RING_QUEUE_VARIABLE False
   | RTE_RING_SYNC_ST \<Rightarrow> rte_ring_do_dequeue_elem r obj_table esize n RTE_RING_QUEUE_VARIABLE True
   | RTE_RING_SYNC_MT_RTS \<Rightarrow> rte_ring_do_rts_dequeue_elem r obj_table esize n RTE_RING_QUEUE_VARIABLE
   | RTE_RING_SYNC_MT_HTS \<Rightarrow> rte_ring_do_hts_dequeue_elem r obj_table esize n RTE_RING_QUEUE_VARIABLE)"

definition rte_ring_enqueue_elem :: "rte_ring \<Rightarrow> u32 list \<Rightarrow> u32 \<Rightarrow> (int \<times> rte_ring) option" where
  "rte_ring_enqueue_elem r obj esize =
     map_option (\<lambda>(n, _, r). (if n \<noteq> 0 then 0 else - ENOBUFS, r)) (rte_ring_enqueue_bulk_elem r obj esize 1)"

definition rte_ring_dequeue_elem :: "rte_ring \<Rightarrow> u32 list \<Rightarrow> u32 \<Rightarrow> (int \<times> u32 list \<times> rte_ring) option" where
  "rte_ring_dequeue_elem r obj_p esize =
     map_option (\<lambda>(n, _, obj, r). (if n \<noteq> 0 then 0 else - ENOENT, obj, r)) (rte_ring_dequeue_bulk_elem r obj_p esize 1)"

definition rte_ring_count :: "rte_ring \<Rightarrow> u32" where
  "rte_ring_count r =
     (let count = (ht_tail (r_prod r) - ht_tail (r_cons r)) AND r_mask r
      in if count > r_capacity r then r_capacity r else count)"

definition rte_ring_free_count :: "rte_ring \<Rightarrow> u32" where
  "rte_ring_free_count r = r_capacity r - rte_ring_count r"

definition rte_ring_full :: "rte_ring \<Rightarrow> bool" where
  "rte_ring_full r \<longleftrightarrow> rte_ring_free_count r = 0"

definition rte_ring_empty :: "rte_ring \<Rightarrow> bool" where
  "rte_ring_empty r \<longleftrightarrow> ht_tail (r_cons r) = ht_tail (r_prod r)"

end
