(* ===== verification/RteRingCopy.thy ===== *)
theory RteRingCopy
  imports RteRing
begin

text \<open>
  The copies of the ring against their reference: whatever the width of the elements, the unrolled loops
  and the two loops around the end of the ring copy entry \<open>i\<close> of the table to or from entry
  \<open>(head + i) mod size\<close>, one after the other.
\<close>

section \<open>Loops\<close>

lemma run_copies_add:
  "run_copies f (a + b) idx i m = do { m \<leftarrow> run_copies f a idx i m; run_copies f b (idx + a) (i + a) m }"
proof (induction a arbitrary: idx i m)
  case (Suc a)
  then show ?case by (simp cong: option.case_cong) (cases "f idx i m"; simp)
qed simp

lemma run_copies_cong:
  "(\<And>j m. j < c \<Longrightarrow> f (a + j) (i + j) m = g (b + j) (i + j) m) \<Longrightarrow> run_copies f c a i m = run_copies g c b i m"
proof (induction c arbitrary: a b i m)
  case (Suc c)
  have "f a i m = g b i m" using Suc.prems [of 0] by simp
  moreover have "run_copies f c (a + 1) (i + 1) = run_copies g c (b + 1) (i + 1)"
  proof (intro ext Suc.IH)
    show "f (a + 1 + j) (i + 1 + j) m = g (b + 1 + j) (i + 1 + j) m" if "j < c" for j m
      using Suc.prems [of "Suc j" m] that by simp
  qed
  ultimately show ?case by (simp del: One_nat_def)
qed simp

lemma copy_blocks_run:
  assumes "0 < k"
  shows "copy_blocks f k (i + c * k) idx i m = map_option (\<lambda>m. (idx + c * k, i + c * k, m)) (run_copies f (c * k) idx i m)"
proof (induction c arbitrary: idx i m)
  case 0
  then show ?case by (subst copy_blocks.simps) simp
next
  case (Suc c)
  have l: "i + Suc c * k = (i + k) + c * k" by simp
  have "copy_blocks f k (i + Suc c * k) idx i m =
      do { m \<leftarrow> run_copies f k idx i m; copy_blocks f k ((i + k) + c * k) (idx + k) (i + k) m }"
    using assms unfolding l by (subst copy_blocks.simps) simp
  then show ?case
    unfolding Suc.IH using run_copies_add [of f k "c * k" idx i m]
    by (cases "run_copies f k idx i m") (simp_all add: ac_simps)
qed

lemma unat_pow2: "e < 32 \<Longrightarrow> unat (2 ^ e :: u32) = 2 ^ e"
  using unat_of_nat [of "2 ^ e", where 'a = 32] power_strict_increasing [of e 32 "2 :: nat"] by simp

lemma unat_split_pow2:
  fixes n k :: u32
  assumes "k = 2 ^ e" "e < 32"
  shows "unat (n AND (k - 1)) = unat n mod 2 ^ e" "unat (n AND NOT (k - 1)) = unat n div 2 ^ e * 2 ^ e"
proof -
  have k: "k - 1 = mask e" using assms(1) by (simp add: mask_eq_exp_minus_1)
  show m: "unat (n AND (k - 1)) = unat n mod 2 ^ e"
    unfolding k take_bit_eq_mask [symmetric] unsigned_take_bit_eq by (simp only: take_bit_eq_mod)
  have "n = (n AND NOT (k - 1)) + (n AND (k - 1))"
    by (subst disjunctive_add) (auto simp: bit_simps intro: bit_word_eqI)
  then have "n AND NOT (k - 1) = n - (n AND (k - 1))" by (metis add_diff_cancel_right')
  then have "unat (n AND NOT (k - 1)) = unat n - unat (n AND (k - 1))"
    using word_and_le2 [of n "k - 1"] by (simp only: unat_sub)
  then show "unat (n AND NOT (k - 1)) = unat n div 2 ^ e * 2 ^ e"
    unfolding m by (simp add: minus_mod_eq_div_mult)
qed

section \<open>One copy loop\<close>

text \<open>\<open>n\<close> copies from entry \<open>idx\<close> of a ring of \<open>sz\<close> entries on, wrapping around.\<close>

definition copy_around :: "(nat \<Rightarrow> nat \<Rightarrow> 'm \<Rightarrow> 'm option) \<Rightarrow> nat \<Rightarrow> nat \<Rightarrow> nat \<Rightarrow> 'm \<Rightarrow> 'm option" where
  "copy_around f sz idx n = run_copies (\<lambda>j. f (j mod sz)) n idx 0"

lemma ring_copy_around:
  fixes k :: u32
  assumes k: "k = 2 ^ e" "e < 32" and idx: "idx < sz" "n \<le> sz" "unat sz \<le> 2 ^ 31"
  shows "ring_copy f k sz idx n m = copy_around f (unat sz) (unat idx) (unat n) m"
proof -
  have lt: "unat idx < unat sz" "unat n \<le> unat sz" using idx(1,2) by (simp_all add: word_less_nat_alt word_le_nat_alt)
  then have sum: "unat (idx + n) = unat idx + unat n" using idx(3) by (intro unat_add_no_wrap) simp
  show ?thesis
  proof (cases "idx + n \<le> sz")
    case True
    then have fits: "unat idx + unat n \<le> unat sz" using sum by (simp add: word_le_nat_alt)
    have kk: "unat k = 2 ^ e" using k unat_pow2 by simp
    note parts = unat_split_pow2 [OF k, of n]
    have "ring_copy f k sz idx n m = do {
        m \<leftarrow> run_copies f (unat n div 2 ^ e * 2 ^ e) (unat idx) 0 m;
        run_copies f (unat n mod 2 ^ e) (unat idx + unat n div 2 ^ e * 2 ^ e) (unat n div 2 ^ e * 2 ^ e) m }"
      using True copy_blocks_run [of "2 ^ e" f 0 "unat n div 2 ^ e" "unat idx" m]
      by (cases "run_copies f (unat n div 2 ^ e * 2 ^ e) (unat idx) 0 m") (simp_all add: ring_copy_def parts kk)
    also have "\<dots> = run_copies f (unat n) (unat idx) 0 m"
      using run_copies_add [of f "unat n div 2 ^ e * 2 ^ e" "unat n mod 2 ^ e" "unat idx" 0 m]
      unfolding div_mult_mod_eq by simp
    also have "\<dots> = copy_around f (unat sz) (unat idx) (unat n) m"
      unfolding copy_around_def using fits by (intro run_copies_cong) simp
    finally show ?thesis .
  next
    case False
    let ?c = "unat sz - unat idx"
    have wraps: "unat sz < unat idx + unat n" using False sum by (simp add: word_le_nat_alt)
    have n: "unat n = ?c + (unat n - ?c)" using wraps lt by simp
    have "run_copies f ?c (unat idx) 0 = run_copies (\<lambda>j. f (j mod unat sz)) ?c (unat idx) 0"
      by (intro ext run_copies_cong) simp
    moreover have "run_copies f (unat n - ?c) 0 ?c = run_copies (\<lambda>j. f (j mod unat sz)) (unat n - ?c) (unat idx + ?c) ?c"
      using lt by (intro ext run_copies_cong) simp
    ultimately show ?thesis
      using False run_copies_add [of "\<lambda>j. f (j mod unat sz)" ?c "unat n - ?c" "unat idx" 0 m]
      by (simp add: ring_copy_def copy_around_def Let_def n [symmetric])
  qed
qed

section \<open>Words and elements\<close>

lemma copy_word: "copy_elem (Suc 0) dst a src b = (if a < length dst \<and> b < length src then Some (dst[a := src ! b]) else None)"
  by (auto simp: copy_elem_def upd_conv_take_nth_drop Suc_le_eq take_Suc_conv_app_nth Cons_nth_drop_Suc [symmetric])

text \<open>Copying \<open>c\<close> words one at a time.\<close>

lemma run_words:
  "run_copies (\<lambda>j i dst. copy_elem (Suc 0) dst j src i) c a b dst =
     (if c = 0 \<or> a + c \<le> length dst \<and> b + c \<le> length src
      then Some (take a dst @ take c (drop b src) @ drop (a + c) dst) else None)"
proof (induction c arbitrary: a b dst)
  case (Suc c)
  show ?case
  proof (cases "a < length dst \<and> b < length src")
    case True
    have "take (Suc a) (dst[a := src ! b]) = take a dst @ [src ! b]"
      using True by (simp add: take_Suc_conv_app_nth)
    moreover have "take (Suc c) (drop b src) = src ! b # take c (drop (Suc b) src)"
      using True by (simp add: Cons_nth_drop_Suc [symmetric])
    ultimately show ?thesis using True Suc.IH [of "Suc a" "Suc b" "dst[a := src ! b]"] by (simp add: copy_word)
  qed (auto simp: copy_word)
qed simp

lemma run_elem:
  assumes "0 < w"
  shows "run_copies (\<lambda>j i dst. copy_elem (Suc 0) dst j src i) w (a * w) (b * w) dst = copy_elem w dst a src b"
  using assms by (simp add: run_words copy_elem_def [of w] add.commute)

text \<open>The same in the direction from the ring.\<close>

lemma run_elem':
  assumes "0 < w"
  shows "run_copies (\<lambda>j i dst. copy_elem (Suc 0) dst i src j) w (a * w) (b * w) dst = copy_elem w dst b src a"
proof -
  have "run_copies (\<lambda>j i dst. copy_elem (Suc 0) dst i src j) c x y dst = run_copies (\<lambda>j i dst. copy_elem (Suc 0) dst j src i) c y x dst" for c x y
    by (induction c arbitrary: x y dst) (auto intro!: Option.bind_cong)
  then show ?thesis using run_elem [OF assms] by simp
qed

text \<open>Copies around a ring of words, in groups of \<open>w\<close>, are copies of elements.\<close>

lemma copy_around_groups:
  assumes w: "0 < w" and q: "q < sz"
    and g: "\<And>j i m. j < sz \<Longrightarrow> run_copies f w (j * w) (i * w) m = g j i m"
  shows "run_copies (\<lambda>j. f (j mod (sz * w))) (n * w) (q * w) (i * w) m = run_copies (\<lambda>j. g (j mod sz)) n q i m"
  using q
proof (induction n arbitrary: q i m)
  case (Suc n)
  have first: "run_copies (\<lambda>j. f (j mod (sz * w))) w (q * w) (i * w) = g q i"
  proof
    fix m
    have "run_copies (\<lambda>j. f (j mod (sz * w))) w (q * w) (i * w) m = run_copies f w (q * w) (i * w) m"
    proof (rule run_copies_cong)
      fix j m assume "j < w"
      then have "q * w + j < Suc q * w" by simp
      also have "\<dots> \<le> sz * w" using Suc.prems by (intro mult_le_mono1) simp
      finally show "f ((q * w + j) mod (sz * w)) (i * w + j) m = f (q * w + j) (i * w + j) m" by simp
    qed
    then show "run_copies (\<lambda>j. f (j mod (sz * w))) w (q * w) (i * w) m = g q i m" using g [OF Suc.prems] by simp
  qed
  have rest: "run_copies (\<lambda>j. f (j mod (sz * w))) (n * w) (q * w + w) (i * w + w) =
      run_copies (\<lambda>j. g (j mod sz)) n (q + 1) (i + 1)"
  proof
    fix m
    have s: "0 < sz" using Suc.prems by simp
    have "run_copies (\<lambda>j. f (j mod (sz * w))) (n * w) (Suc q * w) (Suc i * w) m =
        run_copies (\<lambda>j. f (j mod (sz * w))) (n * w) (Suc q mod sz * w) (Suc i * w) m"
      by (rule run_copies_cong) (metis mod_add_left_eq mod_mod_trivial mult_mod_left)
    also have "\<dots> = run_copies (\<lambda>j. g (j mod sz)) n (Suc q mod sz) (Suc i) m"
      using s by (intro Suc.IH) simp
    also have "\<dots> = run_copies (\<lambda>j. g (j mod sz)) n (Suc q) (Suc i) m"
      by (rule run_copies_cong) (simp add: mod_add_left_eq)
    finally show "run_copies (\<lambda>j. f (j mod (sz * w))) (n * w) (q * w + w) (i * w + w) m =
        run_copies (\<lambda>j. g (j mod sz)) n (q + 1) (i + 1) m" by (simp add: add.commute)
  qed
  show ?case
    using Suc.prems by (simp add: run_copies_add first rest)
qed simp

section \<open>Tables of elements\<close>

definition ring_shape :: "rte_ring \<Rightarrow> bool" where
  "ring_shape r \<longleftrightarrow> (\<exists>e\<le>31. r_size r = 2 ^ e) \<and> r_mask r = r_size r - 1"

lemma ring_shapeE:
  assumes "ring_shape r"
  obtains e where "e \<le> 31" "unat (r_size r) = 2 ^ e" "r_size r = 2 ^ e" "r_mask r = mask e"
  using assms unat_pow2 by (auto simp: ring_shape_def mask_eq_exp_minus_1)

lemma unat_and_mask: "ring_shape r \<Longrightarrow> unat (h AND r_mask r) = unat h mod unat (r_size r)"
  by (erule ring_shapeE) (simp only: take_bit_eq_mask [symmetric] unsigned_take_bit_eq, simp only: take_bit_eq_mod)

lemma ring_shape_pos: "ring_shape r \<Longrightarrow> 0 < unat (r_size r)"
  by (erule ring_shapeE) simp

lemma and_mask_less: "ring_shape r \<Longrightarrow> h AND r_mask r < r_size r"
  using unat_and_mask [of r h] ring_shape_pos [of r] by (simp add: word_less_nat_alt)

lemma ring_shape_le: "ring_shape r \<Longrightarrow> unat (r_size r) \<le> 2 ^ 31"
  by (erule ring_shapeE) (metis power_increasing one_le_numeral)

lemma unat_mult_no_wrap: "unat (x :: u32) * unat y < 2 ^ 32 \<Longrightarrow> unat (x * y) = unat x * unat y"
  using unat_mult_lem [of x y] by simp

text \<open>The three widths of a copy: \<open>f w\<close> copies one element of \<open>w\<close> words.\<close>

definition elems_loop :: "(nat \<Rightarrow> nat \<Rightarrow> nat \<Rightarrow> 'm \<Rightarrow> 'm option) \<Rightarrow> rte_ring \<Rightarrow> u32 \<Rightarrow> u32 \<Rightarrow> u32 \<Rightarrow> 'm \<Rightarrow> 'm option" where
  "elems_loop f r h esize num m =
     (if esize = 8 then ring_copy (f 2) 4 (r_size r) (h AND r_mask r) num m
      else if esize = 16 then ring_copy (f 4) 2 (r_size r) (h AND r_mask r) num m
      else let scale = esize div 4
           in ring_copy (f 1) 8 (r_size r * scale) ((h AND r_mask r) * scale) (num * scale) m)"

lemma elems_loop_around:
  assumes r: "ring_shape r" and num: "num \<le> r_size r" and esize: "4 \<le> esize"
    and fits: "unat (r_size r) * (unat esize div 4) \<le> 2 ^ 31"
    and f: "\<And>w i j m. 0 < w \<Longrightarrow> run_copies (f 1) w (j * w) (i * w) m = f w j i m"
  shows "elems_loop f r h esize num m =
    copy_around (f (unat esize div 4)) (unat (r_size r)) (unat (h AND r_mask r)) (unat num) m"
proof -
  let ?idx = "h AND r_mask r" and ?s = "esize div 4"
  note idx = and_mask_less [OF r, of h]
  consider (e8) "esize = 8" | (e16) "esize = 16" | (other) "esize \<noteq> 8" "esize \<noteq> 16" by blast
  then show ?thesis
  proof cases
    case e8
    then show ?thesis
      using ring_copy_around [of 4 2 ?idx "r_size r" num "f 2"] idx num ring_shape_le [OF r] by (simp add: elems_loop_def)
  next
    case e16
    then show ?thesis
      using ring_copy_around [of 2 1 ?idx "r_size r" num "f 4"] idx num ring_shape_le [OF r] by (simp add: elems_loop_def)
  next
    case other
    have s: "unat ?s = unat esize div 4" by (simp add: unat_div)
    have s0: "0 < unat ?s" using esize by (simp add: s word_le_nat_alt)
    have n: "unat ?idx < unat (r_size r)" "unat num \<le> unat (r_size r)"
      using idx num by (simp_all add: word_less_nat_alt word_le_nat_alt)
    then have le: "unat ?idx * unat ?s < unat (r_size r) * unat ?s" "unat num * unat ?s \<le> unat (r_size r) * unat ?s"
      using s0 by simp_all
    have small: "unat (r_size r) * unat ?s < 2 ^ 32" using fits by (simp add: s)
    have u: "unat (r_size r * ?s) = unat (r_size r) * unat ?s" "unat (?idx * ?s) = unat ?idx * unat ?s"
      "unat (num * ?s) = unat num * unat ?s"
      using le small by (simp_all only: unat_mult_no_wrap order.strict_trans order.strict_trans1)
    have "elems_loop f r h esize num m = copy_around (f 1) (unat (r_size r) * unat ?s) (unat ?idx * unat ?s) (unat num * unat ?s) m"
      using ring_copy_around [of 8 3 "?idx * ?s" "r_size r * ?s" "num * ?s" "f 1" m] le fits other
      by (simp add: elems_loop_def Let_def u word_less_nat_alt word_le_nat_alt s)
    also have "\<dots> = copy_around (f (unat ?s)) (unat (r_size r)) (unat ?idx) (unat num) m"
      using copy_around_groups [OF s0 n(1), of "f 1" "\<lambda>j i m. f (unat ?s) j i m" "unat num" 0 m] f [OF s0]
      by (simp add: copy_around_def)
    finally show ?thesis by (simp add: s)
  qed
qed

text \<open>C22: The copies into and out of the ring do what a plain loop over the elements modulo the size of the
  ring does, for every size of the elements and wherever the head is: unrolling, the split at the end of
  the ring and the normalisation to 32-bit words change nothing, failures included.\<close>

theorem elems_are_copied_around:
  assumes "ring_shape r" "num \<le> r_size r" "4 \<le> esize" "unat (r_size r) * (unat esize div 4) \<le> 2 ^ 31"
  defines "w \<equiv> unat esize div 4" and "sz \<equiv> unat (r_size r)"
  shows "rte_ring_enqueue_elems r h obj esize num =
      copy_around (\<lambda>j i mem. copy_elem w mem j obj i) sz (unat h mod sz) (unat num) (r_mem r) \<and>
    rte_ring_dequeue_elems r h obj esize num =
      copy_around (\<lambda>j i obj. copy_elem w obj i (r_mem r) j) sz (unat h mod sz) (unat num) obj"
proof
  have "rte_ring_enqueue_elems r h obj esize num = elems_loop (\<lambda>w j i mem. copy_elem w mem j obj i) r h esize num (r_mem r)"
    by (simp add: rte_ring_enqueue_elems_def rte_ring_enqueue_elems_32_def rte_ring_enqueue_elems_64_def
        rte_ring_enqueue_elems_128_def elems_loop_def)
  also have "\<dots> = copy_around (\<lambda>j i mem. copy_elem w mem j obj i) sz (unat h mod sz) (unat num) (r_mem r)"
    unfolding w_def sz_def unat_and_mask [OF assms(1), symmetric]
    by (rule elems_loop_around [OF assms(1-4)]) (simp add: run_elem)
  finally show "rte_ring_enqueue_elems r h obj esize num =
      copy_around (\<lambda>j i mem. copy_elem w mem j obj i) sz (unat h mod sz) (unat num) (r_mem r)" .
  have "rte_ring_dequeue_elems r h obj esize num = elems_loop (\<lambda>w j i obj. copy_elem w obj i (r_mem r) j) r h esize num obj"
    by (simp add: rte_ring_dequeue_elems_def rte_ring_dequeue_elems_32_def rte_ring_dequeue_elems_64_def
        rte_ring_dequeue_elems_128_def elems_loop_def)
  also have "\<dots> = copy_around (\<lambda>j i obj. copy_elem w obj i (r_mem r) j) sz (unat h mod sz) (unat num) obj"
    unfolding w_def sz_def unat_and_mask [OF assms(1), symmetric]
    by (rule elems_loop_around [OF assms(1-4)]) (simp add: run_elem')
  finally show "rte_ring_dequeue_elems r h obj esize num =
      copy_around (\<lambda>j i obj. copy_elem w obj i (r_mem r) j) sz (unat h mod sz) (unat num) obj" .
qed

text \<open>Elements of 12 bytes, the head before the end of a ring of two, copied by the general loop.\<close>

theorem elems_are_copied_around_witness:
  "rte_ring_enqueue_elems ((zero_ring (replicate 6 0))\<lparr>r_size := 2, r_mask := 1\<rparr>) 7 [1, 2, 3, 4, 5, 6] 12 2 =
     Some [4, 5, 6, 1, 2, 3]"
proof -
  let ?r = "(zero_ring (replicate 6 0))\<lparr>r_size := 2, r_mask := 1\<rparr>"
  have "ring_shape ?r" by (simp add: ring_shape_def exI [of _ 1])
  moreover have "copy_around (\<lambda>j i mem. copy_elem 3 mem j [1, 2, 3, 4, 5, 6] i) 2 1 2 (replicate 6 0) = Some [4, 5, 6, 1, 2, 3]"
    by code_simp
  ultimately show ?thesis
    using elems_are_copied_around [of ?r 2 12 7 "[1, 2, 3, 4, 5, 6]"] by (simp add: zero_ring_def)
qed

end
