(* ===== verification/RteRingQueue.thy ===== *)
theory RteRingQueue
  imports RteRingCopy
begin

text \<open>
  The ring as a queue: one thread alone, in every synchronisation mode, enqueues at the end and dequeues from
  the front of a list of elements, all or none in bulk and as many as fit in a burst. And the state in which
  creation leaves a ring.
\<close>

section \<open>Elements of a table\<close>

definition elem_at :: "nat \<Rightarrow> u32 list \<Rightarrow> nat \<Rightarrow> u32 list" where
  "elem_at w m j = take w (drop (j * w) m)"

lemma copy_elem_Some:
  assumes "(di + 1) * w \<le> length dst" "(si + 1) * w \<le> length src"
  shows "\<exists>m. copy_elem w dst di src si = Some m \<and> length m = length dst \<and>
    (\<forall>j. (j + 1) * w \<le> length dst \<longrightarrow> elem_at w m j = (if j = di then elem_at w src si else elem_at w dst j))"
proof -
  let ?x = "take w (drop (si * w) src)"
  let ?m = "take (di * w) dst @ ?x @ drop ((di + 1) * w) dst"
  have x: "length ?x = w" using assms(2) by simp
  have d: "di * w \<le> length dst" using assms(1) by simp
  have len: "length ?m = length dst" using assms x d by simp
  have "elem_at w ?m j = (if j = di then elem_at w src si else elem_at w dst j)" if "(j + 1) * w \<le> length dst" for j
  proof -
    consider "j < di" | "j = di" | "di < j" by linarith
    then show ?thesis
    proof cases
      case 1
      then have "(j + 1) * w \<le> di * w" by (intro mult_le_mono1) simp
      then have "j * w + w \<le> di * w" by simp
      then show ?thesis using 1 d len by (intro nth_equalityI) (auto simp: elem_at_def nth_append)
    next
      case 2
      then show ?thesis using d x by (simp add: elem_at_def)
    next
      case 3
      then have "(di + 1) * w \<le> j * w" by (intro mult_le_mono1) simp
      then show ?thesis using 3 d x by (simp add: elem_at_def)
    qed
  qed
  moreover have "copy_elem w dst di src si = Some ?m" using assms by (simp add: copy_elem_def)
  ultimately show ?thesis using len by blast
qed

lemma mod_window:
  assumes "t < sz" "t' < sz"
  shows "(q + t) mod sz = (q + t') mod sz \<longleftrightarrow> t = (t' :: nat)"
proof -
  have *: "t = t'" if "t \<le> t'" "(q + t) mod sz = (q + t') mod sz" "t' < sz" for t t'
  proof -
    have "sz dvd t' - t" using that mod_eq_dvd_iff_nat [of "q + t" "q + t'" sz] by (metis add_diff_cancel_left nat_add_left_cancel_le mod_eq_dvd_iff_nat)
    then show ?thesis using that(1,3) nat_dvd_not_less [of "t' - t" sz] by (cases "t' - t = 0") auto
  qed
  show ?thesis
  proof
    assume "(q + t) mod sz = (q + t') mod sz"
    then show "t = t'" using * [of t t'] * [of t' t] assms by (cases "t \<le> t'") simp_all
  qed simp
qed

lemma run_copies_Suc: "run_copies f (Suc n) idx i m = do { m \<leftarrow> run_copies f n idx i m; f (idx + n) (i + n) m }"
proof -
  have "run_copies f (Suc 0) a b = f a b" for a b by (rule ext, rename_tac x, case_tac "f a b x") simp_all
  then show ?thesis using run_copies_add [of f n "Suc 0" idx i m] by simp
qed

lemma copy_in:
  assumes "n \<le> sz" "length mem = sz * w" "n * w \<le> length obj"
  shows "\<exists>m. copy_around (\<lambda>j i mem. copy_elem w mem j obj i) sz q n mem = Some m \<and> length m = sz * w \<and>
    (\<forall>t<n. elem_at w m ((q + t) mod sz) = elem_at w obj t) \<and>
    (\<forall>j < sz. (\<forall>t<n. j \<noteq> (q + t) mod sz) \<longrightarrow> elem_at w m j = elem_at w mem j)"
  using assms(1,3)
proof (induction n)
  case 0
  then show ?case using assms(2) by (simp add: copy_around_def)
next
  case (Suc n)
  then obtain m where m: "copy_around (\<lambda>j i mem. copy_elem w mem j obj i) sz q n mem = Some m" "length m = sz * w"
    "\<forall>t<n. elem_at w m ((q + t) mod sz) = elem_at w obj t"
    "\<forall>j < sz. (\<forall>t<n. j \<noteq> (q + t) mod sz) \<longrightarrow> elem_at w m j = elem_at w mem j" by auto
  have fits: "(j + 1) * w \<le> sz * w" if "j < sz" for j using that by (intro mult_le_mono1) simp
  let ?p = "(q + n) mod sz"
  have p: "?p < sz" using Suc.prems(1) by simp
  obtain m' where m': "copy_elem w m ?p obj n = Some m'" "length m' = sz * w"
    "\<forall>j. (j + 1) * w \<le> sz * w \<longrightarrow> elem_at w m' j = (if j = ?p then elem_at w obj n else elem_at w m j)"
    using copy_elem_Some [of ?p w m n obj] fits [OF p] Suc.prems(2) m(2) by auto
  have run: "copy_around (\<lambda>j i mem. copy_elem w mem j obj i) sz q (Suc n) mem = Some m'"
    using m(1) m'(1) by (simp add: copy_around_def run_copies_Suc del: run_copies.simps)
  have new: "elem_at w m' ((q + t) mod sz) = elem_at w obj t" if "t < Suc n" for t
    using that m(3) m'(3) fits mod_window [of t sz n q] Suc.prems(1) by (cases "t = n") auto
  have old: "elem_at w m' j = elem_at w mem j" if "j < sz" "\<forall>t<Suc n. j \<noteq> (q + t) mod sz" for j
    using that m(4) m'(3) fits by auto
  show ?case using run m'(2) new old by blast
qed

lemma copy_out:
  assumes "n \<le> sz" "length mem = sz * w" "n * w \<le> length obj"
  shows "\<exists>m. copy_around (\<lambda>j i obj. copy_elem w obj i mem j) sz q n obj = Some m \<and> length m = length obj \<and>
    (\<forall>t. (t + 1) * w \<le> length obj \<longrightarrow> elem_at w m t = (if t < n then elem_at w mem ((q + t) mod sz) else elem_at w obj t))"
  using assms(1,3)
proof (induction n)
  case (Suc n)
  then obtain m where m: "copy_around (\<lambda>j i obj. copy_elem w obj i mem j) sz q n obj = Some m" "length m = length obj"
    "\<forall>t. (t + 1) * w \<le> length obj \<longrightarrow> elem_at w m t = (if t < n then elem_at w mem ((q + t) mod sz) else elem_at w obj t)"
    by auto
  let ?p = "(q + n) mod sz"
  have "?p < sz" using Suc.prems(1) by simp
  then have p: "(?p + 1) * w \<le> sz * w" by (intro mult_le_mono1) simp
  obtain m' where m': "copy_elem w m n mem ?p = Some m'" "length m' = length obj"
    "\<forall>j. (j + 1) * w \<le> length obj \<longrightarrow> elem_at w m' j = (if j = n then elem_at w mem ?p else elem_at w m j)"
    using copy_elem_Some [of n w m ?p mem] p Suc.prems(2) m(2) assms(2) by auto
  have "copy_around (\<lambda>j i obj. copy_elem w obj i mem j) sz q (Suc n) obj = Some m'"
    using m(1) m'(1) by (simp add: copy_around_def run_copies_Suc del: run_copies.simps)
  then show ?case using m'(2,3) m(3) by (auto simp: less_Suc_eq)
qed (simp add: copy_around_def)

lemma map_upt_add: "map g [0..<a + b] = map g [0..<a] @ map (\<lambda>t. g (a + t)) [0..<b]"
  by (induction b) simp_all

section \<open>The queue\<close>

definition ring_used :: "rte_ring \<Rightarrow> u32" where
  "ring_used r = ht_tail (r_prod r) - ht_tail (r_cons r)"

definition contents :: "nat \<Rightarrow> rte_ring \<Rightarrow> u32 list list" where
  "contents w r = map (\<lambda>i. elem_at w (r_mem r) ((unat (ht_tail (r_cons r)) + i) mod unat (r_size r))) [0..<unat (ring_used r)]"

definition elems :: "nat \<Rightarrow> u32 list \<Rightarrow> nat \<Rightarrow> u32 list list" where
  "elems w obj n = map (elem_at w obj) [0..<n]"

definition quiet :: "rte_ring_headtail \<Rightarrow> bool" where
  "quiet ht \<longleftrightarrow> ht_head ht = ht_tail ht \<and> ht_head_cnt ht = ht_tail_cnt ht"

definition ring_ok :: "nat \<Rightarrow> rte_ring \<Rightarrow> bool" where
  "ring_ok w r \<longleftrightarrow> ring_shape r \<and> r_capacity r \<le> r_mask r \<and> 0 < w \<and> length (r_mem r) = unat (r_size r) * w \<and>
     unat (r_size r) * w \<le> 2 ^ 31 \<and> quiet (r_prod r) \<and> quiet (r_cons r) \<and> ring_used r \<le> r_capacity r"

lemma ring_ok_room: "ring_ok w r \<Longrightarrow> unat (r_capacity r - ring_used r) = unat (r_capacity r) - unat (ring_used r)"
  by (simp add: ring_ok_def unat_sub)

definition enqueued ::
  "nat \<Rightarrow> rte_ring \<Rightarrow> u32 list \<Rightarrow> u32 \<Rightarrow> rte_ring_queue_behavior \<Rightarrow> (u32 \<times> u32 \<times> rte_ring) option \<Rightarrow> bool" where
  "enqueued w r obj n behavior res \<longleftrightarrow>
     (let room = r_capacity r - ring_used r; k = ring_room behavior room n in
      \<exists>r'. res = Some (k, room - k, r') \<and> ring_ok w r' \<and> r_capacity r' = r_capacity r \<and>
        contents w r' = contents w r @ elems w obj (unat k))"

definition dequeued ::
  "nat \<Rightarrow> rte_ring \<Rightarrow> u32 list \<Rightarrow> u32 \<Rightarrow> rte_ring_queue_behavior \<Rightarrow> (u32 \<times> u32 \<times> u32 list \<times> rte_ring) option \<Rightarrow> bool" where
  "dequeued w r obj n behavior res \<longleftrightarrow>
     (let k = ring_room behavior (ring_used r) n in
      \<exists>obj' r'. res = Some (k, ring_used r - k, obj', r') \<and> ring_ok w r' \<and> r_capacity r' = r_capacity r \<and>
        contents w r = elems w obj' (unat k) @ contents w r' \<and> length obj' = length obj)"

text \<open>A run of one thread against the same operations on a list. An output is the number of elements, the free
  space or the elements left, and the elements taken.\<close>

datatype ring_op =
  Put rte_ring_queue_behavior "u32 list" u32
| Take rte_ring_queue_behavior "u32 list" u32

fun op_fits :: "nat \<Rightarrow> ring_op \<Rightarrow> bool" where
  "op_fits w (Put behavior obj n) \<longleftrightarrow> unat n * w \<le> length obj"
| "op_fits w (Take behavior obj n) \<longleftrightarrow> unat n * w \<le> length obj"

fun ring_run ::
  "(rte_ring \<Rightarrow> u32 list \<Rightarrow> u32 \<Rightarrow> u32 \<Rightarrow> rte_ring_queue_behavior \<Rightarrow> (u32 \<times> u32 \<times> rte_ring) option) \<Rightarrow>
   (rte_ring \<Rightarrow> u32 list \<Rightarrow> u32 \<Rightarrow> u32 \<Rightarrow> rte_ring_queue_behavior \<Rightarrow> (u32 \<times> u32 \<times> u32 list \<times> rte_ring) option) \<Rightarrow>
   nat \<Rightarrow> u32 \<Rightarrow> ring_op list \<Rightarrow> rte_ring \<Rightarrow> ((nat \<times> nat \<times> u32 list list) list \<times> rte_ring) option" where
  "ring_run enq deq w esize [] r = Some ([], r)"
| "ring_run enq deq w esize (Put behavior obj n # ops) r = do {
     (k, free, r) \<leftarrow> enq r obj esize n behavior;
     (outs, r) \<leftarrow> ring_run enq deq w esize ops r;
     Some ((unat k, unat free, []) # outs, r) }"
| "ring_run enq deq w esize (Take behavior obj n # ops) r = do {
     (k, avail, obj, r) \<leftarrow> deq r obj esize n behavior;
     (outs, r) \<leftarrow> ring_run enq deq w esize ops r;
     Some ((unat k, unat avail, elems w obj (unat k)) # outs, r) }"

definition queue_room :: "rte_ring_queue_behavior \<Rightarrow> nat \<Rightarrow> nat \<Rightarrow> nat" where
  "queue_room behavior avail n = (if n \<le> avail then n else if behavior = RTE_RING_QUEUE_FIXED then 0 else avail)"

fun queue_run :: "nat \<Rightarrow> nat \<Rightarrow> ring_op list \<Rightarrow> u32 list list \<Rightarrow> (nat \<times> nat \<times> u32 list list) list \<times> u32 list list" where
  "queue_run w cap [] q = ([], q)"
| "queue_run w cap (Put behavior obj n # ops) q =
     (let room = cap - length q; k = queue_room behavior room (unat n); (outs, q') = queue_run w cap ops (q @ elems w obj k)
      in ((k, room - k, []) # outs, q'))"
| "queue_run w cap (Take behavior obj n # ops) q =
     (let k = queue_room behavior (length q) (unat n); (outs, q') = queue_run w cap ops (drop k q)
      in ((k, length q - k, take k q) # outs, q'))"

lemma length_contents [simp]: "length (contents w r) = unat (ring_used r)"
  by (simp add: contents_def)

lemma length_elems [simp]: "length (elems w obj n) = n"
  by (simp add: elems_def)

lemma unat_ring_room: "unat (ring_room behavior avail n) = queue_room behavior (unat avail) (unat n)"
  by (auto simp: ring_room_def queue_room_def word_less_nat_alt not_le)

lemma ring_room_le: "ring_room behavior avail n \<le> avail" "ring_room behavior avail n \<le> n"
  by (auto simp: ring_room_def)

text \<open>What every synchronisation mode promises to one thread.\<close>

locale ring_mode =
  fixes enq :: "rte_ring \<Rightarrow> u32 list \<Rightarrow> u32 \<Rightarrow> u32 \<Rightarrow> rte_ring_queue_behavior \<Rightarrow> (u32 \<times> u32 \<times> rte_ring) option"
    and deq :: "rte_ring \<Rightarrow> u32 list \<Rightarrow> u32 \<Rightarrow> u32 \<Rightarrow> rte_ring_queue_behavior \<Rightarrow> (u32 \<times> u32 \<times> u32 list \<times> rte_ring) option"
  assumes enq: "ring_ok w r \<Longrightarrow> unat esize = 4 * w \<Longrightarrow> unat n * w \<le> length obj \<Longrightarrow> enqueued w r obj n behavior (enq r obj esize n behavior)"
    and deq: "ring_ok w r \<Longrightarrow> unat esize = 4 * w \<Longrightarrow> unat n * w \<le> length obj \<Longrightarrow> dequeued w r obj n behavior (deq r obj esize n behavior)"
begin

text \<open>A run of operations is a run on the list.\<close>

lemma run:
  assumes "ring_ok w r" "unat esize = 4 * w" "\<forall>x \<in> set ops. op_fits w x"
  shows "\<exists>outs r'. ring_run enq deq w esize ops r = Some (outs, r') \<and> ring_ok w r' \<and> r_capacity r' = r_capacity r \<and>
    queue_run w (unat (r_capacity r)) ops (contents w r) = (outs, contents w r')"
  using assms(1,3)
proof (induction ops arbitrary: r)
  case (Cons x ops)
  show ?case
  proof (cases x)
    case (Put behavior obj n)
    let ?room = "r_capacity r - ring_used r"
    define k where "k = ring_room behavior ?room n"
    have "enqueued w r obj n behavior (enq r obj esize n behavior)" using Cons.prems Put assms(2) by (intro enq) simp_all
    then obtain r1 where r1: "enq r obj esize n behavior = Some (k, ?room - k, r1)" "ring_ok w r1"
      "r_capacity r1 = r_capacity r" "contents w r1 = contents w r @ elems w obj (unat k)"
      by (auto simp: enqueued_def Let_def k_def)
    have u: "unat ?room = unat (r_capacity r) - unat (ring_used r)" using Cons.prems(1) by (rule ring_ok_room)
    have uk: "unat k = queue_room behavior (unat (r_capacity r) - unat (ring_used r)) (unat n)"
      by (simp only: k_def unat_ring_room u)
    have sub: "unat (?room - k) = unat ?room - unat k" using ring_room_le k_def by (intro unat_sub) simp
    obtain outs r' where "ring_run enq deq w esize ops r1 = Some (outs, r')" "ring_ok w r'" "r_capacity r' = r_capacity r1"
      "queue_run w (unat (r_capacity r1)) ops (contents w r1) = (outs, contents w r')"
      using Cons.IH [OF r1(2)] Cons.prems(2) by auto
    then show ?thesis using Put r1 by (simp add: Let_def u uk [symmetric] sub)
  next
    case (Take behavior obj n)
    define k where "k = ring_room behavior (ring_used r) n"
    have "dequeued w r obj n behavior (deq r obj esize n behavior)" using Cons.prems Take assms(2) by (intro deq) simp_all
    then obtain obj' r1 where r1: "deq r obj esize n behavior = Some (k, ring_used r - k, obj', r1)" "ring_ok w r1"
      "r_capacity r1 = r_capacity r" "contents w r = elems w obj' (unat k) @ contents w r1"
      by (auto simp: dequeued_def Let_def k_def)
    have uk: "unat k = queue_room behavior (unat (ring_used r)) (unat n)" by (simp only: k_def unat_ring_room)
    have sub: "unat (ring_used r - k) = unat (ring_used r) - unat k" using ring_room_le k_def by (intro unat_sub) simp
    obtain outs r' where "ring_run enq deq w esize ops r1 = Some (outs, r')" "ring_ok w r'" "r_capacity r' = r_capacity r1"
      "queue_run w (unat (r_capacity r1)) ops (contents w r1) = (outs, contents w r')"
      using Cons.IH [OF r1(2)] Cons.prems(2) by auto
    moreover have "take (unat k) (contents w r) = elems w obj' (unat k)" "drop (unat k) (contents w r) = contents w r1"
      using r1(4) by simp_all
    ultimately show ?thesis using Take r1(1,3) by (simp add: Let_def uk [symmetric] sub)
  qed
qed simp

end

section \<open>The modes keep the promise\<close>

lemma slot_add:
  fixes x y :: u32
  assumes "ring_shape r"
  shows "unat (x + y) mod unat (r_size r) = (unat x + unat y) mod unat (r_size r)"
proof -
  obtain e where e: "e \<le> 31" "unat (r_size r) = 2 ^ e" using assms by (rule ring_shapeE)
  from e(1) have "(2 :: nat) ^ e dvd 2 ^ 32" by (intro le_imp_power_dvd) simp
  then have "(unat x + unat y) mod 2 ^ 32 mod 2 ^ e = (unat x + unat y) mod 2 ^ e" by (rule mod_mod_cancel)
  then show ?thesis by (simp add: e(2) unat_word_ariths)
qed

lemma ring_ok_facts:
  assumes "ring_ok w r"
  shows "unat (ring_used r) \<le> unat (r_capacity r)" "unat (r_capacity r) < unat (r_size r)"
    "unat (r_capacity r - ring_used r) = unat (r_capacity r) - unat (ring_used r)"
proof -
  have s: "ring_shape r" "r_capacity r \<le> r_mask r" "ring_used r \<le> r_capacity r" using assms by (simp_all add: ring_ok_def)
  then show "unat (ring_used r) \<le> unat (r_capacity r)" by (simp add: word_le_nat_alt)
  show "unat (r_capacity r - ring_used r) = unat (r_capacity r) - unat (ring_used r)" using s(3) by (simp add: unat_sub)
  have "unat (r_mask r) < unat (r_size r)" using s(1) ring_shape_pos [OF s(1)]
    by (simp add: ring_shape_def unat_minus_one unat_gt_0)
  then show "unat (r_capacity r) < unat (r_size r)" using s(2) by (simp add: word_le_nat_alt)
qed

lemma elems_upd [simp]:
  "rte_ring_enqueue_elems (r\<lparr>r_prod := x\<rparr>) h obj esize n = rte_ring_enqueue_elems r h obj esize n"
  "rte_ring_dequeue_elems (r\<lparr>r_cons := x\<rparr>) h obj esize n = rte_ring_dequeue_elems r h obj esize n"
  by (simp_all add: rte_ring_enqueue_elems_def rte_ring_enqueue_elems_32_def rte_ring_enqueue_elems_64_def
      rte_ring_enqueue_elems_128_def rte_ring_dequeue_elems_def rte_ring_dequeue_elems_32_def
      rte_ring_dequeue_elems_64_def rte_ring_dequeue_elems_128_def)

lemma ring_shape_upd [simp]:
  "ring_shape (r\<lparr>r_mem := m, r_prod := ht\<rparr>) = ring_shape r" "ring_shape (r\<lparr>r_cons := ht\<rparr>) = ring_shape r"
  by (simp_all add: ring_shape_def)

text \<open>Copy in, then publish: the new tail is \<open>k\<close> further.\<close>

lemma publish:
  assumes ok: "ring_ok w r" and esize: "unat esize = 4 * w" and obj: "unat k * w \<le> length obj"
    and k: "k \<le> r_capacity r - ring_used r"
  shows "\<exists>mem. rte_ring_enqueue_elems r (ht_tail (r_prod r)) obj esize k = Some mem \<and>
    (\<forall>ht. quiet ht \<and> ht_tail ht = ht_tail (r_prod r) + k \<longrightarrow> ring_ok w (r\<lparr>r_mem := mem, r_prod := ht\<rparr>) \<and>
      contents w (r\<lparr>r_mem := mem, r_prod := ht\<rparr>) = contents w r @ elems w obj (unat k))"
proof -
  let ?sz = "unat (r_size r)" and ?pt = "ht_tail (r_prod r)" and ?ct = "ht_tail (r_cons r)" and ?u = "unat (ring_used r)"
  note F = ring_ok_facts [OF ok]
  have s: "ring_shape r" "0 < w" "length (r_mem r) = ?sz * w" "?sz * w \<le> 2 ^ 31" using ok by (simp_all add: ring_ok_def)
  have w: "unat esize div 4 = w" "4 \<le> esize" using esize s(2) by (simp_all add: word_le_nat_alt)
  have room: "?u + unat k < ?sz" using k F by (simp add: word_le_nat_alt)
  have kn: "k \<le> r_size r" using room by (simp add: word_le_nat_alt)
  have el: "rte_ring_enqueue_elems r ?pt obj esize k =
      copy_around (\<lambda>j i mem. copy_elem w mem j obj i) ?sz (unat ?pt mod ?sz) (unat k) (r_mem r)"
    using elems_are_copied_around [OF s(1) kn w(2), of ?pt obj] s(4) by (simp add: w(1))
  obtain mem where mem: "rte_ring_enqueue_elems r ?pt obj esize k = Some mem" "length mem = ?sz * w"
    "\<forall>t<unat k. elem_at w mem ((unat ?pt mod ?sz + t) mod ?sz) = elem_at w obj t"
    "\<forall>j < ?sz. (\<forall>t<unat k. j \<noteq> (unat ?pt mod ?sz + t) mod ?sz) \<longrightarrow> elem_at w mem j = elem_at w (r_mem r) j"
    using copy_in [of "unat k" ?sz "r_mem r" w obj "unat ?pt mod ?sz"] room s(3) obj unfolding el by auto
  have pos: "(unat ?pt mod ?sz + t) mod ?sz = (unat ?ct + (?u + t)) mod ?sz" for t
  proof -
    have "unat ?pt mod ?sz = (unat ?ct + ?u) mod ?sz" using slot_add [OF s(1), of ?ct "ring_used r"] by (simp add: ring_used_def)
    then show ?thesis by (simp add: mod_add_left_eq add.assoc)
  qed
  have ok': "ring_ok w (r\<lparr>r_mem := mem, r_prod := ht\<rparr>)" and
    con: "contents w (r\<lparr>r_mem := mem, r_prod := ht\<rparr>) = contents w r @ elems w obj (unat k)"
    if "quiet ht" "ht_tail ht = ?pt + k" for ht
  proof -
    have used: "ring_used (r\<lparr>r_mem := mem, r_prod := ht\<rparr>) = ring_used r + k" using that by (simp add: ring_used_def)
    have un: "unat (ring_used r + k) = ?u + unat k" using order.strict_trans [OF room unat_less_32] by (intro unat_add_no_wrap) simp
    have "ring_used r + k \<le> r_capacity r" using F k un by (simp add: word_le_nat_alt)
    then show "ring_ok w (r\<lparr>r_mem := mem, r_prod := ht\<rparr>)"
      using ok that mem(2) used by (simp add: ring_ok_def)
    have old: "elem_at w mem ((unat ?ct + i) mod ?sz) = elem_at w (r_mem r) ((unat ?ct + i) mod ?sz)" if "i < ?u" for i
    proof -
      have "(unat ?ct + i) mod ?sz \<noteq> (unat ?ct + (?u + t)) mod ?sz" if "t < unat k" for t
        using mod_window [of i ?sz "?u + t" "unat ?ct"] room that \<open>i < ?u\<close> by simp
      moreover have "(unat ?ct + i) mod ?sz < ?sz" using ring_shape_pos [OF s(1)] by simp
      ultimately show ?thesis using mem(4) unfolding pos by blast
    qed
    have new: "elem_at w mem ((unat ?ct + (?u + t)) mod ?sz) = elem_at w obj t" if "t < unat k" for t
      using mem(3) that unfolding pos by blast
    show "contents w (r\<lparr>r_mem := mem, r_prod := ht\<rparr>) = contents w r @ elems w obj (unat k)"
      unfolding contents_def elems_def used un map_upt_add by (simp add: old new cong: map_cong)
  qed
  show ?thesis using mem(1) ok' con by blast
qed

text \<open>Copy out, then give the entries back.\<close>

lemma take_back:
  assumes ok: "ring_ok w r" and esize: "unat esize = 4 * w" and obj: "unat k * w \<le> length obj"
    and k: "k \<le> ring_used r"
  shows "\<exists>obj'. rte_ring_dequeue_elems r (ht_tail (r_cons r)) obj esize k = Some obj' \<and> length obj' = length obj \<and>
    (\<forall>ht. quiet ht \<and> ht_tail ht = ht_tail (r_cons r) + k \<longrightarrow> ring_ok w (r\<lparr>r_cons := ht\<rparr>) \<and>
      contents w r = elems w obj' (unat k) @ contents w (r\<lparr>r_cons := ht\<rparr>))"
proof -
  let ?sz = "unat (r_size r)" and ?ct = "ht_tail (r_cons r)" and ?u = "unat (ring_used r)"
  note F = ring_ok_facts [OF ok]
  have s: "ring_shape r" "0 < w" "length (r_mem r) = ?sz * w" "?sz * w \<le> 2 ^ 31" using ok by (simp_all add: ring_ok_def)
  have w: "unat esize div 4 = w" "4 \<le> esize" using esize s(2) by (simp_all add: word_le_nat_alt)
  have ku: "unat k \<le> ?u" using k by (simp add: word_le_nat_alt)
  have kn: "k \<le> r_size r" using ku F by (simp add: word_le_nat_alt)
  have el: "rte_ring_dequeue_elems r ?ct obj esize k =
      copy_around (\<lambda>j i obj. copy_elem w obj i (r_mem r) j) ?sz (unat ?ct mod ?sz) (unat k) obj"
    using elems_are_copied_around [OF s(1) kn w(2), of ?ct obj] s(4) by (simp add: w(1))
  obtain obj' where obj': "rte_ring_dequeue_elems r ?ct obj esize k = Some obj'" "length obj' = length obj"
    "\<forall>t. (t + 1) * w \<le> length obj \<longrightarrow> elem_at w obj' t =
      (if t < unat k then elem_at w (r_mem r) ((unat ?ct mod ?sz + t) mod ?sz) else elem_at w obj t)"
    using copy_out [of "unat k" ?sz "r_mem r" w obj "unat ?ct mod ?sz"] kn s(3) obj
    unfolding el by (auto simp: word_le_nat_alt)
  have get: "elem_at w obj' t = elem_at w (r_mem r) ((unat ?ct + t) mod ?sz)" if "t < unat k" for t
  proof -
    have "(t + 1) * w \<le> unat k * w" using that by (intro mult_le_mono1) simp
    then show ?thesis using obj'(3) obj that by (simp add: mod_add_left_eq)
  qed
  have ok': "ring_ok w (r\<lparr>r_cons := ht\<rparr>)" and con: "contents w r = elems w obj' (unat k) @ contents w (r\<lparr>r_cons := ht\<rparr>)"
    if "quiet ht" "ht_tail ht = ?ct + k" for ht
  proof -
    have used: "ring_used (r\<lparr>r_cons := ht\<rparr>) = ring_used r - k" using that by (simp add: ring_used_def)
    have un: "unat (ring_used r - k) = ?u - unat k" using k by (rule unat_sub)
    have "ring_used r - k \<le> r_capacity r" using F(1) un by (simp add: word_le_nat_alt)
    then show "ring_ok w (r\<lparr>r_cons := ht\<rparr>)"
      using ok that used by (simp add: ring_ok_def)
    have pos: "(unat (?ct + k) + i) mod ?sz = (unat ?ct + (unat k + i)) mod ?sz" for i
    proof -
      have "(unat (?ct + k) mod ?sz + i) mod ?sz = ((unat ?ct + unat k) mod ?sz + i) mod ?sz"
        by (simp only: slot_add [OF s(1)])
      then show ?thesis by (simp add: mod_add_left_eq add.assoc)
    qed
    have "contents w r = map (\<lambda>i. elem_at w (r_mem r) ((unat ?ct + i) mod ?sz)) [0..<unat k + (?u - unat k)]"
      using ku by (simp add: contents_def)
    also have "\<dots> = elems w obj' (unat k) @ contents w (r\<lparr>r_cons := ht\<rparr>)"
      unfolding map_upt_add contents_def elems_def used un by (simp add: get pos that(2) cong: map_cong)
    finally show "contents w r = elems w obj' (unat k) @ contents w (r\<lparr>r_cons := ht\<rparr>)" .
  qed
  show ?thesis using obj'(1,2) ok' con by blast
qed

lemmas ring_move_defs = rte_ring_move_prod_head_def rte_ring_move_cons_head_def rte_ring_update_tail_def
  rte_ring_hts_move_prod_head_def rte_ring_hts_move_cons_head_def rte_ring_hts_update_tail_def
  rte_ring_rts_move_prod_head_def rte_ring_rts_move_cons_head_def rte_ring_rts_update_tail_def

lemmas ring_do_defs = rte_ring_do_enqueue_elem_def rte_ring_do_dequeue_elem_def rte_ring_do_hts_enqueue_elem_def
  rte_ring_do_hts_dequeue_elem_def rte_ring_do_rts_enqueue_elem_def rte_ring_do_rts_dequeue_elem_def

lemma no_elems [simp]: "elems w obj 0 = []"
  by (simp add: elems_def)

lemma enqueuedI:
  assumes ok: "ring_ok w r" and esize: "unat esize = 4 * w" and obj: "unat n * w \<le> length obj"
    and k: "k = ring_room behavior (r_capacity r - ring_used r) n"
    and zero: "k = 0 \<Longrightarrow> res = Some (0, r_capacity r - ring_used r, r)"
    and some: "\<And>mem. k \<noteq> 0 \<Longrightarrow> rte_ring_enqueue_elems r (ht_tail (r_prod r)) obj esize k = Some mem \<Longrightarrow>
      \<exists>ht. quiet ht \<and> ht_tail ht = ht_tail (r_prod r) + k \<and>
        res = Some (k, r_capacity r - ring_used r - k, r\<lparr>r_mem := mem, r_prod := ht\<rparr>)"
  shows "enqueued w r obj n behavior res"
proof (cases "k = 0")
  case True
  then show ?thesis using zero ok k by (simp add: enqueued_def Let_def)
next
  case False
  have "unat k \<le> unat n" "k \<le> r_capacity r - ring_used r" using ring_room_le k by (simp_all add: word_le_nat_alt)
  moreover from this(1) have "unat k * w \<le> length obj" using obj by (meson le_trans mult_le_mono1)
  ultimately obtain mem where "rte_ring_enqueue_elems r (ht_tail (r_prod r)) obj esize k = Some mem"
    "\<forall>ht. quiet ht \<and> ht_tail ht = ht_tail (r_prod r) + k \<longrightarrow> ring_ok w (r\<lparr>r_mem := mem, r_prod := ht\<rparr>) \<and>
      contents w (r\<lparr>r_mem := mem, r_prod := ht\<rparr>) = contents w r @ elems w obj (unat k)"
    using publish [OF ok esize] by blast
  then show ?thesis using some [OF False] k by (fastforce simp: enqueued_def Let_def)
qed

lemma dequeuedI:
  assumes ok: "ring_ok w r" and esize: "unat esize = 4 * w" and obj: "unat n * w \<le> length obj"
    and k: "k = ring_room behavior (ring_used r) n"
    and zero: "k = 0 \<Longrightarrow> res = Some (0, ring_used r, obj, r)"
    and some: "\<And>obj'. k \<noteq> 0 \<Longrightarrow> rte_ring_dequeue_elems r (ht_tail (r_cons r)) obj esize k = Some obj' \<Longrightarrow>
      \<exists>ht. quiet ht \<and> ht_tail ht = ht_tail (r_cons r) + k \<and> res = Some (k, ring_used r - k, obj', r\<lparr>r_cons := ht\<rparr>)"
  shows "dequeued w r obj n behavior res"
proof (cases "k = 0")
  case True
  then show ?thesis using zero ok k by (simp add: dequeued_def Let_def)
next
  case False
  have "unat k \<le> unat n" "k \<le> ring_used r" using ring_room_le k by (simp_all add: word_le_nat_alt)
  moreover from this(1) have "unat k * w \<le> length obj" using obj by (meson le_trans mult_le_mono1)
  ultimately obtain obj' where "rte_ring_dequeue_elems r (ht_tail (r_cons r)) obj esize k = Some obj'"
    "length obj' = length obj"
    "\<forall>ht. quiet ht \<and> ht_tail ht = ht_tail (r_cons r) + k \<longrightarrow> ring_ok w (r\<lparr>r_cons := ht\<rparr>) \<and>
      contents w r = elems w obj' (unat k) @ contents w (r\<lparr>r_cons := ht\<rparr>)"
    using take_back [OF ok esize] by blast
  then show ?thesis using some [OF False] k by (fastforce simp: dequeued_def Let_def)
qed

text \<open>The modes are told apart by what they do to a quiet head and tail.\<close>

lemma free_entries:
  "r_capacity r + ht_tail (r_cons r) - ht_tail (r_prod r) = r_capacity r - ring_used r"
  "ht_tail (r_prod r) - ht_tail (r_cons r) = ring_used r"
  by (simp_all add: ring_used_def)

lemma mp_ring_enq:
  assumes "ring_ok w r" "unat esize = 4 * w" "unat n * w \<le> length obj"
  shows "enqueued w r obj n behavior (rte_ring_do_enqueue_elem r obj esize n behavior single)"
proof -
  have q: "quiet (r_prod r)" using assms(1) by (simp add: ring_ok_def)
  define k where "k = ring_room behavior (r_capacity r - ring_used r) n"
  let ?ht = "(r_prod r)\<lparr>ht_head := ht_tail (r_prod r) + k, ht_tail := ht_tail (r_prod r) + k\<rparr>"
  show ?thesis
    by (rule enqueuedI [OF assms k_def])
      (use q in \<open>auto simp: rte_ring_do_enqueue_elem_def rte_ring_move_prod_head_def rte_ring_update_tail_def
        Let_def free_entries quiet_def k_def [symmetric] intro!: exI [of _ ?ht]\<close>)
qed

lemma mp_ring_deq:
  assumes "ring_ok w r" "unat esize = 4 * w" "unat n * w \<le> length obj"
  shows "dequeued w r obj n behavior (rte_ring_do_dequeue_elem r obj esize n behavior single)"
proof -
  have q: "quiet (r_cons r)" using assms(1) by (simp add: ring_ok_def)
  define k where "k = ring_room behavior (ring_used r) n"
  let ?ht = "(r_cons r)\<lparr>ht_head := ht_tail (r_cons r) + k, ht_tail := ht_tail (r_cons r) + k\<rparr>"
  show ?thesis
    by (rule dequeuedI [OF assms k_def])
      (use q in \<open>auto simp: rte_ring_do_dequeue_elem_def rte_ring_move_cons_head_def rte_ring_update_tail_def
        Let_def free_entries quiet_def k_def [symmetric] intro!: exI [of _ ?ht]\<close>)
qed

lemma hts_ring_enq:
  assumes "ring_ok w r" "unat esize = 4 * w" "unat n * w \<le> length obj"
  shows "enqueued w r obj n behavior (rte_ring_do_hts_enqueue_elem r obj esize n behavior)"
proof -
  have q: "quiet (r_prod r)" using assms(1) by (simp add: ring_ok_def)
  define k where "k = ring_room behavior (r_capacity r - ring_used r) n"
  let ?ht = "(r_prod r)\<lparr>ht_head := ht_tail (r_prod r) + k, ht_tail := ht_tail (r_prod r) + k\<rparr>"
  show ?thesis
    by (rule enqueuedI [OF assms k_def])
      (use q in \<open>auto simp: rte_ring_do_hts_enqueue_elem_def rte_ring_hts_move_prod_head_def rte_ring_hts_update_tail_def
        Let_def free_entries quiet_def k_def [symmetric] intro!: exI [of _ ?ht]\<close>)
qed

lemma hts_ring_deq:
  assumes "ring_ok w r" "unat esize = 4 * w" "unat n * w \<le> length obj"
  shows "dequeued w r obj n behavior (rte_ring_do_hts_dequeue_elem r obj esize n behavior)"
proof -
  have q: "quiet (r_cons r)" using assms(1) by (simp add: ring_ok_def)
  define k where "k = ring_room behavior (ring_used r) n"
  let ?ht = "(r_cons r)\<lparr>ht_head := ht_tail (r_cons r) + k, ht_tail := ht_tail (r_cons r) + k\<rparr>"
  show ?thesis
    by (rule dequeuedI [OF assms k_def])
      (use q in \<open>auto simp: rte_ring_do_hts_dequeue_elem_def rte_ring_hts_move_cons_head_def rte_ring_hts_update_tail_def
        Let_def free_entries quiet_def k_def [symmetric] intro!: exI [of _ ?ht]\<close>)
qed

lemma rts_ring_enq:
  assumes "ring_ok w r" "unat esize = 4 * w" "unat n * w \<le> length obj"
  shows "enqueued w r obj n behavior (rte_ring_do_rts_enqueue_elem r obj esize n behavior)"
proof -
  have q: "quiet (r_prod r)" using assms(1) by (simp add: ring_ok_def)
  define k where "k = ring_room behavior (r_capacity r - ring_used r) n"
  let ?ht = "rte_ring_rts_update_tail ((r_prod r)\<lparr>ht_head := ht_tail (r_prod r) + k, ht_head_cnt := ht_tail_cnt (r_prod r) + 1\<rparr>)"
  show ?thesis
    by (rule enqueuedI [OF assms k_def])
      (use q in \<open>auto simp: rte_ring_do_rts_enqueue_elem_def rte_ring_rts_move_prod_head_def rte_ring_rts_update_tail_def
        Let_def free_entries quiet_def k_def [symmetric] intro!: exI [of _ ?ht]\<close>)
qed

lemma rts_ring_deq:
  assumes "ring_ok w r" "unat esize = 4 * w" "unat n * w \<le> length obj"
  shows "dequeued w r obj n behavior (rte_ring_do_rts_dequeue_elem r obj esize n behavior)"
proof -
  have q: "quiet (r_cons r)" using assms(1) by (simp add: ring_ok_def)
  define k where "k = ring_room behavior (ring_used r) n"
  let ?ht = "rte_ring_rts_update_tail ((r_cons r)\<lparr>ht_head := ht_tail (r_cons r) + k, ht_head_cnt := ht_tail_cnt (r_cons r) + 1\<rparr>)"
  show ?thesis
    by (rule dequeuedI [OF assms k_def])
      (use q in \<open>auto simp: rte_ring_do_rts_dequeue_elem_def rte_ring_rts_move_cons_head_def rte_ring_rts_update_tail_def
        Let_def free_entries quiet_def k_def [symmetric] intro!: exI [of _ ?ht]\<close>)
qed

text \<open>The function of the behaviour: bulk or burst, in the mode of the ring.\<close>

definition ring_enqueue :: "rte_ring \<Rightarrow> u32 list \<Rightarrow> u32 \<Rightarrow> u32 \<Rightarrow> rte_ring_queue_behavior \<Rightarrow> (u32 \<times> u32 \<times> rte_ring) option" where
  "ring_enqueue r obj esize n behavior = (case behavior of
     RTE_RING_QUEUE_FIXED \<Rightarrow> rte_ring_enqueue_bulk_elem r obj esize n
   | RTE_RING_QUEUE_VARIABLE \<Rightarrow> rte_ring_enqueue_burst_elem r obj esize n)"

definition ring_dequeue ::
  "rte_ring \<Rightarrow> u32 list \<Rightarrow> u32 \<Rightarrow> u32 \<Rightarrow> rte_ring_queue_behavior \<Rightarrow> (u32 \<times> u32 \<times> u32 list \<times> rte_ring) option" where
  "ring_dequeue r obj esize n behavior = (case behavior of
     RTE_RING_QUEUE_FIXED \<Rightarrow> rte_ring_dequeue_bulk_elem r obj esize n
   | RTE_RING_QUEUE_VARIABLE \<Rightarrow> rte_ring_dequeue_burst_elem r obj esize n)"

interpretation mp_mode: ring_mode "\<lambda>r obj esize n b. rte_ring_do_enqueue_elem r obj esize n b single"
  "\<lambda>r obj esize n b. rte_ring_do_dequeue_elem r obj esize n b single" for single
  by unfold_locales (simp_all add: mp_ring_enq mp_ring_deq)

interpretation hts_mode: ring_mode rte_ring_do_hts_enqueue_elem rte_ring_do_hts_dequeue_elem
  by unfold_locales (simp_all add: hts_ring_enq hts_ring_deq)

interpretation rts_mode: ring_mode rte_ring_do_rts_enqueue_elem rte_ring_do_rts_dequeue_elem
  by unfold_locales (simp_all add: rts_ring_enq rts_ring_deq)

interpretation any_mode: ring_mode ring_enqueue ring_dequeue
proof unfold_locales
  fix w r and esize n :: u32 and obj behavior
  assume "ring_ok w r" "unat esize = 4 * w" "unat n * w \<le> length (obj :: u32 list)"
  then show "enqueued w r obj n behavior (ring_enqueue r obj esize n behavior)"
    "dequeued w r obj n behavior (ring_dequeue r obj esize n behavior)"
    by (auto simp: ring_enqueue_def ring_dequeue_def rte_ring_enqueue_bulk_elem_def rte_ring_enqueue_burst_elem_def
        rte_ring_dequeue_bulk_elem_def rte_ring_dequeue_burst_elem_def
        intro: mp_mode.enq mp_mode.deq hts_mode.enq hts_mode.deq rts_mode.enq rts_mode.deq
        split: rte_ring_sync_type.split rte_ring_queue_behavior.split)
qed

section \<open>The ring is a bounded queue\<close>

text \<open>C5: To one thread a ring is a bounded queue: whatever the modes of its two ends, the size of its elements
  and wherever its indexes are (wrapped around or not), any sequence of bulk and burst operations returns the
  numbers, the free space and the elements that the same operations on a list of at most \<open>capacity\<close> elements
  return, traps nowhere, waits for nobody and ends with the ring holding that list.\<close>

theorem ring_is_a_bounded_queue:
  assumes "ring_ok w r" "unat esize = 4 * w" "\<forall>x \<in> set ops. op_fits w x"
  shows "\<exists>outs r'. ring_run ring_enqueue ring_dequeue w esize ops r = Some (outs, r') \<and> ring_ok w r' \<and>
    r_capacity r' = r_capacity r \<and> queue_run w (unat (r_capacity r)) ops (contents w r) = (outs, contents w r')"
  by (rule any_mode.run [OF assms])

text \<open>A ring of three elements of 8 bytes whose indexes are about to wrap.\<close>

definition wrapping_ring :: rte_ring where
  "wrapping_ring = \<lparr>r_name = '''', r_flags = 0, r_size = 4, r_mask = 3, r_capacity = 3,
     r_prod = \<lparr>ht_head = - 2, ht_tail = - 2, ht_head_cnt = 5, ht_tail_cnt = 5, ht_sync = RTE_RING_SYNC_MT_RTS, htd_max = 0\<rparr>,
     r_cons = \<lparr>ht_head = - 2, ht_tail = - 2, ht_head_cnt = 0, ht_tail_cnt = 0, ht_sync = RTE_RING_SYNC_MT_HTS, htd_max = 0\<rparr>,
     r_mem = replicate 8 0\<rparr>"

lemma wrapping_ring_ok: "ring_ok 2 wrapping_ring" "contents 2 wrapping_ring = []"
  by (simp_all add: ring_ok_def ring_shape_def wrapping_ring_def quiet_def ring_used_def contents_def exI [of _ 2])

definition wrapping_ops :: "ring_op list" where
  "wrapping_ops =
     [Put RTE_RING_QUEUE_FIXED [1, 2, 3, 4] 2, Put RTE_RING_QUEUE_VARIABLE [5, 6, 7, 8] 2,
      Take RTE_RING_QUEUE_FIXED (replicate 8 0) 4, Take RTE_RING_QUEUE_VARIABLE (replicate 8 0) 4]"

theorem ring_is_a_bounded_queue_witness:
  "\<exists>r'. ring_run ring_enqueue ring_dequeue 2 8 wrapping_ops wrapping_ring =
     Some ([(2, 1, []), (1, 0, []), (0, 3, []), (3, 0, [[1, 2], [3, 4], [5, 6]])], r')"
proof -
  have "queue_run 2 3 wrapping_ops [] = ([(2, 1, []), (1, 0, []), (0, 3, []), (3, 0, [[1, 2], [3, 4], [5, 6]])], [])"
    by code_simp
  moreover have "\<forall>x \<in> set wrapping_ops. op_fits 2 x" by (simp add: wrapping_ops_def)
  moreover have "unat (r_capacity wrapping_ring) = 3" by (simp add: wrapping_ring_def)
  ultimately show ?thesis
    using ring_is_a_bounded_queue [OF wrapping_ring_ok(1), of 8 wrapping_ops] by (auto simp: wrapping_ring_ok(2))
qed

text \<open>The counts agree with the list.\<close>

lemma rte_ring_counts:
  assumes "ring_ok w r"
  shows "unat (rte_ring_count r) = length (contents w r)"
    "unat (rte_ring_free_count r) = unat (r_capacity r) - length (contents w r)"
    "rte_ring_empty r \<longleftrightarrow> contents w r = []"
    "rte_ring_full r \<longleftrightarrow> length (contents w r) = unat (r_capacity r)"
proof -
  have s: "ring_shape r" "ring_used r \<le> r_capacity r" using assms by (simp_all add: ring_ok_def)
  have "unat (ring_used r) < unat (r_size r)" using ring_ok_facts [OF assms] by simp
  then have "ring_used r AND r_mask r = ring_used r" using unat_and_mask [OF s(1)] by (simp add: word_unat_eq_iff)
  then have c: "rte_ring_count r = ring_used r" using s(2) by (auto simp: rte_ring_count_def Let_def free_entries)
  show "unat (rte_ring_count r) = length (contents w r)" by (simp add: c)
  show free: "unat (rte_ring_free_count r) = unat (r_capacity r) - length (contents w r)"
    by (simp add: rte_ring_free_count_def c ring_ok_room [OF assms])
  show "rte_ring_empty r \<longleftrightarrow> contents w r = []"
    by (simp add: rte_ring_empty_def length_0_conv [symmetric] ring_used_def unat_eq_zero del: length_0_conv) (auto simp: eq_commute)
  show "rte_ring_full r \<longleftrightarrow> length (contents w r) = unat (r_capacity r)"
    using free ring_ok_facts(1) [OF assms] by (auto simp: rte_ring_full_def word_unat_eq_iff)
qed

end
