(* ===== verification/RteRandom.thy ===== *)
theory RteRandom
  imports Prelude
begin

text \<open>
  The pseudo random generator of the EAL, \<^verbatim>\<open>lib/eal/common/rte_random.c\<close>: one LFSR258 state per
  lcore (and one shared by the threads without an lcore id), seeded by a linear congruential
  generator. The calling thread's \<^verbatim>\<open>rte_lcore_id()\<close> is an argument. The main fact is that a
  seeded state never degenerates: the bits each of the five component registers needs non-zero
  stay non-zero under every draw.
\<close>

section \<open>State\<close>

record rte_rand_state =
  z1 :: u64
  z2 :: u64
  z3 :: u64
  z4 :: u64
  z5 :: u64

text \<open>
  \<^verbatim>\<open>RTE_MAX_LCORE\<close> is a build option (128 by default); \<^verbatim>\<open>LCORE_ID_ANY\<close> is \<^verbatim>\<open>UINT32_MAX\<close>. Lcore
  ids are array indices and are kept as \<open>nat\<close>.
\<close>

definition RTE_MAX_LCORE :: nat where
  "RTE_MAX_LCORE = 128"

definition LCORE_ID_ANY :: nat where
  "LCORE_ID_ANY = 4294967295"

section \<open>Seeding\<close>

definition rte_rand_lcg32 :: "u32 \<Rightarrow> u32" where
  "rte_rand_lcg32 seed = 1103515245 * seed + 12345"

text \<open>Functions that advance \<^verbatim>\<open>*seed\<close> return the value and the new seed.\<close>

definition rte_rand_lcg64 :: "u32 \<Rightarrow> u64 \<times> u32" where
  "rte_rand_lcg64 seed =
     (let s1 = rte_rand_lcg32 seed; low = ucast s1;
          s2 = rte_rand_lcg32 s1; high = ucast s2
      in (low OR push_bit 32 high, s2))"

definition rte_rand_lfsr258_gen_seed :: "u32 \<Rightarrow> u64 \<Rightarrow> u64 \<times> u32" where
  "rte_rand_lfsr258_gen_seed seed min_value =
     (let (res, seed') = rte_rand_lcg64 seed
      in (if res < min_value then res + min_value else res, seed'))"

definition rte_srand_lfsr258 :: "u64 \<Rightarrow> rte_rand_state" where
  "rte_srand_lfsr258 seed =
     (let s0 = ucast (seed XOR drop_bit 32 seed);
          (a, s1) = rte_rand_lfsr258_gen_seed s0 2;
          (b, s2) = rte_rand_lfsr258_gen_seed s1 512;
          (c, s3) = rte_rand_lfsr258_gen_seed s2 4096;
          (d, s4) = rte_rand_lfsr258_gen_seed s3 131072;
          (e, s5) = rte_rand_lfsr258_gen_seed s4 8388608
      in \<lparr>z1 = a, z2 = b, z3 = c, z4 = d, z5 = e\<rparr>)"

definition rte_srand :: "u64 \<Rightarrow> rte_rand_state list" where
  "rte_srand seed =
     map (\<lambda>lcore_id. rte_srand_lfsr258 (seed + of_nat lcore_id)) [0..<RTE_MAX_LCORE + 1]"

section \<open>Drawing\<close>

definition rte_rand_lfsr258_comp :: "u64 \<Rightarrow> nat \<Rightarrow> nat \<Rightarrow> u64 \<Rightarrow> nat \<Rightarrow> u64" where
  "rte_rand_lfsr258_comp z a b c d =
     push_bit d (z AND c) XOR drop_bit b (push_bit a z XOR z)"

definition rte_rand_lfsr258 :: "rte_rand_state \<Rightarrow> u64 \<times> rte_rand_state" where
  "rte_rand_lfsr258 st =
     (let st' = \<lparr>z1 = rte_rand_lfsr258_comp (z1 st) 1 53 18446744073709551614 10,
                 z2 = rte_rand_lfsr258_comp (z2 st) 24 50 18446744073709551104 5,
                 z3 = rte_rand_lfsr258_comp (z3 st) 3 23 18446744073709547520 29,
                 z4 = rte_rand_lfsr258_comp (z4 st) 5 24 18446744073709420544 23,
                 z5 = rte_rand_lfsr258_comp (z5 st) 3 33 18446744073701163008 8\<rparr>
      in (z1 st' XOR z2 st' XOR z3 st' XOR z4 st' XOR z5 st', st'))"

definition rte_rand_get_state :: "nat \<Rightarrow> nat" where
  "rte_rand_get_state lcore_id =
     (if lcore_id = LCORE_ID_ANY then RTE_MAX_LCORE else lcore_id)"

definition rte_rand :: "nat \<Rightarrow> rte_rand_state list \<Rightarrow> u64 \<times> rte_rand_state list" where
  "rte_rand lcore_id rand_states =
     (let i = rte_rand_get_state lcore_id;
          (v, st) = rte_rand_lfsr258 (rand_states ! i)
      in (v, rand_states[i := st]))"

section \<open>The registers never degenerate\<close>

text \<open>
  A component register with \<open>m\<close> unused low bits is usable when some higher bit is set. The
  five components have \<open>m = 1, 9, 12, 17, 23\<close>, and satisfy \<open>b + m + d = 64\<close>.
\<close>

definition rand_state_ok :: "rte_rand_state \<Rightarrow> bool" where
  "rand_state_ok st \<longleftrightarrow> 2 \<le> z1 st \<and> 512 \<le> z2 st \<and> 4096 \<le> z3 st \<and> 131072 \<le> z4 st \<and> 8388608 \<le> z5 st"

definition rand_states_ok :: "rte_rand_state list \<Rightarrow> bool" where
  "rand_states_ok rs \<longleftrightarrow> length rs = RTE_MAX_LCORE + 1 \<and> list_all rand_state_ok rs"

definition valid_lcore :: "nat \<Rightarrow> bool" where
  "valid_lcore l \<longleftrightarrow> l = LCORE_ID_ANY \<or> l < RTE_MAX_LCORE"

lemma ge_power2_iff_bit:
  fixes z :: u64
  assumes "m < 64"
  shows "2 ^ m \<le> z \<longleftrightarrow> (\<exists>i. m \<le> i \<and> i < 64 \<and> bit z i)"
proof -
  have "2 ^ m \<le> z \<longleftrightarrow> drop_bit m z \<noteq> 0"
  proof -
    have "unat (2 ^ m :: u64) = 2 ^ m mod 2 ^ 64"
      using unat_of_nat [of "2 ^ m", where 'a = 64] by simp
    also have "\<dots> = 2 ^ m"
      using assms by (intro mod_less power_strict_increasing) auto
    finally have "unat (2 ^ m :: u64) = 2 ^ m" .
    then have "2 ^ m \<le> z \<longleftrightarrow> 2 ^ m \<le> unat z" by (simp add: word_le_nat_alt)
    also have "\<dots> \<longleftrightarrow> unat z div 2 ^ m \<noteq> 0" by (simp add: div_eq_0_iff not_less)
    also have "\<dots> \<longleftrightarrow> drop_bit m z \<noteq> 0"
      by (simp add: unat_gt_0 [symmetric] unat_drop_bit_eq flip: drop_bit_eq_div)
    finally show ?thesis .
  qed
  also have "\<dots> \<longleftrightarrow> (\<exists>i. m \<le> i \<and> i < 64 \<and> bit z i)"
  proof
    assume "drop_bit m z \<noteq> 0"
    then obtain n where "bit (drop_bit m z) n" using bit_eq_iff [of "drop_bit m z" 0] by auto
    then have "bit z (m + n)" by (simp add: bit_drop_bit_eq)
    then show "\<exists>i. m \<le> i \<and> i < 64 \<and> bit z i"
      using bit_imp_le_length [of z "m + n"] by (intro exI [of _ "m + n"]) auto
  next
    assume "\<exists>i. m \<le> i \<and> i < 64 \<and> bit z i"
    then obtain i where "m \<le> i" "bit z i" by blast
    then have "bit (drop_bit m z) (i - m)" by (simp add: bit_drop_bit_eq)
    then show "drop_bit m z \<noteq> 0" by auto
  qed
  finally show ?thesis .
qed

text \<open>
  One step of a component: had the new register no bit at or above \<open>m\<close>, the old one would
  have none either. The shifted copy shows the old bits below \<open>64 - d\<close>; the xor of the
  register with its own shift shows the rest, one from the other.
\<close>

lemma lfsr258_comp_bit:
  assumes "n < 64"
  shows "bit (rte_rand_lfsr258_comp z a b c d) n \<longleftrightarrow>
     (d \<le> n \<and> bit z (n - d) \<and> bit c (n - d)) \<noteq>
     (n + b < 64 \<and> ((a \<le> n + b \<and> bit z (n + b - a)) \<noteq> bit z (n + b)))"
  using assms bit_imp_le_length [of z "n + b"]
  by (auto simp: rte_rand_lfsr258_comp_def bit_simps add.commute)

lemma lfsr258_comp_not_degenerate:
  assumes c: "\<And>i. i < 64 \<Longrightarrow> bit c i \<longleftrightarrow> m \<le> i"
    and k: "b + m + d = 64" "0 < a" "a \<le> b"
    and z: "\<exists>i. m \<le> i \<and> i < 64 \<and> bit z i"
  shows "\<exists>i. m \<le> i \<and> i < 64 \<and> bit (rte_rand_lfsr258_comp z a b c d) i"
proof (rule ccontr)
  let ?z' = "rte_rand_lfsr258_comp z a b c d"
  assume "\<not> ?thesis"
  then have none: "\<not> bit ?z' i" if "m \<le> i" "i < 64" for i using that by blast
  have low: "\<not> bit z i" if "m \<le> i" "i < b + m" for i
    using none [of "i + d"] lfsr258_comp_bit [of "i + d" z a b c d] c [of i] that k by auto
  have "\<not> bit z i" if "m \<le> i" "i < 64" for i
    using that
  proof (induction i rule: less_induct)
    case (less i)
    show ?case
    proof (cases "i < b + m")
      case True
      then show ?thesis using low less.prems by blast
    next
      case False
      then have n: "m \<le> i - b" "i - b < 64" "i - b + b = i" "i - b < m + d"
        using less.prems k by auto
      have "\<not> bit z (i - a)"
        using less.IH [of "i - a"] False less.prems k by auto
      moreover have "\<not> (d \<le> i - b \<and> bit z (i - b - d) \<and> bit c (i - b - d))"
        using c [of "i - b - d"] n less.prems by auto
      ultimately show ?thesis
        using none [OF n(1,2)] lfsr258_comp_bit [OF n(2), of z a b c d] n(3) less.prems by auto
    qed
  qed
  with z show False by blast
qed

lemma mask_bit_numeral:
  "m < 64 \<Longrightarrow> c = - (2 ^ m) \<Longrightarrow> i < 64 \<Longrightarrow> bit (c :: u64) i \<longleftrightarrow> m \<le> i"
  by (simp add: bit_minus_exp_iff)

lemma lfsr258_comp_ok:
  assumes "m < 64" "c = - (2 ^ m)" "b + m + d = 64" "0 < a" "a \<le> b" "2 ^ m \<le> z"
  shows "2 ^ m \<le> rte_rand_lfsr258_comp z a b c d"
  using lfsr258_comp_not_degenerate [of c m b d a z] mask_bit_numeral [of m c] assms
  by (simp add: ge_power2_iff_bit)

lemma rte_rand_lfsr258_ok: "rand_state_ok st \<Longrightarrow> rand_state_ok (snd (rte_rand_lfsr258 st))"
  using lfsr258_comp_ok [of 1 18446744073709551614 53 10 1 "z1 st"]
    lfsr258_comp_ok [of 9 18446744073709551104 50 5 24 "z2 st"]
    lfsr258_comp_ok [of 12 18446744073709547520 23 29 3 "z3 st"]
    lfsr258_comp_ok [of 17 18446744073709420544 24 23 5 "z4 st"]
    lfsr258_comp_ok [of 23 18446744073701163008 33 8 3 "z5 st"]
  by (simp add: rand_state_ok_def rte_rand_lfsr258_def Let_def)

lemma rte_rand_lfsr258_gen_seed_ge:
  assumes "min_value \<le> 9223372036854775808"
  shows "min_value \<le> fst (rte_rand_lfsr258_gen_seed seed min_value)"
proof -
  have "min_value \<le> res + min_value" if "res < min_value" for res :: u64
    using that assms by (unfold word_le_nat_alt word_less_nat_alt) (simp add: unat_add_no_wrap)
  then show ?thesis
    by (auto simp: rte_rand_lfsr258_gen_seed_def split: prod.split)
qed

lemma rte_srand_lfsr258_ok: "rand_state_ok (rte_srand_lfsr258 seed)"
  using rte_rand_lfsr258_gen_seed_ge [of 2] rte_rand_lfsr258_gen_seed_ge [of 512]
    rte_rand_lfsr258_gen_seed_ge [of 4096] rte_rand_lfsr258_gen_seed_ge [of 131072]
    rte_rand_lfsr258_gen_seed_ge [of 8388608]
  by (auto simp: rand_state_ok_def rte_srand_lfsr258_def Let_def fst_conv split: prod.split)
    (metis fst_conv)+

lemma rte_srand_ok: "rand_states_ok (rte_srand seed)"
  by (simp add: rand_states_ok_def rte_srand_def list_all_iff rte_srand_lfsr258_ok)

lemma rte_rand_get_state_valid:
  "valid_lcore l \<Longrightarrow> rte_rand_get_state l \<le> RTE_MAX_LCORE"
  by (auto simp: valid_lcore_def rte_rand_get_state_def)

lemma rte_rand_ok:
  assumes "rand_states_ok rs" "valid_lcore l"
  shows "rand_states_ok (snd (rte_rand l rs))"
proof -
  have "rand_state_ok (rs ! rte_rand_get_state l)"
    using assms rte_rand_get_state_valid [of l] by (auto simp: rand_states_ok_def list_all_length)
  then show ?thesis
    using assms rte_rand_lfsr258_ok
    by (auto simp: rand_states_ok_def rte_rand_def Let_def list_all_iff split: prod.split
        dest!: set_update_subset_insert [THEN subsetD])
      (metis snd_conv)
qed

section \<open>Properties\<close>

text \<open>After \<^verbatim>\<open>rte_srand\<close> no component register of any lcore's generator is in the absorbing
  range where its unused low bits are all that is left, and drawing numbers on any lcore, EAL
  thread or not, keeps it so: the generators never degenerate.\<close>

theorem rte_rand_never_degenerates:
  assumes "\<forall>l\<in>set ls. valid_lcore l"
  shows "rand_states_ok (fold (\<lambda>l rs. snd (rte_rand l rs)) ls (rte_srand seed))"
proof -
  have "rand_states_ok (fold (\<lambda>l rs. snd (rte_rand l rs)) ls rs)" if "rand_states_ok rs" for rs
    using that assms by (induction ls arbitrary: rs) (auto intro: rte_rand_ok)
  then show ?thesis using rte_srand_ok by blast
qed

lemma rte_rand_never_degenerates_witness:
  "rand_states_ok (fold (\<lambda>l rs. snd (rte_rand l rs)) [0, 127, LCORE_ID_ANY, 3] (rte_srand 42))"
  by (rule rte_rand_never_degenerates) (simp add: valid_lcore_def RTE_MAX_LCORE_def)

end
