(* ===== verification/RteMempool.thy ===== *)
theory RteMempool
  imports RteRingQueue RteRandom "HOL-Library.Multiset"
begin

text \<open>
  Pools of objects, \<^verbatim>\<open>lib/mempool/rte_mempool.h\<close> over the ring of \<^verbatim>\<open>drivers/mempool/ring\<close>: the caches of the
  lcores and how objects move between them, the ring and the caller. An object is a 64-bit pointer, two words
  of the ring. The number of objects of a call is the length of its table. Statistics, traces and cookies are
  those of a build without debugging, that is none. A read or write outside of the array of a cache is the
  trap \<open>None\<close>.
\<close>

section \<open>Pools over rings\<close>

definition RTE_MEMPOOL_CACHE_MAX_SIZE :: u32 where "RTE_MEMPOOL_CACHE_MAX_SIZE = 512"

record mempool_cache =
  ca_size :: u32
  ca_flushthresh :: u32
  ca_len :: u32
  ca_objs :: "u64 list"

datatype mempool_ops = ops_mp_mc | ops_sp_sc | ops_mp_sc | ops_sp_mc | ops_mt_rts | ops_mt_hts

record rte_mempool =
  mp_size :: u32
  mp_cache_size :: u32
  mp_ops :: mempool_ops
  mp_data :: rte_ring
  mp_cache :: "nat \<Rightarrow> mempool_cache"

text \<open>A table of pointers as the words of the ring.\<close>

definition ptr_words :: "u64 \<Rightarrow> u32 list" where
  "ptr_words x = [ucast x, ucast (drop_bit 32 x)]"

fun words_ptrs :: "u32 list \<Rightarrow> u64 list" where
  "words_ptrs (a # b # ws) = (ucast a OR push_bit 32 (ucast b)) # words_ptrs ws"
| "words_ptrs _ = []"

definition ptrs_words :: "u64 list \<Rightarrow> u32 list" where
  "ptrs_words xs = concat (map ptr_words xs)"

text \<open>The rings of the six kinds of pools.\<close>

definition ring_pool_enqueue :: "mempool_ops \<Rightarrow> rte_ring \<Rightarrow> u32 list \<Rightarrow> u32 \<Rightarrow> (u32 \<times> u32 \<times> rte_ring) option" where
  "ring_pool_enqueue ops r obj n = (case ops of
     ops_mt_rts \<Rightarrow> rte_ring_do_rts_enqueue_elem r obj 8 n RTE_RING_QUEUE_FIXED
   | ops_mt_hts \<Rightarrow> rte_ring_do_hts_enqueue_elem r obj 8 n RTE_RING_QUEUE_FIXED
   | ops \<Rightarrow> rte_ring_do_enqueue_elem r obj 8 n RTE_RING_QUEUE_FIXED (ops = ops_sp_sc \<or> ops = ops_sp_mc))"

definition ring_pool_dequeue :: "mempool_ops \<Rightarrow> rte_ring \<Rightarrow> u32 list \<Rightarrow> u32 \<Rightarrow> (u32 \<times> u32 \<times> u32 list \<times> rte_ring) option" where
  "ring_pool_dequeue ops r obj n = (case ops of
     ops_mt_rts \<Rightarrow> rte_ring_do_rts_dequeue_elem r obj 8 n RTE_RING_QUEUE_FIXED
   | ops_mt_hts \<Rightarrow> rte_ring_do_hts_dequeue_elem r obj 8 n RTE_RING_QUEUE_FIXED
   | ops \<Rightarrow> rte_ring_do_dequeue_elem r obj 8 n RTE_RING_QUEUE_FIXED (ops = ops_sp_sc \<or> ops = ops_mp_sc))"

definition rte_mempool_ops_enqueue_bulk :: "rte_mempool \<Rightarrow> u64 list \<Rightarrow> (int \<times> rte_mempool) option" where
  "rte_mempool_ops_enqueue_bulk mp xs = do {
     (k, free, r) \<leftarrow> ring_pool_enqueue (mp_ops mp) (mp_data mp) (ptrs_words xs) (of_nat (length xs));
     Some (if k = 0 then - ENOBUFS else 0, mp\<lparr>mp_data := r\<rparr>) }"

definition rte_mempool_ops_dequeue_bulk :: "rte_mempool \<Rightarrow> u32 \<Rightarrow> (int \<times> u64 list \<times> rte_mempool) option" where
  "rte_mempool_ops_dequeue_bulk mp n = do {
     (k, avail, obj, r) \<leftarrow> ring_pool_dequeue (mp_ops mp) (mp_data mp) (replicate (unat n * 2) 0) n;
     Some (if k = 0 then - ENOBUFS else 0, words_ptrs obj, mp\<lparr>mp_data := r\<rparr>) }"

definition rte_mempool_ops_get_count :: "rte_mempool \<Rightarrow> u32" where
  "rte_mempool_ops_get_count mp = rte_ring_count (mp_data mp)"

section \<open>Caches\<close>

definition CALC_CACHE_FLUSHTHRESH :: "u32 \<Rightarrow> u32" where
  "CALC_CACHE_FLUSHTHRESH c = of_nat (unat c * 3 div 2)"

definition mempool_cache_init :: "mempool_cache \<Rightarrow> u32 \<Rightarrow> mempool_cache" where
  "mempool_cache_init c sz = c\<lparr>ca_size := sz, ca_flushthresh := CALC_CACHE_FLUSHTHRESH sz, ca_len := 0\<rparr>"

definition rte_mempool_default_cache :: "rte_mempool \<Rightarrow> nat \<Rightarrow> nat option" where
  "rte_mempool_default_cache mp lcore_id =
     (if mp_cache_size mp = 0 then None else if lcore_id \<ge> RTE_MAX_LCORE then None else Some lcore_id)"

definition set_cache :: "nat \<Rightarrow> mempool_cache \<Rightarrow> rte_mempool \<Rightarrow> rte_mempool" where
  "set_cache l c mp = mp\<lparr>mp_cache := (mp_cache mp)(l := c)\<rparr>"

definition put_objs :: "u64 list \<Rightarrow> nat \<Rightarrow> u64 list \<Rightarrow> u64 list option" where
  "put_objs objs i xs = (if i + length xs \<le> length objs then Some (take i objs @ xs @ drop (i + length xs) objs) else None)"

text \<open>The last \<open>k\<close> of the first \<open>len\<close> objects, the last one first.\<close>

definition pop_objs :: "u64 list \<Rightarrow> nat \<Rightarrow> nat \<Rightarrow> u64 list option" where
  "pop_objs objs len k = (if k \<le> len \<and> len \<le> length objs then Some (rev (drop (len - k) (take len objs))) else None)"

definition cached :: "mempool_cache \<Rightarrow> u64 list" where
  "cached c = take (unat (ca_len c)) (ca_objs c)"

text \<open>The result of the backend is ignored, as in the code.\<close>

definition rte_mempool_do_generic_put :: "rte_mempool \<Rightarrow> u64 list \<Rightarrow> nat option \<Rightarrow> rte_mempool option" where
  "rte_mempool_do_generic_put mp xs cache =
     (let n = of_nat (length xs) in case cache of
        None \<Rightarrow> map_option snd (rte_mempool_ops_enqueue_bulk mp xs)
      | Some l \<Rightarrow> let c = mp_cache mp l in
          if n > ca_flushthresh c then map_option snd (rte_mempool_ops_enqueue_bulk mp xs)
          else if ca_len c + n \<le> ca_flushthresh c then do {
            objs \<leftarrow> put_objs (ca_objs c) (unat (ca_len c)) xs;
            Some (set_cache l (c\<lparr>ca_len := ca_len c + n, ca_objs := objs\<rparr>) mp) }
          else do {
            (_, mp) \<leftarrow> rte_mempool_ops_enqueue_bulk mp (cached c);
            objs \<leftarrow> put_objs (ca_objs c) 0 xs;
            Some (set_cache l (c\<lparr>ca_len := n, ca_objs := objs\<rparr>) mp) })"

definition rte_mempool_put_bulk :: "nat \<Rightarrow> rte_mempool \<Rightarrow> u64 list \<Rightarrow> rte_mempool option" where
  "rte_mempool_put_bulk lcore mp xs = rte_mempool_do_generic_put mp xs (rte_mempool_default_cache mp lcore)"

definition rte_mempool_put :: "nat \<Rightarrow> rte_mempool \<Rightarrow> u64 \<Rightarrow> rte_mempool option" where
  "rte_mempool_put lcore mp x = rte_mempool_put_bulk lcore mp [x]"

text \<open>The end of \<^verbatim>\<open>rte_mempool_do_generic_get\<close>: the rest of the request from the backend; \<open>taken\<close> is in the table
  already.\<close>

definition driver_dequeue :: "rte_mempool \<Rightarrow> u32 \<Rightarrow> u32 \<Rightarrow> u64 list \<Rightarrow> nat option \<Rightarrow> (int \<times> u64 list \<times> rte_mempool) option" where
  "driver_dequeue mp n remaining taken cache = do {
     (ret, ys, mp) \<leftarrow> rte_mempool_ops_dequeue_bulk mp remaining;
     Some (ret, taken @ ys, (case cache of
         Some l \<Rightarrow> if ret < 0 then set_cache l ((mp_cache mp l)\<lparr>ca_len := n - remaining\<rparr>) mp else mp
       | None \<Rightarrow> mp)) }"

text \<open>\<open>const\<close> tells whether the compiler knows \<open>n\<close>.\<close>

definition rte_mempool_do_generic_get :: "bool \<Rightarrow> rte_mempool \<Rightarrow> u32 \<Rightarrow> nat option \<Rightarrow> (int \<times> u64 list \<times> rte_mempool) option" where
  "rte_mempool_do_generic_get const mp n cache =
     (case cache of
        None \<Rightarrow> driver_dequeue mp n n [] None
      | Some l \<Rightarrow> let c = mp_cache mp l in
          if const \<and> n \<le> ca_len c then do {
            taken \<leftarrow> pop_objs (ca_objs c) (unat (ca_len c)) (unat n);
            Some (0, taken, set_cache l (c\<lparr>ca_len := ca_len c - n\<rparr>) mp) }
          else let len = (if const then ca_len c else min n (ca_len c)); remaining = n - len in do {
            taken \<leftarrow> pop_objs (ca_objs c) (unat (ca_len c)) (unat len);
            let c = c\<lparr>ca_len := ca_len c - len\<rparr>;
            let mp = set_cache l c mp;
            if \<not> const \<and> remaining = 0 then Some (0, taken, mp)
            else if remaining > RTE_MEMPOOL_CACHE_MAX_SIZE then driver_dequeue mp n remaining taken (Some l)
            else do {
              (ret, ys, mp) \<leftarrow> rte_mempool_ops_dequeue_bulk mp (ca_size c + remaining);
              if ret < 0 then driver_dequeue mp n remaining taken (Some l)
              else do {
                objs \<leftarrow> put_objs (ca_objs c) 0 ys;
                rest \<leftarrow> pop_objs objs (unat (ca_size c + remaining)) (unat remaining);
                Some (0, taken @ rest, set_cache l (c\<lparr>ca_len := ca_size c, ca_objs := objs\<rparr>) mp) } } })"

definition rte_mempool_get_bulk :: "bool \<Rightarrow> nat \<Rightarrow> rte_mempool \<Rightarrow> u32 \<Rightarrow> (int \<times> u64 list \<times> rte_mempool) option" where
  "rte_mempool_get_bulk const lcore mp n = rte_mempool_do_generic_get const mp n (rte_mempool_default_cache mp lcore)"

definition rte_mempool_get :: "nat \<Rightarrow> rte_mempool \<Rightarrow> (int \<times> u64 list \<times> rte_mempool) option" where
  "rte_mempool_get lcore mp = rte_mempool_get_bulk True lcore mp 1"

definition rte_mempool_cache_flush :: "rte_mempool \<Rightarrow> nat \<Rightarrow> rte_mempool option" where
  "rte_mempool_cache_flush mp lcore =
     (case rte_mempool_default_cache mp lcore of
        None \<Rightarrow> Some mp
      | Some l \<Rightarrow> let c = mp_cache mp l in
          if ca_len c = 0 then Some mp
          else do {
            (_, mp) \<leftarrow> rte_mempool_ops_enqueue_bulk mp (cached c);
            Some (set_cache l (c\<lparr>ca_len := 0\<rparr>) mp) })"

definition rte_mempool_avail_count :: "rte_mempool \<Rightarrow> u32" where
  "rte_mempool_avail_count mp =
     (let count = rte_mempool_ops_get_count mp in
      if mp_cache_size mp = 0 then count
      else let count = foldl (\<lambda>count lcore_id. count + ca_len (mp_cache mp lcore_id)) count [0..<RTE_MAX_LCORE]
        in if count > mp_size mp then mp_size mp else count)"

definition rte_mempool_in_use_count :: "rte_mempool \<Rightarrow> u32" where
  "rte_mempool_in_use_count mp = mp_size mp - rte_mempool_avail_count mp"

end
