(* ===== verification/RteMbufRefs.thy ===== *)
theory RteMbufRefs
  imports RteMbuf RteMempool
begin

text \<open>
  The life of packet buffers, \<^verbatim>\<open>lib/mbuf/rte_mbuf.h\<close> and \<^verbatim>\<open>rte_mbuf.c\<close>: allocation from a pool, reference
  counts, attachment to the buffer of another mbuf or to an external buffer, clones, and release. Here mbufs have
  addresses: a memory maps them to their headers (\<open>RteMbuf\<close> has the operations on the data). All mbufs are from one
  pool. The free callback of an external buffer is recorded in a log. Assertions and sanity checks are empty in a
  build without debugging. The argument \<open>lcore\<close> is the lcore that makes the call.
\<close>

section \<open>Mbufs in memory\<close>

record mbuf_obj =
  mo_buf_addr :: u64
  mo_next :: u64
  mo_data_off :: u16
  mo_refcnt :: u16
  mo_nb_segs :: u16
  mo_port :: u16
  mo_ol_flags :: u64
  mo_packet_type :: u32
  mo_pkt_len :: u32
  mo_data_len :: u16
  mo_vlan_tci :: u16
  mo_hash :: u64
  mo_vlan_tci_outer :: u16
  mo_buf_len :: u16
  mo_shinfo :: u64
  mo_priv_size :: u16
  mo_tx_offload :: u64
  mo_dynfield1 :: "u32 list"

text \<open>The mbufs, the reference counts of the shared data of external buffers, the calls of their callbacks, the
  pool and its private data.\<close>

record mbuf_mem =
  mm_mbuf :: "u64 \<Rightarrow> mbuf_obj"
  mm_shinfo :: "u64 \<Rightarrow> u16"
  mm_freed :: "(u64 \<times> u64) list"
  mm_pool :: rte_mempool
  mm_priv_size :: u16
  mm_data_room :: u16
  mm_priv_flags :: u32

definition SIZEOF_MBUF :: u64 where "SIZEOF_MBUF = 128"
definition RTE_PKTMBUF_POOL_F_PINNED_EXT_BUF :: u32 where "RTE_PKTMBUF_POOL_F_PINNED_EXT_BUF = 1"
definition RTE_MBUF_PORT_INVALID :: u16 where "RTE_MBUF_PORT_INVALID = 0xffff"

definition RTE_MBUF_CLONED :: "mbuf_obj \<Rightarrow> bool" where
  "RTE_MBUF_CLONED m \<longleftrightarrow> mo_ol_flags m AND RTE_MBUF_F_INDIRECT \<noteq> 0"

definition RTE_MBUF_HAS_EXTBUF :: "mbuf_obj \<Rightarrow> bool" where
  "RTE_MBUF_HAS_EXTBUF m \<longleftrightarrow> mo_ol_flags m AND RTE_MBUF_F_EXTERNAL \<noteq> 0"

definition RTE_MBUF_OBJ_DIRECT :: "mbuf_obj \<Rightarrow> bool" where
  "RTE_MBUF_OBJ_DIRECT m \<longleftrightarrow> mo_ol_flags m AND (RTE_MBUF_F_INDIRECT OR RTE_MBUF_F_EXTERNAL) = 0"

definition RTE_MBUF_HAS_PINNED_EXTBUF :: "mbuf_mem \<Rightarrow> bool" where
  "RTE_MBUF_HAS_PINNED_EXTBUF s \<longleftrightarrow> mm_priv_flags s AND RTE_PKTMBUF_POOL_F_PINNED_EXT_BUF \<noteq> 0"

definition upd_mbuf :: "u64 \<Rightarrow> (mbuf_obj \<Rightarrow> mbuf_obj) \<Rightarrow> mbuf_mem \<Rightarrow> mbuf_mem" where
  "upd_mbuf a f s = s\<lparr>mm_mbuf := (mm_mbuf s)(a := f (mm_mbuf s a))\<rparr>"

section \<open>Reference counts\<close>

definition rte_mbuf_refcnt_set :: "u64 \<Rightarrow> u16 \<Rightarrow> mbuf_mem \<Rightarrow> mbuf_mem" where
  "rte_mbuf_refcnt_set a v s = upd_mbuf a (\<lambda>m. m\<lparr>mo_refcnt := v\<rparr>) s"

definition rte_mbuf_refcnt_add :: "u64 \<Rightarrow> u16 \<Rightarrow> mbuf_mem \<Rightarrow> u16 \<times> mbuf_mem" where
  "rte_mbuf_refcnt_add a v s =
     (let s = upd_mbuf a (\<lambda>m. m\<lparr>mo_refcnt := mo_refcnt m + v\<rparr>) s in (mo_refcnt (mm_mbuf s a), s))"

definition rte_mbuf_refcnt_update :: "u64 \<Rightarrow> u16 \<Rightarrow> mbuf_mem \<Rightarrow> u16 \<times> mbuf_mem" where
  "rte_mbuf_refcnt_update a v s =
     (if mo_refcnt (mm_mbuf s a) = 1 then (v + 1, rte_mbuf_refcnt_set a (v + 1) s) else rte_mbuf_refcnt_add a v s)"

definition rte_mbuf_ext_refcnt_set :: "u64 \<Rightarrow> u16 \<Rightarrow> mbuf_mem \<Rightarrow> mbuf_mem" where
  "rte_mbuf_ext_refcnt_set x v s = s\<lparr>mm_shinfo := (mm_shinfo s)(x := v)\<rparr>"

definition rte_mbuf_ext_refcnt_update :: "u64 \<Rightarrow> u16 \<Rightarrow> mbuf_mem \<Rightarrow> u16 \<times> mbuf_mem" where
  "rte_mbuf_ext_refcnt_update x v s =
     (if mm_shinfo s x = 1 then (v + 1, rte_mbuf_ext_refcnt_set x (v + 1) s)
      else let v = mm_shinfo s x + v in (v, rte_mbuf_ext_refcnt_set x v s))"

section \<open>Allocation\<close>

text \<open>The null pointer is 0.\<close>

definition rte_mbuf_raw_alloc :: "nat \<Rightarrow> mbuf_mem \<Rightarrow> (u64 \<times> mbuf_mem) option" where
  "rte_mbuf_raw_alloc lcore s = do {
     (ret, objs, mp) \<leftarrow> rte_mempool_get lcore (mm_pool s);
     if ret < 0 then Some (0, s\<lparr>mm_pool := mp\<rparr>)
     else case objs of [] \<Rightarrow> None | m # _ \<Rightarrow> Some (m, s\<lparr>mm_pool := mp\<rparr>) }"

definition rte_mbuf_raw_free :: "nat \<Rightarrow> u64 \<Rightarrow> mbuf_mem \<Rightarrow> mbuf_mem option" where
  "rte_mbuf_raw_free lcore m s = map_option (\<lambda>mp. s\<lparr>mm_pool := mp\<rparr>) (rte_mempool_put lcore (mm_pool s) m)"

definition reset_data_off :: "mbuf_obj \<Rightarrow> mbuf_obj" where
  "reset_data_off m = m\<lparr>mo_data_off := min RTE_PKTMBUF_HEADROOM (mo_buf_len m)\<rparr>"

definition rte_pktmbuf_reset :: "u64 \<Rightarrow> mbuf_mem \<Rightarrow> mbuf_mem" where
  "rte_pktmbuf_reset a = upd_mbuf a (\<lambda>m. (reset_data_off (m\<lparr>mo_next := 0, mo_pkt_len := 0, mo_tx_offload := 0,
     mo_vlan_tci := 0, mo_vlan_tci_outer := 0, mo_nb_segs := 1, mo_port := RTE_MBUF_PORT_INVALID,
     mo_ol_flags := mo_ol_flags m AND RTE_MBUF_F_EXTERNAL, mo_packet_type := 0\<rparr>))\<lparr>mo_data_len := 0\<rparr>)"

definition rte_pktmbuf_alloc :: "nat \<Rightarrow> mbuf_mem \<Rightarrow> (u64 \<times> mbuf_mem) option" where
  "rte_pktmbuf_alloc lcore s = do {
     (m, s) \<leftarrow> rte_mbuf_raw_alloc lcore s;
     Some (m, if m \<noteq> 0 then rte_pktmbuf_reset m s else s) }"

definition rte_pktmbuf_alloc_bulk :: "nat \<Rightarrow> u32 \<Rightarrow> mbuf_mem \<Rightarrow> (int \<times> u64 list \<times> mbuf_mem) option" where
  "rte_pktmbuf_alloc_bulk lcore num s = do {
     (rc, mbufs, mp) \<leftarrow> rte_mempool_get_bulk False lcore (mm_pool s) num;
     let s = s\<lparr>mm_pool := mp\<rparr>;
     Some (rc, mbufs, if rc \<noteq> 0 then s else fold rte_pktmbuf_reset mbufs s) }"

section \<open>Attachment\<close>

definition rte_mbuf_from_indirect :: "mbuf_obj \<Rightarrow> u64" where
  "rte_mbuf_from_indirect mi = mo_buf_addr mi - (SIZEOF_MBUF + ucast (mo_priv_size mi))"

definition rte_pktmbuf_attach_extbuf :: "u64 \<Rightarrow> u64 \<Rightarrow> u16 \<Rightarrow> u64 \<Rightarrow> mbuf_mem \<Rightarrow> mbuf_mem" where
  "rte_pktmbuf_attach_extbuf a addr len shinfo =
     upd_mbuf a (\<lambda>m. m\<lparr>mo_buf_addr := addr, mo_buf_len := len, mo_data_len := 0, mo_data_off := 0,
       mo_ol_flags := mo_ol_flags m OR RTE_MBUF_F_EXTERNAL, mo_shinfo := shinfo\<rparr>)"

definition rte_pktmbuf_copy_hdr :: "mbuf_obj \<Rightarrow> mbuf_obj \<Rightarrow> mbuf_obj" where
  "rte_pktmbuf_copy_hdr mdst msrc = mdst\<lparr>mo_port := mo_port msrc, mo_vlan_tci := mo_vlan_tci msrc,
     mo_vlan_tci_outer := mo_vlan_tci_outer msrc, mo_tx_offload := mo_tx_offload msrc, mo_hash := mo_hash msrc,
     mo_packet_type := mo_packet_type msrc, mo_dynfield1 := mo_dynfield1 msrc\<rparr>"

definition rte_pktmbuf_attach :: "u64 \<Rightarrow> u64 \<Rightarrow> mbuf_mem \<Rightarrow> mbuf_mem" where
  "rte_pktmbuf_attach mi m s =
     (let s = (if RTE_MBUF_HAS_EXTBUF (mm_mbuf s m) then
            let s = snd (rte_mbuf_ext_refcnt_update (mo_shinfo (mm_mbuf s m)) 1 s)
            in upd_mbuf mi (\<lambda>o'. o'\<lparr>mo_ol_flags := mo_ol_flags (mm_mbuf s m), mo_shinfo := mo_shinfo (mm_mbuf s m)\<rparr>) s
          else
            let s = snd (rte_mbuf_refcnt_update (rte_mbuf_from_indirect (mm_mbuf s m)) 1 s)
            in upd_mbuf mi (\<lambda>o'. o'\<lparr>mo_priv_size := mo_priv_size (mm_mbuf s m),
                 mo_ol_flags := mo_ol_flags (mm_mbuf s m) OR RTE_MBUF_F_INDIRECT\<rparr>) s);
          s = upd_mbuf mi (\<lambda>o'. rte_pktmbuf_copy_hdr o' (mm_mbuf s m)) s;
          msrc = mm_mbuf s m
      in upd_mbuf mi (\<lambda>o'. o'\<lparr>mo_data_off := mo_data_off msrc, mo_data_len := mo_data_len msrc,
           mo_buf_addr := mo_buf_addr msrc, mo_buf_len := mo_buf_len msrc, mo_next := 0,
           mo_pkt_len := ucast (mo_data_len msrc), mo_nb_segs := 1\<rparr>) s)"

definition rte_pktmbuf_free_extbuf :: "u64 \<Rightarrow> mbuf_mem \<Rightarrow> mbuf_mem" where
  "rte_pktmbuf_free_extbuf m s =
     (let x = mo_shinfo (mm_mbuf s m); (cnt, s) = rte_mbuf_ext_refcnt_update x (- 1) s
      in if cnt = 0 then s\<lparr>mm_freed := mm_freed s @ [(mo_buf_addr (mm_mbuf s m), x)]\<rparr> else s)"

definition rte_pktmbuf_free_direct :: "nat \<Rightarrow> u64 \<Rightarrow> mbuf_mem \<Rightarrow> mbuf_mem option" where
  "rte_pktmbuf_free_direct lcore m s =
     (let md = rte_mbuf_from_indirect (mm_mbuf s m); (cnt, s) = rte_mbuf_refcnt_update md (- 1) s
      in if cnt = 0
         then rte_mbuf_raw_free lcore md (rte_mbuf_refcnt_set md 1 (upd_mbuf md (\<lambda>o'. o'\<lparr>mo_next := 0, mo_nb_segs := 1\<rparr>) s))
         else Some s)"

definition rte_pktmbuf_detach :: "nat \<Rightarrow> u64 \<Rightarrow> mbuf_mem \<Rightarrow> mbuf_mem option" where
  "rte_pktmbuf_detach lcore m s =
     (if RTE_MBUF_HAS_EXTBUF (mm_mbuf s m) \<and> RTE_MBUF_HAS_PINNED_EXTBUF s then Some s
      else do {
        s \<leftarrow> (if RTE_MBUF_HAS_EXTBUF (mm_mbuf s m) then Some (rte_pktmbuf_free_extbuf m s) else rte_pktmbuf_free_direct lcore m s);
        Some (upd_mbuf m (\<lambda>o'. (reset_data_off (o'\<lparr>mo_priv_size := mm_priv_size s,
          mo_buf_addr := m + (SIZEOF_MBUF + ucast (mm_priv_size s)), mo_buf_len := mm_data_room s\<rparr>))
            \<lparr>mo_data_len := 0, mo_ol_flags := 0\<rparr>) s) })"

definition rte_pktmbuf_pinned_extbuf_decref :: "u64 \<Rightarrow> mbuf_mem \<Rightarrow> bool \<times> mbuf_mem" where
  "rte_pktmbuf_pinned_extbuf_decref m s =
     (let s = upd_mbuf m (\<lambda>o'. o'\<lparr>mo_ol_flags := RTE_MBUF_F_EXTERNAL\<rparr>) s; x = mo_shinfo (mm_mbuf s m) in
      if mm_shinfo s x = 1 then (False, s)
      else let s = rte_mbuf_ext_refcnt_set x (mm_shinfo s x - 1) s in
        if mm_shinfo s x \<noteq> 0 then (True, s) else (False, rte_mbuf_ext_refcnt_set x 1 s))"

section \<open>Release\<close>

text \<open>The mbuf if the last reference is gone, else null.\<close>

definition unlink_seg :: "nat \<Rightarrow> u64 \<Rightarrow> mbuf_mem \<Rightarrow> (bool \<times> mbuf_mem) option" where
  "unlink_seg lcore m s = do {
     (pinned, s) \<leftarrow> (if RTE_MBUF_OBJ_DIRECT (mm_mbuf s m) then Some (False, s)
       else do {
         s \<leftarrow> rte_pktmbuf_detach lcore m s;
         if RTE_MBUF_HAS_EXTBUF (mm_mbuf s m) \<and> RTE_MBUF_HAS_PINNED_EXTBUF s then Some (rte_pktmbuf_pinned_extbuf_decref m s)
         else Some (False, s) });
     Some (if pinned then (False, s) else (True, upd_mbuf m (\<lambda>o'. o'\<lparr>mo_next := 0, mo_nb_segs := 1\<rparr>) s)) }"

definition rte_pktmbuf_prefree_seg :: "nat \<Rightarrow> u64 \<Rightarrow> mbuf_mem \<Rightarrow> (u64 \<times> mbuf_mem) option" where
  "rte_pktmbuf_prefree_seg lcore m s =
     (if mo_refcnt (mm_mbuf s m) = 1 then do {
        (last, s) \<leftarrow> unlink_seg lcore m s;
        Some (if last then m else 0, s) }
      else let (cnt, s) = rte_mbuf_refcnt_add m (- 1) s in
        if cnt = 0 then do {
          (last, s) \<leftarrow> unlink_seg lcore m s;
          Some (if last then (m, rte_mbuf_refcnt_set m 1 s) else (0, s)) }
        else Some (0, s))"

definition rte_pktmbuf_free_seg :: "nat \<Rightarrow> u64 \<Rightarrow> mbuf_mem \<Rightarrow> mbuf_mem option" where
  "rte_pktmbuf_free_seg lcore m s = do {
     (m, s) \<leftarrow> rte_pktmbuf_prefree_seg lcore m s;
     if m \<noteq> 0 then rte_mbuf_raw_free lcore m s else Some s }"

partial_function (option) rte_pktmbuf_free :: "nat \<Rightarrow> u64 \<Rightarrow> mbuf_mem \<Rightarrow> mbuf_mem option" where
  [code]: "rte_pktmbuf_free lcore m s =
     (if m \<noteq> 0 then
        let m_next = mo_next (mm_mbuf s m) in do {
          s \<leftarrow> rte_pktmbuf_free_seg lcore m s;
          rte_pktmbuf_free lcore m_next s }
      else Some s)"

section \<open>Clones\<close>

text \<open>The loop of \<^verbatim>\<open>rte_pktmbuf_clone\<close>; \<open>prev\<close> is the mbuf whose \<^verbatim>\<open>next\<close> field is to be written. The result is the last
  \<open>mi\<close> (null when an allocation failed), \<open>prev\<close> and the number of segments.\<close>

partial_function (option) clone_loop :: "nat \<Rightarrow> u64 \<Rightarrow> u64 \<Rightarrow> u64 \<Rightarrow> u16 \<Rightarrow> mbuf_mem \<Rightarrow> (u64 \<times> u64 \<times> u16 \<times> mbuf_mem) option" where
  [code]: "clone_loop lcore mi prev md nseg s =
     (let nseg = nseg + 1;
          s = rte_pktmbuf_attach mi md s;
          s = upd_mbuf prev (\<lambda>o'. o'\<lparr>mo_next := mi\<rparr>) s;
          prev = mi;
          md = mo_next (mm_mbuf s md)
      in if md = 0 then Some (mi, prev, nseg, s)
         else do {
           (mi, s) \<leftarrow> rte_pktmbuf_alloc lcore s;
           if mi = 0 then Some (0, prev, nseg, s) else clone_loop lcore mi prev md nseg s })"

definition rte_pktmbuf_clone :: "nat \<Rightarrow> u64 \<Rightarrow> mbuf_mem \<Rightarrow> (u64 \<times> mbuf_mem) option" where
  "rte_pktmbuf_clone lcore md s = do {
     (mc, s) \<leftarrow> rte_pktmbuf_alloc lcore s;
     if mc = 0 then Some (0, s)
     else let pktlen = mo_pkt_len (mm_mbuf s md) in do {
       (mi, prev, nseg, s) \<leftarrow> clone_loop lcore mc mc md 0 s;
       let s = upd_mbuf prev (\<lambda>o'. o'\<lparr>mo_next := 0\<rparr>) s;
       let s = upd_mbuf mc (\<lambda>o'. o'\<lparr>mo_nb_segs := nseg, mo_pkt_len := pktlen\<rparr>) s;
       if mi = 0 then do { s \<leftarrow> rte_pktmbuf_free lcore mc s; Some (0, s) } else Some (mc, s) } }"

end
