(* ===== verification/RteMempoolFacts.thy ===== *)
theory RteMempoolFacts
  imports RteMempool
begin

text \<open>
  A pool neither loses nor makes objects: the ring behind it as a list of pointers, what the caches hold, and
  the multiset of both under get, put and flush of any lcore.
\<close>

section \<open>Pointers as words\<close>

lemma ptr_halves: "ucast (ucast x :: u32) OR push_bit 32 (ucast (ucast (drop_bit 32 x) :: u32)) = (x :: u64)"
  by (rule bit_word_eqI) (auto simp: bit_simps)

lemma words_ptrs_words [simp]: "words_ptrs (ptrs_words xs) = xs"
  by (induction xs) (simp_all add: ptrs_words_def ptr_words_def ptr_halves)

lemma length_ptrs_words [simp]: "length (ptrs_words xs) = length xs * 2"
  by (induction xs) (simp_all add: ptrs_words_def ptr_words_def)

lemma words_ptrs_append: "even (length a) \<Longrightarrow> words_ptrs (a @ b) = words_ptrs a @ words_ptrs b"
  by (induction a rule: words_ptrs.induct) simp_all

lemma length_words_ptrs: "length (words_ptrs ws) = length ws div 2"
  by (induction ws rule: words_ptrs.induct) simp_all

lemma concat_elems:
  assumes "k * w \<le> length ws"
  shows "concat (elems w ws k) = take (k * w) ws"
  using assms
proof (induction k)
  case (Suc k)
  then show ?case by (simp add: elems_def elem_at_def take_add [symmetric] add.commute)
qed (simp add: elems_def)

section \<open>The backend\<close>

definition backend_objs :: "rte_mempool \<Rightarrow> u64 list" where
  "backend_objs mp = words_ptrs (concat (contents 2 (mp_data mp)))"

lemma contents_pairs:
  assumes "ring_ok w r" "e \<in> set (contents w r)"
  shows "length e = w"
proof -
  have pos: "0 < unat (r_size r)" "length (r_mem r) = unat (r_size r) * w"
    using assms(1) ring_shape_pos by (simp_all add: ring_ok_def)
  obtain j where j: "e = elem_at w (r_mem r) (j mod unat (r_size r))" using assms(2) by (auto simp: contents_def)
  have "(j mod unat (r_size r) + 1) * w \<le> unat (r_size r) * w" using pos(1) by (intro mult_le_mono1) (simp add: Suc_le_eq)
  then show ?thesis using j pos(2) by (simp add: elem_at_def)
qed

lemma length_concat_pairs: "\<forall>e \<in> set es. length e = 2 \<Longrightarrow> length (concat es) = 2 * length es"
  by (induction es) simp_all

lemma length_backend:
  assumes "ring_ok 2 (mp_data mp)"
  shows "length (backend_objs mp) = unat (ring_used (mp_data mp))"
  using contents_pairs [OF assms] by (simp add: backend_objs_def length_words_ptrs length_concat_pairs)

lemma ring_pool_enqueued:
  "ring_ok 2 r \<Longrightarrow> unat n * 2 \<le> length obj \<Longrightarrow> enqueued 2 r obj n RTE_RING_QUEUE_FIXED (ring_pool_enqueue ops r obj n)"
  by (cases ops) (auto simp: ring_pool_enqueue_def intro!: rts_mode.enq hts_mode.enq mp_mode.enq)

lemma ring_pool_dequeued:
  "ring_ok 2 r \<Longrightarrow> unat n * 2 \<le> length obj \<Longrightarrow> dequeued 2 r obj n RTE_RING_QUEUE_FIXED (ring_pool_dequeue ops r obj n)"
  by (cases ops) (auto simp: ring_pool_dequeue_def intro!: rts_mode.deq hts_mode.deq mp_mode.deq)

lemma enqueue_bulk:
  assumes ok: "ring_ok 2 (mp_data mp)" and xs: "xs \<noteq> []" "length (backend_objs mp) + length xs \<le> unat (r_capacity (mp_data mp))"
  shows "\<exists>r. rte_mempool_ops_enqueue_bulk mp xs = Some (0, mp\<lparr>mp_data := r\<rparr>) \<and> ring_ok 2 r \<and>
    r_capacity r = r_capacity (mp_data mp) \<and> backend_objs (mp\<lparr>mp_data := r\<rparr>) = backend_objs mp @ xs"
proof -
  let ?r = "mp_data mp" and ?n = "of_nat (length xs) :: u32" and ?obj = "ptrs_words xs"
  have "length xs < 4294967296" using xs(2) unat_less_32 [of "r_capacity ?r"] by linarith
  then have n: "unat ?n = length xs" by (simp add: unat_of_nat)
  then have n0: "?n \<noteq> 0" using xs(1) by (metis length_0_conv unat_0)
  have room: "\<not> ?n > r_capacity ?r - ring_used ?r"
    using xs(2) by (simp add: word_less_nat_alt n ring_ok_room [OF ok] length_backend [OF ok])
  have "enqueued 2 ?r ?obj ?n RTE_RING_QUEUE_FIXED (ring_pool_enqueue (mp_ops mp) ?r ?obj ?n)"
    using ok n by (intro ring_pool_enqueued) simp_all
  then obtain r where r: "rte_mempool_ops_enqueue_bulk mp xs = Some (0, mp\<lparr>mp_data := r\<rparr>)" "ring_ok 2 r"
    "r_capacity r = r_capacity ?r" "contents 2 r = contents 2 ?r @ elems 2 ?obj (length xs)"
    using n0 room n by (auto simp: enqueued_def ring_room_def rte_mempool_ops_enqueue_bulk_def Let_def)
  have "even (length (concat (contents 2 ?r)))" using contents_pairs [OF ok] by (simp add: length_concat_pairs)
  then have "backend_objs (mp\<lparr>mp_data := r\<rparr>) = backend_objs mp @ xs"
    by (simp add: backend_objs_def r(4) words_ptrs_append concat_elems)
  then show ?thesis using r by blast
qed

lemma dequeue_bulk:
  assumes ok: "ring_ok 2 (mp_data mp)" and n: "0 < n"
  defines "q \<equiv> backend_objs mp"
  shows "\<exists>ys r. rte_mempool_ops_dequeue_bulk mp n = Some (if unat n \<le> length q then 0 else - ENOBUFS, ys, mp\<lparr>mp_data := r\<rparr>) \<and>
    ring_ok 2 r \<and> r_capacity r = r_capacity (mp_data mp) \<and>
    (if unat n \<le> length q then ys = take (unat n) q \<and> backend_objs (mp\<lparr>mp_data := r\<rparr>) = drop (unat n) q
     else backend_objs (mp\<lparr>mp_data := r\<rparr>) = q)"
proof -
  let ?r = "mp_data mp" and ?obj = "replicate (unat n * 2) (0 :: u32)"
  let ?k = "ring_room RTE_RING_QUEUE_FIXED (ring_used ?r) n"
  have len: "length q = unat (ring_used ?r)" unfolding q_def by (rule length_backend [OF ok])
  have k: "?k = (if unat n \<le> length q then n else 0)" by (simp add: ring_room_def len word_less_nat_alt not_le [symmetric])
  have "dequeued 2 ?r ?obj n RTE_RING_QUEUE_FIXED (ring_pool_dequeue (mp_ops mp) ?r ?obj n)"
    using ok by (intro ring_pool_dequeued) simp_all
  then obtain obj r where r: "rte_mempool_ops_dequeue_bulk mp n = Some (if ?k = 0 then - ENOBUFS else 0, words_ptrs obj, mp\<lparr>mp_data := r\<rparr>)"
    "ring_ok 2 r" "r_capacity r = r_capacity ?r" "contents 2 ?r = elems 2 obj (unat ?k) @ contents 2 r" "length obj = unat n * 2"
    by (auto simp: dequeued_def rte_mempool_ops_dequeue_bulk_def Let_def)
  have q: "q = words_ptrs (concat (elems 2 obj (unat ?k))) @ backend_objs (mp\<lparr>mp_data := r\<rparr>)"
  proof -
    have "concat (elems 2 obj (unat ?k)) = take (unat ?k * 2) obj" using r(5) k by (intro concat_elems) simp
    then have "even (length (concat (elems 2 obj (unat ?k))))" using r(5) k by simp
    then show ?thesis unfolding q_def backend_objs_def by (simp add: r(4) words_ptrs_append)
  qed
  show ?thesis
  proof (cases "unat n \<le> length q")
    case True
    then have kn: "?k = n" "?k \<noteq> 0" using k n by simp_all
    have split: "q = words_ptrs obj @ backend_objs (mp\<lparr>mp_data := r\<rparr>)" using q kn(1) r(5) by (simp add: concat_elems)
    have "length (words_ptrs obj) = unat n" using r(5) by (simp add: length_words_ptrs)
    then have "words_ptrs obj = take (unat n) q" "backend_objs (mp\<lparr>mp_data := r\<rparr>) = drop (unat n) q"
      unfolding split by simp_all
    then show ?thesis using True r(1-3) kn(2) by (intro exI [of _ "words_ptrs obj"] exI [of _ r]) simp
  next
    case False
    then have k0: "?k = 0" using k by simp
    then have "backend_objs (mp\<lparr>mp_data := r\<rparr>) = q" using q by (simp add: elems_def)
    then show ?thesis using False r(1-3) k0 by (intro exI [of _ "words_ptrs obj"] exI [of _ r]) simp
  qed
qed

section \<open>The caches\<close>

definition pool_cache_ok :: "u32 \<Rightarrow> mempool_cache \<Rightarrow> bool" where
  "pool_cache_ok sz c \<longleftrightarrow> ca_size c = sz \<and> ca_flushthresh c = CALC_CACHE_FLUSHTHRESH sz \<and> ca_len c \<le> ca_flushthresh c \<and>
     length (ca_objs c) = unat RTE_MEMPOOL_CACHE_MAX_SIZE * 2"

definition mempool_ok :: "rte_mempool \<Rightarrow> bool" where
  "mempool_ok mp \<longleftrightarrow> ring_ok 2 (mp_data mp) \<and> mp_cache_size mp \<le> RTE_MEMPOOL_CACHE_MAX_SIZE \<and>
     (\<forall>l<RTE_MAX_LCORE. pool_cache_ok (mp_cache_size mp) (mp_cache mp l))"

definition cached_by :: "(nat \<Rightarrow> mempool_cache) \<Rightarrow> u64 multiset" where
  "cached_by ca = (\<Sum>l<RTE_MAX_LCORE. mset (cached (ca l)))"

definition available :: "rte_mempool \<Rightarrow> u64 multiset" where
  "available mp = mset (backend_objs mp) + (if mp_cache_size mp = 0 then {#} else cached_by (mp_cache mp))"

lemma cached_by_upd:
  assumes "l < RTE_MAX_LCORE"
  shows "cached_by (ca(l := c)) + mset (cached (ca l)) = cached_by ca + mset (cached c)"
proof -
  have "(\<Sum>k\<in>{..<RTE_MAX_LCORE} - {l}. mset (cached ((ca(l := c)) k))) = (\<Sum>k\<in>{..<RTE_MAX_LCORE} - {l}. mset (cached (ca k)))"
    by (intro sum.cong) auto
  then show ?thesis
    unfolding cached_by_def using assms
    by (simp add: sum.remove [of "{..<RTE_MAX_LCORE}" l] del: fun_upd_apply) (simp add: ac_simps)
qed

lemma cached_by_ge: "l < RTE_MAX_LCORE \<Longrightarrow> mset (cached (ca l)) \<subseteq># cached_by ca"
  using sum.remove [of "{..<RTE_MAX_LCORE}" l "\<lambda>l. mset (cached (ca l))"] by (simp add: cached_by_def)

lemma flushthresh:
  assumes "sz \<le> RTE_MEMPOOL_CACHE_MAX_SIZE"
  shows "unat (CALC_CACHE_FLUSHTHRESH sz) = unat sz * 3 div 2" "unat sz \<le> 512"
proof -
  show "unat sz \<le> 512" using assms by (simp add: word_le_nat_alt RTE_MEMPOOL_CACHE_MAX_SIZE_def)
  then show "unat (CALC_CACHE_FLUSHTHRESH sz) = unat sz * 3 div 2" by (simp add: CALC_CACHE_FLUSHTHRESH_def unat_of_nat)
qed

lemma pool_cache_okD:
  assumes "pool_cache_ok sz c" "sz \<le> RTE_MEMPOOL_CACHE_MAX_SIZE"
  shows "unat (ca_flushthresh c) \<le> 768" "unat (ca_len c) \<le> unat (ca_flushthresh c)" "length (ca_objs c) = 1024"
    "unat (ca_size c) \<le> unat (ca_flushthresh c)" "unat (ca_size c) \<le> 512" "length (cached c) = unat (ca_len c)"
proof -
  have c: "ca_size c = sz" "ca_flushthresh c = CALC_CACHE_FLUSHTHRESH sz" "ca_len c \<le> ca_flushthresh c" "length (ca_objs c) = 1024"
    using assms(1) by (auto simp: pool_cache_ok_def RTE_MEMPOOL_CACHE_MAX_SIZE_def)
  show 1: "unat (ca_flushthresh c) \<le> 768" and "unat (ca_size c) \<le> unat (ca_flushthresh c)" and "unat (ca_size c) \<le> 512"
    using flushthresh [OF assms(2)] c(1,2) by simp_all
  show 2: "unat (ca_len c) \<le> unat (ca_flushthresh c)" using c(3) by (simp add: word_le_nat_alt)
  show "length (ca_objs c) = 1024" by (rule c(4))
  show "length (cached c) = unat (ca_len c)" using 1 2 c(4) by (simp add: cached_def)
qed

lemma put_objs_Some:
  assumes "i + length xs \<le> length objs"
  shows "\<exists>objs'. put_objs objs i xs = Some objs' \<and> length objs' = length objs \<and> take (i + length xs) objs' = take i objs @ xs"
  using assms by (simp add: put_objs_def)

lemma pop_objs_Some:
  assumes "k \<le> len" "len \<le> length objs"
  shows "\<exists>ys. pop_objs objs len k = Some ys \<and> length ys = k \<and> mset (take len objs) = mset (take (len - k) objs) + mset ys"
proof -
  have "take len objs = take (len - k) objs @ drop (len - k) (take len objs)"
    using append_take_drop_id [of "len - k" "take len objs"] assms(1) by (simp add: min_absorb1)
  then have "mset (take len objs) = mset (take (len - k) objs) + mset (drop (len - k) (take len objs))"
    by (metis mset_append)
  then show ?thesis using assms by (simp add: pop_objs_def)
qed

lemma mempool_ok_set_cache:
  "mempool_ok mp \<Longrightarrow> pool_cache_ok (mp_cache_size mp) c \<Longrightarrow> mempool_ok (set_cache l c mp)"
  by (simp add: mempool_ok_def set_cache_def)

lemma mempool_ok_data: "mempool_ok mp \<Longrightarrow> ring_ok 2 r \<Longrightarrow> mempool_ok (mp\<lparr>mp_data := r\<rparr>)"
  by (simp add: mempool_ok_def)

lemma default_cache:
  "rte_mempool_default_cache mp lcore = None \<or> rte_mempool_default_cache mp lcore = Some lcore \<and> mp_cache_size mp \<noteq> 0 \<and> lcore < RTE_MAX_LCORE"
  by (simp add: rte_mempool_default_cache_def)

lemma backend_set_cache [simp]: "backend_objs (set_cache l c mp) = backend_objs mp"
  by (simp add: backend_objs_def set_cache_def)

text \<open>Put: there is always room, because the ring has room for all objects of the pool.\<close>

lemma pool_enqueue:
  assumes ok: "mempool_ok mp" and xs: "xs \<noteq> []" "length (backend_objs mp) + length xs \<le> unat (r_capacity (mp_data mp))"
  shows "\<exists>mp'. rte_mempool_ops_enqueue_bulk mp xs = Some (0, mp') \<and> mempool_ok mp' \<and> mp_cache_size mp' = mp_cache_size mp \<and>
    mp_cache mp' = mp_cache mp \<and> r_capacity (mp_data mp') = r_capacity (mp_data mp) \<and> available mp' = available mp + mset xs"
proof -
  have "ring_ok 2 (mp_data mp)" using ok by (simp add: mempool_ok_def)
  from enqueue_bulk [OF this xs] obtain r where r: "rte_mempool_ops_enqueue_bulk mp xs = Some (0, mp\<lparr>mp_data := r\<rparr>)" "ring_ok 2 r"
    "r_capacity r = r_capacity (mp_data mp)" "backend_objs (mp\<lparr>mp_data := r\<rparr>) = backend_objs mp @ xs" by blast
  have "available (mp\<lparr>mp_data := r\<rparr>) = available mp + mset xs" by (simp add: available_def r(4))
  then show ?thesis using r(1,3) mempool_ok_data [OF ok r(2)] by simp
qed

lemma size_available: "length (backend_objs mp) \<le> size (available mp)"
  by (simp add: available_def)

lemma size_available_cached:
  "mp_cache_size mp \<noteq> 0 \<Longrightarrow> l < RTE_MAX_LCORE \<Longrightarrow> length (backend_objs mp) + length (cached (mp_cache mp l)) \<le> size (available mp)"
  using size_mset_mono [OF cached_by_ge [of l "mp_cache mp"]] by (simp add: available_def)

lemma available_set_cache:
  assumes "mp_cache_size mp \<noteq> 0" "l < RTE_MAX_LCORE"
  shows "available (set_cache l c mp) + mset (cached (mp_cache mp l)) = available mp + mset (cached c)"
  using cached_by_upd [OF assms(2), of "mp_cache mp" c] assms(1)
  by (simp add: available_def) (simp add: set_cache_def ac_simps)

lemma put_keeps:
  assumes ok: "mempool_ok mp" and xs: "xs \<noteq> []" "size (available mp) + length xs \<le> unat (r_capacity (mp_data mp))"
  shows "\<exists>mp'. rte_mempool_put_bulk lcore mp xs = Some mp' \<and> mempool_ok mp' \<and> mp_cache_size mp' = mp_cache_size mp \<and>
    r_capacity (mp_data mp') = r_capacity (mp_data mp) \<and> available mp' = available mp + mset xs"
proof -
  let ?n = "of_nat (length xs) :: u32"
  have direct: ?thesis if "rte_mempool_put_bulk lcore mp xs = map_option snd (rte_mempool_ops_enqueue_bulk mp xs)"
    using pool_enqueue [OF ok xs(1)] xs(2) size_available [of mp] that by force
  have "length xs < 4294967296" using xs(2) unat_less_32 [of "r_capacity (mp_data mp)"] by linarith
  then have n: "unat ?n = length xs" by (simp add: unat_of_nat)
  consider "rte_mempool_default_cache mp lcore = None"
    | (cache) "rte_mempool_default_cache mp lcore = Some lcore" "mp_cache_size mp \<noteq> 0" "lcore < RTE_MAX_LCORE"
    using default_cache [of mp lcore] by auto
  then show ?thesis
  proof cases
    case 1
    then show ?thesis by (intro direct) (simp add: rte_mempool_put_bulk_def rte_mempool_do_generic_put_def)
  next
    case cache
    let ?c = "mp_cache mp lcore"
    have cok: "pool_cache_ok (mp_cache_size mp) ?c" "mp_cache_size mp \<le> RTE_MEMPOOL_CACHE_MAX_SIZE" using ok cache(3) by (simp_all add: mempool_ok_def)
    note C = pool_cache_okD [OF cok]
    note put_def = rte_mempool_put_bulk_def rte_mempool_do_generic_put_def cache(1) Let_def
    show ?thesis
    proof (cases "?n > ca_flushthresh ?c")
      case True
      then show ?thesis by (intro direct) (simp add: put_def)
    next
      case False
      then have small: "length xs \<le> unat (ca_flushthresh ?c)" by (simp add: word_less_nat_alt n)
      have sum: "unat (ca_len ?c + ?n) = unat (ca_len ?c) + length xs"
        using C(1,2) small n by (subst unat_add_no_wrap) simp_all
      show ?thesis
      proof (cases "ca_len ?c + ?n \<le> ca_flushthresh ?c")
        case fits: True
        then have le: "unat (ca_len ?c) + length xs \<le> unat (ca_flushthresh ?c)" by (simp add: word_le_nat_alt sum)
        then obtain objs where objs: "put_objs (ca_objs ?c) (unat (ca_len ?c)) xs = Some objs" "length objs = 1024"
          "take (unat (ca_len ?c) + length xs) objs = cached ?c @ xs"
          using put_objs_Some [of "unat (ca_len ?c)" xs "ca_objs ?c"] C(1,3) by (auto simp: cached_def)
        let ?c' = "?c\<lparr>ca_len := ca_len ?c + ?n, ca_objs := objs\<rparr>"
        have "cached ?c' = cached ?c @ xs" by (simp add: cached_def sum objs(3) [unfolded cached_def])
        then have "available (set_cache lcore ?c' mp) = available mp + mset xs"
          using available_set_cache [OF cache(2,3), of ?c'] by simp
        moreover have "pool_cache_ok (mp_cache_size mp) ?c'"
          using cok(1) fits objs(2) by (simp add: pool_cache_ok_def RTE_MEMPOOL_CACHE_MAX_SIZE_def)
        ultimately show ?thesis using False fits objs(1) mempool_ok_set_cache [OF ok]
          by (auto simp: put_def set_cache_def)
      next
        case flush: False
        have "cached ?c \<noteq> []" using flush small C(6) by (auto simp: word_le_nat_alt sum)
        then obtain mp1 where mp1: "rte_mempool_ops_enqueue_bulk mp (cached ?c) = Some (0, mp1)" "mempool_ok mp1"
          "mp_cache_size mp1 = mp_cache_size mp" "mp_cache mp1 = mp_cache mp" "r_capacity (mp_data mp1) = r_capacity (mp_data mp)"
          "available mp1 = available mp + mset (cached ?c)"
          using pool_enqueue [OF ok, of "cached ?c"] size_available_cached [OF cache(2,3)] xs(2) by force
        obtain objs where objs: "put_objs (ca_objs ?c) 0 xs = Some objs" "length objs = 1024" "take (length xs) objs = xs"
          using put_objs_Some [of 0 xs "ca_objs ?c"] C(1,3) small by auto
        let ?c' = "?c\<lparr>ca_len := ?n, ca_objs := objs\<rparr>"
        have "cached ?c' = xs" by (simp add: cached_def n objs(3))
        then have "available (set_cache lcore ?c' mp1) = available mp + mset xs"
          using available_set_cache [of mp1 lcore ?c'] cache(2,3) mp1(3,4,6) by simp
        moreover have "pool_cache_ok (mp_cache_size mp1) ?c'"
          using cok(1) False objs(2) mp1(3) by (simp add: pool_cache_ok_def RTE_MEMPOOL_CACHE_MAX_SIZE_def)
        ultimately show ?thesis using False flush objs(1) mp1(1,3,5) mempool_ok_set_cache [OF mp1(2)]
          by (auto simp: put_def set_cache_def)
      qed
    qed
  qed
qed

text \<open>Get: all or nothing.\<close>

lemma pool_dequeue:
  assumes ok: "mempool_ok mp" and n: "0 < n"
  shows "\<exists>ret ys mp'. rte_mempool_ops_dequeue_bulk mp n = Some (ret, ys, mp') \<and> mempool_ok mp' \<and> mp_cache_size mp' = mp_cache_size mp \<and>
    mp_cache mp' = mp_cache mp \<and> r_capacity (mp_data mp') = r_capacity (mp_data mp) \<and>
    (ret = 0 \<and> length ys = unat n \<and> available mp = mset ys + available mp' \<or> ret = - ENOBUFS \<and> available mp' = available mp)"
proof -
  have "ring_ok 2 (mp_data mp)" using ok by (simp add: mempool_ok_def)
  from dequeue_bulk [OF this n] obtain ys r where
    r: "rte_mempool_ops_dequeue_bulk mp n = Some (if unat n \<le> length (backend_objs mp) then 0 else - ENOBUFS, ys, mp\<lparr>mp_data := r\<rparr>)"
    "ring_ok 2 r" "r_capacity r = r_capacity (mp_data mp)"
    "if unat n \<le> length (backend_objs mp) then ys = take (unat n) (backend_objs mp) \<and> backend_objs (mp\<lparr>mp_data := r\<rparr>) = drop (unat n) (backend_objs mp)
     else backend_objs (mp\<lparr>mp_data := r\<rparr>) = backend_objs mp" by blast
  show ?thesis
  proof (cases "unat n \<le> length (backend_objs mp)")
    case True
    have "mset (backend_objs mp) = mset (take (unat n) (backend_objs mp)) + mset (drop (unat n) (backend_objs mp))"
      by (metis append_take_drop_id mset_append)
    then have "available mp = mset ys + available (mp\<lparr>mp_data := r\<rparr>)" using r(4) True by (simp add: available_def)
    then show ?thesis using r True mempool_ok_data [OF ok r(2)] by simp
  next
    case False
    then have "available (mp\<lparr>mp_data := r\<rparr>) = available mp" using r(4) by (simp add: available_def)
    then show ?thesis using r(1,3) False mempool_ok_data [OF ok r(2)] by simp
  qed
qed

definition got :: "rte_mempool \<Rightarrow> u32 \<Rightarrow> (int \<times> u64 list \<times> rte_mempool) option \<Rightarrow> bool" where
  "got mp n res \<longleftrightarrow> (\<exists>ret ys mp'. res = Some (ret, ys, mp') \<and> mempool_ok mp' \<and> mp_cache_size mp' = mp_cache_size mp \<and>
     r_capacity (mp_data mp') = r_capacity (mp_data mp) \<and>
     (ret = 0 \<and> length ys = unat n \<and> available mp = mset ys + available mp' \<or> ret = - ENOBUFS \<and> available mp' = available mp))"

lemma ENOBUFS_neg: "- ENOBUFS < 0"
  by (simp add: ENOBUFS_def)

lemma set_cache_sel [simp]:
  "mp_cache (set_cache l c mp) l = c" "mp_cache_size (set_cache l c mp) = mp_cache_size mp"
  "mp_data (set_cache l c mp) = mp_data mp" "set_cache l d (set_cache l c mp) = set_cache l d mp"
  by (simp_all add: set_cache_def)

text \<open>The cache is empty and its objects are in the table; the rest comes from the backend.\<close>

lemma driver_dequeue_got:
  assumes ok: "mempool_ok mp0" and l: "mp_cache_size mp0 \<noteq> 0" "l < RTE_MAX_LCORE"
    and c: "mp_cache mp0 l = c\<lparr>ca_len := 0\<rparr>" "pool_cache_ok (mp_cache_size mp0) c" "available mp0 + mset (cached c) = available mp"
    and taken: "mset taken = mset (cached c)" "length taken = unat (ca_len c)"
    and n: "n = ca_len c + remaining" "0 < remaining" "unat n = unat (ca_len c) + unat remaining"
    and same: "mp_cache_size mp0 = mp_cache_size mp" "r_capacity (mp_data mp0) = r_capacity (mp_data mp)"
  shows "got mp n (driver_dequeue mp0 n remaining taken (Some l))"
proof -
  obtain ret ys mp1 where d: "rte_mempool_ops_dequeue_bulk mp0 remaining = Some (ret, ys, mp1)" "mempool_ok mp1"
    "mp_cache_size mp1 = mp_cache_size mp0" "mp_cache mp1 = mp_cache mp0" "r_capacity (mp_data mp1) = r_capacity (mp_data mp0)"
    "ret = 0 \<and> length ys = unat remaining \<and> available mp0 = mset ys + available mp1 \<or> ret = - ENOBUFS \<and> available mp1 = available mp0"
    using pool_dequeue [OF ok n(2)] by blast
  from d(6) show ?thesis
  proof
    assume r: "ret = 0 \<and> length ys = unat remaining \<and> available mp0 = mset ys + available mp1"
    then have "available mp = mset (taken @ ys) + available mp1" using c(3) taken(1) by (simp add: ac_simps)
    then show ?thesis using d r taken(2) n(3) same by (simp add: got_def driver_dequeue_def)
  next
    assume r: "ret = - ENOBUFS \<and> available mp1 = available mp0"
    let ?c' = "c\<lparr>ca_len := 0\<rparr>\<lparr>ca_len := n - remaining\<rparr>"
    have c': "?c' = c" using n(1) by simp
    have "available (set_cache l c mp1) + mset (cached (c\<lparr>ca_len := 0\<rparr>)) = available mp1 + mset (cached c)"
      using available_set_cache [of mp1 l c] l d(3,4) c(1) by simp
    then have "available (set_cache l c mp1) = available mp" using r c(3) by (simp add: cached_def)
    moreover have "mempool_ok (set_cache l c mp1)" using mempool_ok_set_cache [OF d(2)] c(2) d(3) by simp
    ultimately show ?thesis using d r same c(1) c' ENOBUFS_neg by (simp add: got_def driver_dequeue_def)
  qed
qed

lemma cache_fill_got:
  assumes ok: "mempool_ok mp0" and l: "mp_cache_size mp0 \<noteq> 0" "l < RTE_MAX_LCORE"
    and c: "mp_cache mp0 l = c\<lparr>ca_len := 0\<rparr>" "pool_cache_ok (mp_cache_size mp0) c" "available mp0 + mset (cached c) = available mp"
    and taken: "mset taken = mset (cached c)" "length taken = unat (ca_len c)"
    and n: "n = ca_len c + remaining" "0 < remaining" "unat n = unat (ca_len c) + unat remaining"
    and same: "mp_cache_size mp0 = mp_cache_size mp" "r_capacity (mp_data mp0) = r_capacity (mp_data mp)"
    and small: "\<not> remaining > RTE_MEMPOOL_CACHE_MAX_SIZE"
  shows "got mp n (do {
      (ret, ys, mp) \<leftarrow> rte_mempool_ops_dequeue_bulk mp0 (ca_size c + remaining);
      if ret < 0 then driver_dequeue mp n remaining taken (Some l)
      else do {
        objs \<leftarrow> put_objs (ca_objs c) 0 ys;
        rest \<leftarrow> pop_objs objs (unat (ca_size c + remaining)) (unat remaining);
        Some (0, taken @ rest, set_cache l (c\<lparr>ca_len := ca_size c, ca_objs := objs\<rparr>) mp) } })"
proof -
  have sz: "mp_cache_size mp0 \<le> RTE_MEMPOOL_CACHE_MAX_SIZE" using ok by (simp add: mempool_ok_def)
  note C = pool_cache_okD [OF c(2) sz]
  have "unat remaining \<le> 512" using small by (simp add: word_less_nat_alt RTE_MEMPOOL_CACHE_MAX_SIZE_def)
  then have sum: "unat (ca_size c + remaining) = unat (ca_size c) + unat remaining" "unat (ca_size c) + unat remaining \<le> 1024"
    using C(5) by (simp_all add: unat_add_no_wrap)
  then have "0 < ca_size c + remaining" using n(2) by (simp add: word_less_nat_alt)
  from pool_dequeue [OF ok this] obtain ret ys mp1 where d:
    "rte_mempool_ops_dequeue_bulk mp0 (ca_size c + remaining) = Some (ret, ys, mp1)" "mempool_ok mp1"
    "mp_cache_size mp1 = mp_cache_size mp0" "mp_cache mp1 = mp_cache mp0" "r_capacity (mp_data mp1) = r_capacity (mp_data mp0)"
    "ret = 0 \<and> length ys = unat (ca_size c) + unat remaining \<and> available mp0 = mset ys + available mp1 \<or>
     ret = - ENOBUFS \<and> available mp1 = available mp0" unfolding sum by blast
  from d(6) show ?thesis
  proof
    assume r: "ret = 0 \<and> length ys = unat (ca_size c) + unat remaining \<and> available mp0 = mset ys + available mp1"
    then obtain objs where objs: "put_objs (ca_objs c) 0 ys = Some objs" "length objs = 1024" "take (length ys) objs = ys"
      using put_objs_Some [of 0 ys "ca_objs c"] sum(2) C(3) by auto
    obtain rest where rest: "pop_objs objs (unat (ca_size c + remaining)) (unat remaining) = Some rest" "length rest = unat remaining"
      "mset ys = mset (take (unat (ca_size c)) objs) + mset rest"
      using pop_objs_Some [of "unat remaining" "length ys" objs] objs(2,3) r sum by auto
    let ?c' = "c\<lparr>ca_len := ca_size c, ca_objs := objs\<rparr>"
    have "available (set_cache l ?c' mp1) = available mp1 + mset (take (unat (ca_size c)) objs)"
      using available_set_cache [of mp1 l ?c'] l d(3,4) c(1) by (simp add: cached_def)
    then have "available mp = mset (taken @ rest) + available (set_cache l ?c' mp1)"
      using c(3) taken(1) r rest(3) by (simp add: ac_simps)
    moreover have "mempool_ok (set_cache l ?c' mp1)"
      using mempool_ok_set_cache [OF d(2), of ?c' l] c(2) C(4) objs(2) d(3) by (simp add: pool_cache_ok_def word_le_nat_alt RTE_MEMPOOL_CACHE_MAX_SIZE_def)
    ultimately show ?thesis using d(1,3,5) r objs(1) rest(1,2) taken(2) n(3) same by (simp add: got_def)
  next
    assume r: "ret = - ENOBUFS \<and> available mp1 = available mp0"
    then have "got mp n (driver_dequeue mp1 n remaining taken (Some l))"
      using driver_dequeue_got [OF d(2) _ l(2) _ _ _ taken n] l(1) c d(3-5) same by simp
    then show ?thesis using d(1) r ENOBUFS_neg by simp
  qed
qed

lemma get_keeps:
  assumes ok: "mempool_ok mp" and n: "0 < n"
  shows "got mp n (rte_mempool_get_bulk const lcore mp n)"
proof -
  consider "rte_mempool_default_cache mp lcore = None"
    | (cache) "rte_mempool_default_cache mp lcore = Some lcore" "mp_cache_size mp \<noteq> 0" "lcore < RTE_MAX_LCORE"
    using default_cache [of mp lcore] by auto
  then show ?thesis
  proof cases
    case 1
    then show ?thesis using pool_dequeue [OF ok n]
      by (auto simp: got_def rte_mempool_get_bulk_def rte_mempool_do_generic_get_def driver_dequeue_def)
  next
    case cache
    let ?c = "mp_cache mp lcore"
    have cok: "pool_cache_ok (mp_cache_size mp) ?c" and sz: "mp_cache_size mp \<le> RTE_MEMPOOL_CACHE_MAX_SIZE"
      using ok cache(3) by (simp_all add: mempool_ok_def)
    note C = pool_cache_okD [OF cok sz]
    note get_def = rte_mempool_get_bulk_def rte_mempool_do_generic_get_def cache(1) option.case Let_def [of "mp_cache mp lcore"]
    have pop: "\<exists>ys. pop_objs (ca_objs ?c) (unat (ca_len ?c)) (unat k) = Some ys \<and> length ys = unat k \<and>
        available (set_cache lcore (?c\<lparr>ca_len := ca_len ?c - k\<rparr>) mp) + mset ys = available mp" if "k \<le> ca_len ?c" for k
    proof -
      have u: "unat (ca_len ?c - k) = unat (ca_len ?c) - unat k" using that by (rule unat_sub)
      have kC: "unat k \<le> unat (ca_len ?c)" "unat (ca_len ?c) \<le> length (ca_objs ?c)" using that C(1-3) by (simp_all add: word_le_nat_alt)
      obtain ys where ys: "pop_objs (ca_objs ?c) (unat (ca_len ?c)) (unat k) = Some ys" "length ys = unat k"
        "mset (cached ?c) = mset (take (unat (ca_len ?c) - unat k) (ca_objs ?c)) + mset ys"
        unfolding cached_def using pop_objs_Some [OF kC] by blast
      let ?c' = "?c\<lparr>ca_len := ca_len ?c - k\<rparr>"
      have "mset (cached ?c) = mset (cached ?c') + mset ys" using ys(3) by (simp add: cached_def u)
      then have "available (set_cache lcore ?c' mp) + mset ys = available mp"
        using available_set_cache [OF cache(2,3), of ?c'] by (simp add: ac_simps)
      then show ?thesis using ys(1,2) by blast
    qed
    have popped_ok: "mempool_ok (set_cache lcore (?c\<lparr>ca_len := ca_len ?c - k\<rparr>) mp)" if "k \<le> ca_len ?c" for k
    proof (rule mempool_ok_set_cache [OF ok])
      have "ca_len ?c - k \<le> ca_len ?c" using that by (simp add: word_le_nat_alt unat_sub)
      then show "pool_cache_ok (mp_cache_size mp) (?c\<lparr>ca_len := ca_len ?c - k\<rparr>)" using cok by (auto simp: pool_cache_ok_def)
    qed
    have hit: "got mp n (Some (0, ys, set_cache lcore (?c\<lparr>ca_len := ca_len ?c - n\<rparr>) mp))"
      if "n \<le> ca_len ?c" "length ys = unat n" "available (set_cache lcore (?c\<lparr>ca_len := ca_len ?c - n\<rparr>) mp) + mset ys = available mp" for ys
    proof -
      have "available mp = mset ys + available (set_cache lcore (?c\<lparr>ca_len := ca_len ?c - n\<rparr>) mp)"
        by (subst add.commute) (rule that(3) [symmetric])
      then show ?thesis using that(2) popped_ok [OF that(1)] by (simp add: got_def)
    qed
    show ?thesis
    proof (cases "n \<le> ca_len ?c")
      case True
      obtain ys where "pop_objs (ca_objs ?c) (unat (ca_len ?c)) (unat n) = Some ys" "length ys = unat n"
        "available (set_cache lcore (?c\<lparr>ca_len := ca_len ?c - n\<rparr>) mp) + mset ys = available mp" using pop [OF True] by blast
      then show ?thesis unfolding get_def using True hit [OF True] by (simp add: min_absorb1 Let_def)
    next
      case False
      let ?rem = "n - ca_len ?c" and ?mp0 = "set_cache lcore (?c\<lparr>ca_len := 0\<rparr>) mp"
      have len: "(if const then ca_len ?c else min n (ca_len ?c)) = ca_len ?c" using False by (simp add: min_def)
      obtain taken where t: "pop_objs (ca_objs ?c) (unat (ca_len ?c)) (unat (ca_len ?c)) = Some taken" "length taken = unat (ca_len ?c)"
        "available ?mp0 + mset taken = available mp" using pop [of "ca_len ?c"] by auto
      have mt: "available ?mp0 + mset (cached ?c) = available mp"
        using available_set_cache [OF cache(2,3), of "?c\<lparr>ca_len := 0\<rparr>"] by (simp add: cached_def)
      have "available ?mp0 + mset taken = available ?mp0 + mset (cached ?c)" by (simp only: t(3) mt)
      then have taken: "mset taken = mset (cached ?c)" by (simp only: add_left_cancel)
      have rem: "n = ca_len ?c + ?rem" "0 < ?rem" "unat n = unat (ca_len ?c) + unat ?rem"
        using False by (simp_all add: unat_sub word_less_nat_alt word_le_nat_alt)
      have ok0: "mempool_ok ?mp0" using popped_ok [of "ca_len ?c"] by simp
      note facts = ok0 _ cache(3) _ _ mt taken t(2) rem
      have drv: "got mp n (driver_dequeue ?mp0 n ?rem taken (Some lcore))"
        using driver_dequeue_got [OF facts] cache(2) cok by simp
      show ?thesis
      proof (cases "?rem > RTE_MEMPOOL_CACHE_MAX_SIZE")
        case True
        then show ?thesis unfolding get_def using False len t(1) rem(2) drv by (auto simp: Let_def)
      next
        case small: False
        note fill = cache_fill_got [OF facts _ _ small]
        have "n \<noteq> ca_len ?c" using False by auto
        then show ?thesis unfolding get_def using False len t(1) rem(2) small fill cache(2) cok
          by (simp add: Let_def cong: if_cong)
      qed
    qed
  qed
qed

lemma flush_keeps:
  assumes ok: "mempool_ok mp" and room: "size (available mp) \<le> unat (r_capacity (mp_data mp))"
  shows "\<exists>mp'. rte_mempool_cache_flush mp lcore = Some mp' \<and> mempool_ok mp' \<and> r_capacity (mp_data mp') = r_capacity (mp_data mp) \<and>
    available mp' = available mp"
proof -
  consider "rte_mempool_default_cache mp lcore = None"
    | (cache) "rte_mempool_default_cache mp lcore = Some lcore" "mp_cache_size mp \<noteq> 0" "lcore < RTE_MAX_LCORE"
    using default_cache [of mp lcore] by auto
  then show ?thesis
  proof cases
    case 1
    then show ?thesis using ok by (simp add: rte_mempool_cache_flush_def)
  next
    case cache
    let ?c = "mp_cache mp lcore" and ?c' = "(mp_cache mp lcore)\<lparr>ca_len := 0\<rparr>"
    have cok: "pool_cache_ok (mp_cache_size mp) ?c" and sz: "mp_cache_size mp \<le> RTE_MEMPOOL_CACHE_MAX_SIZE"
      using ok cache(3) by (simp_all add: mempool_ok_def)
    show ?thesis
    proof (cases "ca_len ?c = 0")
      case True
      then show ?thesis using ok cache(1) by (simp add: rte_mempool_cache_flush_def)
    next
      case False
      then have "cached ?c \<noteq> []" using pool_cache_okD(6) [OF cok sz] by (auto simp: unat_eq_zero)
      then obtain mp1 where mp1: "rte_mempool_ops_enqueue_bulk mp (cached ?c) = Some (0, mp1)" "mempool_ok mp1"
        "mp_cache_size mp1 = mp_cache_size mp" "mp_cache mp1 = mp_cache mp" "r_capacity (mp_data mp1) = r_capacity (mp_data mp)"
        "available mp1 = available mp + mset (cached ?c)"
        using pool_enqueue [OF ok, of "cached ?c"] size_available_cached [OF cache(2,3)] room by force
      have "available (set_cache lcore ?c' mp1) = available mp"
        using available_set_cache [of mp1 lcore ?c'] cache(2,3) mp1(3,4,6) by (simp add: cached_def)
      moreover have "mempool_ok (set_cache lcore ?c' mp1)"
        using mempool_ok_set_cache [OF mp1(2), of ?c'] cok mp1(3) by (simp add: pool_cache_ok_def)
      ultimately show ?thesis using False cache(1) mp1(1,5) by (simp add: rte_mempool_cache_flush_def Let_def)
    qed
  qed
qed

section \<open>Users of a pool\<close>

datatype pool_op = PGet bool nat u32 | PPut nat "u64 list" | PFlush nat

text \<open>Users on any lcores that put back only what they hold; asking for nothing or putting back nothing or what
  one does not hold is no step.\<close>

fun pool_run :: "pool_op list \<Rightarrow> rte_mempool \<times> u64 multiset \<Rightarrow> (rte_mempool \<times> u64 multiset) option" where
  "pool_run [] s = Some s"
| "pool_run (PGet const lcore n # ops) (mp, held) =
     (if n = 0 then pool_run ops (mp, held)
      else do {
        (ret, ys, mp) \<leftarrow> rte_mempool_get_bulk const lcore mp n;
        pool_run ops (mp, if ret = 0 then held + mset ys else held) })"
| "pool_run (PPut lcore xs # ops) (mp, held) =
     (if xs \<noteq> [] \<and> mset xs \<subseteq># held
      then do { mp \<leftarrow> rte_mempool_put_bulk lcore mp xs; pool_run ops (mp, held - mset xs) }
      else pool_run ops (mp, held))"
| "pool_run (PFlush lcore # ops) (mp, held) = do { mp \<leftarrow> rte_mempool_cache_flush mp lcore; pool_run ops (mp, held) }"

lemma pool_run_keeps:
  assumes "mempool_ok mp" "size (available mp + held) \<le> unat (r_capacity (mp_data mp))"
  shows "\<exists>mp' held'. pool_run ops (mp, held) = Some (mp', held') \<and> mempool_ok mp' \<and> available mp' + held' = available mp + held"
  using assms
proof (induction ops "(mp, held)" arbitrary: mp held rule: pool_run.induct)
  case 1
  then show ?case by simp
next
  case (2 const lcore n ops mp held)
  show ?case
  proof (cases "n = 0")
    case True
    then show ?thesis using 2 by simp
  next
    case False
    then have "0 < n" by (simp add: word_neq_0_conv)
    then obtain ret ys mp1 where g: "rte_mempool_get_bulk const lcore mp n = Some (ret, ys, mp1)" "mempool_ok mp1"
      "r_capacity (mp_data mp1) = r_capacity (mp_data mp)"
      "ret = 0 \<and> available mp = mset ys + available mp1 \<or> ret = - ENOBUFS \<and> available mp1 = available mp"
      using get_keeps [OF 2(3) \<open>0 < n\<close>, of const lcore] unfolding got_def by blast
    let ?held = "if ret = 0 then held + mset ys else held"
    have sum: "available mp1 + ?held = available mp + held" using g(4) by (auto simp: ENOBUFS_def ac_simps)
    then have "\<exists>mp' held'. pool_run ops (mp1, ?held) = Some (mp', held') \<and> mempool_ok mp' \<and> available mp' + held' = available mp1 + ?held"
      using 2(2) [OF False g(1) refl refl g(2)] 2(4) g(3) by (simp only: sum)
    then show ?thesis using False g(1) sum by auto
  qed
next
  case (3 lcore xs ops mp held)
  show ?case
  proof (cases "xs \<noteq> [] \<and> mset xs \<subseteq># held")
    case True
    then have "size (available mp) + length xs \<le> unat (r_capacity (mp_data mp))"
      using 3(4) size_mset_mono [of "mset xs" held] by simp
    then obtain mp1 where g: "rte_mempool_put_bulk lcore mp xs = Some mp1" "mempool_ok mp1"
      "r_capacity (mp_data mp1) = r_capacity (mp_data mp)" "available mp1 = available mp + mset xs"
      using put_keeps [OF 3(3)] True by blast
    have "mset xs + (held - mset xs) = held" using True by simp
    then have sum: "available mp1 + (held - mset xs) = available mp + held" by (simp only: g(4) add.assoc)
    then have "\<exists>mp' held'. pool_run ops (mp1, held - mset xs) = Some (mp', held') \<and> mempool_ok mp' \<and>
        available mp' + held' = available mp1 + (held - mset xs)"
      using 3(1) [OF True g(1,2)] 3(4) g(3) by (simp only: sum)
    then show ?thesis using True g(1) sum by auto
  next
    case False
    then show ?thesis using 3 by auto
  qed
next
  case (4 lcore ops mp held)
  then obtain mp1 where g: "rte_mempool_cache_flush mp lcore = Some mp1" "mempool_ok mp1"
    "r_capacity (mp_data mp1) = r_capacity (mp_data mp)" "available mp1 = available mp"
    using flush_keeps [of mp lcore] by auto
  then show ?case using 4(1) [OF g(1,2)] 4(3) by simp
qed

text \<open>C8: Whatever sequence of gets, puts and flushes the lcores make, in every kind of pool, with caches or
  without, for request sizes known to the compiler or not: no call traps, and the objects that are held by users, in
  the caches and in the ring are always the same, each as often as at the beginning. This needs a ring that has
  room for all of them, so that no put can fail; the code ignores the result of the ring.\<close>

theorem mempool_conserves_objects:
  assumes "mempool_ok mp" "size (available mp + held) \<le> unat (r_capacity (mp_data mp))"
  shows "\<exists>mp' held'. pool_run ops (mp, held) = Some (mp', held') \<and> mempool_ok mp' \<and> available mp' + held' = available mp + held"
  by (rule pool_run_keeps [OF assms])

definition small_pool :: rte_mempool where
  "small_pool = \<lparr>mp_size = 3, mp_cache_size = 1, mp_ops = ops_mt_hts, mp_data = wrapping_ring,
     mp_cache = (\<lambda>l. mempool_cache_init \<lparr>ca_size = 0, ca_flushthresh = 0, ca_len = 0, ca_objs = replicate 1024 0\<rparr> 1)\<rparr>"

lemma small_pool_ok: "mempool_ok small_pool" "available small_pool = {#}" "unat (r_capacity (mp_data small_pool)) = 3"
proof -
  show "mempool_ok small_pool"
    using wrapping_ring_ok(1) by (simp add: mempool_ok_def small_pool_def pool_cache_ok_def mempool_cache_init_def RTE_MEMPOOL_CACHE_MAX_SIZE_def)
  show "available small_pool = {#}"
    by (simp add: available_def backend_objs_def cached_by_def cached_def small_pool_def mempool_cache_init_def wrapping_ring_ok(2))
  show "unat (r_capacity (mp_data small_pool)) = 3" by (simp add: small_pool_def wrapping_ring_def)
qed

theorem mempool_conserves_objects_witness:
  "\<exists>mp' held'. pool_run [PPut 0 [10], PPut 0 [20], PPut 1 [30], PGet True 0 1, PGet False 1 2, PFlush 0] (small_pool, {#10, 20, 30#}) = Some (mp', held') \<and>
     available mp' + held' = {#10, 20, 30#}"
  using mempool_conserves_objects [OF small_pool_ok(1), of "{#10, 20, 30#}"
      "[PPut 0 [10], PPut 0 [20], PPut 1 [30], PGet True 0 1, PGet False 1 2, PFlush 0]"]
  by (simp add: small_pool_ok del: pool_run.simps) blast

section \<open>Counts\<close>

text \<open>With all objects accounted for, the count of what is available is exact and the two counts add up.\<close>

theorem mempool_counts_exact:
  assumes "mempool_ok mp" "size (available mp) \<le> unat (mp_size mp)"
  shows "unat (rte_mempool_avail_count mp) = size (available mp) \<and>
    unat (rte_mempool_in_use_count mp) = unat (mp_size mp) - size (available mp)"
proof -
  have r: "ring_ok 2 (mp_data mp)" using assms(1) by (simp add: mempool_ok_def)
  have behind: "unat (rte_mempool_ops_get_count mp) = length (backend_objs mp)"
    using rte_ring_counts(1) [OF r] length_backend [OF r] by (simp add: rte_mempool_ops_get_count_def)
  have fold: "unat (foldl (\<lambda>count l. count + ca_len (mp_cache mp l)) c [0..<k]) = unat c + size (\<Sum>l<k. mset (cached (mp_cache mp l)))"
    if "k \<le> RTE_MAX_LCORE" "unat c + size (\<Sum>l<k. mset (cached (mp_cache mp l))) < 2 ^ 32" for k c
    using that
  proof (induction k)
    case (Suc k)
    have "pool_cache_ok (mp_cache_size mp) (mp_cache mp k)" "mp_cache_size mp \<le> RTE_MEMPOOL_CACHE_MAX_SIZE"
      using Suc.prems(1) assms(1) by (simp_all add: mempool_ok_def)
    from pool_cache_okD(6) [OF this] Suc show ?case by (simp add: unat_add_no_wrap)
  qed simp
  have "size (available mp) < 4294967296" using assms(2) unat_less_32 [of "mp_size mp"] by (rule order.strict_trans1)
  then have "unat (rte_mempool_avail_count mp) = size (available mp)"
    using fold [of RTE_MAX_LCORE "rte_mempool_ops_get_count mp"] assms(2)
    by (auto simp: rte_mempool_avail_count_def Let_def available_def cached_by_def behind word_less_nat_alt)
  then show ?thesis using assms(2) by (simp add: rte_mempool_in_use_count_def unat_sub word_le_nat_alt)
qed

end
