(* ===== verification/RteMbufOwn.thy ===== *)
theory RteMbufOwn
  imports RteMbufRefs RteMempoolFacts
begin

text \<open>
  Reference counts and ownership of packet buffers. The abstract part says what the counts mean: every mbuf in
  use is counted once for each reference the application holds and once for each mbuf attached to its buffer. The
  rest shows that the operations of \<open>RteMbufRefs\<close> keep this meaning, so that no buffer returns to the pool while it is
  used and all return when nothing is held.
\<close>

section \<open>What the counts mean\<close>

datatype buf_mode = Own | Of u64 | Ext u64

text \<open>\<open>V\<close> are the mbufs in use, \<open>held\<close> the references of the application, \<open>md\<close> whose buffer an mbuf has, \<open>rc\<close> and
  \<open>ec\<close> the counts of mbufs and of external buffers.\<close>

definition users :: "u64 set \<Rightarrow> (u64 \<Rightarrow> buf_mode) \<Rightarrow> buf_mode \<Rightarrow> u64 set" where
  "users V md y = {i \<in> V. md i = y}"

definition refs_ok :: "u64 set \<Rightarrow> u64 multiset \<Rightarrow> (u64 \<Rightarrow> buf_mode) \<Rightarrow> (u64 \<Rightarrow> nat) \<Rightarrow> (u64 \<Rightarrow> nat) \<Rightarrow> bool" where
  "refs_ok V held md rc ec \<longleftrightarrow> finite V \<and> set_mset held \<subseteq> V \<and>
     (\<forall>a\<in>V. rc a = count held a + card (users V md (Of a)) \<and> 0 < rc a) \<and>
     (\<forall>i\<in>V. \<forall>a. md i = Of a \<longrightarrow> a \<in> V \<and> md a = Own) \<and>
     (\<forall>i\<in>V. \<forall>x. md i = Ext x \<longrightarrow> ec x = card (users V md (Ext x)))"

lemma users_cong: "(\<And>i. i \<in> V \<Longrightarrow> md' i = md i) \<Longrightarrow> users V md' y = users V md y"
  by (auto simp: users_def)

lemma users_insert: "md a \<noteq> y \<Longrightarrow> users (insert a V) md y = users V md y"
  by (auto simp: users_def)

lemma users_remove: "md a \<noteq> y \<Longrightarrow> users (V - {a}) md y = users V md y"
  by (auto simp: users_def)

lemma users_other: "y \<noteq> z \<Longrightarrow> md i \<noteq> z \<Longrightarrow> users V (md(i := y)) z = users V md z"
  by (auto simp: users_def)

lemma users_none: "finite V \<Longrightarrow> card (users V md y) = 0 \<Longrightarrow> i \<in> V \<Longrightarrow> md i \<noteq> y"
  by (auto simp: users_def)

lemma users_join:
  assumes "finite V" "i \<in> V" "md i \<noteq> y"
  shows "card (users V (md(i := y)) y) = card (users V md y) + 1"
proof -
  have "users V (md(i := y)) y = insert i (users V md y)" "i \<notin> users V md y" using assms by (auto simp: users_def)
  moreover have "finite (users V md y)" using assms(1) by (simp add: users_def)
  ultimately show ?thesis by simp
qed

lemma users_leave:
  assumes "finite V" "i \<in> V" "md i = y" "y \<noteq> z"
  shows "card (users V md y) = card (users V (md(i := z)) y) + 1"
proof -
  have "users V md y = insert i (users V (md(i := z)) y)" "i \<notin> users V (md(i := z)) y" using assms by (auto simp: users_def)
  moreover have "finite (users V (md(i := z)) y)" using assms(1) by (simp add: users_def)
  ultimately show ?thesis by simp
qed

lemma refs_okD:
  assumes "refs_ok V held md rc ec"
  shows "finite V" "a \<in># held \<Longrightarrow> a \<in> V" "a \<in> V \<Longrightarrow> rc a = count held a + card (users V md (Of a))" "a \<in> V \<Longrightarrow> 0 < rc a"
    "i \<in> V \<Longrightarrow> md i = Of a \<Longrightarrow> a \<in> V" "i \<in> V \<Longrightarrow> md i = Of a \<Longrightarrow> md a = Own"
    "i \<in> V \<Longrightarrow> md i = Ext x \<Longrightarrow> ec x = card (users V md (Ext x))"
  using assms unfolding refs_ok_def by blast+

lemma refs_okI:
  assumes "finite V" "\<And>a. a \<in># held \<Longrightarrow> a \<in> V" "\<And>a. a \<in> V \<Longrightarrow> rc a = count held a + card (users V md (Of a))" "\<And>a. a \<in> V \<Longrightarrow> 0 < rc a"
    "\<And>i a. i \<in> V \<Longrightarrow> md i = Of a \<Longrightarrow> a \<in> V \<and> md a = Own" "\<And>i x. i \<in> V \<Longrightarrow> md i = Ext x \<Longrightarrow> ec x = card (users V md (Ext x))"
  shows "refs_ok V held md rc ec"
  unfolding refs_ok_def using assms by blast

text \<open>An mbuf with a single reference that is held has no user of its buffer.\<close>

lemma sole_holder:
  assumes "refs_ok V held md rc ec" "a \<in># held" "rc a = 1"
  shows "count held a = 1" "i \<in> V \<Longrightarrow> md i \<noteq> Of a"
proof -
  note I = refs_okD [OF assms(1)]
  have "0 < count held a" using assms(2) by simp
  then have c: "count held a = 1 \<and> card (users V md (Of a)) = 0" using I(3) [OF I(2) [OF assms(2)]] assms(3) by linarith
  then show "count held a = 1" by simp
  show "i \<in> V \<Longrightarrow> md i \<noteq> Of a" using users_none [OF I(1)] c by blast
qed

lemma refs_cong:
  assumes "refs_ok V held md rc ec" "\<And>a. a \<in> V \<Longrightarrow> md' a = md a" "\<And>a. a \<in> V \<Longrightarrow> rc' a = rc a"
    "\<And>i x. i \<in> V \<Longrightarrow> md i = Ext x \<Longrightarrow> ec' x = ec x"
  shows "refs_ok V held md' rc' ec'"
proof -
  note I = refs_okD [OF assms(1)]
  have same: "users V md' y = users V md y" for y using assms(2) by (rule users_cong)
  show ?thesis
  proof (rule refs_okI)
    fix i a assume i: "i \<in> V" "md' i = Of a"
    then have "a \<in> V \<and> md a = Own" using I(5,6) [of i a] assms(2) [of i] by simp
    then show "a \<in> V \<and> md' a = Own" using assms(2) [of a] by simp
  next
    fix i x assume i: "i \<in> V" "md' i = Ext x"
    then have "md i = Ext x" using assms(2) [of i] by simp
    then show "ec' x = card (users V md' (Ext x))" using I(7) [OF i(1)] assms(4) [OF i(1)] by (simp only: same)
  next
    fix a assume a: "a \<in> V"
    show "rc' a = count held a + card (users V md' (Of a))" "0 < rc' a"
      using I(3,4) [OF a] assms(3) [OF a] by (simp_all only: same)
  qed (rule I(1), rule I(2))
qed

lemma refs_new:
  assumes "refs_ok V held md rc ec" "a \<notin> V" "md a = Own" "rc a = 1"
  shows "refs_ok (insert a V) (add_mset a held) md rc ec"
proof -
  note I = refs_okD [OF assms(1)]
  have old: "users (insert a V) md y = users V md y" if "y \<noteq> Own" for y using assms(3) that by (intro users_insert) simp
  have "md i \<noteq> Of a" if "i \<in> V" for i using I(5) [OF that] assms(2) by blast
  then have none: "users V md (Of a) = {}" by (auto simp: users_def)
  have zero: "count held a = 0" using I(2) [of a] assms(2) by (metis count_eq_zero_iff)
  show ?thesis
  proof (rule refs_okI)
    fix b assume b: "b \<in> insert a V"
    then show "rc b = count (add_mset a held) b + card (users (insert a V) md (Of b))"
      using I(3) [of b] assms(2,4) none zero by (cases "b = a") (simp_all add: old)
    show "0 < rc b" using I(4) [of b] assms(4) b by (cases "b = a") simp_all
  next
    fix i b assume "i \<in> insert a V" "md i = Of b"
    then show "b \<in> insert a V \<and> md b = Own" using I(5,6) [of i b] assms(3) by (cases "i = a") simp_all
  next
    fix i x assume "i \<in> insert a V" "md i = Ext x"
    then show "ec x = card (users (insert a V) md (Ext x))" using I(7) [of i x] assms(3) by (cases "i = a") (simp_all add: old)
  next
    fix b assume "b \<in># add_mset a held"
    then show "b \<in> insert a V" using I(2) [of b] by auto
  qed (use I(1) in simp)
qed

lemma refs_drop:
  assumes "refs_ok V held md rc ec" "a \<in># held" "rc a \<noteq> 1"
  shows "refs_ok V (held - {#a#}) md (rc(a := rc a - 1)) ec"
proof -
  note I = refs_okD [OF assms(1)]
  have pos: "0 < count held a" "0 < rc a" using assms(2) I(4) [OF I(2) [OF assms(2)]] by simp_all
  show ?thesis
  proof (rule refs_okI)
    fix b assume b: "b \<in> V"
    show "(rc(a := rc a - 1)) b = count (held - {#a#}) b + card (users V md (Of b))"
      using I(3) [OF b] pos by (cases "b = a") simp_all
    show "0 < (rc(a := rc a - 1)) b" using I(4) [OF b] pos assms(3) by (cases "b = a") simp_all
  next
    fix b assume "b \<in># held - {#a#}"
    then show "b \<in> V" using I(2) in_diffD by metis
  next
    fix i b assume "i \<in> V" "md i = Of b"
    then show "b \<in> V \<and> md b = Own" using I(5,6) by blast
  qed (rule I(1), rule I(7))
qed

lemma refs_more:
  assumes "refs_ok V held md rc ec" "a \<in> V"
  shows "refs_ok V (add_mset a held) md (rc(a := rc a + 1)) ec"
proof -
  note I = refs_okD [OF assms(1)]
  show ?thesis
  proof (rule refs_okI)
    fix b assume b: "b \<in> V"
    show "(rc(a := rc a + 1)) b = count (add_mset a held) b + card (users V md (Of b))" "0 < (rc(a := rc a + 1)) b"
      using I(3,4) [OF b] by (cases "b = a"; simp)+
  next
    fix b assume "b \<in># add_mset a held"
    then show "b \<in> V" using I(2) [of b] assms(2) by auto
  next
    fix i b assume "i \<in> V" "md i = Of b"
    then show "b \<in> V \<and> md b = Own" using I(5,6) by blast
  qed (rule I(1), rule I(7))
qed

lemma refs_last:
  assumes "refs_ok V held md rc ec" "a \<in># held" "rc a = 1" "md a = Own"
  shows "refs_ok (V - {a}) (held - {#a#}) md rc ec"
proof -
  note I = refs_okD [OF assms(1)] and S = sole_holder [OF assms(1-3)]
  have same: "users (V - {a}) md y = users V md y" if "y \<noteq> Own" for y using assms(4) that by (intro users_remove) simp
  have gone: "a \<notin># held - {#a#}" using S(1) by (simp add: not_in_iff)
  show ?thesis
  proof (rule refs_okI)
    fix b assume b: "b \<in># held - {#a#}"
    then have "b \<in> V" using I(2) in_diffD by metis
    then show "b \<in> V - {a}" using gone b by auto
  next
    fix i b assume i: "i \<in> V - {a}" "md i = Of b"
    then have "b \<noteq> a" using S(2) [of i] by auto
    then show "b \<in> V - {a} \<and> md b = Own" using I(5,6) [of i b] i by simp
  next
    fix i x assume "i \<in> V - {a}" "md i = Ext x"
    then show "ec x = card (users (V - {a}) md (Ext x))" using I(7) [of i x] by (simp add: same)
  next
    fix b assume b: "b \<in> V - {a}"
    then have "a \<noteq> b" "b \<in> V" by auto
    then show "rc b = count (held - {#a#}) b + card (users (V - {a}) md (Of b))" using I(3) [of b] by (simp add: same)
    show "0 < rc b" using I(4) b by blast
  qed (use I(1) in simp)
qed

text \<open>Attaching and detaching.\<close>

lemma refs_attach:
  assumes "refs_ok V held md rc ec" "i \<in># held" "rc i = 1" "md i = Own" "a \<in> V" "md a = Own" "a \<noteq> i"
  shows "refs_ok V held (md(i := Of a)) (rc(a := rc a + 1)) ec"
proof -
  note I = refs_okD [OF assms(1)] and S = sole_holder [OF assms(1-3)]
  have i: "i \<in> V" using I(2) assms(2) by blast
  have new: "card (users V (md(i := Of a)) (Of a)) = card (users V md (Of a)) + 1"
    using assms(4) by (intro users_join [OF I(1) i]) simp
  have other: "users V (md(i := Of a)) y = users V md y" if "y \<noteq> Of a" "y \<noteq> Own" for y
    using that assms(4) by (intro users_other) simp_all
  show ?thesis
  proof (rule refs_okI)
    fix b assume b: "b \<in> V"
    show "(rc(a := rc a + 1)) b = count held b + card (users V (md(i := Of a)) (Of b))"
      using I(3) [OF b] new other [of "Of b"] by (cases "b = a") simp_all
    show "0 < (rc(a := rc a + 1)) b" using I(4) [OF b] by simp
  next
    fix j b assume j: "j \<in> V" "(md(i := Of a)) j = Of b"
    show "b \<in> V \<and> (md(i := Of a)) b = Own"
    proof (cases "j = i")
      case True
      then show ?thesis using j assms(5-7) by simp
    next
      case False
      then have m: "md j = Of b" using j by simp
      then have "b \<noteq> i" using S(2) [OF j(1)] by auto
      then show ?thesis using I(5,6) [OF j(1) m] by simp
    qed
  next
    fix j x assume "j \<in> V" "(md(i := Of a)) j = Ext x"
    then show "ec x = card (users V (md(i := Of a)) (Ext x))" using I(7) [of j x] by (simp add: other split: if_splits)
  qed (rule I(1), rule I(2))
qed

lemma refs_attach_ext:
  assumes "refs_ok V held md rc ec" "i \<in># held" "rc i = 1" "md i = Own"
  shows "refs_ok V held (md(i := Ext x)) rc (ec(x := card (users V md (Ext x)) + 1))"
proof -
  note I = refs_okD [OF assms(1)] and S = sole_holder [OF assms(1-3)]
  have i: "i \<in> V" using I(2) assms(2) by blast
  have new: "card (users V (md(i := Ext x)) (Ext x)) = card (users V md (Ext x)) + 1"
    using assms(4) by (intro users_join [OF I(1) i]) simp
  have other: "users V (md(i := Ext x)) y = users V md y" if "y \<noteq> Ext x" "y \<noteq> Own" for y
    using that assms(4) by (intro users_other) simp_all
  show ?thesis
  proof (rule refs_okI)
    fix b assume b: "b \<in> V"
    show "rc b = count held b + card (users V (md(i := Ext x)) (Of b))" using I(3) [OF b] by (simp add: other)
  next
    fix j b assume j: "j \<in> V" "(md(i := Ext x)) j = Of b"
    then have m: "md j = Of b" "b \<noteq> i" using S(2) [of j] by (auto split: if_splits)
    then show "b \<in> V \<and> (md(i := Ext x)) b = Own" using I(5,6) [OF j(1) m(1)] by simp
  next
    fix j z assume j: "j \<in> V" "(md(i := Ext x)) j = Ext z"
    show "(ec(x := card (users V md (Ext x)) + 1)) z = card (users V (md(i := Ext x)) (Ext z))"
    proof (cases "z = x")
      case False
      then have "md j = Ext z" using j(2) by (auto split: if_splits)
      then show ?thesis using I(7) [OF j(1)] False by (simp add: other)
    qed (simp add: new)
  qed (rule I(1), rule I(2), assumption, rule I(4))
qed

lemma refs_detach:
  assumes "refs_ok V held md rc ec" "i \<in> V" "md i = Of a"
  shows "if rc a = 1 then a \<notin># held \<and> refs_ok (V - {a}) held (md(i := Own)) rc ec
    else refs_ok V held (md(i := Own)) (rc(a := rc a - 1)) ec"
proof -
  note I = refs_okD [OF assms(1)]
  have a: "a \<in> V" "md a = Own" "a \<noteq> i" using I(5,6) [OF assms(2,3)] assms(3) by auto
  have less: "card (users V md (Of a)) = card (users V (md(i := Own)) (Of a)) + 1"
    using users_leave [of V i md "Of a" Own] I(1) assms(2,3) by simp
  have other: "users V (md(i := Own)) y = users V md y" if "y \<noteq> Of a" "y \<noteq> Own" for y
    using that assms(3) by (intro users_other) simp_all
  have modes: "b \<in> V \<and> (md(i := Own)) b = Own" if "j \<in> V" "(md(i := Own)) j = Of b" for j b
  proof -
    have "md j = Of b" using that(2) by (auto split: if_splits)
    then show ?thesis using I(5,6) [OF that(1)] by simp
  qed
  have exts: "ec x = card (users V (md(i := Own)) (Ext x))" if "j \<in> V" "(md(i := Own)) j = Ext x" for j x
  proof -
    have "md j = Ext x" using that(2) by (auto split: if_splits)
    then show ?thesis using I(7) [OF that(1)] by (simp add: other)
  qed
  show ?thesis
  proof (cases "rc a = 1")
    case True
    have c: "count held a = 0" "card (users V (md(i := Own)) (Of a)) = 0" using I(3) [OF a(1)] True less by linarith+
    have none: "(md(i := Own)) j \<noteq> Of a" if "j \<in> V" for j using users_none [OF I(1) c(2) that] .
    have same: "users (V - {a}) (md(i := Own)) y = users V (md(i := Own)) y" if "y \<noteq> Own" for y
      using a(2) that by (intro users_remove) simp
    have "refs_ok (V - {a}) held (md(i := Own)) rc ec"
    proof (rule refs_okI)
      fix b assume b: "b \<in># held"
      then have "b \<noteq> a" using c(1) by (metis count_eq_zero_iff)
      then show "b \<in> V - {a}" using I(2) [OF b] by simp
    next
      fix b assume b: "b \<in> V - {a}"
      then show "rc b = count held b + card (users (V - {a}) (md(i := Own)) (Of b))"
        using I(3) [of b] other [of "Of b"] by (simp add: same)
      show "0 < rc b" using I(4) b by blast
    next
      fix j b assume j: "j \<in> V - {a}" "(md(i := Own)) j = Of b"
      then have "b \<noteq> a" using none [of j] by auto
      then show "b \<in> V - {a} \<and> (md(i := Own)) b = Own" using modes [of j b] j by simp
    next
      fix j x assume "j \<in> V - {a}" "(md(i := Own)) j = Ext x"
      then show "ec x = card (users (V - {a}) (md(i := Own)) (Ext x))" using exts [of j x] by (simp add: same)
    qed (use I(1) in simp)
    then show ?thesis using True c by (simp add: not_in_iff)
  next
    case False
    have "refs_ok V held (md(i := Own)) (rc(a := rc a - 1)) ec"
    proof (rule refs_okI)
      fix b assume b: "b \<in> V"
      show "(rc(a := rc a - 1)) b = count held b + card (users V (md(i := Own)) (Of b))"
        using I(3) [OF b] less other [of "Of b"] by (cases "b = a") simp_all
      show "0 < (rc(a := rc a - 1)) b" using I(4) [OF b] False by (cases "b = a") simp_all
    qed (rule I(1), rule I(2), assumption, rule modes, assumption, assumption, rule exts)
    then show ?thesis using False by simp
  qed
qed

lemma refs_detach_ext:
  assumes "refs_ok V held md rc ec" "i \<in> V" "md i = Ext x"
  shows "refs_ok V held (md(i := Own)) rc (ec(x := ec x - 1))" "0 < ec x"
proof -
  note I = refs_okD [OF assms(1)]
  have less: "ec x = card (users V (md(i := Own)) (Ext x)) + 1"
    using users_leave [of V i md "Ext x" Own] I(1) assms(2,3) I(7) [OF assms(2,3)] by simp
  then show "0 < ec x" by simp
  have other: "users V (md(i := Own)) y = users V md y" if "y \<noteq> Ext x" "y \<noteq> Own" for y
    using that assms(3) by (intro users_other) simp_all
  show "refs_ok V held (md(i := Own)) rc (ec(x := ec x - 1))"
  proof (rule refs_okI)
    fix b assume b: "b \<in> V"
    show "rc b = count held b + card (users V (md(i := Own)) (Of b))" using I(3) [OF b] by (simp add: other)
  next
    fix j b assume j: "j \<in> V" "(md(i := Own)) j = Of b"
    then have "md j = Of b" by (auto split: if_splits)
    then show "b \<in> V \<and> (md(i := Own)) b = Own" using I(5,6) [OF j(1)] by simp
  next
    fix j z assume j: "j \<in> V" "(md(i := Own)) j = Ext z"
    then have m: "md j = Ext z" by (auto split: if_splits)
    show "(ec(x := ec x - 1)) z = card (users V (md(i := Own)) (Ext z))"
      using I(7) [OF j(1) m] less other [of "Ext z"] by (cases "z = x") simp_all
  qed (rule I(1), rule I(2), assumption, rule I(4))
qed

end
