(* ===== verification/RteMbufLife.thy ===== *)
theory RteMbufLife
  imports RteMbufOwn
begin

text \<open>
  The invariant of the packet buffers of a pool in terms of the ownership of \<open>RteMbufOwn\<close>, and that allocation,
  attachment, detachment and release keep it. \<open>P\<close> are the mbufs of the pool, \<open>F\<close> those that are free (in the ring or
  a cache) and \<open>V\<close> those in use.
\<close>

section \<open>The invariant\<close>

definition mode :: "mbuf_obj \<Rightarrow> buf_mode" where
  "mode m = (if RTE_MBUF_HAS_EXTBUF m then Ext (mo_shinfo m) else if RTE_MBUF_CLONED m then Of (rte_mbuf_from_indirect m) else Own)"

definition md_of :: "mbuf_mem \<Rightarrow> u64 \<Rightarrow> buf_mode" where "md_of s a = mode (mm_mbuf s a)"
definition rc_of :: "mbuf_mem \<Rightarrow> u64 \<Rightarrow> nat" where "rc_of s a = unat (mo_refcnt (mm_mbuf s a))"
definition ec_of :: "mbuf_mem \<Rightarrow> u64 \<Rightarrow> nat" where "ec_of s x = unat (mm_shinfo s x)"
definition next_of :: "mbuf_mem \<Rightarrow> u64 \<Rightarrow> u64" where "next_of s a = mo_next (mm_mbuf s a)"

definition own_buffer :: "mbuf_mem \<Rightarrow> u64 \<Rightarrow> bool" where
  "own_buffer s a \<longleftrightarrow> mo_buf_addr (mm_mbuf s a) = a + (SIZEOF_MBUF + ucast (mm_priv_size s)) \<and> mo_priv_size (mm_mbuf s a) = mm_priv_size s"

definition idle :: "mbuf_mem \<Rightarrow> u64 \<Rightarrow> bool" where
  "idle s a \<longleftrightarrow> rc_of s a = 1 \<and> next_of s a = 0 \<and> mo_nb_segs (mm_mbuf s a) = 1 \<and> md_of s a = Own \<and> own_buffer s a"

definition pool_at :: "u64 set \<Rightarrow> rte_mempool \<Rightarrow> u64 set \<Rightarrow> bool" where
  "pool_at P mp F \<longleftrightarrow> mempool_ok mp \<and> finite P \<and> 0 \<notin> P \<and> F \<subseteq> P \<and> card P \<le> unat (r_capacity (mp_data mp)) \<and> available mp = mset_set F"

definition heap_at :: "u64 set \<Rightarrow> mbuf_mem \<Rightarrow> u64 set \<Rightarrow> u64 set \<Rightarrow> u64 multiset \<Rightarrow> bool" where
  "heap_at P s F V held \<longleftrightarrow> pool_at P (mm_pool s) F \<and> \<not> RTE_MBUF_HAS_PINNED_EXTBUF s \<and> V \<subseteq> P \<and> F \<inter> V = {} \<and>
     (\<forall>a\<in>F. idle s a) \<and> (\<forall>a\<in>V. md_of s a = Own \<longrightarrow> own_buffer s a) \<and> refs_ok V held (md_of s) (rc_of s) (ec_of s)"

definition free_mbufs :: "mbuf_mem \<Rightarrow> u64 set" where
  "free_mbufs s = set_mset (available (mm_pool s))"

definition heap_ok :: "u64 set \<Rightarrow> mbuf_mem \<Rightarrow> u64 multiset \<Rightarrow> bool" where
  "heap_ok P s held \<longleftrightarrow> heap_at P s (free_mbufs s) (P - free_mbufs s) held"

lemma heap_atD:
  assumes "heap_at P s F V held"
  shows "pool_at P (mm_pool s) F" "\<not> RTE_MBUF_HAS_PINNED_EXTBUF s" "V \<subseteq> P" "F \<inter> V = {}" "a \<in> F \<Longrightarrow> idle s a"
    "a \<in> V \<Longrightarrow> md_of s a = Own \<Longrightarrow> own_buffer s a" "refs_ok V held (md_of s) (rc_of s) (ec_of s)"
  using assms unfolding heap_at_def by blast+

lemma heap_free: "heap_at P s F V held \<Longrightarrow> free_mbufs s = F"
  using finite_subset by (auto simp: heap_at_def pool_at_def free_mbufs_def)

lemma heap_okI: "heap_at P s F V held \<Longrightarrow> F \<union> V = P \<Longrightarrow> heap_ok P s held"
proof -
  assume h: "heap_at P s F V held" and p: "F \<union> V = P"
  have "P - F = V" using heap_atD(4) [OF h] p by blast
  then show "heap_ok P s held" using h heap_free [OF h] by (simp add: heap_ok_def)
qed

lemma live_set:
  assumes "refs_ok V held md rc ec"
  shows "V = {a. a \<in># held \<or> (\<exists>i. i \<in># held \<and> md i = Of a)}"
proof -
  note I = refs_okD [OF assms]
  have user: "a \<in># held \<or> (\<exists>i\<in>V. md i = Of a)" if "a \<in> V" for a
  proof (rule ccontr)
    assume "\<not> ?thesis"
    then have "count held a = 0" "users V md (Of a) = {}" by (auto simp: users_def not_in_iff)
    then show False using I(3,4) [OF that] by simp
  qed
  have "i \<in># held" if "i \<in> V" "md i = Of a" for i a
    using user [OF that(1)] I(6) [of _ i] that by force
  then show ?thesis using user I(2,5) by blast
qed

section \<open>Flags and counts\<close>

lemma flag_bits:
  "RTE_MBUF_HAS_EXTBUF m \<longleftrightarrow> bit (mo_ol_flags m) 61" "RTE_MBUF_CLONED m \<longleftrightarrow> bit (mo_ol_flags m) 62"
  "RTE_MBUF_OBJ_DIRECT m \<longleftrightarrow> \<not> bit (mo_ol_flags m) 61 \<and> \<not> bit (mo_ol_flags m) 62"
proof -
  show 1: "RTE_MBUF_HAS_EXTBUF m \<longleftrightarrow> bit (mo_ol_flags m) 61" "RTE_MBUF_CLONED m \<longleftrightarrow> bit (mo_ol_flags m) 62"
    unfolding RTE_MBUF_HAS_EXTBUF_def RTE_MBUF_F_EXTERNAL_def RTE_MBUF_CLONED_def RTE_MBUF_F_INDIRECT_def
    by (simp_all only: bit_iff_and_push_bit_not_eq_0)
  have "RTE_MBUF_OBJ_DIRECT m \<longleftrightarrow> \<not> RTE_MBUF_HAS_EXTBUF m \<and> \<not> RTE_MBUF_CLONED m"
    unfolding RTE_MBUF_OBJ_DIRECT_def RTE_MBUF_HAS_EXTBUF_def RTE_MBUF_CLONED_def
    by (simp only: bit.conj_disj_distrib or_eq_0_iff not_not) blast
  then show "RTE_MBUF_OBJ_DIRECT m \<longleftrightarrow> \<not> bit (mo_ol_flags m) 61 \<and> \<not> bit (mo_ol_flags m) 62" using 1 by simp
qed

lemma direct_mode: "RTE_MBUF_OBJ_DIRECT m \<longleftrightarrow> mode m = Own"
  by (simp add: mode_def flag_bits)

lemma refcnt_update_eq:
  "rte_mbuf_refcnt_update a v s =
     (mo_refcnt (mm_mbuf s a) + v, upd_mbuf a (\<lambda>m. m\<lparr>mo_refcnt := mo_refcnt (mm_mbuf s a) + v\<rparr>) s)"
  "rte_mbuf_refcnt_add a v s =
     (mo_refcnt (mm_mbuf s a) + v, upd_mbuf a (\<lambda>m. m\<lparr>mo_refcnt := mo_refcnt (mm_mbuf s a) + v\<rparr>) s)"
  by (simp_all add: rte_mbuf_refcnt_update_def rte_mbuf_refcnt_add_def rte_mbuf_refcnt_set_def upd_mbuf_def add.commute)

lemma ext_refcnt_update_eq:
  "rte_mbuf_ext_refcnt_update x v s = (mm_shinfo s x + v, s\<lparr>mm_shinfo := (mm_shinfo s)(x := mm_shinfo s x + v)\<rparr>)"
  by (simp add: rte_mbuf_ext_refcnt_update_def rte_mbuf_ext_refcnt_set_def add.commute Let_def)

lemma unat_incr16: "unat (w :: u16) < 65535 \<Longrightarrow> unat (w + 1) = unat w + 1"
  by (subst unat_add_no_wrap) simp_all

lemma unat_decr16: "w \<noteq> (0 :: u16) \<Longrightarrow> unat (w - 1) = unat w - 1"
  by (subst unat_sub) (simp_all add: word_le_nat_alt unat_gt_0 Suc_le_eq)

section \<open>The pool\<close>

lemma pool_put:
  assumes "pool_at P (mm_pool s) F" "a \<in> P - F"
  shows "\<exists>mp. rte_mempool_put lcore (mm_pool s) a = Some mp \<and> pool_at P mp (insert a F)"
proof -
  have p: "mempool_ok (mm_pool s)" "finite P" "F \<subseteq> P" "card P \<le> unat (r_capacity (mp_data (mm_pool s)))" "available (mm_pool s) = mset_set F"
    using assms(1) by (simp_all add: pool_at_def)
  have F: "finite F" using p(2,3) finite_subset by blast
  have "card (insert a F) \<le> card P" using p(2,3) assms(2) by (intro card_mono) auto
  then have "size (available (mm_pool s)) + length [a] \<le> unat (r_capacity (mp_data (mm_pool s)))" using p(4,5) F assms(2) by simp
  from put_keeps [OF p(1) _ this] obtain mp where mp: "rte_mempool_put_bulk lcore (mm_pool s) [a] = Some mp" "mempool_ok mp"
    "r_capacity (mp_data mp) = r_capacity (mp_data (mm_pool s))" "available mp = available (mm_pool s) + mset [a]" by auto
  have "available mp = mset_set (insert a F)" using mp(4) p(5) F assms(2) by simp
  then have "pool_at P mp (insert a F)" using mp(2,3) assms by (simp add: pool_at_def)
  then show ?thesis using mp(1) by (intro exI [of _ mp]) (simp add: rte_mempool_put_def)
qed

lemma raw_alloc_get:
  assumes "pool_at P (mm_pool s) F"
  shows "\<exists>m mp. rte_mbuf_raw_alloc lcore s = Some (m, s\<lparr>mm_pool := mp\<rparr>) \<and> (if m = 0 then pool_at P mp F else m \<in> F \<and> pool_at P mp (F - {m}))"
proof -
  have p: "mempool_ok (mm_pool s)" "finite P" "0 \<notin> P" "F \<subseteq> P" "available (mm_pool s) = mset_set F"
    using assms by (simp_all add: pool_at_def)
  have F: "finite F" using p(2,4) finite_subset by blast
  obtain ret ys mp where g: "rte_mempool_get_bulk True lcore (mm_pool s) 1 = Some (ret, ys, mp)" "mempool_ok mp"
    "r_capacity (mp_data mp) = r_capacity (mp_data (mm_pool s))"
    "ret = 0 \<and> length ys = 1 \<and> available (mm_pool s) = mset ys + available mp \<or> ret = - ENOBUFS \<and> available mp = available (mm_pool s)"
    using get_keeps [OF p(1), of 1 True lcore] unfolding got_def by auto
  show ?thesis
  proof (cases "ret = 0")
    case True
    then have one: "length ys = 1" "available (mm_pool s) = mset ys + available mp" using g(4) by (auto simp: ENOBUFS_def)
    then obtain m where ys: "ys = [m]" by (auto simp: length_Suc_conv)
    then have ms: "mset_set F = add_mset m (available mp)" using one(2) p(5) by simp
    then have "m \<in># mset_set F" by simp
    then have m: "m \<in> F" using F by simp
    have "available mp = mset_set (F - {m})" using ms F m by (simp add: mset_set_Diff)
    then show ?thesis using g(1-3) m p(3,4) True ys assms
      by (auto simp: rte_mbuf_raw_alloc_def rte_mempool_get_def pool_at_def)
  next
    case False
    then have "ret < 0" "available mp = mset_set F" using g(4) p(5) by (auto simp: ENOBUFS_def)
    then show ?thesis using g(1-3) assms by (auto simp: rte_mbuf_raw_alloc_def rte_mempool_get_def pool_at_def)
  qed
qed

section \<open>Allocation\<close>

lemma heap_atI:
  assumes "pool_at P (mm_pool s) F" "\<not> RTE_MBUF_HAS_PINNED_EXTBUF s" "V \<subseteq> P" "F \<inter> V = {}" "\<And>a. a \<in> F \<Longrightarrow> idle s a"
    "\<And>a. a \<in> V \<Longrightarrow> md_of s a = Own \<Longrightarrow> own_buffer s a" "refs_ok V held (md_of s) (rc_of s) (ec_of s)"
  shows "heap_at P s F V held"
  unfolding heap_at_def using assms by blast

lemma upd_sel [simp]:
  "mm_pool (upd_mbuf a f s) = mm_pool s" "mm_shinfo (upd_mbuf a f s) = mm_shinfo s" "mm_freed (upd_mbuf a f s) = mm_freed s"
  "mm_priv_size (upd_mbuf a f s) = mm_priv_size s" "mm_data_room (upd_mbuf a f s) = mm_data_room s"
  "mm_priv_flags (upd_mbuf a f s) = mm_priv_flags s" "mm_mbuf (upd_mbuf a f s) b = (if b = a then f (mm_mbuf s a) else mm_mbuf s b)"
  by (simp_all add: upd_mbuf_def)

lemma mode_eq:
  "mo_ol_flags m' = mo_ol_flags m \<Longrightarrow> mo_shinfo m' = mo_shinfo m \<Longrightarrow> mo_buf_addr m' = mo_buf_addr m \<Longrightarrow> mo_priv_size m' = mo_priv_size m \<Longrightarrow>
    mode m' = mode m"
  by (simp add: mode_def flag_bits rte_mbuf_from_indirect_def)

lemma mode_Own: "mo_ol_flags m = 0 \<Longrightarrow> mode m = Own"
  by (simp add: mode_def flag_bits)

lemma idle_cong: "mm_mbuf s' a = mm_mbuf s a \<Longrightarrow> mm_priv_size s' = mm_priv_size s \<Longrightarrow> idle s' a = idle s a"
  by (simp add: idle_def rc_of_def next_of_def md_of_def own_buffer_def)

lemma own_buffer_cong:
  "mo_buf_addr (mm_mbuf s' a) = mo_buf_addr (mm_mbuf s a) \<Longrightarrow> mo_priv_size (mm_mbuf s' a) = mo_priv_size (mm_mbuf s a) \<Longrightarrow>
    mm_priv_size s' = mm_priv_size s \<Longrightarrow> own_buffer s' a = own_buffer s a"
  by (simp add: own_buffer_def)

lemma pinned_cong: "mm_priv_flags s' = mm_priv_flags s \<Longrightarrow> RTE_MBUF_HAS_PINNED_EXTBUF s' = RTE_MBUF_HAS_PINNED_EXTBUF s"
  by (simp add: RTE_MBUF_HAS_PINNED_EXTBUF_def)

lemma reset_fields:
  "mo_refcnt (mm_mbuf (rte_pktmbuf_reset a s) b) = mo_refcnt (mm_mbuf s b)"
  "mo_buf_addr (mm_mbuf (rte_pktmbuf_reset a s) b) = mo_buf_addr (mm_mbuf s b)"
  "mo_priv_size (mm_mbuf (rte_pktmbuf_reset a s) b) = mo_priv_size (mm_mbuf s b)"
  "md_of s a = Own \<Longrightarrow> md_of (rte_pktmbuf_reset a s) b = md_of s b"
  "b \<noteq> a \<Longrightarrow> mm_mbuf (rte_pktmbuf_reset a s) b = mm_mbuf s b"
  by (simp_all add: rte_pktmbuf_reset_def reset_data_off_def md_of_def mode_def flag_bits RTE_MBUF_F_EXTERNAL_def bit_simps split: if_splits)

lemma reset_sel [simp]:
  "mm_pool (rte_pktmbuf_reset a s) = mm_pool s" "mm_shinfo (rte_pktmbuf_reset a s) = mm_shinfo s" "mm_freed (rte_pktmbuf_reset a s) = mm_freed s"
  "mm_priv_size (rte_pktmbuf_reset a s) = mm_priv_size s" "mm_priv_flags (rte_pktmbuf_reset a s) = mm_priv_flags s"
  by (simp_all add: rte_pktmbuf_reset_def)

lemma alloc_ok:
  assumes h: "heap_at P s F V held"
  shows "\<exists>m s'. rte_pktmbuf_alloc lcore s = Some (m, s') \<and> mm_shinfo s' = mm_shinfo s \<and> (\<forall>b. b \<noteq> m \<longrightarrow> mm_mbuf s' b = mm_mbuf s b) \<and>
    (if m = 0 then heap_at P s' F V held
     else m \<in> F \<and> rc_of s' m = 1 \<and> md_of s' m = Own \<and> heap_at P s' (F - {m}) (insert m V) (add_mset m held))"
proof -
  note H = heap_atD [OF h]
  obtain m mp where g: "rte_mbuf_raw_alloc lcore s = Some (m, s\<lparr>mm_pool := mp\<rparr>)"
    "if m = 0 then pool_at P mp F else m \<in> F \<and> pool_at P mp (F - {m})" using raw_alloc_get [OF H(1)] by blast
  let ?s = "s\<lparr>mm_pool := mp\<rparr>"
  have pool: "md_of ?s = md_of s" "rc_of ?s = rc_of s" "ec_of ?s = ec_of s" "RTE_MBUF_HAS_PINNED_EXTBUF ?s = RTE_MBUF_HAS_PINNED_EXTBUF s"
    "idle ?s = idle s" "own_buffer ?s = own_buffer s"
    by (auto simp: fun_eq_iff md_of_def rc_of_def ec_of_def RTE_MBUF_HAS_PINNED_EXTBUF_def idle_def next_of_def own_buffer_def)
  show ?thesis
  proof (cases "m = 0")
    case True
    then have "heap_at P ?s F V held" using h g(2) by (simp add: heap_at_def pool)
    then show ?thesis using True g(1) by (simp add: rte_pktmbuf_alloc_def)
  next
    case False
    let ?s' = "rte_pktmbuf_reset m ?s"
    have m: "m \<in> F" "m \<notin> V" "m \<in> P" "pool_at P mp (F - {m})" using False g(2) H(1,4) by (auto simp: pool_at_def)
    have id: "rc_of s m = 1" "md_of s m = Own" "own_buffer s m" using H(5) [OF m(1)] by (simp_all add: idle_def)
    have same: "md_of ?s' b = md_of s b" "rc_of ?s' b = rc_of s b" "own_buffer ?s' b = own_buffer s b" for b
      using id(2) by (simp_all add: reset_fields pool rc_of_def own_buffer_def)
    have ref: "refs_ok (insert m V) (add_mset m held) (md_of s) (rc_of s) (ec_of s)" by (rule refs_new [OF H(7) m(2) id(2,1)])
    have "heap_at P ?s' (F - {m}) (insert m V) (add_mset m held)"
    proof (rule heap_atI)
      show "\<not> RTE_MBUF_HAS_PINNED_EXTBUF ?s'" using H(2) pinned_cong [of ?s' s] by simp
      show "idle ?s' a" if "a \<in> F - {m}" for a using H(5) [of a] that idle_cong [of ?s' a s] by (simp add: reset_fields(5))
      show "own_buffer ?s' a" if "a \<in> insert m V" "md_of ?s' a = Own" for a using that H(6) id(3) by (auto simp: same)
      show "refs_ok (insert m V) (add_mset m held) (md_of ?s') (rc_of ?s') (ec_of ?s')"
        by (rule refs_cong [OF ref]) (simp_all add: same ec_of_def)
    qed (use m H(3,4) in auto)
    then show ?thesis using False g(1) m(1) id by (simp add: rte_pktmbuf_alloc_def same reset_fields(5))
  qed
qed

section \<open>References and attachment\<close>

text \<open>All of an mbuf but its count.\<close>

definition body :: "mbuf_obj \<Rightarrow> mbuf_obj" where "body m = m\<lparr>mo_refcnt := 0\<rparr>"

lemma body_eqD:
  assumes "body m' = body m"
  shows "mode m' = mode m" "mo_next m' = mo_next m" "mo_nb_segs m' = mo_nb_segs m" "mo_buf_addr m' = mo_buf_addr m" "mo_priv_size m' = mo_priv_size m"
    "mo_data_off m' = mo_data_off m" "mo_data_len m' = mo_data_len m" "mo_buf_len m' = mo_buf_len m" "mo_pkt_len m' = mo_pkt_len m"
proof -
  show f: "mo_next m' = mo_next m" "mo_nb_segs m' = mo_nb_segs m" "mo_buf_addr m' = mo_buf_addr m" "mo_priv_size m' = mo_priv_size m"
    "mo_data_off m' = mo_data_off m" "mo_data_len m' = mo_data_len m" "mo_buf_len m' = mo_buf_len m" "mo_pkt_len m' = mo_pkt_len m"
    using assms by (cases m; cases m'; simp add: body_def)+
  have "mo_ol_flags m' = mo_ol_flags m" "mo_shinfo m' = mo_shinfo m" using assms by (cases m; cases m'; simp add: body_def)+
  then show "mode m' = mode m" using f(3,4) by (intro mode_eq)
qed

lemma body_count [simp]: "body (m\<lparr>mo_refcnt := v\<rparr>) = body m"
  by (simp add: body_def)

text \<open>A change of live mbufs only.\<close>

lemma heap_live:
  assumes h: "heap_at P s F V held"
    and same: "mm_pool s' = mm_pool s" "mm_priv_flags s' = mm_priv_flags s" "mm_priv_size s' = mm_priv_size s" "\<And>a. a \<in> F \<Longrightarrow> mm_mbuf s' a = mm_mbuf s a"
    and live: "\<And>a. a \<in> V \<Longrightarrow> md_of s' a = Own \<Longrightarrow> own_buffer s' a" "refs_ok V held' (md_of s') (rc_of s') (ec_of s')"
  shows "heap_at P s' F V held'"
proof (rule heap_atI)
  note H = heap_atD [OF h]
  show "pool_at P (mm_pool s') F" "V \<subseteq> P" "F \<inter> V = {}" using H(1,3,4) same(1) by simp_all
  show "\<not> RTE_MBUF_HAS_PINNED_EXTBUF s'" using H(2) pinned_cong [OF same(2)] by simp
  show "idle s' a" if "a \<in> F" for a using H(5) [OF that] idle_cong [OF same(4) [OF that] same(3)] by simp
qed (rule live(1), assumption, assumption, rule live(2))

text \<open>One more reference to an mbuf in use.\<close>

definition room :: "u64 set \<Rightarrow> mbuf_mem \<Rightarrow> nat \<Rightarrow> bool" where
  "room V s n \<longleftrightarrow> (\<forall>a\<in>V. rc_of s a + n \<le> 65535 \<and> (case md_of s a of Ext x \<Rightarrow> ec_of s x + n \<le> 65535 | _ \<Rightarrow> True))"

lemma room_iff: "room V s n \<longleftrightarrow> (\<forall>a\<in>V. rc_of s a + n \<le> 65535 \<and> (\<forall>x. md_of s a = Ext x \<longrightarrow> ec_of s x + n \<le> 65535))"
  unfolding room_def by (intro ball_cong refl) (auto split: buf_mode.splits)

lemma refcnt_up:
  assumes h: "heap_at P s F V held" and a: "a \<in> V" "rc_of s a < 65535"
  shows "heap_at P (snd (rte_mbuf_refcnt_update a 1 s)) F V (add_mset a held)"
proof (rule heap_live [OF h])
  note H = heap_atD [OF h]
  let ?s = "snd (rte_mbuf_refcnt_update a 1 s)"
  have b: "body (mm_mbuf ?s b) = body (mm_mbuf s b)" for b by (simp add: refcnt_update_eq)
  note B = body_eqD [OF b]
  show "mm_mbuf ?s b = mm_mbuf s b" if "b \<in> F" for b using that a(1) H(4) by (auto simp: refcnt_update_eq)
  show "own_buffer ?s b" if "b \<in> V" "md_of ?s b = Own" for b
    using H(6) [of b] that own_buffer_cong [of ?s b s] B(4,5) [of b] B(1) [of b] by (simp add: md_of_def refcnt_update_eq)
  have rc: "rc_of ?s b = ((rc_of s)(a := rc_of s a + 1)) b" for b
    using a(2) unat_incr16 [of "mo_refcnt (mm_mbuf s a)"] by (simp add: refcnt_update_eq rc_of_def)
  have md: "md_of ?s b = md_of s b" for b unfolding md_of_def by (rule B(1))
  have ec: "ec_of ?s x = ec_of s x" for x by (simp add: ec_of_def refcnt_update_eq)
  show "refs_ok V (add_mset a held) (md_of ?s) (rc_of ?s) (ec_of ?s)"
    by (rule refs_cong [OF refs_more [OF H(7) a(1)]]) (rule md, rule rc, rule ec)
qed (simp_all add: refcnt_update_eq)

text \<open>What attaching does to the header of the new user, and what it shares with the other mbuf.\<close>

definition shares :: "mbuf_obj \<Rightarrow> mbuf_obj \<Rightarrow> bool" where
  "shares c m \<longleftrightarrow> mo_buf_addr c = mo_buf_addr m \<and> mo_buf_len c = mo_buf_len m \<and> mo_data_off c = mo_data_off m \<and> mo_data_len c = mo_data_len m"

lemma attach_header:
  assumes "mi \<noteq> m" "rte_mbuf_from_indirect (mm_mbuf s m) \<noteq> mi \<or> RTE_MBUF_HAS_EXTBUF (mm_mbuf s m)"
  defines "s' \<equiv> rte_pktmbuf_attach mi m s" and "a \<equiv> rte_mbuf_from_indirect (mm_mbuf s m)" and "x \<equiv> mo_shinfo (mm_mbuf s m)"
  shows "mm_pool s' = mm_pool s" "mm_priv_flags s' = mm_priv_flags s" "mm_priv_size s' = mm_priv_size s"
    "mo_refcnt (mm_mbuf s' mi) = mo_refcnt (mm_mbuf s mi)" "mo_next (mm_mbuf s' mi) = 0" "shares (mm_mbuf s' mi) (mm_mbuf s' m)"
    "b \<noteq> mi \<Longrightarrow> body (mm_mbuf s' b) = body (mm_mbuf s b)"
    "if RTE_MBUF_HAS_EXTBUF (mm_mbuf s m)
     then mode (mm_mbuf s' mi) = Ext x \<and> mm_shinfo s' = (mm_shinfo s)(x := mm_shinfo s x + 1) \<and> (\<forall>b. b \<noteq> mi \<longrightarrow> mm_mbuf s' b = mm_mbuf s b)
     else mode (mm_mbuf s' mi) = Of a \<and> mm_shinfo s' = mm_shinfo s \<and> mo_refcnt (mm_mbuf s' a) = mo_refcnt (mm_mbuf s a) + 1 \<and>
       (\<forall>b. b \<noteq> mi \<and> b \<noteq> a \<longrightarrow> mm_mbuf s' b = mm_mbuf s b)"
  using assms(1,2) unfolding s'_def a_def x_def
  by (auto simp: rte_pktmbuf_attach_def Let_def refcnt_update_eq ext_refcnt_update_eq shares_def rte_pktmbuf_copy_hdr_def mode_def
      flag_bits RTE_MBUF_F_INDIRECT_def bit_simps rte_mbuf_from_indirect_def)

lemma attach_ok:
  assumes h: "heap_at P s F V held" and i: "i \<in># held" "rc_of s i = 1" "md_of s i = Own" and m: "m \<in> V" "m \<noteq> i" and r: "room V s (Suc n)"
  defines "s' \<equiv> rte_pktmbuf_attach i m s"
  shows "heap_at P s' F V held" "room V s' n" "mm_pool s' = mm_pool s" "mo_next (mm_mbuf s' i) = 0" "rc_of s' i = 1"
    "shares (mm_mbuf s' i) (mm_mbuf s' m)" "b \<noteq> i \<Longrightarrow> body (mm_mbuf s' b) = body (mm_mbuf s b)"
proof -
  note H = heap_atD [OF h] and R = refs_okD [OF H(7)] and S = sole_holder [OF H(7) i(1,2)]
  let ?a = "rte_mbuf_from_indirect (mm_mbuf s m)" and ?x = "mo_shinfo (mm_mbuf s m)"
  have iV: "i \<in> V" using R(2) i(1) by blast
  have own: "?a = m" if "md_of s m = Own" using H(6) [OF m(1) that] by (simp add: own_buffer_def rte_mbuf_from_indirect_def)
  have target: "?a \<in> V \<and> md_of s ?a = Own \<and> ?a \<noteq> i" if "\<not> RTE_MBUF_HAS_EXTBUF (mm_mbuf s m)"
  proof (cases "md_of s m = Own")
    case False
    then have "md_of s m = Of ?a" using that by (auto simp: md_of_def mode_def split: if_splits)
    then show ?thesis using R(5,6) [OF m(1)] S(2) [OF m(1)] by auto
  qed (use own m in simp)
  note A = attach_header [where mi = i and m = m and s = s, folded s'_def]
  have A1: "i \<noteq> m" "?a \<noteq> i \<or> RTE_MBUF_HAS_EXTBUF (mm_mbuf s m)" using m(2) target by auto
  show "mm_pool s' = mm_pool s" "mo_next (mm_mbuf s' i) = 0" "rc_of s' i = 1" "shares (mm_mbuf s' i) (mm_mbuf s' m)"
    using A(1,4,5,6) [OF A1] i(2) by (simp_all add: rc_of_def)
  show b: "body (mm_mbuf s' b) = body (mm_mbuf s b)" if "b \<noteq> i" for b using A(7) [OF A1 that] .
  have md: "md_of s' b = md_of s b" if "b \<noteq> i" for b using body_eqD(1) [OF b [OF that]] by (simp add: md_of_def)
  have F: "mm_mbuf s' b = mm_mbuf s b" if "b \<in> F" for b
    using A(8) [OF A1] that H(4) iV target by (auto split: if_splits)
  have ob: "own_buffer s' b" if "b \<in> V" "md_of s' b = Own" for b
  proof -
    have "b \<noteq> i" using that A(8) [OF A1] by (auto simp: md_of_def split: if_splits)
    then show ?thesis using H(6) [of b] that md [of b] own_buffer_cong [of s' b s] body_eqD(4,5) [OF b [of b]] A(3) [OF A1] by simp
  qed
  have "refs_ok V held (md_of s') (rc_of s') (ec_of s') \<and> room V s' n"
  proof (cases "RTE_MBUF_HAS_EXTBUF (mm_mbuf s m)")
    case True
    then have mdm: "md_of s m = Ext ?x" by (simp add: md_of_def mode_def)
    then have lim: "ec_of s ?x + Suc n \<le> 65535" using r m(1) by (auto simp: room_iff)
    have new: "md_of s' = (md_of s)(i := Ext ?x)" "rc_of s' = rc_of s" "ec_of s' = (ec_of s)(?x := ec_of s ?x + 1)"
    proof -
      show "md_of s' = (md_of s)(i := Ext ?x)" using A(8) [OF A1] True md by (auto simp: fun_eq_iff md_of_def)
      show "rc_of s' = rc_of s"
      proof
        show "rc_of s' b = rc_of s b" for b using A(4,8) [OF A1] True by (cases "b = i") (simp_all add: rc_of_def)
      qed
      show "ec_of s' = (ec_of s)(?x := ec_of s ?x + 1)"
        using A(8) [OF A1] True lim unat_incr16 [of "mm_shinfo s ?x"] by (auto simp: fun_eq_iff ec_of_def)
    qed
    have "refs_ok V held (md_of s') (rc_of s') (ec_of s')"
      unfolding new using refs_attach_ext [OF H(7) i, of ?x] R(7) [OF m(1) mdm] by simp
    moreover have "room V s' n" using r m(1) mdm iV unfolding room_iff new by (auto split: if_splits)
    ultimately show ?thesis by blast
  next
    case False
    note t = target [OF False]
    have lim: "rc_of s ?a + Suc n \<le> 65535" using r t by (auto simp: room_iff)
    have new: "md_of s' = (md_of s)(i := Of ?a)" "rc_of s' = (rc_of s)(?a := rc_of s ?a + 1)" "ec_of s' = ec_of s"
    proof -
      show "md_of s' = (md_of s)(i := Of ?a)" using A(8) [OF A1] False md by (auto simp: fun_eq_iff md_of_def)
      show "rc_of s' = (rc_of s)(?a := rc_of s ?a + 1)"
      proof
        show "rc_of s' b = ((rc_of s)(?a := rc_of s ?a + 1)) b" for b
          using A(4,8) [OF A1] False t lim unat_incr16 [of "mo_refcnt (mm_mbuf s ?a)"]
          by (cases "b = ?a"; cases "b = i") (auto simp: rc_of_def)
      qed
      show "ec_of s' = ec_of s" using A(8) [OF A1] False by (auto simp: fun_eq_iff ec_of_def)
    qed
    have "refs_ok V held (md_of s') (rc_of s') (ec_of s')" unfolding new using refs_attach [OF H(7) i] t by blast
    moreover have "room V s' n" using r unfolding room_iff new by (auto split: if_splits)
    ultimately show ?thesis by blast
  qed
  then show "heap_at P s' F V held" "room V s' n"
    using heap_live [OF h A(1-3) [OF A1] F ob] by blast+
qed

section \<open>Detachment\<close>

definition restored :: "u64 \<Rightarrow> mbuf_mem \<Rightarrow> mbuf_mem" where
  "restored m s = upd_mbuf m (\<lambda>o'. (reset_data_off (o'\<lparr>mo_priv_size := mm_priv_size s,
     mo_buf_addr := m + (SIZEOF_MBUF + ucast (mm_priv_size s)), mo_buf_len := mm_data_room s\<rparr>))\<lparr>mo_data_len := 0, mo_ol_flags := 0\<rparr>) s"

lemma detach_restores:
  "\<not> RTE_MBUF_HAS_PINNED_EXTBUF s \<Longrightarrow> rte_pktmbuf_detach lcore m s =
     map_option (restored m) (if RTE_MBUF_HAS_EXTBUF (mm_mbuf s m) then Some (rte_pktmbuf_free_extbuf m s) else rte_pktmbuf_free_direct lcore m s)"
  by (auto simp: rte_pktmbuf_detach_def restored_def split: bind_split)

lemma restored_sel [simp]:
  "mm_pool (restored m s) = mm_pool s" "mm_priv_flags (restored m s) = mm_priv_flags s" "mm_priv_size (restored m s) = mm_priv_size s"
  "ec_of (restored m s) = ec_of s" "rc_of (restored m s) b = rc_of s b" "next_of (restored m s) b = next_of s b"
  "b \<noteq> m \<Longrightarrow> mm_mbuf (restored m s) b = mm_mbuf s b" "own_buffer (restored m s) m" "md_of (restored m s) b = ((md_of s)(m := Own)) b"
  by (auto simp: restored_def reset_data_off_def rc_of_def ec_of_def next_of_def own_buffer_def md_of_def mode_Own fun_eq_iff)

definition detached :: "u64 set \<Rightarrow> u64 set \<Rightarrow> u64 multiset \<Rightarrow> u64 \<Rightarrow> mbuf_mem \<Rightarrow> u64 set \<Rightarrow> mbuf_mem option \<Rightarrow> bool" where
  "detached P F held i s V res \<longleftrightarrow> (\<exists>s' F' V'. res = Some s' \<and> heap_at P s' F' V' held \<and> F' \<union> V' = F \<union> V \<and> V' \<subseteq> V \<and> i \<in> V' \<and>
     md_of s' i = Own \<and> rc_of s' i = rc_of s i \<and> (\<forall>b\<in>V'. next_of s' b = next_of s b \<and> (b \<noteq> i \<longrightarrow> md_of s' b = md_of s b)))"

lemma free_extbuf_sel:
  defines "x m s \<equiv> mo_shinfo (mm_mbuf s m)"
  shows "mm_pool (rte_pktmbuf_free_extbuf m s) = mm_pool s" "mm_priv_flags (rte_pktmbuf_free_extbuf m s) = mm_priv_flags s"
  "mm_priv_size (rte_pktmbuf_free_extbuf m s) = mm_priv_size s" "mm_mbuf (rte_pktmbuf_free_extbuf m s) = mm_mbuf s"
  "mm_shinfo (rte_pktmbuf_free_extbuf m s) = (mm_shinfo s)(x m s := mm_shinfo s (x m s) - 1)"
  by (simp_all add: rte_pktmbuf_free_extbuf_def ext_refcnt_update_eq x_def Let_def)

lemma detach_ext:
  assumes h: "heap_at P s F V held" and i: "i \<in> V" "md_of s i = Ext x"
  shows "detached P F held i s V (rte_pktmbuf_detach lcore i s)"
proof -
  note H = heap_atD [OF h] and D = refs_detach_ext [OF heap_atD(7) [OF h] i]
  have e: "RTE_MBUF_HAS_EXTBUF (mm_mbuf s i)" "mo_shinfo (mm_mbuf s i) = x" using i(2) by (auto simp: md_of_def mode_def split: if_splits)
  let ?s1 = "rte_pktmbuf_free_extbuf i s"
  let ?s' = "restored i ?s1"
  have md: "md_of ?s1 = md_of s" "rc_of ?s1 = rc_of s" "next_of ?s1 = next_of s"
    by (simp_all add: fun_eq_iff md_of_def rc_of_def next_of_def free_extbuf_sel)
  have "mm_shinfo s x \<noteq> 0" using D(2) by (auto simp: ec_of_def)
  then have ec: "ec_of ?s1 = (ec_of s)(x := ec_of s x - 1)"
    using unat_decr16 [of "mm_shinfo s x"] by (auto simp: fun_eq_iff ec_of_def free_extbuf_sel e(2))
  have "heap_at P ?s' F V held"
  proof (rule heap_live [OF h])
    show "mm_mbuf ?s' a = mm_mbuf s a" if "a \<in> F" for a
    proof -
      have "a \<noteq> i" using that i(1) H(4) by blast
      then show ?thesis by (simp add: free_extbuf_sel)
    qed
    show "own_buffer ?s' a" if "a \<in> V" "md_of ?s' a = Own" for a
      using that H(6) [of a] own_buffer_cong [of ?s' a s] by (cases "a = i") (simp_all add: md free_extbuf_sel)
    show "refs_ok V held (md_of ?s') (rc_of ?s') (ec_of ?s')"
      by (rule refs_cong [OF D(1)]) (simp_all only: restored_sel md ec)
  qed (simp_all add: free_extbuf_sel)
  moreover have "rte_pktmbuf_detach lcore i s = Some ?s'" using detach_restores [OF H(2)] e(1) by simp
  ultimately show ?thesis using i(1) unfolding detached_def
    by (intro exI [of _ ?s'] exI [of _ F] exI [of _ V]) (simp add: md)
qed

text \<open>An mbuf that is not used any more goes back to the pool.\<close>

definition released :: "u64 \<Rightarrow> mbuf_mem \<Rightarrow> mbuf_mem" where
  "released a = upd_mbuf a (\<lambda>m. m\<lparr>mo_next := 0, mo_nb_segs := 1, mo_refcnt := 1\<rparr>)"

lemma give_back:
  assumes p: "pool_at P (mm_pool s) F" "\<not> RTE_MBUF_HAS_PINNED_EXTBUF s" "V \<subseteq> P" "F \<inter> V = {}" "\<And>b. b \<in> F \<Longrightarrow> idle s b"
    and a: "a \<in> V" "md_of s a = Own" "own_buffer s a"
    and v: "\<And>b. b \<in> V - {a} \<Longrightarrow> md_of s b = Own \<Longrightarrow> own_buffer s b" "refs_ok (V - {a}) held (md_of s) (rc_of s) (ec_of s)"
  shows "\<exists>mp. rte_mempool_put lcore (mm_pool s) a = Some mp \<and>
    heap_at P ((released a s)\<lparr>mm_pool := mp\<rparr>) (insert a F) (V - {a}) held"
proof -
  have "pool_at P (mm_pool (released a s)) F" "a \<in> P - F" using p(1,3,4) a(1) by (auto simp: released_def)
  from pool_put [OF this] obtain mp where mp: "rte_mempool_put lcore (mm_pool (released a s)) a = Some mp"
    "pool_at P mp (insert a F)" by blast
  let ?s = "(released a s)\<lparr>mm_pool := mp\<rparr>"
  have same: "mm_mbuf ?s b = mm_mbuf s b" if "b \<noteq> a" for b using that by (simp add: released_def)
  have obj: "mode ((mm_mbuf s a)\<lparr>mo_next := 0, mo_nb_segs := 1, mo_refcnt := 1\<rparr>) = mode (mm_mbuf s a)" by (rule mode_eq) simp_all
  have md: "md_of ?s b = md_of s b" "own_buffer ?s b = own_buffer s b" for b
    using obj by (simp_all add: md_of_def released_def own_buffer_def)
  have "heap_at P ?s (insert a F) (V - {a}) held"
  proof (rule heap_atI)
    show "\<not> RTE_MBUF_HAS_PINNED_EXTBUF ?s" using p(2) by (simp add: RTE_MBUF_HAS_PINNED_EXTBUF_def released_def)
    show "idle ?s b" if "b \<in> insert a F" for b
    proof (cases "b = a")
      case True
      then show ?thesis using a(2,3) md by (simp add: idle_def) (simp add: released_def rc_of_def next_of_def)
    next
      case False
      then show ?thesis using p(5) [of b] that idle_cong [of ?s b s] same by (simp add: released_def)
    qed
    show "own_buffer ?s b" if "b \<in> V - {a}" "md_of ?s b = Own" for b using v(1) that by (simp add: md)
    show "refs_ok (V - {a}) held (md_of ?s) (rc_of ?s) (ec_of ?s)"
      by (rule refs_cong [OF v(2)]) (simp_all only: md, simp_all add: rc_of_def ec_of_def released_def)
  qed (use mp(2) p(3,4) in auto)
  then show ?thesis using mp(1) by (auto simp: released_def)
qed

lemma detach_indirect:
  assumes h: "heap_at P s F V held" and i: "i \<in> V" "md_of s i = Of a"
  shows "detached P F held i s V (rte_pktmbuf_detach lcore i s)"
proof -
  note H = heap_atD [OF h] and R = refs_okD [OF heap_atD(7) [OF h]] and D = refs_detach [OF heap_atD(7) [OF h] i]
  have e: "\<not> RTE_MBUF_HAS_EXTBUF (mm_mbuf s i)" "rte_mbuf_from_indirect (mm_mbuf s i) = a"
    using i(2) by (auto simp: md_of_def mode_def split: if_splits)
  have a: "a \<in> V" "md_of s a = Own" "a \<noteq> i" "a \<notin> F" "a \<in> P" using R(5,6) [OF i] i(2) H(3,4) by auto
  have pos: "mo_refcnt (mm_mbuf s a) \<noteq> 0" using R(4) [OF a(1)] by (auto simp: rc_of_def)
  have F: "b \<noteq> i \<and> b \<noteq> a" if "b \<in> F" for b using that a(4) i(1) H(4) by blast
  show ?thesis
  proof (cases "rc_of s a = 1")
    case True
    then have r1: "mo_refcnt (mm_mbuf s a) = 1" by (metis rc_of_def unat_1 word_unat_eq_iff)
    let ?s0 = "restored i s"
    have id0: "idle ?s0 b" if "b \<in> F" for b using H(5) [OF that] F [OF that] idle_cong [of ?s0 b s] by simp
    have ob0: "own_buffer ?s0 b" if "b \<in> V" "md_of ?s0 b = Own" for b
      using that H(6) [of b] own_buffer_cong [of ?s0 b s] by (cases "b = i") simp_all
    have rf: "refs_ok (V - {a}) held ((md_of s)(i := Own)) (rc_of s) (ec_of s)" using D True by simp
    have ref0: "refs_ok (V - {a}) held (md_of ?s0) (rc_of ?s0) (ec_of ?s0)" by (rule refs_cong [OF rf]) (simp_all only: restored_sel)
    have "pool_at P (mm_pool ?s0) F" "\<not> RTE_MBUF_HAS_PINNED_EXTBUF ?s0" "md_of ?s0 a = Own" "own_buffer ?s0 a"
      using H(1,2) pinned_cong [of ?s0 s] a ob0 by simp_all
    from give_back [OF this(1,2) H(3,4) id0 a(1) this(3,4) ob0 ref0, of lcore]
    obtain mp where mp: "rte_mempool_put lcore (mm_pool s) a = Some mp"
      "heap_at P ((released a ?s0)\<lparr>mm_pool := mp\<rparr>) (insert a F) (V - {a}) held" by auto
    let ?s' = "(released a ?s0)\<lparr>mm_pool := mp\<rparr>"
    have "rte_pktmbuf_free_direct lcore i s = Some ((released a s)\<lparr>mm_pool := mp\<rparr>)"
      using mp(1) e(2) r1
      by (auto simp: rte_pktmbuf_free_direct_def refcnt_update_eq rte_mbuf_refcnt_set_def rte_mbuf_raw_free_def released_def Let_def upd_mbuf_def)
    moreover have "restored i ((released a s)\<lparr>mm_pool := mp\<rparr>) = ?s'"
      using a(3) by (simp add: restored_def released_def upd_mbuf_def fun_upd_twist)
    ultimately have "rte_pktmbuf_detach lcore i s = Some ?s'" using detach_restores [OF H(2)] e(1) by simp
    moreover have "md_of ?s' b = md_of ?s0 b" "rc_of ?s' b = rc_of ?s0 b" "next_of ?s' b = next_of ?s0 b" if "b \<noteq> a" for b
      using that by (simp_all add: released_def md_of_def rc_of_def next_of_def)
    ultimately show ?thesis using i(1) a(1,3) mp(2) unfolding detached_def
      by (intro exI [of _ ?s'] exI [of _ "insert a F"] exI [of _ "V - {a}"]) auto
  next
    case False
    let ?s1 = "upd_mbuf a (\<lambda>m. m\<lparr>mo_refcnt := mo_refcnt (mm_mbuf s a) - 1\<rparr>) s"
    let ?s' = "restored i ?s1"
    have b1: "body (mm_mbuf ?s1 b) = body (mm_mbuf s b)" for b by simp
    note B = body_eqD [OF b1]
    have md: "md_of ?s1 b = md_of s b" "next_of ?s1 b = next_of s b" for b unfolding md_of_def next_of_def by (rule B)+
    have rc: "rc_of ?s1 b = ((rc_of s)(a := rc_of s a - 1)) b" for b using pos by (simp add: rc_of_def unat_decr16)
    have rf: "refs_ok V held ((md_of s)(i := Own)) ((rc_of s)(a := rc_of s a - 1)) (ec_of s)" using D False by simp
    have "heap_at P ?s' F V held"
    proof (rule heap_live [OF h])
      show "mm_mbuf ?s' b = mm_mbuf s b" if "b \<in> F" for b using F [OF that] by simp
      show "own_buffer ?s' b" if "b \<in> V" "md_of ?s' b = Own" for b
        using that H(6) [of b] own_buffer_cong [of ?s' b s] B(4,5) [of b] by (cases "b = i") (simp_all add: md)
      show "refs_ok V held (md_of ?s') (rc_of ?s') (ec_of ?s')"
        by (rule refs_cong [OF rf]) (simp_all only: restored_sel md rc fun_upd_apply, simp add: ec_of_def)
    qed simp_all
    moreover have "rte_pktmbuf_detach lcore i s = Some ?s'"
    proof -
      have "mo_refcnt (mm_mbuf s a) \<noteq> 1" using False by (auto simp: rc_of_def)
      then have "rte_pktmbuf_free_direct lcore i s = Some ?s1"
        using e(2) by (simp add: rte_pktmbuf_free_direct_def refcnt_update_eq Let_def)
      then show ?thesis using detach_restores [OF H(2)] e(1) by simp
    qed
    ultimately show ?thesis using i(1) a(3) unfolding detached_def
      by (intro exI [of _ ?s'] exI [of _ F] exI [of _ V]) (simp add: md rc del: upd_sel)
  qed
qed

lemma detach_ok:
  assumes "heap_at P s F V held" "i \<in> V" "md_of s i \<noteq> Own"
  shows "detached P F held i s V (rte_pktmbuf_detach lcore i s)"
  using assms detach_ext detach_indirect by (cases "md_of s i") blast+

section \<open>Release\<close>

lemma give_back_last:
  assumes h: "heap_at P s F V held" and m: "m \<in># held" "rc_of s m = 1" "md_of s m = Own"
  shows "\<exists>s'. rte_mbuf_raw_free lcore m (upd_mbuf m (\<lambda>o'. o'\<lparr>mo_next := 0, mo_nb_segs := 1\<rparr>) s) = Some s' \<and>
    heap_at P s' (insert m F) (V - {m}) (held - {#m#}) \<and> (\<forall>b. b \<noteq> m \<longrightarrow> next_of s' b = next_of s b \<and> md_of s' b = md_of s b)"
proof -
  note H = heap_atD [OF h]
  have mV: "m \<in> V" using refs_okD(2) [OF H(7) m(1)] .
  have "mo_refcnt (mm_mbuf s m) = 1" using m(2) by (metis rc_of_def unat_1 word_unat_eq_iff)
  then have "upd_mbuf m (\<lambda>o'. o'\<lparr>mo_next := 0, mo_nb_segs := 1\<rparr>) s = released m s"
    by (cases "mm_mbuf s m") (simp add: released_def upd_mbuf_def)
  moreover obtain mp where mp: "rte_mempool_put lcore (mm_pool s) m = Some mp"
    "heap_at P ((released m s)\<lparr>mm_pool := mp\<rparr>) (insert m F) (V - {m}) (held - {#m#})"
    using give_back [OF H(1-5) mV m(3) H(6) [OF mV m(3)] _ refs_last [OF H(7) m], of lcore] H(6) by auto
  ultimately show ?thesis
    by (intro exI [of _ "(released m s)\<lparr>mm_pool := mp\<rparr>"]) (simp add: rte_mbuf_raw_free_def released_def next_of_def md_of_def)
qed

definition freed :: "u64 set \<Rightarrow> u64 set \<Rightarrow> u64 multiset \<Rightarrow> mbuf_mem \<Rightarrow> u64 set \<Rightarrow> mbuf_mem option \<Rightarrow> bool" where
  "freed P F held s V res \<longleftrightarrow> (\<exists>s' F' V'. res = Some s' \<and> heap_at P s' F' V' held \<and> F' \<union> V' = F \<union> V \<and> V' \<subseteq> V \<and>
     (\<forall>b\<in>V'. next_of s' b = next_of s b \<and> md_of s' b = md_of s b))"

lemma free_seg_ok:
  assumes h: "heap_at P s F V held" and m: "m \<in># held"
  shows "freed P F (held - {#m#}) s V (rte_pktmbuf_free_seg lcore m s)"
proof -
  note H = heap_atD [OF h] and R = refs_okD [OF heap_atD(7) [OF h]]
  have mV: "m \<in> V" "m \<noteq> 0" using R(2) [OF m] H(1,3) by (auto simp: pool_at_def)
  have one: "mo_refcnt (mm_mbuf s m) = 1 \<longleftrightarrow> rc_of s m = 1" by (metis rc_of_def unat_1 word_unat_eq_iff)
  show ?thesis
  proof (cases "rc_of s m = 1")
    case True
    show ?thesis
    proof (cases "md_of s m = Own")
      case own: True
      then have "unlink_seg lcore m s = Some (True, upd_mbuf m (\<lambda>o'. o'\<lparr>mo_next := 0, mo_nb_segs := 1\<rparr>) s)"
        by (simp add: unlink_seg_def direct_mode md_of_def)
      then have "rte_pktmbuf_free_seg lcore m s = rte_mbuf_raw_free lcore m (upd_mbuf m (\<lambda>o'. o'\<lparr>mo_next := 0, mo_nb_segs := 1\<rparr>) s)"
        using True one mV(2) by (simp add: rte_pktmbuf_free_seg_def rte_pktmbuf_prefree_seg_def)
      then obtain s' where s': "rte_pktmbuf_free_seg lcore m s = Some s'" "heap_at P s' (insert m F) (V - {m}) (held - {#m#})"
        "\<forall>b. b \<noteq> m \<longrightarrow> next_of s' b = next_of s b \<and> md_of s' b = md_of s b"
        using give_back_last [OF h m True own, of lcore] by auto
      then show ?thesis using mV(1) unfolding freed_def
        by (intro exI [of _ s'] exI [of _ "insert m F"] exI [of _ "V - {m}"]) auto
    next
      case False
      obtain s1 F1 V1 where d: "rte_pktmbuf_detach lcore m s = Some s1" "heap_at P s1 F1 V1 held" "F1 \<union> V1 = F \<union> V" "V1 \<subseteq> V" "m \<in> V1"
        "md_of s1 m = Own" "rc_of s1 m = rc_of s m" "\<forall>b\<in>V1. next_of s1 b = next_of s b \<and> (b \<noteq> m \<longrightarrow> md_of s1 b = md_of s b)"
        using detach_ok [OF h mV(1) False, of lcore] unfolding detached_def by blast
      have "unlink_seg lcore m s = Some (True, upd_mbuf m (\<lambda>o'. o'\<lparr>mo_next := 0, mo_nb_segs := 1\<rparr>) s1)"
        using False d(1) heap_atD(2) [OF d(2)] by (simp add: unlink_seg_def direct_mode md_of_def)
      then have "rte_pktmbuf_free_seg lcore m s = rte_mbuf_raw_free lcore m (upd_mbuf m (\<lambda>o'. o'\<lparr>mo_next := 0, mo_nb_segs := 1\<rparr>) s1)"
        using True one mV(2) by (simp add: rte_pktmbuf_free_seg_def rte_pktmbuf_prefree_seg_def)
      then obtain s' where s': "rte_pktmbuf_free_seg lcore m s = Some s'" "heap_at P s' (insert m F1) (V1 - {m}) (held - {#m#})"
        "\<forall>b. b \<noteq> m \<longrightarrow> next_of s' b = next_of s1 b \<and> md_of s' b = md_of s1 b"
        using give_back_last [OF d(2) m _ d(6), of lcore] d(7) True by auto
      then show ?thesis using d(3,4,5,8) unfolding freed_def
        by (intro exI [of _ s'] exI [of _ "insert m F1"] exI [of _ "V1 - {m}"]) auto
    qed
  next
    case False
    let ?s' = "upd_mbuf m (\<lambda>o'. o'\<lparr>mo_refcnt := mo_refcnt (mm_mbuf s m) - 1\<rparr>) s"
    have pos: "mo_refcnt (mm_mbuf s m) \<noteq> 0" "mo_refcnt (mm_mbuf s m) \<noteq> 1"
      using R(4) [OF mV(1)] False by (auto simp: rc_of_def)
    have f: "rte_pktmbuf_free_seg lcore m s = Some ?s'"
      using pos by (simp add: rte_pktmbuf_free_seg_def rte_pktmbuf_prefree_seg_def refcnt_update_eq Let_def)
    have b: "body (mm_mbuf ?s' b) = body (mm_mbuf s b)" for b by simp
    note B = body_eqD [OF b]
    have md: "md_of ?s' b = md_of s b" "next_of ?s' b = next_of s b" for b unfolding md_of_def next_of_def by (rule B)+
    have rc: "rc_of ?s' b = ((rc_of s)(m := rc_of s m - 1)) b" for b using pos(1) by (simp add: rc_of_def unat_decr16)
    have "heap_at P ?s' F V (held - {#m#})"
    proof (rule heap_live [OF h])
      show "mm_mbuf ?s' b = mm_mbuf s b" if "b \<in> F" for b using that mV(1) H(4) by auto
      show "own_buffer ?s' b" if "b \<in> V" "md_of ?s' b = Own" for b
        using that H(6) [of b] own_buffer_cong [of ?s' b s] B(4,5) [of b] by (simp add: md)
      show "refs_ok V (held - {#m#}) (md_of ?s') (rc_of ?s') (ec_of ?s')"
        by (rule refs_cong [OF refs_drop [OF H(7) m False]]) (simp_all only: md rc, simp add: ec_of_def)
    qed simp_all
    then show ?thesis using f unfolding freed_def by (intro exI [of _ ?s'] exI [of _ F] exI [of _ V]) (simp add: md del: upd_sel)
  qed
qed

text \<open>Packets of several segments.\<close>

fun segments :: "mbuf_mem \<Rightarrow> u64 \<Rightarrow> u64 list \<Rightarrow> bool" where
  "segments s p [] \<longleftrightarrow> p = 0"
| "segments s p (a # as) \<longleftrightarrow> p = a \<and> a \<noteq> 0 \<and> segments s (next_of s a) as"

lemma segments_cong: "(\<And>a. a \<in> set as \<Longrightarrow> next_of s' a = next_of s a) \<Longrightarrow> segments s' p as = segments s p as"
  by (induction as arbitrary: p) simp_all

lemma free_ok:
  assumes "heap_at P s F V held" "segments s p as" "mset as \<subseteq># held"
  shows "freed P F (held - mset as) s V (rte_pktmbuf_free lcore p s)"
  using assms
proof (induction as arbitrary: s p F V held)
  case Nil
  then show ?case by (auto simp: freed_def rte_pktmbuf_free.simps)
next
  case (Cons a as)
  then have a: "p = a" "a \<noteq> 0" "segments s (next_of s a) as" "a \<in># held" "mset as \<subseteq># held - {#a#}"
    by (auto simp: insert_subset_eq_iff)
  obtain s1 F1 V1 where f: "rte_pktmbuf_free_seg lcore a s = Some s1" "heap_at P s1 F1 V1 (held - {#a#})" "F1 \<union> V1 = F \<union> V" "V1 \<subseteq> V"
    "\<forall>b\<in>V1. next_of s1 b = next_of s b \<and> md_of s1 b = md_of s b"
    using free_seg_ok [OF Cons.prems(1) a(4), of lcore] unfolding freed_def by blast
  have "b \<in> V1" if "b \<in> set as" for b
    using refs_okD(2) [OF heap_atD(7) [OF f(2)]] mset_subset_eqD [OF a(5), of b] that by simp
  then have "segments s1 (next_of s a) as" using a(3) f(5) segments_cong [of as s1 s] by blast
  from Cons.IH [OF f(2) this a(5)] obtain s2 F2 V2 where g: "rte_pktmbuf_free lcore (next_of s a) s1 = Some s2"
    "heap_at P s2 F2 V2 (held - {#a#} - mset as)" "F2 \<union> V2 = F1 \<union> V1" "V2 \<subseteq> V1"
    "\<forall>b\<in>V2. next_of s2 b = next_of s1 b \<and> md_of s2 b = md_of s1 b" unfolding freed_def by blast
  have "rte_pktmbuf_free lcore p s = Some s2"
    using a(1,2) f(1) g(1) by (subst rte_pktmbuf_free.simps) (simp add: next_of_def)
  moreover have "held - mset (a # as) = held - {#a#} - mset as" by simp
  ultimately show ?case using f(3-5) g(2-5) unfolding freed_def
    by (intro exI [of _ s2] exI [of _ F2] exI [of _ V2]) auto
qed

end
