(* ===== verification/RteMbufClone.thy ===== *)
theory RteMbufClone
  imports RteMbufLife
begin

text \<open>
  Clones share the data of a packet and are made completely or not at all, and any sequence of operations on the
  packet buffers of a pool returns every buffer exactly when its last user is gone.
\<close>

section \<open>Links\<close>

lemma heap_header:
  assumes h: "heap_at P s F V held" and a: "a \<in> V"
    and g: "\<And>m. mode (g m) = mode m" "\<And>m. mo_refcnt (g m) = mo_refcnt m" "\<And>m. mo_buf_addr (g m) = mo_buf_addr m" "\<And>m. mo_priv_size (g m) = mo_priv_size m"
  shows "heap_at P (upd_mbuf a g s) F V held" "room V (upd_mbuf a g s) n = room V s n"
    "md_of (upd_mbuf a g s) = md_of s" "rc_of (upd_mbuf a g s) = rc_of s"
proof -
  note H = heap_atD [OF h]
  show md: "md_of (upd_mbuf a g s) = md_of s" and rc: "rc_of (upd_mbuf a g s) = rc_of s"
    by (simp_all add: fun_eq_iff md_of_def rc_of_def g)
  have ec: "ec_of (upd_mbuf a g s) = ec_of s" by (simp add: fun_eq_iff ec_of_def)
  show "room V (upd_mbuf a g s) n = room V s n" by (simp add: room_iff md rc ec)
  show "heap_at P (upd_mbuf a g s) F V held"
  proof (rule heap_live [OF h])
    show "mm_mbuf (upd_mbuf a g s) b = mm_mbuf s b" if "b \<in> F" for b using that a H(4) by auto
    show "own_buffer (upd_mbuf a g s) b" if "b \<in> V" "md_of (upd_mbuf a g s) b = Own" for b
      using that H(6) [of b] by (cases "b = a") (simp_all add: md own_buffer_def g)
  qed (simp_all add: md rc ec H(7))
qed

lemma mode_header [simp]:
  "mode (m\<lparr>mo_next := v\<rparr>) = mode m" "mode (m\<lparr>mo_nb_segs := k, mo_pkt_len := n\<rparr>) = mode m"
  by (rule mode_eq; simp)+

fun linked :: "mbuf_mem \<Rightarrow> u64 list \<Rightarrow> bool" where
  "linked s (a # b # as) \<longleftrightarrow> next_of s a = b \<and> linked s (b # as)"
| "linked s _ \<longleftrightarrow> True"

lemma linked_segments:
  "linked s cs \<Longrightarrow> cs \<noteq> [] \<Longrightarrow> 0 \<notin> set cs \<Longrightarrow> next_of s (last cs) = 0 \<Longrightarrow> segments s (hd cs) cs"
  by (induction s cs rule: linked.induct) auto

lemma linked_cong: "(\<And>a. a \<in> set (butlast cs) \<Longrightarrow> next_of s' a = next_of s a) \<Longrightarrow> linked s' cs = linked s cs"
  by (induction s cs rule: linked.induct) auto

section \<open>The loop\<close>

definition links_to :: "u64 \<Rightarrow> mbuf_obj \<Rightarrow> mbuf_obj" where "links_to a m = m\<lparr>mo_next := a\<rparr>"

lemma links_eta: "mo_next_update (\<lambda>_. a) = links_to a"
  by (simp add: fun_eq_iff links_to_def)

text \<open>\<open>cs\<close> are the clones made so far.\<close>

definition cloned :: "u64 set \<Rightarrow> u64 set \<Rightarrow> u64 set \<Rightarrow> u64 multiset \<Rightarrow> u64 \<Rightarrow> u64 \<Rightarrow> u64 list \<Rightarrow> u16 \<Rightarrow> mbuf_mem \<Rightarrow>
    (u64 \<times> u64 \<times> u16 \<times> mbuf_mem) option \<Rightarrow> bool" where
  "cloned P F V held mi prev as nseg s res \<longleftrightarrow> (\<exists>mi' s' cs. res = Some (mi', last (mi # cs), nseg + of_nat (length (mi # cs)), s') \<and>
     heap_at P s' (F - set cs) (V \<union> set cs) (held + mset cs) \<and> distinct cs \<and> set cs \<subseteq> F \<and> linked s' (mi # cs) \<and>
     (\<forall>b\<in>V - {prev, mi}. body (mm_mbuf s' b) = body (mm_mbuf s b)) \<and>
     (prev \<noteq> mi \<longrightarrow> body (mm_mbuf s' prev) = body (links_to mi (mm_mbuf s prev))) \<and>
     (mi' \<noteq> 0 \<longrightarrow> list_all2 (\<lambda>c a. shares (mm_mbuf s' c) (mm_mbuf s' a)) (mi # cs) as))"

lemma body_links: "body m' = body m \<Longrightarrow> body (links_to a m') = body (links_to a m)"
  by (cases m; cases m'; simp add: body_def links_to_def)

lemma shares_body: "body c' = body c \<Longrightarrow> body a' = body a \<Longrightarrow> shares c' a' = shares c a"
  using body_eqD [of c' c] body_eqD [of a' a] by (simp add: shares_def)

lemma shares_links [simp]: "shares (links_to x c) a = shares c a" "shares c (links_to x a) = shares c a"
  by (simp_all add: shares_def links_to_def)

lemma clone_loop_ok:
  assumes "heap_at P s F V held" "mi \<in># held" "rc_of s mi = 1" "md_of s mi = Own" "segments s m as" "as \<noteq> []" "set as \<subseteq> V"
    "mi \<notin> set as" "prev \<in> V" "prev \<notin> set as" "room V s (length as)"
  shows "cloned P F V held mi prev as nseg s (clone_loop lcore mi prev m nseg s)"
  using assms
proof (induction as arbitrary: s F V held mi prev m nseg)
  case (Cons a as)
  note h = Cons.prems(1) and H = heap_atD [OF Cons.prems(1)]
  have a: "m = a" "a \<noteq> 0" "segments s (next_of s a) as" "a \<in> V" "a \<noteq> mi" "a \<noteq> prev" using Cons.prems by auto
  have miV: "mi \<in> V" "mi \<noteq> 0" using refs_okD(2) [OF H(7) Cons.prems(2)] H(1,3) by (auto simp: pool_at_def)
  let ?s1 = "rte_pktmbuf_attach mi a s"
  note A = attach_ok [OF h Cons.prems(2-4) a(4,5), of "length as"]
  have r: "room V s (Suc (length as))" using Cons.prems(11) by simp
  let ?s2 = "upd_mbuf prev (links_to mi) ?s1"
  have g: "mode (links_to mi o') = mode o'" "mo_refcnt (links_to mi o') = mo_refcnt o'" "mo_buf_addr (links_to mi o') = mo_buf_addr o'"
    "mo_priv_size (links_to mi o') = mo_priv_size o'" for o' by (simp_all add: links_to_def)
  note G = heap_header [OF A(1) [OF r] Cons.prems(9) g]
  have b2: "body (mm_mbuf ?s2 b) = body (mm_mbuf s b)" if "b \<noteq> mi" "b \<noteq> prev" for b using A(7) [OF r that(1)] that(2) by simp
  have p2: "body (mm_mbuf ?s2 prev) = body (links_to mi (mm_mbuf s prev))" if "prev \<noteq> mi"
    using body_links [OF A(7) [OF r that]] by simp
  have sh: "shares (mm_mbuf ?s2 mi) (mm_mbuf ?s2 a)" using A(6) [OF r] a(5,6) by (cases "mi = prev") simp_all
  have nx: "next_of ?s2 b = next_of s b" if "b \<in> set (a # as)" for b
    using body_eqD(2) [OF b2 [of b]] that Cons.prems(8,10) by (auto simp: next_of_def)
  have step: "clone_loop lcore mi prev m nseg s = (if next_of s a = 0 then Some (mi, mi, nseg + 1, ?s2)
      else do { (mi', s) \<leftarrow> rte_pktmbuf_alloc lcore ?s2;
        if mi' = 0 then Some (0, mi, nseg + 1, s) else clone_loop lcore mi' mi (next_of s' a) (nseg + 1) s })" if "next_of s' a = next_of s a" for s'
    using nx [of a] that a(6) by (subst clone_loop.simps) (simp add: a(1) Let_def links_eta next_of_def cong: if_cong)
  show ?case
  proof (cases "next_of s a = 0")
    case True
    then have "as = []" using a(3) by (cases as) auto
    then show ?thesis using step [of s] True G(1) b2 p2 sh unfolding cloned_def
      by (intro exI [of _ mi] exI [of _ ?s2] exI [of _ "[]"]) (simp del: upd_sel)
  next
    case False
    then have ne: "as \<noteq> []" using a(3) by auto
    obtain mi' s3 where al: "rte_pktmbuf_alloc lcore ?s2 = Some (mi', s3)" "mm_shinfo s3 = mm_shinfo ?s2" "\<forall>b. b \<noteq> mi' \<longrightarrow> mm_mbuf s3 b = mm_mbuf ?s2 b"
      "if mi' = 0 then heap_at P s3 F V held
       else mi' \<in> F \<and> rc_of s3 mi' = 1 \<and> md_of s3 mi' = Own \<and> heap_at P s3 (F - {mi'}) (insert mi' V) (add_mset mi' held)"
      using alloc_ok [OF G(1), of lcore] by blast
    have notV: "b \<noteq> mi'" if "b \<in> V" for b using that al(4) H(1,3,4) by (auto simp: pool_at_def split: if_splits)
    have same: "mm_mbuf s3 b = mm_mbuf ?s2 b" if "b \<in> V" for b using al(3) notV [OF that] by blast
    show ?thesis
    proof (cases "mi' = 0")
      case True
      then have "clone_loop lcore mi prev m nseg s = Some (0, mi, nseg + 1, s3)" using step [of s] False al(1) by simp
      then show ?thesis using True al(4) b2 p2 same Cons.prems(9) unfolding cloned_def
        by (intro exI [of _ 0] exI [of _ s3] exI [of _ "[]"]) (simp del: upd_sel)
    next
      case f: False
      then have new: "mi' \<in> F" "rc_of s3 mi' = 1" "md_of s3 mi' = Own" "heap_at P s3 (F - {mi'}) (insert mi' V) (add_mset mi' held)"
        using al(4) by simp_all
      have seg3: "segments s3 (next_of s a) as" "mi' \<notin> set as"
      proof -
        have "next_of s3 b = next_of s b" if "b \<in> set as" for b
          using nx [of b] same [of b] that Cons.prems(7) by (auto simp: next_of_def)
        then show "segments s3 (next_of s a) as" using a(3) segments_cong [of as s3 s] by blast
        show "mi' \<notin> set as" using notV Cons.prems(7) by auto
      qed
      have room3: "room (insert mi' V) s3 (length as)"
      proof -
        have r2: "room V ?s2 (length as)" using A(2) [OF r] G(2) by simp
        have "0 < rc_of ?s2 mi" "rc_of ?s2 mi + length as \<le> 65535"
          using refs_okD(4) [OF heap_atD(7) [OF G(1)] miV(1)] r2 miV(1) by (auto simp: room_iff)
        then have "1 + length as \<le> 65535" by linarith
        moreover have "rc_of s3 b = rc_of ?s2 b" "md_of s3 b = md_of ?s2 b" if "b \<in> V" for b
          using same [OF that] by (simp_all add: rc_of_def md_of_def)
        ultimately show ?thesis using r2 new(2,3) by (auto simp: room_iff ec_of_def al(2) simp del: upd_sel)
      qed
      have pre: "mi' \<in># add_mset mi' held" "set as \<subseteq> insert mi' V" "mi \<in> insert mi' V" "mi \<notin> set as" using Cons.prems(7,8) miV(1) by auto
      obtain mi'' s' cs where c: "clone_loop lcore mi' mi (next_of s a) (nseg + 1) s3 = Some (mi'', last (mi' # cs), nseg + 1 + of_nat (length (mi' # cs)), s')"
        "heap_at P s' (F - {mi'} - set cs) (insert mi' V \<union> set cs) (add_mset mi' held + mset cs)" "distinct cs" "set cs \<subseteq> F - {mi'}" "linked s' (mi' # cs)"
        "\<forall>b\<in>insert mi' V - {mi, mi'}. body (mm_mbuf s' b) = body (mm_mbuf s3 b)"
        "mi \<noteq> mi' \<longrightarrow> body (mm_mbuf s' mi) = body (links_to mi' (mm_mbuf s3 mi))"
        "mi'' \<noteq> 0 \<longrightarrow> list_all2 (\<lambda>c a. shares (mm_mbuf s' c) (mm_mbuf s' a)) (mi' # cs) as"
        using Cons.IH [OF new(4) pre(1) new(2,3) seg3(1) ne pre(2) seg3(2) pre(3,4) room3, of "nseg + 1"] unfolding cloned_def by blast
      have frame: "body (mm_mbuf s' b) = body (mm_mbuf ?s2 b)" if "b \<in> V" "b \<noteq> mi" for b
        using c(6) notV [OF that(1)] same [OF that(1)] that by auto
      have mi: "body (mm_mbuf s' mi) = body (links_to mi' (mm_mbuf ?s2 mi))" using c(7) notV [OF miV(1)] same [OF miV(1)] by simp
      have "next_of s' mi = mi'" using body_eqD(2) [OF mi] by (simp add: next_of_def links_to_def)
      then have lk: "linked s' (mi # mi' # cs)" using c(5) by simp
      have sh': "shares (mm_mbuf s' mi) (mm_mbuf s' a)"
        using sh shares_body [OF mi frame [OF a(4,5)]] by (simp del: upd_sel)
      have "clone_loop lcore mi prev m nseg s = Some (mi'', last (mi # mi' # cs), nseg + of_nat (length (mi # mi' # cs)), s')"
        using step [of s] False f al(1) c(1) by (simp add: ac_simps)
      moreover have "heap_at P s' (F - set (mi' # cs)) (V \<union> set (mi' # cs)) (held + mset (mi' # cs))"
        using c(2) by (simp add: Diff_insert2 [symmetric] insert_def [symmetric])
      ultimately show ?thesis using c(3,4,8) new(1) lk sh' frame b2 p2 Cons.prems(9) unfolding cloned_def
        by (intro exI [of _ mi''] exI [of _ s'] exI [of _ "mi' # cs"]) (auto simp del: upd_sel)
    qed
  qed
qed simp

section \<open>Clones\<close>

lemma heap_okE:
  assumes "heap_ok P s held"
  obtains F V where "heap_at P s F V held" "F \<union> V = P" "free_mbufs s = F" "V = P - F"
proof -
  have h: "heap_at P s (free_mbufs s) (P - free_mbufs s) held" using assms by (simp add: heap_ok_def)
  have "free_mbufs s \<subseteq> P" using heap_atD(1) [OF h] by (simp add: pool_at_def)
  then show thesis using that [OF h] by blast
qed

lemma room_mono: "room P s n \<Longrightarrow> V \<subseteq> P \<Longrightarrow> room V s n"
  by (auto simp: room_iff)

text \<open>A clone that was made: \<open>cs\<close> are its segments.\<close>

definition clone_of :: "mbuf_mem \<Rightarrow> u64 \<Rightarrow> u64 \<Rightarrow> u64 list \<Rightarrow> mbuf_mem \<Rightarrow> u64 list \<Rightarrow> bool" where
  "clone_of s m mc as s' cs \<longleftrightarrow> segments s' mc cs \<and> list_all2 (\<lambda>c a. shares (mm_mbuf s' c) (mm_mbuf s' a)) cs as \<and>
     mo_pkt_len (mm_mbuf s' mc) = mo_pkt_len (mm_mbuf s m) \<and> mo_nb_segs (mm_mbuf s' mc) = of_nat (length as)"

lemma clone_ok:
  assumes h: "heap_at P s F V held" and seg: "segments s m as" "as \<noteq> []" "set as \<subseteq> V" and r: "room V s (length as)"
  shows "\<exists>mc s'. rte_pktmbuf_clone lcore m s = Some (mc, s') \<and> segments s' m as \<and>
    (if mc = 0 then heap_at P s' F V held
     else \<exists>cs. clone_of s m mc as s' cs \<and> set cs \<subseteq> F \<and> heap_at P s' (F - set cs) (V \<union> set cs) (held + mset cs))"
proof -
  note H = heap_atD [OF h] and R = refs_okD [OF heap_atD(7) [OF h]]
  have m: "m \<in> V" using seg by (cases as) auto
  obtain mc s1 where al: "rte_pktmbuf_alloc lcore s = Some (mc, s1)" "mm_shinfo s1 = mm_shinfo s" "\<forall>b. b \<noteq> mc \<longrightarrow> mm_mbuf s1 b = mm_mbuf s b"
    "if mc = 0 then heap_at P s1 F V held
     else mc \<in> F \<and> rc_of s1 mc = 1 \<and> md_of s1 mc = Own \<and> heap_at P s1 (F - {mc}) (insert mc V) (add_mset mc held)"
    using alloc_ok [OF h, of lcore] by blast
  have notV: "b \<noteq> mc" if "b \<in> V" for b using that al(4) H(1,3,4) by (auto simp: pool_at_def split: if_splits)
  then have same: "mm_mbuf s1 b = mm_mbuf s b" if "b \<in> V" for b using al(3) that by blast
  have keep: "segments s' m as" if "\<And>b. b \<in> V \<Longrightarrow> next_of s' b = next_of s b" for s'
    using seg(1,3) that segments_cong [of as s' s m] by blast
  have seg1: "segments s1 m as" by (rule keep) (simp add: next_of_def same)
  show ?thesis
  proof (cases "mc = 0")
    case True
    then show ?thesis using al(1,4) seg1 by (simp add: rte_pktmbuf_clone_def)
  next
    case False
    let ?V = "insert mc V"
    have new: "mc \<in> F" "rc_of s1 mc = 1" "md_of s1 mc = Own" "heap_at P s1 (F - {mc}) ?V (add_mset mc held)"
      using False al(4) by simp_all
    have room1: "room ?V s1 (length as)"
    proof -
      have "0 < rc_of s m" "rc_of s m + length as \<le> 65535" using R(4) [OF m] r m by (auto simp: room_iff)
      then have "1 + length as \<le> 65535" by linarith
      moreover have "rc_of s1 b = rc_of s b" "md_of s1 b = md_of s b" if "b \<in> V" for b
        using same [OF that] by (simp_all add: rc_of_def md_of_def)
      ultimately show ?thesis using r new(2,3) by (auto simp: room_iff ec_of_def al(2))
    qed
    have "mc \<notin> set as" "set as \<subseteq> ?V" using notV seg(3) by auto
    then obtain mi s2 cs where c: "clone_loop lcore mc mc m 0 s1 = Some (mi, last (mc # cs), 0 + of_nat (length (mc # cs)), s2)"
      "heap_at P s2 (F - {mc} - set cs) (?V \<union> set cs) (add_mset mc held + mset cs)" "distinct cs" "set cs \<subseteq> F - {mc}" "linked s2 (mc # cs)"
      "\<forall>b\<in>?V - {mc, mc}. body (mm_mbuf s2 b) = body (mm_mbuf s1 b)"
      "mi \<noteq> 0 \<longrightarrow> list_all2 (\<lambda>c a. shares (mm_mbuf s2 c) (mm_mbuf s2 a)) (mc # cs) as"
      using clone_loop_ok [OF new(4) _ new(2,3) seg1 seg(2) _ _ _ _ room1, of mc 0 lcore] unfolding cloned_def by auto
    let ?cs = "mc # cs"
    let ?s3 = "upd_mbuf (last ?cs) (links_to 0) s2"
    let ?s4 = "upd_mbuf mc (\<lambda>o'. o'\<lparr>mo_nb_segs := of_nat (length ?cs), mo_pkt_len := mo_pkt_len (mm_mbuf s m)\<rparr>) ?s3"
    have live: "last ?cs \<in> ?V \<union> set cs" "mc \<in> ?V \<union> set cs" by (simp_all add: last_in_set)
    have h3: "heap_at P ?s3 (F - {mc} - set cs) (?V \<union> set cs) (add_mset mc held + mset cs)" "md_of ?s3 = md_of s2"
      by (rule heap_header [OF c(2) live(1)]; simp add: links_to_def)+
    have h4: "heap_at P ?s4 (F - {mc} - set cs) (?V \<union> set cs) (add_mset mc held + mset cs)" "md_of ?s4 = md_of ?s3"
      by (rule heap_header [OF h3(1) live(2)]; simp)+
    have cV: "b \<notin> set ?cs" if "b \<in> V" for b using that notV c(4) H(4) by auto
    have body4: "body (mm_mbuf ?s4 b) = body (mm_mbuf s b)" if "b \<in> V" for b
      using cV [OF that] c(6) same [OF that] that last_in_set [of ?cs] by auto
    note B = body_eqD [OF body4]
    have shr: "shares (mm_mbuf ?s4 b) (mm_mbuf ?s4 d) = shares (mm_mbuf s2 b) (mm_mbuf s2 d)" for b d
      by (simp add: shares_def links_to_def)
    have dist: "distinct ?cs" "0 \<notin> set ?cs" using c(3,4) False H(1) by (auto simp: pool_at_def)
    have "linked ?s4 ?cs"
    proof -
      have "last ?cs \<notin> set (butlast ?cs)" using dist(1) append_butlast_last_id [of ?cs]
        by (metis distinct_append list.distinct(1) not_distinct_conv_prefix)
      then have "next_of ?s4 b = next_of s2 b" if "b \<in> set (butlast ?cs)" for b
        using that by (auto simp: next_of_def links_to_def simp del: butlast.simps last.simps)
      then show ?thesis using c(5) linked_cong [of ?cs ?s4 s2] by blast
    qed
    moreover have "next_of ?s4 (last ?cs) = 0" by (auto simp: next_of_def links_to_def simp del: last.simps)
    ultimately have segc: "segments ?s4 mc ?cs" using linked_segments [of ?s4 ?cs] dist(2) by simp
    have seg4: "segments ?s4 m as" by (rule keep) (unfold next_of_def, rule B(2))
    have step: "rte_pktmbuf_clone lcore m s = (if mi = 0 then do { s \<leftarrow> rte_pktmbuf_free lcore mc ?s4; Some (0, s) } else Some (mc, ?s4))"
      using al(1) False c(1) same [OF m] by (simp add: rte_pktmbuf_clone_def Let_def links_eta del: last.simps)
    have made: ?thesis if "rte_pktmbuf_clone lcore m s = Some (mc, t)" "segments t m as" "clone_of s m mc as t ks" "set ks \<subseteq> F"
        "heap_at P t (F - set ks) (V \<union> set ks) (held + mset ks)" for t ks
      using that False by auto
    show ?thesis
    proof (cases "mi = 0")
      case True
      have "mset ?cs \<subseteq># add_mset mc held + mset cs" by simp
      from free_ok [OF h4(1) segc this, of lcore] obtain s5 F5 V5 where f: "rte_pktmbuf_free lcore mc ?s4 = Some s5"
        "heap_at P s5 F5 V5 held" "F5 \<union> V5 = F - {mc} - set cs \<union> (?V \<union> set cs)" "V5 \<subseteq> ?V \<union> set cs"
        "\<forall>b\<in>V5. next_of s5 b = next_of ?s4 b \<and> md_of s5 b = md_of ?s4 b" unfolding freed_def by auto
      have "md_of s5 i = md_of s i" if "i \<in># held" for i
        using f(5) refs_okD(2) [OF heap_atD(7) [OF f(2)] that] body_eqD(1) [OF body4 [OF R(2) [OF that]]] by (simp add: md_of_def del: upd_sel)
      then have V5: "V5 = V" using live_set [OF heap_atD(7) [OF f(2)]] live_set [OF H(7)] by auto
      have "F5 = F" using f(3) heap_atD(4) [OF f(2)] H(4) V5 new(1) c(4) by blast
      then have h5: "heap_at P s5 F V held" using f(2) V5 by simp
      have "segments s5 m as" using seg4 seg(3) f(5) V5 segments_cong [of as s5 ?s4] by blast
      then show ?thesis using h5 step True f(1) by (intro exI [of _ 0] exI [of _ s5]) (simp del: last.simps)
    next
      case f: False
      then have all: "list_all2 (\<lambda>c a. shares (mm_mbuf ?s4 c) (mm_mbuf ?s4 a)) ?cs as" unfolding shr using c(7) by blast
      then have len: "length as = length ?cs" by (rule list_all2_lengthD [symmetric])
      have "clone_of s m mc as ?s4 ?cs"
        unfolding clone_of_def by (intro conjI segc all) (simp_all add: len)
      moreover have "heap_at P ?s4 (F - set ?cs) (V \<union> set ?cs) (held + mset ?cs)"
      proof -
        have eq: "F - set ?cs = F - {mc} - set cs" "V \<union> set ?cs = ?V \<union> set cs" "held + mset ?cs = add_mset mc held + mset cs" by auto
        show ?thesis unfolding eq by (rule h4(1))
      qed
      moreover have "rte_pktmbuf_clone lcore m s = Some (mc, ?s4)" using step f by (simp only: if_False)
      moreover have "set ?cs \<subseteq> F" using new(1) c(4) by auto
      ultimately show ?thesis using made [OF _ seg4] by blast
    qed
  qed
qed

section \<open>Users of packet buffers\<close>

datatype buf_op = BAlloc nat | BRef u64 | BAttach u64 u64 | BExtbuf u64 u64 u16 u64 | BDetach nat u64 | BLink u64 u64
  | BFreeSeg nat u64 | BFree nat "u64 list" | BClone nat "u64 list"

text \<open>Users call the functions as their assertions and comments demand: on mbufs they hold, attaching only to an mbuf of
  their own with a single reference, with an external buffer whose count starts at one, and without more
  references than a count can hold. Other calls are no step. \<open>BLink\<close> writes the \<^verbatim>\<open>next\<close> field, as chaining does.\<close>

fun chain_of :: "mbuf_mem \<Rightarrow> nat \<Rightarrow> u64 \<Rightarrow> u64 list" where
  "chain_of s 0 p = []"
| "chain_of s (Suc n) p = p # chain_of s n (next_of s p)"

definition mine :: "mbuf_mem \<Rightarrow> u64 multiset \<Rightarrow> u64 \<Rightarrow> bool" where
  "mine s held i \<longleftrightarrow> i \<in># held \<and> RTE_MBUF_OBJ_DIRECT (mm_mbuf s i) \<and> mo_refcnt (mm_mbuf s i) = 1"

fun buf_step :: "u64 set \<Rightarrow> buf_op \<Rightarrow> mbuf_mem \<times> u64 multiset \<Rightarrow> (mbuf_mem \<times> u64 multiset) option" where
  "buf_step P (BAlloc lcore) (s, held) = do {
     (m, s) \<leftarrow> rte_pktmbuf_alloc lcore s;
     Some (s, if m = 0 then held else add_mset m held) }"
| "buf_step P (BRef a) (s, held) =
     Some (if a \<in># held \<and> mo_refcnt (mm_mbuf s a) \<noteq> 0xffff then (snd (rte_mbuf_refcnt_update a 1 s), add_mset a held) else (s, held))"
| "buf_step P (BAttach mi m) (s, held) =
     Some (if mine s held mi \<and> m \<in># held \<and> m \<noteq> mi \<and> room P s 1 then (rte_pktmbuf_attach mi m s, held) else (s, held))"
| "buf_step P (BExtbuf mi addr len x) (s, held) =
     Some (if mine s held mi \<and> (\<forall>j\<in>P. md_of s j \<noteq> Ext x)
       then (rte_pktmbuf_attach_extbuf mi addr len x (rte_mbuf_ext_refcnt_set x 1 s), held) else (s, held))"
| "buf_step P (BDetach lcore m) (s, held) =
     (if m \<in># held \<and> \<not> RTE_MBUF_OBJ_DIRECT (mm_mbuf s m) then map_option (\<lambda>s. (s, held)) (rte_pktmbuf_detach lcore m s) else Some (s, held))"
| "buf_step P (BLink a m) (s, held) = Some (if a \<in># held then (upd_mbuf a (links_to m) s, held) else (s, held))"
| "buf_step P (BFreeSeg lcore m) (s, held) =
     (if m \<in># held then map_option (\<lambda>s. (s, held - {#m#})) (rte_pktmbuf_free_seg lcore m s) else Some (s, held))"
| "buf_step P (BFree lcore as) (s, held) =
     (if as \<noteq> [] \<and> segments s (hd as) as \<and> mset as \<subseteq># held
      then map_option (\<lambda>s. (s, held - mset as)) (rte_pktmbuf_free lcore (hd as) s) else Some (s, held))"
| "buf_step P (BClone lcore as) (s, held) =
     (if as \<noteq> [] \<and> segments s (hd as) as \<and> (\<forall>a\<in>set as. a \<in># held) \<and> room P s (length as)
      then do {
        (mc, s) \<leftarrow> rte_pktmbuf_clone lcore (hd as) s;
        Some (s, if mc = 0 then held else held + mset (chain_of s (length as) mc)) }
      else Some (s, held))"

lemma chain_segments: "segments s p cs \<Longrightarrow> chain_of s (length cs) p = cs"
  by (induction cs arbitrary: p) auto

lemma mineD: "mine s held i \<Longrightarrow> i \<in># held \<and> rc_of s i = 1 \<and> md_of s i = Own"
  by (simp add: mine_def rc_of_def md_of_def direct_mode)

lemma attach_ext_ok:
  assumes h: "heap_at P s F V held" and i: "mine s held i" and x: "\<And>j. j \<in> V \<Longrightarrow> md_of s j \<noteq> Ext x"
  shows "heap_at P (rte_pktmbuf_attach_extbuf i addr len x (rte_mbuf_ext_refcnt_set x 1 s)) F V held"
proof (rule heap_live [OF h])
  note H = heap_atD [OF h] and I = mineD [OF i]
  let ?s = "rte_pktmbuf_attach_extbuf i addr len x (rte_mbuf_ext_refcnt_set x 1 s)"
  have iV: "i \<in> V" using refs_okD(2) [OF H(7)] I by blast
  have other: "mm_mbuf ?s b = mm_mbuf s b" if "b \<noteq> i" for b
    using that by (simp add: rte_pktmbuf_attach_extbuf_def rte_mbuf_ext_refcnt_set_def)
  have md: "md_of ?s b = ((md_of s)(i := Ext x)) b" for b
    by (cases "b = i") (simp_all add: md_of_def other, simp add: rte_pktmbuf_attach_extbuf_def mode_def flag_bits RTE_MBUF_F_EXTERNAL_def bit_simps)
  have rc: "rc_of ?s b = rc_of s b" for b
    by (cases "b = i") (simp_all add: rc_of_def other, simp add: rte_pktmbuf_attach_extbuf_def rte_mbuf_ext_refcnt_set_def)
  show "mm_mbuf ?s b = mm_mbuf s b" if "b \<in> F" for b 
  proof -
    have "b \<noteq> i" using that iV H(4) by blast
    then show ?thesis by (rule other)
  qed
  show "own_buffer ?s b" if "b \<in> V" "md_of ?s b = Own" for b
    using that H(6) [of b] own_buffer_cong [of ?s b s]
    by (cases "b = i") (simp_all add: md other, simp add: rte_pktmbuf_attach_extbuf_def rte_mbuf_ext_refcnt_set_def)
  have "users V (md_of s) (Ext x) = {}" using x by (auto simp: users_def)
  then have new: "refs_ok V held ((md_of s)(i := Ext x)) (rc_of s) ((ec_of s)(x := 1))"
    using refs_attach_ext [OF H(7), of i x] I by simp
  show "refs_ok V held (md_of ?s) (rc_of ?s) (ec_of ?s)"
    by (rule refs_cong [OF new]) (simp_all only: md rc, simp add: ec_of_def rte_pktmbuf_attach_extbuf_def rte_mbuf_ext_refcnt_set_def)
qed (simp_all add: rte_pktmbuf_attach_extbuf_def rte_mbuf_ext_refcnt_set_def)

lemma buf_step_keeps:
  assumes ok: "heap_ok P s held"
  shows "\<exists>s' held'. buf_step P op (s, held) = Some (s', held') \<and> heap_ok P s' held'"
proof -
  obtain F V where h: "heap_at P s F V held" "F \<union> V = P" "free_mbufs s = F" "V = P - F" using heap_okE [OF ok] by blast
  note H = heap_atD [OF h(1)] and R = refs_okD [OF heap_atD(7) [OF h(1)]]
  have heldV: "a \<in> V" if "a \<in># held" for a using R(2) that .
  show ?thesis
  proof (cases op)
    case (BAlloc lcore)
    obtain m s' where m: "rte_pktmbuf_alloc lcore s = Some (m, s')"
      "if m = 0 then heap_at P s' F V held else m \<in> F \<and> rc_of s' m = 1 \<and> md_of s' m = Own \<and> heap_at P s' (F - {m}) (insert m V) (add_mset m held)"
      using alloc_ok [OF h(1), of lcore] by blast
    moreover have "F - {m} \<union> insert m V = P" if "m \<in> F" using that h(2) by blast
    ultimately show ?thesis using BAlloc h(2) heap_okI by (cases "m = 0") auto
  next
    case (BRef a)
    have "rc_of s a < 65535" if "mo_refcnt (mm_mbuf s a) \<noteq> 0xffff"
    proof -
      have "rc_of s a \<noteq> 65535" using that by (auto simp: rc_of_def word_unat_eq_iff)
      then show ?thesis using unat_less_16 [of "mo_refcnt (mm_mbuf s a)"] unfolding rc_of_def by linarith
    qed
    then show ?thesis using BRef ok heap_okI [OF refcnt_up [OF h(1) heldV] h(2)] by auto
  next
    case (BAttach mi m)
    have "heap_at P (rte_pktmbuf_attach mi m s) F V held" if "mine s held mi" "m \<in># held" "m \<noteq> mi" "room P s 1"
      using attach_ok(1) [OF h(1), of mi m 0] mineD [OF that(1)] heldV [OF that(2)] that(3) room_mono [OF that(4) H(3)] by simp
    then show ?thesis using BAttach ok heap_okI [OF _ h(2)] by simp
  next
    case (BExtbuf mi addr len x)
    have "heap_ok P (rte_pktmbuf_attach_extbuf mi addr len x (rte_mbuf_ext_refcnt_set x 1 s)) held"
      if "mine s held mi" "\<forall>j\<in>P. md_of s j \<noteq> Ext x"
    proof (rule heap_okI [OF _ h(2)])
      show "heap_at P (rte_pktmbuf_attach_extbuf mi addr len x (rte_mbuf_ext_refcnt_set x 1 s)) F V held"
        by (rule attach_ext_ok [OF h(1) that(1)]) (use that(2) H(3) in blast)
    qed
    then show ?thesis using BExtbuf ok by simp
  next
    case (BDetach lcore m)
    show ?thesis
    proof (cases "m \<in># held \<and> \<not> RTE_MBUF_OBJ_DIRECT (mm_mbuf s m)")
      case True
      then have "md_of s m \<noteq> Own" by (simp add: direct_mode md_of_def)
      then obtain s' F' V' where d: "rte_pktmbuf_detach lcore m s = Some s'" "heap_at P s' F' V' held" "F' \<union> V' = F \<union> V"
        using detach_ok [OF h(1) heldV, of m lcore] True unfolding detached_def by blast
      then show ?thesis using BDetach True heap_okI [OF d(2)] h(2) by simp
    qed (use BDetach ok in auto)
  next
    case (BLink a m)
    have "heap_at P (upd_mbuf a (links_to m) s) F V held" if "a \<in># held"
      by (rule heap_header(1) [OF h(1) heldV [OF that]]) (simp_all add: links_to_def)
    then show ?thesis using BLink ok heap_okI [OF _ h(2)] by simp
  next
    case (BFreeSeg lcore m)
    show ?thesis
    proof (cases "m \<in># held")
      case True
      then obtain s' F' V' where d: "rte_pktmbuf_free_seg lcore m s = Some s'" "heap_at P s' F' V' (held - {#m#})" "F' \<union> V' = F \<union> V"
        using free_seg_ok [OF h(1) True, of lcore] unfolding freed_def by blast
      then show ?thesis using BFreeSeg True heap_okI [OF d(2)] h(2) by simp
    qed (use BFreeSeg ok in auto)
  next
    case (BFree lcore as)
    show ?thesis
    proof (cases "as \<noteq> [] \<and> segments s (hd as) as \<and> mset as \<subseteq># held")
      case True
      then obtain s' F' V' where d: "rte_pktmbuf_free lcore (hd as) s = Some s'" "heap_at P s' F' V' (held - mset as)" "F' \<union> V' = F \<union> V"
        using free_ok [OF h(1), of "hd as" as lcore] unfolding freed_def by blast
      then show ?thesis using BFree True heap_okI [OF d(2)] h(2) by simp
    qed (use BFree ok in auto)
  next
    case (BClone lcore as)
    show ?thesis
    proof (cases "as \<noteq> [] \<and> segments s (hd as) as \<and> (\<forall>a\<in>set as. a \<in># held) \<and> room P s (length as)")
      case True
      then have "set as \<subseteq> V" "room V s (length as)" using heldV room_mono [OF _ H(3)] by blast+
      then obtain mc s' where c: "rte_pktmbuf_clone lcore (hd as) s = Some (mc, s')"
        "if mc = 0 then heap_at P s' F V held
         else \<exists>cs. clone_of s (hd as) mc as s' cs \<and> set cs \<subseteq> F \<and> heap_at P s' (F - set cs) (V \<union> set cs) (held + mset cs)"
        using clone_ok [OF h(1), of "hd as" as lcore] True by blast
      show ?thesis
      proof (cases "mc = 0")
        case False
        then obtain cs where cs: "clone_of s (hd as) mc as s' cs" "set cs \<subseteq> F" "heap_at P s' (F - set cs) (V \<union> set cs) (held + mset cs)"
          using c(2) by auto
        have "length cs = length as" "segments s' mc cs" using cs(1) list_all2_lengthD by (auto simp: clone_of_def)
        then have "chain_of s' (length as) mc = cs" using chain_segments by metis
        moreover have "F - set cs \<union> (V \<union> set cs) = P" using cs(2) h(2) by blast
        ultimately show ?thesis using BClone True False c(1) heap_okI [OF cs(3)] by simp
      qed (use BClone True c heap_okI [OF _ h(2)] in simp)
    qed (use BClone ok in auto)
  qed
qed

fun buf_run :: "u64 set \<Rightarrow> buf_op list \<Rightarrow> mbuf_mem \<times> u64 multiset \<Rightarrow> (mbuf_mem \<times> u64 multiset) option" where
  "buf_run P [] s = Some s"
| "buf_run P (op # ops) s = do { s \<leftarrow> buf_step P op s; buf_run P ops s }"

lemma buf_run_keeps:
  assumes "heap_ok P s held"
  shows "\<exists>s' held'. buf_run P ops (s, held) = Some (s', held') \<and> heap_ok P s' held'"
  using assms
proof (induction ops arbitrary: s held)
  case (Cons op ops)
  from buf_step_keeps [OF Cons.prems] obtain s1 held1 where "buf_step P op (s, held) = Some (s1, held1)" "heap_ok P s1 held1" by blast
  then show ?case using Cons.IH [of s1 held1] by simp
qed simp

text \<open>What the invariant says about the pool.\<close>

lemma heap_ok_meaning:
  assumes "heap_ok P s held"
  shows "a \<in># held \<Longrightarrow> a \<notin># available (mm_pool s)" "a \<in># held \<Longrightarrow> md_of s a = Of b \<Longrightarrow> b \<in> P \<and> b \<notin># available (mm_pool s)"
    "held = {#} \<Longrightarrow> available (mm_pool s) = mset_set P" "count (available (mm_pool s)) a \<le> 1"
proof -
  obtain F V where h: "heap_at P s F V held" "F \<union> V = P" "free_mbufs s = F" "V = P - F" using heap_okE [OF assms] by blast
  note H = heap_atD [OF h(1)] and R = refs_okD [OF heap_atD(7) [OF h(1)]]
  have F: "set_mset (available (mm_pool s)) = F" "available (mm_pool s) = mset_set F" using h(3) H(1) by (simp_all add: free_mbufs_def pool_at_def)
  show "a \<in># held \<Longrightarrow> a \<notin># available (mm_pool s)" using R(2) [of a] H(4) F(1) by auto
  show "a \<in># held \<Longrightarrow> md_of s a = Of b \<Longrightarrow> b \<in> P \<and> b \<notin># available (mm_pool s)" using R(5) [OF R(2), of a b] H(3,4) F(1) by auto
  have "V = {}" if "held = {#}" using live_set [OF H(7)] that by simp
  then show "held = {#} \<Longrightarrow> available (mm_pool s) = mset_set P" using F(2) h(2) by simp
  show "count (available (mm_pool s)) a \<le> 1" by (simp add: F(2) count_mset_set')
qed

section \<open>A pool of three mbufs\<close>

definition fresh_mbuf :: "u64 \<Rightarrow> mbuf_obj" where
  "fresh_mbuf a = \<lparr>mo_buf_addr = a + 128, mo_next = 0, mo_data_off = 128, mo_refcnt = 1, mo_nb_segs = 1, mo_port = 0, mo_ol_flags = 0,
     mo_packet_type = 0, mo_pkt_len = 0, mo_data_len = 0, mo_vlan_tci = 0, mo_hash = 0, mo_vlan_tci_outer = 0, mo_buf_len = 2176,
     mo_shinfo = 0, mo_priv_size = 0, mo_tx_offload = 0, mo_dynfield1 = []\<rparr>"

text \<open>The first \<open>k\<close> of the mbufs are in the cache of lcore 0.\<close>

definition pool_with :: "u32 \<Rightarrow> rte_mempool" where
  "pool_with k = small_pool\<lparr>mp_cache_size := 2, mp_cache := (\<lambda>l. if l = 0
     then \<lparr>ca_size = 2, ca_flushthresh = 3, ca_len = k, ca_objs = [4096, 8192, 12288] @ replicate 1021 0\<rparr>
     else \<lparr>ca_size = 2, ca_flushthresh = 3, ca_len = 0, ca_objs = replicate 1024 0\<rparr>)\<rparr>"

definition three_mbufs :: "u32 \<Rightarrow> mbuf_mem" where
  "three_mbufs k = \<lparr>mm_mbuf = fresh_mbuf, mm_shinfo = (\<lambda>x. 0), mm_freed = [], mm_pool = pool_with k, mm_priv_size = 0, mm_data_room = 2176,
     mm_priv_flags = 0\<rparr>"

lemma pool_with_available: "available (pool_with k) = mset (take (unat k) ([4096, 8192, 12288] @ replicate 1021 0))"
proof -
  let ?c = "\<lambda>k xs. \<lparr>ca_size = 2, ca_flushthresh = 3, ca_len = k, ca_objs = xs\<rparr> :: mempool_cache"
  let ?c0 = "?c 0 (replicate 1024 0)" and ?ck = "?c k ([4096, 8192, 12288] @ replicate 1021 0)"
  have c: "mp_cache (pool_with k) = (\<lambda>l. ?c0)(0 := ?ck)" by (auto simp: pool_with_def fun_eq_iff)
  have "cached_by (\<lambda>l. ?c0) = {#}" "cached ?c0 = []" by (simp_all add: cached_by_def cached_def)
  then have "cached_by (mp_cache (pool_with k)) = mset (cached ?ck)"
    unfolding c using cached_by_upd [of 0 "\<lambda>l. ?c0" ?ck] by (simp add: RTE_MAX_LCORE_def)
  moreover have "backend_objs (pool_with k) = []" by (simp add: backend_objs_def pool_with_def small_pool_def wrapping_ring_ok(2))
  moreover have "mp_cache_size (pool_with k) \<noteq> 0" by (simp add: pool_with_def)
  ultimately show ?thesis by (simp add: available_def cached_def)
qed

lemma three_mbufs_at:
  assumes "k \<le> 3" "available (pool_with k) = mset_set F" "F \<subseteq> {4096, 8192, 12288}"
  shows "pool_at {4096, 8192, 12288} (mm_pool (three_mbufs k)) F" "idle (three_mbufs k) a" "\<not> RTE_MBUF_HAS_PINNED_EXTBUF (three_mbufs k)"
proof -
  have "mempool_ok (pool_with k)"
    using wrapping_ring_ok(1) assms(1)
    by (simp add: mempool_ok_def pool_with_def small_pool_def pool_cache_ok_def RTE_MEMPOOL_CACHE_MAX_SIZE_def CALC_CACHE_FLUSHTHRESH_def)
  moreover have "unat (r_capacity (mp_data (pool_with k))) = 3" by (simp add: pool_with_def small_pool_ok(3))
  ultimately show "pool_at {4096, 8192, 12288} (mm_pool (three_mbufs k)) F"
    using assms(2,3) by (simp add: pool_at_def three_mbufs_def)
  show "idle (three_mbufs k) a"
    by (simp add: idle_def rc_of_def next_of_def md_of_def mode_Own own_buffer_def SIZEOF_MBUF_def three_mbufs_def fresh_mbuf_def)
  show "\<not> RTE_MBUF_HAS_PINNED_EXTBUF (three_mbufs k)" by (simp add: RTE_MBUF_HAS_PINNED_EXTBUF_def three_mbufs_def)
qed

lemma three_free_ok: "heap_ok {4096, 8192, 12288} (three_mbufs 3) {#}"
proof (rule heap_okI)
  have "available (pool_with 3) = mset_set {4096, 8192, 12288}" by (simp add: pool_with_available)
  from three_mbufs_at [OF _ this] show "heap_at {4096, 8192, 12288} (three_mbufs 3) {4096, 8192, 12288} {} {#}"
    by (simp add: heap_at_def refs_ok_def)
qed simp

lemma one_used_ok: "heap_ok {4096, 8192, 12288} (three_mbufs 2) {#12288#}" "free_mbufs (three_mbufs 2) = {4096, 8192}"
proof -
  have "available (pool_with 2) = mset_set {4096, 8192}" by (simp add: pool_with_available)
  note P = three_mbufs_at [OF _ this]
  have "rc_of (three_mbufs 2) 12288 = 1" "md_of (three_mbufs 2) 12288 = Own" "own_buffer (three_mbufs 2) 12288"
    using P(2) [of 12288] by (simp_all add: idle_def)
  then have h: "heap_at {4096, 8192, 12288} (three_mbufs 2) {4096, 8192} {12288} {#12288#}"
    using P by (auto simp: heap_at_def refs_ok_def users_def)
  show "heap_ok {4096, 8192, 12288} (three_mbufs 2) {#12288#}" by (rule heap_okI [OF h]) auto
  show "free_mbufs (three_mbufs 2) = {4096, 8192}" by (rule heap_free [OF h])
qed

section \<open>The theorems\<close>

text \<open>C7: A clone of a packet, of one segment or several, direct or attached to other mbufs or external buffers, is made
  completely or not at all. If an allocation fails on the way, the segments made so far are back in the pool, no
  count has changed its meaning and the same mbufs are free as before; otherwise the clone has a segment for each
  segment of the packet that shares its data, its length and its number of segments. The original stays a packet.\<close>

theorem clone_all_or_nothing:
  assumes "heap_ok P s held" "segments s m as" "as \<noteq> []" "set as \<subseteq> P - free_mbufs s" "room P s (length as)"
  shows "\<exists>mc s'. rte_pktmbuf_clone lcore m s = Some (mc, s') \<and> segments s' m as \<and>
    (if mc = 0 then heap_ok P s' held \<and> free_mbufs s' = free_mbufs s
     else \<exists>cs. clone_of s m mc as s' cs \<and> set cs \<subseteq> free_mbufs s \<and> heap_ok P s' (held + mset cs))"
proof -
  obtain F V where h: "heap_at P s F V held" "F \<union> V = P" "free_mbufs s = F" "V = P - F" using heap_okE [OF assms(1)] by blast
  have V: "set as \<subseteq> V" "V \<subseteq> P" using assms(4) h(3,4) by auto
  obtain mc s' where c: "rte_pktmbuf_clone lcore m s = Some (mc, s')" "segments s' m as"
    "if mc = 0 then heap_at P s' F V held
     else \<exists>cs. clone_of s m mc as s' cs \<and> set cs \<subseteq> F \<and> heap_at P s' (F - set cs) (V \<union> set cs) (held + mset cs)"
    using clone_ok [OF h(1) assms(2,3) V(1) room_mono [OF assms(5) V(2)], of lcore] by blast
  have "heap_ok P s' (held + mset cs)" if "heap_at P s' (F - set cs) (V \<union> set cs) (held + mset cs)" "set cs \<subseteq> F" for cs
    by (rule heap_okI [OF that(1)]) (use that(2) h(2) in blast)
  then show ?thesis using c heap_okI [OF _ h(2)] heap_free h(3) by (cases "mc = 0") auto
qed

theorem clone_all_or_nothing_witness:
  "\<exists>mc s'. rte_pktmbuf_clone 0 12288 (three_mbufs 2) = Some (mc, s') \<and> segments s' 12288 [12288] \<and>
    (if mc = 0 then heap_ok {4096, 8192, 12288} s' {#12288#} \<and> free_mbufs s' = free_mbufs (three_mbufs 2)
     else \<exists>cs. clone_of (three_mbufs 2) 12288 mc [12288] s' cs \<and> set cs \<subseteq> free_mbufs (three_mbufs 2) \<and>
       heap_ok {4096, 8192, 12288} s' ({#12288#} + mset cs))"
  by (rule clone_all_or_nothing [OF one_used_ok(1)])
    (simp_all add: one_used_ok(2), simp_all add: next_of_def room_def rc_of_def md_of_def mode_Own three_mbufs_def fresh_mbuf_def)

text \<open>C6: Whatever the users of a pool do, on any lcores: allocate, take more references, attach mbufs to the buffers of others or
  to external buffers, detach them, chain, clone and free segments and packets. No call traps or fails to return. An mbuf
  that a user holds is not in the pool, and neither is the mbuf whose buffer it uses; no mbuf is in the pool twice; and when
  the users hold nothing, all mbufs are back. So there is no use after free, no double free and no leak.\<close>

theorem mbufs_freed_when_unused:
  assumes "heap_ok P s held"
  shows "\<exists>s' held'. buf_run P ops (s, held) = Some (s', held') \<and> heap_ok P s' held' \<and>
    (let pool = available (mm_pool s') in
      (\<forall>a \<in># held'. a \<notin># pool \<and> (\<forall>b. md_of s' a = Of b \<longrightarrow> b \<in> P \<and> b \<notin># pool)) \<and> (\<forall>a. count pool a \<le> 1) \<and>
      (held' = {#} \<longrightarrow> pool = mset_set P))"
proof -
  obtain s' held' where r: "buf_run P ops (s, held) = Some (s', held')" "heap_ok P s' held'" using buf_run_keeps [OF assms] by blast
  then show ?thesis using heap_ok_meaning [OF r(2)] by (auto simp: Let_def)
qed

theorem mbufs_freed_when_unused_witness:
  "\<exists>s' held'. buf_run {4096, 8192, 12288} [BAlloc 0, BClone 0 [12288], BFree 1 [12288], BFree 0 [8192]] (three_mbufs 3, {#}) = Some (s', held') \<and>
    heap_ok {4096, 8192, 12288} s' held' \<and> (held' = {#} \<longrightarrow> available (mm_pool s') = {#4096, 8192, 12288#})"
  using mbufs_freed_when_unused [OF three_free_ok, of "[BAlloc 0, BClone 0 [12288], BFree 1 [12288], BFree 0 [8192]]"]
  by (auto simp: Let_def simp del: buf_run.simps)

end
