(* ===== verification/RteCksum.thy ===== *)
theory RteCksum
  imports RteMbuf
begin

text \<open>
  Checksums over packet buffers and of IPv6, \<^verbatim>\<open>lib/net/rte_ip.h\<close>: \<^verbatim>\<open>rte_raw_cksum_mbuf\<close> against the checksum of the
  bytes of the range, and the checksums of UDP and TCP that use it. A segment that begins at an odd offset has
  its bytes in the other halves of the words; the code swaps the bytes of its sum, of which it keeps 16 bits.
\<close>

section \<open>The code\<close>

definition seg_bytes :: "mbuf \<Rightarrow> u32 \<Rightarrow> u32 \<Rightarrow> u8 list" where
  "seg_bytes m off n = take (unat n) (drop (unat (mb_off m) + unat off) (mb_buf m))"

text \<open>The loop over the segments: \<open>off\<close> and \<open>seglen\<close> are the range in the first of them, \<open>dn\<close> the bytes summed so far.
  \<open>None\<close> is a null \<^verbatim>\<open>next\<close> pointer.\<close>

fun cksum_segs :: "pkt \<Rightarrow> u32 \<Rightarrow> u32 \<Rightarrow> u32 \<Rightarrow> u32 \<Rightarrow> u32 \<Rightarrow> u32 option" where
  "cksum_segs [] off seglen len dn acc = None"
| "cksum_segs (m # ms) off seglen len dn acc =
     (let tmp = rte_raw_cksum_add (seg_bytes m off seglen) 0;
          tmp = (if dn AND 1 \<noteq> 0 then ucast (bswap16 (ucast tmp)) else tmp);
          acc = acc + tmp;
          dn = dn + seglen
      in if dn = len then Some acc
         else case ms of
             [] \<Rightarrow> None
           | n # _ \<Rightarrow>
               let seglen = ucast (mb_len n); seglen = (if seglen > len - dn then len - dn else seglen)
               in cksum_segs ms 0 seglen len dn acc)"

text \<open>\<open>Some None\<close> is the result -1.\<close>

fun rte_raw_cksum_mbuf :: "pkt \<Rightarrow> u32 \<Rightarrow> u32 \<Rightarrow> u16 option option" where
  "rte_raw_cksum_mbuf [] off len = None"
| "rte_raw_cksum_mbuf (h # hs) off len =
     (if off + len \<le> ucast (mb_len h) then Some (Some (rte_raw_cksum (seg_bytes h off len)))
      else if off + len > mb_pkt_len h then Some None
      else case skip_segs 0 (h # hs) off of
          None \<Rightarrow> Some None
        | Some (_, segs, off) \<Rightarrow>
            let seglen = ucast (mb_len (hd segs)) - off
            in if seglen \<ge> len then Some (Some (rte_raw_cksum (seg_bytes (hd segs) off len)))
               else map_option (\<lambda>acc. Some (rte_raw_cksum_reduce acc)) (cksum_segs segs off seglen len 0 0))"

definition fold_cksum :: "u16 \<Rightarrow> u16 \<Rightarrow> u16" where
  "fold_cksum a b = (let cksum = ucast a + ucast b :: u32 in ucast (drop_bit 16 (cksum AND 0xffff0000) + (cksum AND 0xffff)))"

definition rte_ipv4_udptcp_cksum_mbuf_raw :: "pkt \<Rightarrow> u8 list \<Rightarrow> u16 \<Rightarrow> u16 option" where
  "rte_ipv4_udptcp_cksum_mbuf_raw p ip l4_off =
     (case p of [] \<Rightarrow> None
      | m # _ \<Rightarrow>
          if ucast l4_off > mb_pkt_len m then Some 0
          else map_option (\<lambda>r. case r of None \<Rightarrow> 0 | Some raw \<Rightarrow> fold_cksum raw (rte_ipv4_phdr_cksum ip False))
                 (rte_raw_cksum_mbuf p (ucast l4_off) (mb_pkt_len m - ucast l4_off)))"

definition rte_ipv4_udptcp_cksum_mbuf :: "pkt \<Rightarrow> u8 list \<Rightarrow> u16 \<Rightarrow> u16 option" where
  "rte_ipv4_udptcp_cksum_mbuf p ip l4_off = map_option (\<lambda>c.
     let cksum = NOT c in if cksum = 0 \<and> ld8 ip 9 = IPPROTO_UDP then 0xffff else cksum) (rte_ipv4_udptcp_cksum_mbuf_raw p ip l4_off)"

definition rte_ipv4_udptcp_cksum_mbuf_verify :: "pkt \<Rightarrow> u8 list \<Rightarrow> u16 \<Rightarrow> int option" where
  "rte_ipv4_udptcp_cksum_mbuf_verify p ip l4_off =
     map_option (\<lambda>c. if c \<noteq> 0xffff then - 1 else 0) (rte_ipv4_udptcp_cksum_mbuf_raw p ip l4_off)"

text \<open>The IPv6 header: \<^verbatim>\<open>payload_len\<close> at 4, \<^verbatim>\<open>proto\<close> at 6, \<^verbatim>\<open>src_addr\<close> at 8, \<^verbatim>\<open>dst_addr\<close> at 24. \<open>seg\<close> says that
  \<^verbatim>\<open>ol_flags\<close> asks for TCP or UDP segmentation.\<close>

definition rte_ipv6_phdr_cksum :: "u8 list \<Rightarrow> bool \<Rightarrow> u16" where
  "rte_ipv6_phdr_cksum ip seg =
     (let len = (if seg then [0, 0, 0, 0] else [ld8 ip 4, ld8 ip 5, 0, 0]);
          acc = rte_raw_cksum_add (take 32 (drop 8 ip)) 0
      in rte_raw_cksum_reduce (rte_raw_cksum_add (len @ [0, 0, 0, ld8 ip 6]) acc))"

definition rte_ipv6_udptcp_cksum_raw :: "u8 list \<Rightarrow> u8 list \<Rightarrow> u16" where
  "rte_ipv6_udptcp_cksum_raw ip l4 =
     (let l4_len = bswap16 (ld16 ip 4) in fold_cksum (rte_raw_cksum (take (unat l4_len) l4)) (rte_ipv6_phdr_cksum ip False))"

definition rte_ipv6_udptcp_cksum :: "u8 list \<Rightarrow> u8 list \<Rightarrow> u16" where
  "rte_ipv6_udptcp_cksum ip l4 =
     (let cksum = NOT (rte_ipv6_udptcp_cksum_raw ip l4) in if cksum = 0 \<and> ld8 ip 6 = IPPROTO_UDP then 0xffff else cksum)"

definition rte_ipv6_udptcp_cksum_verify :: "u8 list \<Rightarrow> u8 list \<Rightarrow> int" where
  "rte_ipv6_udptcp_cksum_verify ip l4 = (if rte_ipv6_udptcp_cksum_raw ip l4 \<noteq> 0xffff then - 1 else 0)"

definition rte_ipv6_udptcp_cksum_mbuf_raw :: "pkt \<Rightarrow> u8 list \<Rightarrow> u16 \<Rightarrow> u16 option" where
  "rte_ipv6_udptcp_cksum_mbuf_raw p ip l4_off =
     (case p of [] \<Rightarrow> None
      | m # _ \<Rightarrow>
          if ucast l4_off > mb_pkt_len m then Some 0
          else map_option (\<lambda>r. case r of None \<Rightarrow> 0 | Some raw \<Rightarrow> fold_cksum raw (rte_ipv6_phdr_cksum ip False))
                 (rte_raw_cksum_mbuf p (ucast l4_off) (mb_pkt_len m - ucast l4_off)))"

definition rte_ipv6_udptcp_cksum_mbuf :: "pkt \<Rightarrow> u8 list \<Rightarrow> u16 \<Rightarrow> u16 option" where
  "rte_ipv6_udptcp_cksum_mbuf p ip l4_off = map_option (\<lambda>c.
     let cksum = NOT c in if cksum = 0 \<and> ld8 ip 6 = IPPROTO_UDP then 0xffff else cksum) (rte_ipv6_udptcp_cksum_mbuf_raw p ip l4_off)"

definition rte_ipv6_udptcp_cksum_mbuf_verify :: "pkt \<Rightarrow> u8 list \<Rightarrow> u16 \<Rightarrow> int option" where
  "rte_ipv6_udptcp_cksum_mbuf_verify p ip l4_off =
     map_option (\<lambda>c. if c \<noteq> 0xffff then - 1 else 0) (rte_ipv6_udptcp_cksum_mbuf_raw p ip l4_off)"

text \<open>Extension headers. A header that ends too early is a read past the buffer.\<close>

definition RTE_IPV6_GET_MF :: "u16 \<Rightarrow> u16" where "RTE_IPV6_GET_MF x = x AND 1"
definition RTE_IPV6_GET_FO :: "u16 \<Rightarrow> u16" where "RTE_IPV6_GET_FO x = drop_bit 3 x"
definition RTE_IPV6_SET_FRAG_DATA :: "u16 \<Rightarrow> u16 \<Rightarrow> u16" where "RTE_IPV6_SET_FRAG_DATA fo mf = (fo AND NOT 7) OR (mf AND 1)"

definition rte_ipv6_get_next_ext :: "u8 list \<Rightarrow> int \<Rightarrow> (int \<times> nat option) option" where
  "rte_ipv6_get_next_ext p proto =
     (if proto = 51 then case p of a # b # _ \<Rightarrow> Some (uint a, Some ((unat b + 2) * 4)) | _ \<Rightarrow> None
      else if proto = 0 \<or> proto = 43 \<or> proto = 60 then case p of a # b # _ \<Rightarrow> Some (uint a, Some ((unat b + 1) * 8)) | _ \<Rightarrow> None
      else if proto = 44 then case p of a # _ \<Rightarrow> Some (uint a, Some 8) | _ \<Rightarrow> None
      else Some (- EINVAL, None))"

section \<open>Sums of pieces\<close>

text \<open>The bytes of a range of a packet, segment by segment.\<close>

fun cut_range :: "u8 list list \<Rightarrow> nat \<Rightarrow> nat \<Rightarrow> u8 list list" where
  "cut_range [] off len = []"
| "cut_range (d # ds) off len =
     (if len = 0 then [] else if length d \<le> off then cut_range ds (off - length d) len
      else let b = take len (drop off d) in b # cut_range ds 0 (len - length b))"

text \<open>What the loop adds up, and how much of it is lost in the conversion to 16 bits.\<close>

fun sum_pieces :: "nat \<Rightarrow> u8 list list \<Rightarrow> nat" where
  "sum_pieces pos [] = 0"
| "sum_pieces pos (b # bs) = (if odd pos then unat (bswap16 (of_nat (sum16 b))) else sum16 b) + sum_pieces (pos + length b) bs"

fun lost :: "nat \<Rightarrow> u8 list list \<Rightarrow> nat" where
  "lost pos [] = 0"
| "lost pos (b # bs) = (if odd pos then sum16 b div 65536 else 0) + lost (pos + length b) bs"

text \<open>A piece at an odd place whose sum has a carry.\<close>

fun odd_carry :: "nat \<Rightarrow> u8 list list \<Rightarrow> bool" where
  "odd_carry pos [] \<longleftrightarrow> False"
| "odd_carry pos (b # bs) \<longleftrightarrow> odd pos \<and> 65536 \<le> sum16 b \<or> odd_carry (pos + length b) bs"

lemma concat_cut: "concat (cut_range ds off len) = take len (drop off (concat ds))"
proof (induction ds off len rule: cut_range.induct)
  case (2 d ds off len)
  then show ?case by (auto simp: Let_def min_def)
qed simp

lemma cut_pieces: "b \<in> set (cut_range ds off len) \<Longrightarrow> b \<noteq> []"
  by (induction ds off len rule: cut_range.induct) (auto simp: Let_def split: if_splits)

lemma unat_bswap16: "unat (bswap16 v) = 256 * (unat v mod 256) + unat v div 256"
proof -
  have d: "push_bit 8 v AND drop_bit 8 v = 0" by (rule bit_word_eqI) (auto simp: bit_simps dest: bit_imp_le_length)
  have p: "unat (push_bit 8 v) = 256 * (unat v mod 256)"
    by (simp only: unsigned_push_bit_eq) (simp add: take_bit_eq_mod push_bit_eq_mult mult.commute [of "unat v"] mod_mult_mult1 [of 256 _ 256, simplified])
  have q: "unat (drop_bit 8 v) = unat v div 256" by (simp add: drop_bit_eq_div unat_div)
  have "unat v < 65536" by (rule unat_less_16)
  then have "unat v div 256 < 256" "unat v mod 256 < 256" by (simp_all add: less_mult_imp_div_less)
  then have "256 * (unat v mod 256) + unat v div 256 < 65536" by linarith
  then show ?thesis unfolding bswap16_def using d p q by (simp add: disjunctive_add_eq_or [symmetric] unat_add_no_wrap)
qed

lemma eq_mod: "(x :: nat) = y + 65535 * k \<Longrightarrow> x mod 65535 = y mod 65535"
  by simp

lemma bswap16_mod: "unat (bswap16 v) mod 65535 = 256 * unat v mod 65535"
proof -
  have "256 * unat v = unat (bswap16 v) + 65535 * (unat v div 256)"
    unfolding unat_bswap16 using div_mult_mod_eq [of "unat v" 256] by linarith
  then show ?thesis by simp
qed

text \<open>Bytes behind an odd number of others count for 256 times as much: 65536 is 1 modulo 65535.\<close>

lemma sum16_odd: "odd (length a) \<Longrightarrow> sum16 (a @ b) mod 65535 = (sum16 a + 256 * sum16 b) mod 65535"
proof (induction a rule: sum16.induct)
  case (2 x)
  have "sum16 (x # b) mod 65535 = (unat x + 256 * sum16 b) mod 65535" for x
  proof (induction b arbitrary: x rule: sum16.induct)
    case (3 u v bs)
    have "unat x + 256 * sum16 (u # v # bs) = (unat x + 256 * unat u + (unat v + 256 * sum16 bs)) + 65535 * unat v" by simp
    note shift = eq_mod [OF this]
    have "sum16 (x # u # v # bs) = unat x + 256 * unat u + sum16 (v # bs)" by simp
    then show ?case using mod_add_cong [OF refl 3 [of v], of "unat x + 256 * unat u"] shift by (simp only:)
  qed simp_all
  then show ?case by simp
next
  case (3 x y a)
  then have "sum16 (a @ b) mod 65535 = (sum16 a + 256 * sum16 b) mod 65535" by simp
  from mod_add_cong [OF refl this, of "unat x + 256 * unat y"] show ?case by (simp add: add.assoc)
qed simp

lemma sum_pieces_mod:
  "(sum_pieces pos bs + 256 * lost pos bs) mod 65535 = (if odd pos then 256 else 1) * sum16 (concat bs) mod 65535"
proof (induction pos bs rule: sum_pieces.induct)
  case (2 pos b bs)
  let ?t = "sum16 b" and ?r = "sum16 (concat bs)"
  let ?c = "unat (bswap16 (of_nat ?t))"
  have swapped: "(?c + 256 * (?t div 65536)) mod 65535 = 256 * ?t mod 65535"
  proof -
    have u: "unat (of_nat ?t :: u16) = ?t mod 65536" by (simp add: unat_of_nat)
    have "256 * ?t = 256 * (?t mod 65536) + 256 * (?t div 65536) + 65535 * (256 * (?t div 65536))"
      using div_mult_mod_eq [of ?t 65536] by linarith
    then have "256 * ?t mod 65535 = (256 * (?t mod 65536) + 256 * (?t div 65536)) mod 65535" by (rule eq_mod)
    then show ?thesis using mod_add_cong [OF bswap16_mod [of "of_nat ?t"] refl, of "256 * (?t div 65536)"] by (simp only: u)
  qed
  have whole: "sum16 (b @ concat bs) mod 65535 = (?t + (if odd (length b) then 256 else 1) * ?r) mod 65535"
    using sum16_odd [of b "concat bs"] sum16_append [of b "concat bs"] by simp
  show ?case
  proof (cases "odd pos")
    case False
    have "(?t + (sum_pieces (pos + length b) bs + 256 * lost (pos + length b) bs)) mod 65535 =
        (?t + (if odd (length b) then 256 else 1) * ?r) mod 65535"
      using mod_add_cong [OF refl 2, of ?t] False by simp
    then show ?thesis using False whole by (simp add: add.assoc)
  next
    case True
    have r: "256 * sum16 (b @ concat bs) mod 65535 = (256 * ?t + (if odd (length b) then 1 else 256) * ?r) mod 65535"
    proof -
      have "256 * sum16 (b @ concat bs) mod 65535 = 256 * (?t + (if odd (length b) then 256 else 1) * ?r) mod 65535"
        using mod_mult_cong [OF refl whole, of 256] .
      also have "\<dots> = (256 * ?t + (if odd (length b) then 1 else 256) * ?r) mod 65535"
      proof (cases "odd (length b)")
        case odd: True
        have "256 * (?t + 256 * ?r) = 256 * ?t + ?r + 65535 * ?r" by simp
        from eq_mod [OF this] show ?thesis using odd by simp
      qed (simp add: distrib_left)
      finally show ?thesis .
    qed
    have ih: "(sum_pieces (pos + length b) bs + 256 * lost (pos + length b) bs) mod 65535 =
        (if odd (length b) then 1 else 256) * ?r mod 65535" using 2 True by simp
    have "sum_pieces pos (b # bs) + 256 * lost pos (b # bs) =
        (?c + 256 * (?t div 65536)) + (sum_pieces (pos + length b) bs + 256 * lost (pos + length b) bs)" using True by simp
    then have "(sum_pieces pos (b # bs) + 256 * lost pos (b # bs)) mod 65535 = 256 * sum16 (b @ concat bs) mod 65535"
      by (simp only: mod_add_cong [OF swapped ih] r)
    then show ?thesis using True by (simp only: if_True concat.simps simp_thms)
  qed
qed simp

lemma sum16_zero: "sum16 xs = 0 \<longleftrightarrow> (\<forall>x\<in>set xs. x = 0)"
  by (induction xs rule: sum16.induct) (auto simp: unat_eq_zero)

lemma sum_pieces_zero: "lost pos bs = 0 \<Longrightarrow> sum_pieces pos bs = 0 \<longleftrightarrow> sum16 (concat bs) = 0"
proof (induction pos bs rule: sum_pieces.induct)
  case (2 pos b bs)
  have z: "unat (bswap16 (of_nat (sum16 b))) = 0 \<longleftrightarrow> sum16 b = 0" if "sum16 b div 65536 = 0"
  proof -
    have "unat (of_nat (sum16 b) :: u16) = sum16 b" using that by (simp add: unat_of_nat)
    then show ?thesis using unat_bswap16 [of "of_nat (sum16 b)"] by auto
  qed
  have "sum16 (concat (b # bs)) = 0 \<longleftrightarrow> sum16 b = 0 \<and> sum16 (concat bs) = 0" by (auto simp: sum16_zero)
  then show ?case using 2 z by (auto split: if_splits)
qed simp

lemma lost_less:
  assumes "bs \<noteq> []" "\<forall>b\<in>set bs. b \<noteq> []"
  shows "lost pos bs < length (concat bs)"
  using assms
proof (induction pos bs rule: lost.induct)
  case (2 pos b bs)
  have b: "sum16 b div 65536 < length b"
  proof -
    have "0 < length b" using 2 by simp
    then have "65535 * ((length b + 1) div 2) < 65536 * ((length b + 1) div 2)" "(length b + 1) div 2 \<le> length b" by simp_all
    then have "sum16 b < 65536 * length b" using sum16_le [of b] by linarith
    then show ?thesis by (simp add: less_mult_imp_div_less mult.commute)
  qed
  then show ?case using 2 by (cases "bs = []") auto
qed simp

lemma sum_pieces_le:
  assumes "\<forall>b\<in>set bs. b \<noteq> []"
  shows "sum_pieces pos bs \<le> 65535 * length (concat bs)"
  using assms
proof (induction pos bs rule: sum_pieces.induct)
  case (2 pos b bs)
  have h: "1 \<le> length b" "(length b + 1) div 2 \<le> length b" using 2(2) by (cases b; simp)+
  have "sum16 b \<le> 65535 * length b" using sum16_le [of b] h(2) by linarith
  moreover have "unat (bswap16 v) \<le> 65535 * length b" for v using unat_u16_le [of "bswap16 v"] h(1) by linarith
  ultimately have "(if odd pos then unat (bswap16 (of_nat (sum16 b))) else sum16 b) \<le> 65535 * length b" by simp
  then show ?case using 2 by (simp add: distrib_left)
qed simp

section \<open>The loop\<close>

lemma odd_and_1: "(dn :: u32) AND 1 \<noteq> 0 \<longleftrightarrow> odd (unat dn)"
proof -
  have "unat (dn AND 1) = unat dn mod 2" by (simp add: and_one_eq unat_mod)
  then show ?thesis using unat_eq_zero [of "dn AND 1"] by (metis even_iff_mod_2_eq_zero)
qed

lemma seg_bytes_data:
  assumes "unat off + unat n \<le> unat (mb_len m)"
  shows "seg_bytes m off n = take (unat n) (drop (unat off) (seg_data m))"
  using assms by (simp add: seg_bytes_def seg_data_def drop_take min_def add.commute)

definition swapped_sum :: "nat \<Rightarrow> u8 list \<Rightarrow> nat" where
  "swapped_sum pos b = (if odd pos then unat (bswap16 (of_nat (sum16 b))) else sum16 b)"

lemma swapped_sum_le: "swapped_sum pos b \<le> 65535 * length b"
proof (cases "b = []")
  case True
  then show ?thesis by (simp add: swapped_sum_def unat_bswap16)
next
  case False
  then show ?thesis using sum_pieces_le [of "[b]" pos] by (simp add: swapped_sum_def)
qed

lemma piece_sum:
  assumes "length b \<le> 65535"
  shows "unat (let tmp = rte_raw_cksum_add b 0 in if (dn :: u32) AND 1 \<noteq> 0 then ucast (bswap16 (ucast tmp)) else tmp :: u32) = swapped_sum (unat dn) b"
proof -
  have "(length b + 1) div 2 \<le> 32768" using assms by simp
  then have "sum16 b < 4294967296" using sum16_le [of b] by linarith
  then have t: "unat (rte_raw_cksum_add b 0) = sum16 b" by (simp add: unat_cksum_add)
  have "(ucast (rte_raw_cksum_add b 0) :: u16) = of_nat (sum16 b)"
    by (simp add: word_unat_eq_iff unat_of_nat unsigned_ucast_eq take_bit_eq_mod t)
  then show ?thesis using t by (simp add: Let_def swapped_sum_def odd_and_1)
qed

lemma cksum_segs_spec:
  assumes "\<forall>m\<in>set p. seg_ok m" "p \<noteq> []" "unat off \<le> unat (mb_len (hd p))"
    "unat seglen = min (unat (mb_len (hd p)) - unat off) (unat len - unat dn)" "unat dn < unat len"
    "unat off + (unat len - unat dn) \<le> length (payload p)" "unat acc + 65535 * (unat len - unat dn) < 2 ^ 32"
  shows "\<exists>acc'. cksum_segs p off seglen len dn acc = Some acc' \<and>
    unat acc' = unat acc + sum_pieces (unat dn) (cut_range (map seg_data p) (unat off) (unat len - unat dn))"
  using assms
proof (induction p arbitrary: off seglen dn acc)
  case (Cons m ms)
  let ?n = "unat len - unat dn" and ?d = "seg_data m"
  let ?b = "take ?n (drop (unat off) ?d)"
  have m: "seg_ok m" "\<forall>m\<in>set ms. seg_ok m" "unat off \<le> unat (mb_len m)" and sl: "unat seglen = min (unat (mb_len m) - unat off) ?n"
    using Cons.prems by simp_all
  have ld: "length ?d = unat (mb_len m)" using m(1) by simp
  have lb: "length ?b = unat seglen" using sl ld by (simp add: min.commute)
  have bytes: "seg_bytes m off seglen = ?b"
  proof -
    have "seg_bytes m off seglen = take (unat seglen) (drop (unat off) ?d)" using m(3) sl by (intro seg_bytes_data) linarith
    then show ?thesis using sl ld by (simp add: min_def split: if_splits)
  qed
  have "unat (mb_len m) \<le> 65535" by (rule unat_u16_le)
  then have "length ?b \<le> 65535" using lb sl by linarith
  note tmp = piece_sum [OF this, of dn]
  define tmp where "tmp = (let tmp = rte_raw_cksum_add ?b 0 in if dn AND 1 \<noteq> 0 then ucast (bswap16 (ucast tmp)) else tmp :: u32)"
  have t: "unat tmp = swapped_sum (unat dn) ?b" "unat tmp \<le> 65535 * unat seglen"
    unfolding tmp_def tmp using swapped_sum_le [of "unat dn" ?b] lb by simp_all
  have sn: "unat seglen \<le> ?n" using sl by simp
  have acc: "unat (acc + tmp) = unat acc + unat tmp"
    by (rule unat_add_no_wrap) (use t(2) sn Cons.prems(7) in simp)
  have dn: "unat (dn + seglen) = unat dn + unat seglen"
  proof (rule unat_add_no_wrap)
    have "unat dn + unat seglen < 4294967296" using sn Cons.prems(5) unat_less_32 [of len] by linarith
    then show "unat dn + unat seglen < 2 ^ LENGTH(32)" by simp
  qed
  have step: "cksum_segs (m # ms) off seglen len dn acc =
      (if dn + seglen = len then Some (acc + tmp)
       else case ms of [] \<Rightarrow> None | n # _ \<Rightarrow>
         let seglen' = ucast (mb_len n); seglen' = (if seglen' > len - (dn + seglen) then len - (dn + seglen) else seglen')
         in cksum_segs ms 0 seglen' len (dn + seglen) (acc + tmp))"
    unfolding cksum_segs.simps bytes tmp_def Let_def by (rule refl)
  show ?case
  proof (cases "dn + seglen = len")
    case True
    then have whole: "unat seglen = ?n" using dn Cons.prems(5) by simp
    then have "0 < length ?b" using lb Cons.prems(5) by simp
    then have "cut_range (map seg_data (m # ms)) (unat off) ?n = [?b]"
      using whole lb Cons.prems(5) by (cases ms) (auto simp: Let_def)
    then show ?thesis using True step acc t(1) by (simp add: swapped_sum_def)
  next
    case False
    then have "unat dn + unat seglen \<noteq> unat len" by (simp add: word_unat_eq_iff dn)
    then have lt: "unat dn + unat seglen < unat len" using sn Cons.prems(5) by linarith
    then have part: "unat seglen = unat (mb_len m) - unat off" using sl by linarith
    then obtain n ns where ms: "ms = n # ns" using lt Cons.prems(6) ld m(3) by (cases ms) auto
    let ?s = "ucast (mb_len n) :: u32" and ?rest = "len - (dn + seglen)"
    let ?s' = "if ?s > ?rest then ?rest else ?s"
    have rest: "unat ?rest = unat len - unat (dn + seglen)" using lt dn by (intro unat_sub) (simp add: word_le_nat_alt)
    have s': "unat ?s' = min (unat (mb_len n)) (unat len - unat (dn + seglen))"
      by (simp add: word_less_nat_alt rest min_def)
    have n': "unat len - unat (dn + seglen) = ?n - unat seglen" using dn by simp
    have "\<exists>acc'. cksum_segs ms 0 ?s' len (dn + seglen) (acc + tmp) = Some acc' \<and>
      unat acc' = unat (acc + tmp) + sum_pieces (unat (dn + seglen)) (cut_range (map seg_data ms) (unat (0 :: u32)) (unat len - unat (dn + seglen)))"
    proof (rule Cons.IH)
      show "unat ?s' = min (unat (mb_len (hd ms)) - unat (0 :: u32)) (unat len - unat (dn + seglen))" using s' ms by simp
      show "unat (0 :: u32) + (unat len - unat (dn + seglen)) \<le> length (payload ms)"
        using Cons.prems(6) part ld m(3) lt dn by simp
      show "unat (acc + tmp) + 65535 * (unat len - unat (dn + seglen)) < 2 ^ 32"
        unfolding acc n' using t(2) sn Cons.prems(7) by (simp add: diff_mult_distrib2)
    qed (use m ms lt dn in simp_all)
    then obtain acc' where r: "cksum_segs ms 0 ?s' len (dn + seglen) (acc + tmp) = Some acc'"
      "unat acc' = unat (acc + tmp) + sum_pieces (unat dn + unat seglen) (cut_range (map seg_data ms) 0 (?n - unat seglen))"
      by (auto simp: dn n')
    have eq: "swapped_sum (unat dn) ?b + sum_pieces (unat dn + unat seglen) (cut_range (map seg_data ms) 0 (?n - unat seglen)) =
        sum_pieces (unat dn) (cut_range (map seg_data (m # ms)) (unat off) ?n)"
    proof (cases "unat (mb_len m) \<le> unat off")
      case True
      then have "unat seglen = 0" "?b = []" "off = ucast (mb_len m)" using part ld m(3) by (simp_all add: word_unat_eq_iff)
      then show ?thesis using ld lt by (simp add: swapped_sum_def unat_bswap16)
    next
      case False
      then have "cut_range (map seg_data (m # ms)) (unat off) ?n = ?b # cut_range (map seg_data ms) 0 (?n - length ?b)"
        using ld Cons.prems(5) by (simp add: Let_def)
      then show ?thesis by (simp only: sum_pieces.simps swapped_sum_def lb)
    qed
    have "cksum_segs (m # ms) off seglen len dn acc = Some acc'" using step False r(1) by (simp add: ms Let_def del: cksum_segs.simps)
    moreover have "unat acc' = unat acc + sum_pieces (unat dn) (cut_range (map seg_data (m # ms)) (unat off) ?n)"
      unfolding eq [symmetric] r(2) acc t(1) by simp
    ultimately show ?thesis by blast
  qed
qed simp

section \<open>When the checksum of a packet is that of its bytes\<close>

lemma skip_cut:
  "\<forall>m\<in>set p. seg_ok m \<Longrightarrow> skip_segs i p off = Some (k, q, o') \<Longrightarrow> 0 < n \<Longrightarrow>
    cut_range (map seg_data p) (unat off) n = cut_range (map seg_data q) (unat o') n"
proof (induction i p off rule: skip_segs.induct)
  case (2 i m ms off)
  show ?case
  proof (cases "off \<ge> ucast (mb_len m)")
    case True
    then have le: "unat (mb_len m) \<le> unat off" by (simp add: word_le_nat_alt)
    then show ?thesis using 2 True unat_shrink32 [OF le] by simp
  next
    case False
    then show ?thesis using 2(3) by simp
  qed
qed simp

text \<open>The pieces of the range as the code meets them.\<close>

lemma raw_cksum_mbuf_pieces:
  assumes ok: "pkt_ok p" and n: "unat off + unat len \<le> length (payload p)" "0 < unat len" "unat len \<le> 65535"
  shows "\<exists>c. rte_raw_cksum_mbuf p off len = Some (Some c) \<and>
    (let ps = cut_range (map seg_data p) (unat off) (unat len) in unat c mod 65535 = sum_pieces 0 ps mod 65535 \<and> (unat c = 0 \<longleftrightarrow> sum_pieces 0 ps = 0))"
proof -
  let ?ps = "cut_range (map seg_data p) (unat off) (unat len)"
  have conc: "concat ?ps = take (unat len) (drop (unat off) (payload p))" by (simp add: concat_cut payload_def)
  obtain h hs where p: "p = h # hs" using ok by (cases p) (auto simp: pkt_ok_def)
  have ok': "\<forall>m\<in>set p. seg_ok m" "unat (mb_pkt_len h) = length (payload p)" "seg_ok h" using ok by (simp_all add: p pkt_ok_def)
  have b32: "length (payload p) < 4294967296" unfolding ok'(2) [symmetric] by (rule unat_less_32)
  have s: "unat (off + len) = unat off + unat len" using n(1) b32 by (intro unat_add_no_wrap) simp
  have one: "\<exists>c. rte_raw_cksum_mbuf p off len = Some (Some c) \<and> unat c mod 65535 = sum_pieces 0 ?ps mod 65535 \<and> (unat c = 0 \<longleftrightarrow> sum_pieces 0 ?ps = 0)"
    if "rte_raw_cksum_mbuf p off len = Some (Some (rte_raw_cksum b))" "b = take (unat len) (drop (unat off) (payload p))" "?ps = [b]" for b
  proof -
    have "length b \<le> 65536" using that(2) n(3) by simp
    from unat_raw_cksum [OF this] show ?thesis using that by simp
  qed
  show ?thesis unfolding Let_def
  proof (cases "off + len \<le> ucast (mb_len h)")
    case True
    then have le: "unat off + unat len \<le> unat (mb_len h)" by (simp add: word_le_nat_alt s)
    have "take (unat len) (drop (unat off) (payload p)) = take (unat len) (drop (unat off) (seg_data h))" using le ok'(3) by (simp add: p)
    moreover have "?ps = [take (unat len) (drop (unat off) (seg_data h))]" using le n(2) ok'(3) by (cases hs) (auto simp: p Let_def min_def)
    ultimately show "\<exists>c. rte_raw_cksum_mbuf p off len = Some (Some c) \<and> unat c mod 65535 = sum_pieces 0 ?ps mod 65535 \<and> (unat c = 0 \<longleftrightarrow> sum_pieces 0 ?ps = 0)"
      using True le by (intro one [of "seg_bytes h off len"]) (simp_all add: p seg_bytes_data)
  next
    case far: False
    obtain k m ms o' where k: "skip_segs 0 p off = Some (k, m # ms, o')" "k < length p" "p ! k = m" "ms = drop (k + 1) p"
      "unat o' < unat (mb_len m)" "unat o' \<le> unat off" "drop (unat off) (payload p) = drop (unat o') (seg_data m) @ payload ms"
      using skip_segs_spec [OF ok'(1), of off 0] n by auto
    have ps: "?ps = cut_range (map seg_data (m # ms)) (unat o') (unat len)" using skip_cut [OF ok'(1) k(1) n(2)] .
    have m: "seg_ok m" "\<forall>x\<in>set (m # ms). seg_ok x" using k(2-4) ok'(1) nth_mem by (auto dest: in_set_dropD)
    have "\<not> off + len > mb_pkt_len h" using n(1) by (simp add: word_less_nat_alt s ok'(2))
    then have step: "rte_raw_cksum_mbuf p off len =
        (if ucast (mb_len m) - o' \<ge> len then Some (Some (rte_raw_cksum (seg_bytes m o' len)))
         else map_option (\<lambda>acc. Some (rte_raw_cksum_reduce acc)) (cksum_segs (m # ms) o' (ucast (mb_len m) - o') len 0 0))"
      using far k(1) by (simp add: p Let_def)
    have sl: "unat (ucast (mb_len m) - o') = unat (mb_len m) - unat o'" using k(5) by (simp add: unat_sub_no_wrap word_le_nat_alt)
    show "\<exists>c. rte_raw_cksum_mbuf p off len = Some (Some c) \<and> unat c mod 65535 = sum_pieces 0 ?ps mod 65535 \<and> (unat c = 0 \<longleftrightarrow> sum_pieces 0 ?ps = 0)"
    proof (cases "ucast (mb_len m) - o' \<ge> len")
      case True
      then have le: "unat o' + unat len \<le> unat (mb_len m)" using k(5) sl by (simp add: word_le_nat_alt)
      have "take (unat len) (drop (unat off) (payload p)) = take (unat len) (drop (unat o') (seg_data m))"
        unfolding k(7) using le m(1) by simp
      moreover have "?ps = [take (unat len) (drop (unat o') (seg_data m))]"
        unfolding ps using le n(2) m(1) by (cases ms) (auto simp: Let_def min_def)
      ultimately show ?thesis using True step le by (intro one [of "seg_bytes m o' len"]) (simp_all add: seg_bytes_data)
    next
      case False
      have rest: "unat o' + unat len \<le> length (payload (m # ms))"
      proof -
        have "unat len \<le> length (drop (unat o') (seg_data m) @ payload ms)" unfolding k(7) [symmetric] length_drop using n(1) by linarith
        then show ?thesis using k(5) m(1) by simp
      qed
      obtain acc where acc: "cksum_segs (m # ms) o' (ucast (mb_len m) - o') len 0 0 = Some acc" "unat acc = sum_pieces 0 ?ps"
        using cksum_segs_spec [OF m(2), of o' "ucast (mb_len m) - o'" len 0 0] k(5) False sl rest n ps by (auto simp: word_le_nat_alt)
      show ?thesis using step False acc unat_cksum_reduce [of acc]
        by (intro exI [of _ "rte_raw_cksum_reduce acc"]) (simp add: fold16_mod fold16_zero)
    qed
  qed
qed

lemma same_residue:
  fixes a b :: nat
  assumes "a mod 65535 = b mod 65535" "a = 0 \<longleftrightarrow> b = 0" "a \<le> 65535" "b \<le> 65535"
  shows "a = b"
  using assms by (cases "a = 65535"; cases "b = 65535") auto

lemma lost_zero: "lost pos ps = 0 \<longleftrightarrow> \<not> odd_carry pos ps"
  by (induction pos ps rule: lost.induct) (auto simp: not_le div_eq_0_iff)

lemma raw_cksum_mbuf_iff:
  assumes "pkt_ok p" "unat off + unat len \<le> length (payload p)" "0 < unat len" "unat len \<le> 65535"
  shows "\<exists>c. rte_raw_cksum_mbuf p off len = Some (Some c) \<and>
    (c = rte_raw_cksum (take (unat len) (drop (unat off) (payload p))) \<longleftrightarrow> \<not> odd_carry 0 (cut_range (map seg_data p) (unat off) (unat len)))"
proof -
  let ?ps = "cut_range (map seg_data p) (unat off) (unat len)" and ?bs = "take (unat len) (drop (unat off) (payload p))"
  obtain c where c: "rte_raw_cksum_mbuf p off len = Some (Some c)" "unat c mod 65535 = sum_pieces 0 ?ps mod 65535"
    "unat c = 0 \<longleftrightarrow> sum_pieces 0 ?ps = 0" using raw_cksum_mbuf_pieces [OF assms] by (auto simp: Let_def)
  have bs: "concat ?ps = ?bs" by (simp add: concat_cut payload_def)
  have len: "length ?bs = unat len" using assms(2) by simp
  have "length ?bs \<le> 65536" using len assms(4) by simp
  note R = unat_raw_cksum [OF this]
  have S: "(sum_pieces 0 ?ps + 256 * lost 0 ?ps) mod 65535 = sum16 ?bs mod 65535" using sum_pieces_mod [of 0 ?ps] by (simp only: bs) simp
  have "c = rte_raw_cksum ?bs \<longleftrightarrow> lost 0 ?ps = 0"
  proof
    assume l: "lost 0 ?ps = 0"
    have "unat c mod 65535 = unat (rte_raw_cksum ?bs) mod 65535" using c(2) S R(1) l by simp
    moreover have "unat c = 0 \<longleftrightarrow> unat (rte_raw_cksum ?bs) = 0" using c(3) sum_pieces_zero [OF l] R(2) by (simp only: bs)
    moreover have "unat c \<le> 65535" "unat (rte_raw_cksum ?bs) \<le> 65535" by (rule unat_u16_le)+
    ultimately have "unat c = unat (rte_raw_cksum ?bs)" by (rule same_residue)
    then show "c = rte_raw_cksum ?bs" by (rule word_unat_eq_iff [THEN iffD2])
  next
    assume "c = rte_raw_cksum ?bs"
    then have "(sum_pieces 0 ?ps + 256 * lost 0 ?ps) mod 65535 = (sum_pieces 0 ?ps + 0) mod 65535"
      using c(2) S R(1) by (simp only: add_0_right)
    then have "65535 dvd 256 * lost 0 ?ps" using mod_eq_dvd_iff_nat [of "sum_pieces 0 ?ps" "sum_pieces 0 ?ps + 256 * lost 0 ?ps" 65535] by simp
    then have "65535 dvd 256 * (256 * lost 0 ?ps)" by (rule dvd_mult)
    moreover have "256 * (256 * lost 0 ?ps) = 65535 * lost 0 ?ps + lost 0 ?ps" by simp
    ultimately have d: "65535 dvd lost 0 ?ps" by (metis dvd_add_right_iff dvd_triv_left)
    have "?ps \<noteq> []" using bs len assms(3) by fastforce
    then have "lost 0 ?ps < 65535" using lost_less [of ?ps 0] cut_pieces [of _ "map seg_data p" "unat off" "unat len"] bs len assms(4) by fastforce
    then show "lost 0 ?ps = 0" using d nat_dvd_not_less by blast
  qed
  then show ?thesis using c(1) by (simp add: lost_zero)
qed

text \<open>C28: \<^verbatim>\<open>rte_raw_cksum_mbuf\<close> of a range of a well-formed packet, however it is split into segments, is the checksum of the
  bytes of the range if and only if no segment that begins at an odd place of the range has a sum of 65536 or more.
  The conversion of the sum to 16 bits before its bytes are swapped loses the carry of such a segment.\<close>

theorem raw_cksum_mbuf_right_iff:
  assumes "pkt_ok p" "unat off + unat len \<le> length (payload p)" "0 < unat len" "unat len \<le> 65535"
  shows "\<exists>c. rte_raw_cksum_mbuf p off len = Some (Some c) \<and>
    (c = rte_raw_cksum (take (unat len) (drop (unat off) (payload p))) \<longleftrightarrow> \<not> odd_carry 0 (cut_range (map seg_data p) (unat off) (unat len)))"
  by (rule raw_cksum_mbuf_iff [OF assms])

definition odd_pkt :: pkt where
  "odd_pkt = [\<lparr>mb_buf = [0], mb_off = 0, mb_len = 1, mb_pkt_len = 5, mb_nb_segs = 2, mb_refcnt = 1,
       mb_flags = 0, mb_vlan_tci = 0, mb_l2_len = 0, mb_outer_l2_len = 0\<rparr>,
     \<lparr>mb_buf = [0xff, 0xff, 1, 0], mb_off = 0, mb_len = 4, mb_pkt_len = 4, mb_nb_segs = 1, mb_refcnt = 1,
       mb_flags = 0, mb_vlan_tci = 0, mb_l2_len = 0, mb_outer_l2_len = 0\<rparr>]"

lemma odd_pkt: "pkt_ok odd_pkt" "payload odd_pkt = [0, 0xff, 0xff, 1, 0]" "map seg_data odd_pkt = [[0], [0xff, 0xff, 1, 0]]"
  by (simp_all add: odd_pkt_def pkt_ok_def seg_ok_def payload_def seg_data_def)

lemma raw_cksum_mbuf_right_iff_witness:
  "(\<exists>c. rte_raw_cksum_mbuf odd_pkt 0 5 = Some (Some c) \<and> c \<noteq> rte_raw_cksum [0, 0xff, 0xff, 1, 0]) \<and>
   rte_raw_cksum_mbuf odd_pkt 0 3 = Some (Some (rte_raw_cksum [0, 0xff, 0xff]))"
proof -
  have "unat (0 :: u32) + unat (5 :: u32) \<le> length (payload odd_pkt)" "unat (0 :: u32) + unat (3 :: u32) \<le> length (payload odd_pkt)"
    by (simp_all add: odd_pkt)
  from raw_cksum_mbuf_right_iff [OF odd_pkt(1) this(1)] raw_cksum_mbuf_right_iff [OF odd_pkt(1) this(2)]
  show ?thesis by (simp add: odd_pkt Let_def del: rte_raw_cksum_mbuf.simps)
qed

section \<open>Checksums of UDP and TCP\<close>

lemma unat_fold_cksum:
  "unat (fold_cksum a b) mod 65535 = (unat a + unat b) mod 65535" "unat (fold_cksum a b) = 0 \<longleftrightarrow> unat a + unat b = 0"
proof -
  let ?s = "ucast a + ucast b :: u32"
  have le: "unat a \<le> 65535" "unat b \<le> 65535" by (rule unat_u16_le)+
  then have s: "unat ?s = unat a + unat b" by (subst unat_add_no_wrap) simp_all
  have w: "unat (ucast w :: u16) = unat w mod 65536" for w :: u32 by (simp add: unsigned_ucast_eq take_bit_eq_mod)
  have "fold16 (unat ?s) < 65536"
  proof -
    have n: "unat ?s \<le> 131070" using s le by linarith
    have "unat ?s = 65536 * (unat ?s div 65536) + unat ?s mod 65536" "unat ?s mod 65536 < 65536" by simp_all
    then show ?thesis using n unfolding fold16_def by (cases "unat ?s div 65536 = 0") linarith+
  qed
  then have f: "unat (fold_cksum a b) = fold16 (unat ?s)" by (simp only: fold_cksum_def Let_def w unat_fold16 fold16_def mod_less)
  show "unat (fold_cksum a b) mod 65535 = (unat a + unat b) mod 65535" by (simp only: f fold16_mod s)
  show "unat (fold_cksum a b) = 0 \<longleftrightarrow> unat a + unat b = 0" by (simp only: f fold16_zero s)
qed

text \<open>The complement in a field makes a sum all ones exactly when the field was blank.\<close>

lemma stored_complement:
  assumes raw: "\<And>l. length l = length l4 \<Longrightarrow> unat (raw l) mod 65535 = (sum16 l + ph) mod 65535 \<and> unat (raw l :: u16) \<noteq> 0"
    and f: "2 * i + 1 < length l4" "0 < ph" and c: "c = NOT (raw l4) \<or> NOT (raw l4) = 0 \<and> c = 0xffff"
  shows "raw (st16 (2 * i) c l4) = 0xffff \<longleftrightarrow> cksum_blank (ld16 l4 (2 * i))"
proof -
  let ?n = "st16 (2 * i) c l4"
  have le: "unat (raw l4) \<le> 65535" by (rule unat_u16_le)
  have "(unat c + unat (raw l4)) mod 65535 = 0"
  proof (cases "NOT (raw l4) = 0")
    case True
    have "65535 - unat (raw l4) = 0" using arg_cong [OF True, of unat] by (simp add: unat_not16)
    then have "unat (raw l4) = 65535" using le by linarith
    then show ?thesis using True c by auto
  next
    case False
    then show ?thesis using le c by (simp add: unat_not16)
  qed
  moreover have "(unat c + (sum16 l4 + ph)) mod 65535 = (unat c + unat (raw l4)) mod 65535"
    by (rule mod_add_cong) (use raw [of l4] in simp_all)
  ultimately have cs: "(unat c + (sum16 l4 + ph)) mod 65535 = 0" by simp
  have n: "sum16 ?n + ph + unat (ld16 l4 (2 * i)) = sum16 l4 + ph + unat c" using sum16_st16 [OF f(1), of c] by simp
  have "unat (raw ?n) = 65535 \<longleftrightarrow> unat (ld16 l4 (2 * i)) mod 65535 = 0"
    by (rule complement_checks [OF cs n]) (use f(2) raw [of ?n] unat_less_16 [of "raw ?n"] in simp_all)
  then show ?thesis by (simp add: word_unat_eq_iff cksum_blank_mod)
qed

lemma ipv6_raw:
  assumes "40 \<le> length ip" "ld8 ip 6 \<noteq> 0" "unat (bswap16 (ld16 ip 4)) = length l4"
  shows "unat (rte_ipv6_udptcp_cksum_raw ip l4) mod 65535 = (sum16 l4 + unat (rte_ipv6_phdr_cksum ip False)) mod 65535"
    "unat (rte_ipv6_udptcp_cksum_raw ip l4) \<noteq> 0" "0 < unat (rte_ipv6_phdr_cksum ip False)"
proof -
  let ?a = "take 32 (drop 8 ip)" and ?psd = "[ld8 ip 4, ld8 ip 5, 0, 0] @ [0, 0, 0, ld8 ip 6]"
  have b: "sum16 ?a \<le> 65535 * 16" "sum16 ?psd \<le> 65535 * 4" using sum16_le [of ?a] sum16_le [of ?psd] assms(1) by simp_all
  have "unat (rte_raw_cksum_add ?a 0) = sum16 ?a" using b(1) by (subst unat_cksum_add) simp_all
  then have s: "unat (rte_raw_cksum_add ?psd (rte_raw_cksum_add ?a 0)) = sum16 ?a + sum16 ?psd"
    using b by (subst unat_cksum_add) simp_all
  have "0 < sum16 ?psd" using assms(2) by (simp add: unat_gt_0)
  then have "unat (rte_raw_cksum_add ?psd (rte_raw_cksum_add ?a 0)) \<noteq> 0" unfolding s by linarith
  then have "unat (rte_raw_cksum_reduce (rte_raw_cksum_add ?psd (rte_raw_cksum_add ?a 0))) \<noteq> 0"
    using unat_cksum_reduce [of "rte_raw_cksum_add ?psd (rte_raw_cksum_add ?a 0)"] fold16_zero by metis
  then show pos: "0 < unat (rte_ipv6_phdr_cksum ip False)" by (simp add: rte_ipv6_phdr_cksum_def Let_def)
  have raw: "rte_ipv6_udptcp_cksum_raw ip l4 = fold_cksum (rte_raw_cksum l4) (rte_ipv6_phdr_cksum ip False)"
    using assms(3) by (simp add: rte_ipv6_udptcp_cksum_raw_def)
  have "length l4 \<le> 65536" using unat_u16_le [of "bswap16 (ld16 ip 4)"] assms(3) by simp
  then show "unat (rte_ipv6_udptcp_cksum_raw ip l4) mod 65535 = (sum16 l4 + unat (rte_ipv6_phdr_cksum ip False)) mod 65535"
    unfolding raw unat_fold_cksum(1) by (intro mod_add_cong unat_raw_cksum(1) refl)
  show "unat (rte_ipv6_udptcp_cksum_raw ip l4) \<noteq> 0" using pos unat_fold_cksum(2) unfolding raw by simp
qed

text \<open>A checksum of IPv6 that is stored in a datagram verifies exactly when the field was blank before.\<close>

theorem ipv6_cksum_verifies_iff:
  assumes "40 \<le> length ip" "ld8 ip 6 \<noteq> 0" "unat (bswap16 (ld16 ip 4)) = length l4" "2 * i + 1 < length l4"
  shows "rte_ipv6_udptcp_cksum_verify ip (st16 (2 * i) (rte_ipv6_udptcp_cksum ip l4) l4) = 0 \<longleftrightarrow> cksum_blank (ld16 l4 (2 * i))"
proof -
  have "rte_ipv6_udptcp_cksum ip l4 = NOT (rte_ipv6_udptcp_cksum_raw ip l4) \<or>
      NOT (rte_ipv6_udptcp_cksum_raw ip l4) = 0 \<and> rte_ipv6_udptcp_cksum ip l4 = 0xffff"
    by (simp add: rte_ipv6_udptcp_cksum_def Let_def)
  from stored_complement [of l4 "rte_ipv6_udptcp_cksum_raw ip" "unat (rte_ipv6_phdr_cksum ip False)", OF _ assms(4) ipv6_raw(3) [OF assms(1-3)] this]
  show ?thesis using ipv6_raw(1,2) [OF assms(1,2)] assms(3) by (simp add: rte_ipv6_udptcp_cksum_verify_def)
qed

lemma ipv6_cksum_verifies_iff_witness:
  "rte_ipv6_udptcp_cksum_verify ([0x60, 0, 0, 0, 0, 9, 17, 64] @ replicate 32 1) (st16 6 (rte_ipv6_udptcp_cksum
     ([0x60, 0, 0, 0, 0, 9, 17, 64] @ replicate 32 1) [1, 2, 3, 4, 0, 9, 0, 0, 5]) [1, 2, 3, 4, 0, 9, 0, 0, 5]) = 0"
proof -
  let ?ip = "[0x60, 0, 0, 0, 0, 9, 17, 64] @ replicate 32 1 :: u8 list" and ?l4 = "[1, 2, 3, 4, 0, 9, 0, 0, 5] :: u8 list"
  have "unat (bswap16 (ld16 ?ip 4)) = length ?l4" by (simp add: unat_bswap16 unat_ld16)
  moreover have "cksum_blank (ld16 ?l4 (2 * 3))" by (simp add: cksum_blank_def ld16_def)
  ultimately show ?thesis using ipv6_cksum_verifies_iff [of ?ip ?l4 3] by (simp add: ld8_def)
qed

text \<open>The checksums of a segmented packet are those of its contiguous bytes, if no carry is lost and the header agrees with
  the length of the packet. Bytes behind the datagram, such as the padding of a short frame, are summed as well.\<close>

definition l4_whole :: "pkt \<Rightarrow> u16 \<Rightarrow> nat \<Rightarrow> bool" where
  "l4_whole p l4_off n \<longleftrightarrow> unat l4_off + n = length (payload p) \<and> 0 < n \<and> n \<le> 65535 \<and>
     \<not> odd_carry 0 (cut_range (map seg_data p) (unat l4_off) n)"

lemma l4_raw:
  assumes ok: "pkt_ok p" and w: "l4_whole p l4_off n"
  shows "\<not> ucast l4_off > mb_pkt_len (hd p)"
    "rte_raw_cksum_mbuf p (ucast l4_off) (mb_pkt_len (hd p) - ucast l4_off) = Some (Some (rte_raw_cksum (drop (unat l4_off) (payload p))))"
proof -
  have len: "unat (mb_pkt_len (hd p)) = unat l4_off + n" and n: "0 < n" "n \<le> 65535" using ok w by (simp_all add: pkt_ok_def l4_whole_def)
  then show "\<not> ucast l4_off > mb_pkt_len (hd p)" by (simp add: word_less_nat_alt)
  have un: "unat (mb_pkt_len (hd p) - ucast l4_off) = n" using len by (simp add: unat_shrink32)
  have "unat (ucast l4_off :: u32) + unat (mb_pkt_len (hd p) - ucast l4_off) \<le> length (payload p)" using w by (simp add: un l4_whole_def)
  moreover have "0 < unat (mb_pkt_len (hd p) - ucast l4_off)" "unat (mb_pkt_len (hd p) - ucast l4_off) \<le> 65535" by (simp_all only: un n)
  moreover have "length (payload p) - unat l4_off = n" using w unfolding l4_whole_def by linarith
  then have "take n (drop (unat l4_off) (payload p)) = drop (unat l4_off) (payload p)" by simp
  ultimately show "rte_raw_cksum_mbuf p (ucast l4_off) (mb_pkt_len (hd p) - ucast l4_off) = Some (Some (rte_raw_cksum (drop (unat l4_off) (payload p))))"
    using raw_cksum_mbuf_iff [OF ok, of "ucast l4_off" "mb_pkt_len (hd p) - ucast l4_off"] w by (auto simp: un l4_whole_def)
qed

lemma l4_cksum_mbuf_is_contiguous:
  assumes "pkt_ok p" "l4_whole p l4_off n"
  shows "unat (bswap16 (ld16 ip 2)) = unat (rte_ipv4_hdr_len ip) + n \<Longrightarrow>
      rte_ipv4_udptcp_cksum_mbuf p ip l4_off = Some (rte_ipv4_udptcp_cksum ip (drop (unat l4_off) (payload p))) \<and>
      rte_ipv4_udptcp_cksum_mbuf_verify p ip l4_off = Some (rte_ipv4_udptcp_cksum_verify ip (drop (unat l4_off) (payload p)))"
    "unat (bswap16 (ld16 ip 4)) = n \<Longrightarrow>
      rte_ipv6_udptcp_cksum_mbuf p ip l4_off = Some (rte_ipv6_udptcp_cksum ip (drop (unat l4_off) (payload p))) \<and>
      rte_ipv6_udptcp_cksum_mbuf_verify p ip l4_off = Some (rte_ipv6_udptcp_cksum_verify ip (drop (unat l4_off) (payload p)))"
proof -
  let ?l4 = "drop (unat l4_off) (payload p)"
  obtain m ms where p: "p = m # ms" using assms(1) by (cases p) (auto simp: pkt_ok_def)
  have r: "\<not> ucast l4_off > mb_pkt_len m" "rte_raw_cksum_mbuf p (ucast l4_off) (mb_pkt_len m - ucast l4_off) = Some (Some (rte_raw_cksum ?l4))"
    using l4_raw [OF assms] by (simp_all add: p)
  have len: "length ?l4 = n" using assms(2) unfolding l4_whole_def length_drop by linarith
  show "rte_ipv4_udptcp_cksum_mbuf p ip l4_off = Some (rte_ipv4_udptcp_cksum ip ?l4) \<and>
      rte_ipv4_udptcp_cksum_mbuf_verify p ip l4_off = Some (rte_ipv4_udptcp_cksum_verify ip ?l4)"
    if h: "unat (bswap16 (ld16 ip 2)) = unat (rte_ipv4_hdr_len ip) + n"
  proof -
    let ?l3 = "ucast (bswap16 (ld16 ip 2)) :: u32" and ?hl = "ucast (rte_ipv4_hdr_len ip) :: u32"
    have "\<not> ?l3 < ?hl" "unat (?l3 - ?hl) = n" using h by (simp_all add: word_less_nat_alt unat_sub word_le_nat_alt)
    then have "rte_ipv4_udptcp_cksum_raw ip ?l4 = fold_cksum (rte_raw_cksum ?l4) (rte_ipv4_phdr_cksum ip False)"
      using len by (simp add: rte_ipv4_udptcp_cksum_raw_def fold_cksum_def Let_def)
    then have "rte_ipv4_udptcp_cksum_mbuf_raw p ip l4_off = Some (rte_ipv4_udptcp_cksum_raw ip ?l4)"
      using r by (simp add: rte_ipv4_udptcp_cksum_mbuf_raw_def p del: rte_raw_cksum_mbuf.simps)
    then show ?thesis
      by (simp add: rte_ipv4_udptcp_cksum_mbuf_def rte_ipv4_udptcp_cksum_def rte_ipv4_udptcp_cksum_mbuf_verify_def
          rte_ipv4_udptcp_cksum_verify_def Let_def)
  qed
  show "rte_ipv6_udptcp_cksum_mbuf p ip l4_off = Some (rte_ipv6_udptcp_cksum ip ?l4) \<and>
      rte_ipv6_udptcp_cksum_mbuf_verify p ip l4_off = Some (rte_ipv6_udptcp_cksum_verify ip ?l4)"
    if h: "unat (bswap16 (ld16 ip 4)) = n"
  proof -
    have "rte_ipv6_udptcp_cksum_mbuf_raw p ip l4_off = Some (rte_ipv6_udptcp_cksum_raw ip ?l4)"
      using r h len by (simp add: rte_ipv6_udptcp_cksum_mbuf_raw_def rte_ipv6_udptcp_cksum_raw_def p del: rte_raw_cksum_mbuf.simps)
    then show ?thesis
      by (simp add: rte_ipv6_udptcp_cksum_mbuf_def rte_ipv6_udptcp_cksum_def rte_ipv6_udptcp_cksum_mbuf_verify_def
          rte_ipv6_udptcp_cksum_verify_def Let_def)
  qed
qed

section \<open>Extension headers\<close>

lemma frag_data_roundtrip:
  assumes "fo AND 7 = 0"
  shows "push_bit 3 (RTE_IPV6_GET_FO (RTE_IPV6_SET_FRAG_DATA fo mf)) = fo" "RTE_IPV6_GET_MF (RTE_IPV6_SET_FRAG_DATA fo mf) = mf AND 1"
proof -
  have seven: "(7 :: u16) = mask 3" and one: "(1 :: u16) = mask 1" by (simp_all add: mask_eq_exp_minus_1)
  have low: "\<not> bit fo n" if "n < 3" for n 
  proof -
    have "n < 16" using that by simp
    moreover have "\<forall>k<16. bit fo k \<longrightarrow> \<not> k < 3" using assms unfolding seven by (auto simp: bit_eq_iff bit_simps)
    ultimately show ?thesis using that by blast
  qed
  show "push_bit 3 (RTE_IPV6_GET_FO (RTE_IPV6_SET_FRAG_DATA fo mf)) = fo"
  proof (rule bit_word_eqI)
    fix n :: nat assume "n < LENGTH(16)"
    then show "bit (push_bit 3 (RTE_IPV6_GET_FO (RTE_IPV6_SET_FRAG_DATA fo mf))) n = bit fo n"
      using low [of n] unfolding RTE_IPV6_GET_FO_def RTE_IPV6_SET_FRAG_DATA_def seven one
      by (cases "n < 3") (auto simp: bit_simps not_less)
  qed
  show "RTE_IPV6_GET_MF (RTE_IPV6_SET_FRAG_DATA fo mf) = mf AND 1"
    unfolding RTE_IPV6_GET_MF_def RTE_IPV6_SET_FRAG_DATA_def seven one by (rule bit_word_eqI) (auto simp: bit_simps)
qed

text \<open>A walk over extension headers advances by at least eight bytes at each.\<close>

lemma ext_advances: "rte_ipv6_get_next_ext p proto = Some (nxt, Some n) \<Longrightarrow> 8 \<le> n \<and> 0 \<le> nxt \<and> nxt < 256"
proof -
  have u: "uint (a :: u8) < 256" for a using uint_bounded [of a] by simp
  show "rte_ipv6_get_next_ext p proto = Some (nxt, Some n) \<Longrightarrow> 8 \<le> n \<and> 0 \<le> nxt \<and> nxt < 256"
    by (auto simp: rte_ipv6_get_next_ext_def u split: if_splits list.splits)
qed

end
