(* ===== verification/RteRingInit.thy ===== *)
theory RteRingInit
  imports RteRingQueue "HOL-Library.Log_Nat"
begin

text \<open>
  Creation of a ring: the size is rounded to a power of two, the checks of the arguments, and the state in
  which \<^verbatim>\<open>rte_ring_init\<close> leaves the ring, the empty queue of \<open>RteRingQueue\<close>.
\<close>

section \<open>Powers of two\<close>

lemma highest_bit:
  fixes x :: u32
  assumes "x \<noteq> 0"
  obtains h where "h < 32" "2 ^ h \<le> unat x" "unat x < 2 ^ Suc h" "bit x h" "\<forall>m. bit x m \<longrightarrow> m \<le> h"
proof -
  have "1 \<le> unat x" using assms by (simp add: Suc_le_eq unat_gt_0)
  then obtain h where h: "2 ^ h \<le> unat x" "unat x < 2 ^ Suc h" using ex_power_ivl1 [of 2 "unat x"] by auto
  have le: "m \<le> h" if "bit x m" for m
  proof (rule ccontr)
    assume "\<not> m \<le> h"
    then have "(2 :: nat) ^ Suc h \<le> 2 ^ m" by (intro power_increasing) simp_all
    then have "unat x div 2 ^ m = 0" using h(2) by simp
    moreover have "bit (unat x) m" using that by (simp add: bit_unsigned_iff)
    ultimately show False by (simp add: bit_iff_odd)
  qed
  have "unat x div 2 ^ h = 1" using h by (intro div_nat_eqI) simp_all
  then have "bit (unat x) h" by (simp add: bit_iff_odd)
  then have b: "bit x h" by (simp add: bit_unsigned_iff)
  then have "h < 32" using bit_imp_le_length [of x h] by simp
  show ?thesis using that h le b \<open>h < 32\<close> by blast
qed

lemma spread_bits:
  fixes x y :: u32
  assumes "\<forall>n. bit y n \<longleftrightarrow> (\<exists>j<c. bit x (n + j))"
  shows "\<forall>n. bit (y OR drop_bit c y) n \<longleftrightarrow> (\<exists>j<2 * c. bit x (n + j))"
proof
  fix n
  have "bit (y OR drop_bit c y) n \<longleftrightarrow> (\<exists>j<c. bit x (n + j)) \<or> (\<exists>j<c. bit x (n + (c + j)))"
    using assms by (simp add: bit_simps add.commute add.left_commute)
  also have "\<dots> \<longleftrightarrow> (\<exists>j<2 * c. bit x (n + j))"
  proof
    assume "(\<exists>j<c. bit x (n + j)) \<or> (\<exists>j<c. bit x (n + (c + j)))"
    then obtain j where "j < c" "bit x (n + j) \<or> bit x (n + (c + j))" by blast
    then have "j < 2 * c \<and> bit x (n + j) \<or> c + j < 2 * c \<and> bit x (n + (c + j))" by auto
    then show "\<exists>j<2 * c. bit x (n + j)" by blast
  next
    assume "\<exists>j<2 * c. bit x (n + j)"
    then obtain j where j: "j < 2 * c" "bit x (n + j)" by blast
    show "(\<exists>j<c. bit x (n + j)) \<or> (\<exists>j<c. bit x (n + (c + j)))"
    proof (cases "j < c")
      case False
      then have "j - c < c \<and> bit x (n + (c + (j - c)))" using j by simp
      then show ?thesis by blast
    qed (use j in blast)
  qed
  finally show "bit (y OR drop_bit c y) n \<longleftrightarrow> (\<exists>j<2 * c. bit x (n + j))" .
qed

lemma bit_combine32ms1b: "bit (rte_combine32ms1b x) n \<longleftrightarrow> (\<exists>j<32. bit x (n + j))"
proof -
  have "\<forall>n. bit x n \<longleftrightarrow> (\<exists>j<1. bit x (n + j))" by simp
  from spread_bits [OF spread_bits [OF spread_bits [OF spread_bits [OF spread_bits [OF this]]]]]
  show ?thesis by (simp add: rte_combine32ms1b_def Let_def)
qed

lemma combine32ms1b_mask:
  assumes "h < 32" "bit x h" "\<forall>m. bit x m \<longrightarrow> m \<le> h"
  shows "rte_combine32ms1b x = mask (Suc h)"
proof (rule bit_word_eqI)
  fix n assume "n < LENGTH(32)"
  have "(\<exists>j<32. bit x (n + j)) \<longleftrightarrow> n \<le> h"
  proof
    assume "n \<le> h"
    then show "\<exists>j<32. bit x (n + j)" using assms(1,2) by (intro exI [of _ "h - n"]) simp
  qed (use assms(3) in fastforce)
  then show "bit (rte_combine32ms1b x) n = bit (mask (Suc h) :: u32) n"
    using \<open>n < LENGTH(32)\<close> by (simp add: bit_combine32ms1b bit_mask_iff less_Suc_eq_le)
qed

lemma rte_align32pow2_is:
  assumes "1 \<le> x" "x \<le> 2 ^ 31"
  shows "\<exists>e\<le>31. unat (rte_align32pow2 x) = 2 ^ e \<and> unat x \<le> 2 ^ e \<and> (\<forall>d. unat x \<le> 2 ^ d \<longrightarrow> e \<le> d)"
proof -
  have x: "1 \<le> unat x" "unat x \<le> 2 ^ 31" using assms by (simp_all add: word_le_nat_alt)
  have x1: "unat (x - 1) = unat x - 1" using assms(1) by (simp add: unat_sub)
  show ?thesis
  proof (cases "x = 1")
    case True
    then show ?thesis by (intro exI [of _ 0]) (simp add: rte_align32pow2_def rte_combine32ms1b_def Let_def)
  next
    case False
    then have "x - 1 \<noteq> 0" by simp
    then obtain h where h: "h < 32" "2 ^ h \<le> unat (x - 1)" "unat (x - 1) < 2 ^ Suc h" "bit (x - 1) h"
      "\<forall>m. bit (x - 1) m \<longrightarrow> m \<le> h" by (rule highest_bit)
    have "(2 :: nat) ^ h < 2 ^ 31" using h(2) x x1 by simp
    then have h31: "Suc h \<le> 31" using power_less_imp_less_exp [of "2 :: nat" h 31] by simp
    have "rte_align32pow2 x = 2 ^ Suc h"
      using combine32ms1b_mask [OF h(1,4,5)] by (simp add: rte_align32pow2_def mask_eq_exp_minus_1)
    then have "unat (rte_align32pow2 x) = 2 ^ Suc h" using h31 by (simp only: unat_pow2)
    moreover have "unat x \<le> 2 ^ Suc h" using h(3) x1 x(1) by simp
    moreover have "Suc h \<le> d" if "unat x \<le> 2 ^ d" for d
    proof -
      have "(2 :: nat) ^ h < 2 ^ d" using h(2) x1 x(1) that by linarith
      then show ?thesis by simp
    qed
    ultimately show ?thesis using h31 by blast
  qed
qed

text \<open>From 1 to \<open>2 ^ 31\<close>, \<^verbatim>\<open>rte_align32pow2\<close> is the least power of two not below its argument.\<close>

theorem rte_align32pow2_is_least:
  assumes "1 \<le> x" "x \<le> 2 ^ 31"
  shows "\<exists>e\<le>31. unat (rte_align32pow2 x) = 2 ^ e \<and> unat x \<le> 2 ^ e \<and> (\<forall>d. unat x \<le> 2 ^ d \<longrightarrow> e \<le> d)"
  by (rule rte_align32pow2_is [OF assms])

theorem rte_align32pow2_is_least_witness:
  "\<exists>e\<le>31. unat (rte_align32pow2 1000) = 2 ^ e \<and> unat (1000 :: u32) \<le> 2 ^ e \<and> (\<forall>d. unat (1000 :: u32) \<le> 2 ^ d \<longrightarrow> e \<le> d)"
  by (rule rte_align32pow2_is_least) simp_all

lemma POWEROF2_exp:
  assumes "POWEROF2 x" "x \<noteq> 0"
  obtains e where "e < 32" "x = 2 ^ e"
proof -
  obtain h where h: "h < 32" "2 ^ h \<le> unat x" "unat x < 2 ^ Suc h" "bit x h" "\<forall>m. bit x m \<longrightarrow> m \<le> h"
    using assms(2) by (rule highest_bit)
  have "unat x = 2 ^ h"
  proof (rule ccontr)
    assume "unat x \<noteq> 2 ^ h"
    moreover have "unat (x - 1) = unat x - 1" using assms(2) by (simp add: unat_minus_one)
    ultimately have "2 ^ h \<le> unat (x - 1)" "unat (x - 1) < 2 ^ Suc h" using h(2,3) by simp_all
    then have "unat (x - 1) div 2 ^ h = 1" by (intro div_nat_eqI) simp_all
    then have "bit (unat (x - 1)) h" by (simp add: bit_iff_odd)
    then have "bit ((x - 1) AND x) h" using h(4) by (simp add: bit_unsigned_iff bit_and_iff)
    then show False using assms(1) by (simp add: POWEROF2_def)
  qed
  then have "x = 2 ^ h" using h(1) by (simp only: word_unat_eq_iff unat_pow2)
  then show ?thesis using that h(1) by blast
qed

section \<open>A new ring\<close>

definition new_ring :: "rte_ring \<Rightarrow> string \<Rightarrow> u32 \<Rightarrow> u32 \<Rightarrow> rte_ring_sync_type \<Rightarrow> rte_ring_sync_type \<Rightarrow> rte_ring" where
  "new_ring r name count flags ps cs =
     (let sz = if flags AND RING_F_EXACT_SZ \<noteq> 0 then rte_align32pow2 (count + 1) else count;
          cap = if flags AND RING_F_EXACT_SZ \<noteq> 0 then count else count - 1;
          p = (r_prod r)\<lparr>ht_sync := ps\<rparr>; c = (r_cons r)\<lparr>ht_sync := cs\<rparr>
      in r\<lparr>r_name := take (RTE_RING_NAMESIZE - 1) name, r_flags := flags, r_size := sz, r_mask := sz - 1,
           r_capacity := cap,
           r_prod := if flags AND RING_F_MP_RTS_ENQ \<noteq> 0 then snd (set_htd_max p (cap div HTD_MAX_DEF)) else p,
           r_cons := if flags AND RING_F_MC_RTS_DEQ \<noteq> 0 then snd (set_htd_max c (cap div HTD_MAX_DEF)) else c\<rparr>)"

lemma ring_init_cases:
  assumes "rte_ring_init r name count flags = (0, r')"
  obtains ps cs where "get_sync_type flags = Some (ps, cs)" "length name < RTE_RING_NAMESIZE"
    "flags AND RING_F_EXACT_SZ = 0 \<longrightarrow> POWEROF2 count \<and> count \<le> RTE_RING_SZ_MASK"
    "r_size r' = (if flags AND RING_F_EXACT_SZ \<noteq> 0 then rte_align32pow2 (count + 1) else count)"
    "r_mask r' = r_size r' - 1" "r_capacity r' = (if flags AND RING_F_EXACT_SZ \<noteq> 0 then count else count - 1)"
    "r_mem r' = r_mem r" "r_name r' = name" "quiet (r_prod r')" "quiet (r_cons r')"
    "ht_tail (r_prod r') = 0" "ht_tail (r_cons r') = 0" "ht_sync (r_prod r') = ps" "ht_sync (r_cons r') = cs"
proof -
  obtain ps cs where sync: "get_sync_type flags = Some (ps, cs)"
    using assms by (auto simp: rte_ring_init_def Let_def EINVAL_def ENAMETOOLONG_def split: if_splits option.splits)
  note I = assms [unfolded rte_ring_init_def Let_def sync option.case prod.case]
  have 1: "length name < RTE_RING_NAMESIZE"
    and 2: "flags AND RING_F_EXACT_SZ = 0 \<longrightarrow> POWEROF2 count \<and> count \<le> RTE_RING_SZ_MASK"
    using I by (auto simp: EINVAL_def ENAMETOOLONG_def not_le split: if_splits)
  have 3: "flags AND NOT RING_F_MASK = 0" using I by (auto simp: EINVAL_def split: if_splits)
  have "r' = snd (rte_ring_init r name count flags)" using assms by simp
  also have "\<dots> = new_ring (zero_ring (r_mem r)) name count flags ps cs"
    using 1 2 3 sync by (auto simp: rte_ring_init_def new_ring_def Let_def not_less)
  finally have r': "r' = new_ring (zero_ring (r_mem r)) name count flags ps cs" .
  show ?thesis
    by (rule that [OF sync 1 2]) (use 1 in \<open>simp_all add: r' new_ring_def Let_def zero_ring_def zero_headtail_def quiet_def set_htd_max_def\<close>)
qed



text \<open>A count of 0 is accepted: the ring claims room for \<open>2 ^ 32 - 1\<close> elements and has no memory for one. The
  first element enqueued is written behind it.\<close>

theorem rte_ring_init_accepts_zero:
  "let (ret, r) = rte_ring_init (zero_ring []) name 0 0 in
   length name < RTE_RING_NAMESIZE \<longrightarrow>
     ret = 0 \<and> rte_ring_free_count r = 2 ^ 32 - 1 \<and> rte_ring_get_memsize_elem sz 1 8 0 = int sz \<and>
     rte_ring_enqueue_elem r [x, y] 8 = None"
proof -
  have "get_sync_type 0 = Some (RTE_RING_SYNC_MT, RTE_RING_SYNC_MT)" by (simp add: get_sync_type_def)
  then show ?thesis
    by (simp add: rte_ring_init_def Let_def zero_ring_def zero_headtail_def POWEROF2_def RTE_RING_SZ_MASK_def
        rte_ring_free_count_def rte_ring_count_def rte_ring_get_memsize_elem_def)
      (simp add: rte_ring_enqueue_elem_def rte_ring_enqueue_bulk_elem_def rte_ring_do_enqueue_elem_def
        rte_ring_move_prod_head_def Let_def ring_room_def rte_ring_enqueue_elems_def rte_ring_enqueue_elems_64_def
        ring_copy_def copy_elem_def)
qed

end
