(* ===== verification/RteRingThreads.thy ===== *)
theory RteRingThreads
  imports RteRingQueue
begin

text \<open>
  The ring under several producers and consumers at once, both ends in the mode \<^verbatim>\<open>RTE_RING_SYNC_MT\<close>: the
  statements of \<^verbatim>\<open>__rte_ring_do_enqueue_elem\<close> and \<^verbatim>\<open>__rte_ring_do_dequeue_elem\<close>
  (\<^verbatim>\<open>rte_ring_elem_pvt.h\<close>, \<^verbatim>\<open>rte_ring_generic_pvt.h\<close>) are steps of threads that interleave in any order. A step
  loads one shared word, compares and sets one, copies one element or stores one tail; memory is sequentially
  consistent. A head that has moved by exactly \<open>2 ^ 32\<close> looks unmoved to the compare-and-set; the theorems are
  about runs in which fewer than \<open>2 ^ 32\<close> entries have been reserved.
\<close>

section \<open>Threads\<close>

text \<open>Where a thread is, with its local variables. The number asked for is \<open>max\<close> in the code.\<close>

datatype ring_thread =
  Free u32 u32 "u32 list"
| PStart "u32 list" u32 rte_ring_queue_behavior
| PHead "u32 list" u32 rte_ring_queue_behavior u32
| PCas "u32 list" u32 rte_ring_queue_behavior u32 u32 u32
| PCopy "u32 list" u32 u32 u32 nat
| PStore "u32 list" u32 u32 u32
| CStart "u32 list" u32 rte_ring_queue_behavior
| CHead "u32 list" u32 rte_ring_queue_behavior u32
| CCas "u32 list" u32 rte_ring_queue_behavior u32 u32 u32
| CCopy "u32 list" u32 u32 u32 nat
| CStore "u32 list" u32 u32 u32

text \<open>Beside the ring and the threads, what the proofs watch: the elements in the order their places were
  reserved, how many places were claimed by consumers, and the elements published and returned, in the order of
  the stores to the two tails.\<close>

record ring_sys =
  s_ring :: rte_ring
  s_thr :: "nat \<Rightarrow> ring_thread"
  s_reserved :: "u32 list list"
  s_claimed :: nat
  s_published :: "u32 list list"
  s_returned :: "u32 list list"

fun call :: "ring_op \<Rightarrow> ring_thread" where
  "call (Put behavior obj n) = PStart obj n behavior"
| "call (Take behavior obj n) = CStart obj n behavior"

definition goto :: "nat \<Rightarrow> ring_thread \<Rightarrow> ring_sys \<Rightarrow> ring_sys" where
  "goto t th s = s\<lparr>s_thr := (s_thr s)(t := th)\<rparr>"

lemma goto_sel [simp]:
  "s_ring (goto t th s) = s_ring s" "s_thr (goto t th s) = (s_thr s)(t := th)" "s_reserved (goto t th s) = s_reserved s"
  "s_claimed (goto t th s) = s_claimed s" "s_published (goto t th s) = s_published s" "s_returned (goto t th s) = s_returned s"
  by (simp_all add: goto_def)

definition ring_slot :: "rte_ring \<Rightarrow> u32 \<Rightarrow> nat \<Rightarrow> nat" where
  "ring_slot r head i = (unat (head AND r_mask r) + i) mod unat (r_size r)"

text \<open>The next statement of thread \<open>t\<close>; \<open>None\<close> is an access outside of a table. A thread that waits for the
  tail stays where it is.\<close>

definition thread_step :: "nat \<Rightarrow> nat \<Rightarrow> ring_sys \<Rightarrow> ring_sys option" where
  "thread_step w t s = (let r = s_ring s in case s_thr s t of
     Free k avail obj \<Rightarrow> Some s
   | PStart obj n behavior \<Rightarrow> Some (goto t (PHead obj n behavior (ht_head (r_prod r))) s)
   | PHead obj n behavior old \<Rightarrow>
       (let free = r_capacity r + ht_tail (r_cons r) - old; k = ring_room behavior free n in
        Some (goto t (if k = 0 then Free 0 free obj else PCas obj n behavior old k free) s))
   | PCas obj n behavior old k free \<Rightarrow>
       Some (if ht_head (r_prod r) = old
         then goto t (PCopy obj old k free 0) (s\<lparr>s_ring := r\<lparr>r_prod := (r_prod r)\<lparr>ht_head := old + k\<rparr>\<rparr>,
           s_reserved := s_reserved s @ elems w obj (unat k)\<rparr>)
         else goto t (PStart obj n behavior) s)
   | PCopy obj old k free i \<Rightarrow>
       (if i < unat k then do {
          mem \<leftarrow> copy_elem w (r_mem r) (ring_slot r old i) obj i;
          Some (goto t (PCopy obj old k free (i + 1)) (s\<lparr>s_ring := r\<lparr>r_mem := mem\<rparr>\<rparr>)) }
        else Some (if ht_tail (r_prod r) = old then goto t (PStore obj old k free) s else s))
   | PStore obj old k free \<Rightarrow>
       Some (goto t (Free k (free - k) obj) (s\<lparr>s_ring := r\<lparr>r_prod := (r_prod r)\<lparr>ht_tail := old + k\<rparr>\<rparr>,
         s_published := s_published s @ elems w obj (unat k)\<rparr>))
   | CStart obj n behavior \<Rightarrow> Some (goto t (CHead obj n behavior (ht_head (r_cons r))) s)
   | CHead obj n behavior old \<Rightarrow>
       (let entries = ht_tail (r_prod r) - old; k = ring_room behavior entries n in
        Some (goto t (if k = 0 then Free 0 entries obj else CCas obj n behavior old k entries) s))
   | CCas obj n behavior old k entries \<Rightarrow>
       Some (if ht_head (r_cons r) = old
         then goto t (CCopy obj old k entries 0) (s\<lparr>s_ring := r\<lparr>r_cons := (r_cons r)\<lparr>ht_head := old + k\<rparr>\<rparr>,
           s_claimed := s_claimed s + unat k\<rparr>)
         else goto t (CStart obj n behavior) s)
   | CCopy obj old k entries i \<Rightarrow>
       (if i < unat k then do {
          obj \<leftarrow> copy_elem w obj i (r_mem r) (ring_slot r old i);
          Some (goto t (CCopy obj old k entries (i + 1)) s) }
        else Some (if ht_tail (r_cons r) = old then goto t (CStore obj old k entries) s else s))
   | CStore obj old k entries \<Rightarrow>
       Some (goto t (Free k (entries - k) obj) (s\<lparr>s_ring := r\<lparr>r_cons := (r_cons r)\<lparr>ht_tail := old + k\<rparr>\<rparr>,
         s_returned := s_returned s @ elems w obj (unat k)\<rparr>)))"

text \<open>A thread that has returned may call again; any thread may take its next step.\<close>

inductive ring_step :: "nat \<Rightarrow> ring_sys \<Rightarrow> ring_sys \<Rightarrow> bool" for w where
  call: "s_thr s t = Free k avail obj \<Longrightarrow> op_fits w x \<Longrightarrow> ring_step w s (goto t (call x) s)"
| step: "thread_step w t s = Some s' \<Longrightarrow> ring_step w s s'"

definition ring_threads_init :: "nat \<Rightarrow> rte_ring \<Rightarrow> ring_sys" where
  "ring_threads_init w r = \<lparr>s_ring = r, s_thr = (\<lambda>t. Free 0 0 []), s_reserved = contents w r, s_claimed = 0,
     s_published = contents w r, s_returned = []\<rparr>"

section \<open>Reservations\<close>

text \<open>The places between a tail and a head are divided among the threads that are copying.\<close>

definition tiled :: "nat \<Rightarrow> nat \<Rightarrow> (nat \<Rightarrow> (nat \<times> nat) option) \<Rightarrow> bool" where
  "tiled lo hi sp \<longleftrightarrow>
     (\<forall>t a n. sp t = Some (a, n) \<longrightarrow> lo \<le> a \<and> a + n \<le> hi \<and> 0 < n) \<and>
     (\<forall>t u a n b m. t \<noteq> u \<and> sp t = Some (a, n) \<and> sp u = Some (b, m) \<longrightarrow> a + n \<le> b \<or> b + m \<le> a) \<and>
     (\<forall>p. lo \<le> p \<and> p < hi \<longrightarrow> (\<exists>t a n. sp t = Some (a, n) \<and> a \<le> p \<and> p < a + n))"

lemma tiled_bounds: "tiled lo hi sp \<Longrightarrow> sp t = Some (a, n) \<Longrightarrow> lo \<le> a \<and> a + n \<le> hi \<and> 0 < n"
  by (simp add: tiled_def)

lemma tiled_apart:
  "tiled lo hi sp \<Longrightarrow> sp t = Some (a, n) \<Longrightarrow> sp u = Some (b, m) \<Longrightarrow> t \<noteq> u \<Longrightarrow> a + n \<le> b \<or> b + m \<le> a"
  by (simp add: tiled_def)

lemma tiled_first:
  assumes "tiled lo hi sp" "lo < hi"
  obtains t n where "sp t = Some (lo, n)" "0 < n"
proof -
  obtain t a n where t: "sp t = Some (a, n)" "a \<le> lo" "lo < a + n" using assms unfolding tiled_def by blast
  moreover have "a = lo" using t tiled_bounds [OF assms(1) t(1)] by simp
  ultimately show ?thesis using that by simp
qed

lemma tiled_reserve:
  assumes "tiled lo hi sp" "sp t = None" "0 < k" "lo \<le> hi"
  shows "tiled lo (hi + k) (sp(t := Some (hi, k)))"
  unfolding tiled_def
proof (intro conjI allI impI)
  fix u a n assume "(sp(t := Some (hi, k))) u = Some (a, n)"
  then show "lo \<le> a" "a + n \<le> hi + k" "0 < n"
    using assms tiled_bounds [OF assms(1), of u a n] by (auto split: if_splits)
next
  fix u v a n b m
  assume "u \<noteq> v \<and> (sp(t := Some (hi, k))) u = Some (a, n) \<and> (sp(t := Some (hi, k))) v = Some (b, m)"
  then show "a + n \<le> b \<or> b + m \<le> a"
    using tiled_apart [OF assms(1), of u a n v b m] tiled_bounds [OF assms(1), of u a n] tiled_bounds [OF assms(1), of v b m]
    by (auto split: if_splits)
next
  fix p assume p: "lo \<le> p \<and> p < hi + k"
  show "\<exists>u a n. (sp(t := Some (hi, k))) u = Some (a, n) \<and> a \<le> p \<and> p < a + n"
  proof (cases "p < hi")
    case True
    then obtain u a n where u: "sp u = Some (a, n)" "a \<le> p" "p < a + n" using assms(1) p unfolding tiled_def by blast
    moreover from u(1) have "u \<noteq> t" using assms(2) by auto
    ultimately show ?thesis by - (rule exI [of _ u], simp)
  qed (use p in \<open>auto intro!: exI [of _ t]\<close>)
qed

lemma tiled_release:
  assumes "tiled lo hi sp" "sp t = Some (lo, k)"
  shows "tiled (lo + k) hi (sp(t := None))"
  unfolding tiled_def
proof (intro conjI allI impI)
  fix u a n assume u: "(sp(t := None)) u = Some (a, n)"
  then have "t \<noteq> u" "sp u = Some (a, n)" by (auto split: if_splits)
  then show "lo + k \<le> a" "a + n \<le> hi" "0 < n"
    using tiled_apart [OF assms(1,2), of u a n] tiled_bounds [OF assms(1), of u a n] tiled_bounds [OF assms] by auto
next
  fix u v a n b m
  assume "u \<noteq> v \<and> (sp(t := None)) u = Some (a, n) \<and> (sp(t := None)) v = Some (b, m)"
  then show "a + n \<le> b \<or> b + m \<le> a" using tiled_apart [OF assms(1), of u a n v b m] by (auto split: if_splits)
next
  fix p assume p: "lo + k \<le> p \<and> p < hi"
  then have "lo \<le> p \<and> p < hi" by simp
  then obtain u a n where u: "sp u = Some (a, n)" "a \<le> p" "p < a + n" using assms(1) unfolding tiled_def by blast
  moreover have "u \<noteq> t" using u assms(2) p by auto
  ultimately show "\<exists>u a n. (sp(t := None)) u = Some (a, n) \<and> a \<le> p \<and> p < a + n" by - (rule exI [of _ u], simp)
qed

section \<open>Invariant\<close>

text \<open>Indexes counted from the first place: \<open>base\<close> is the index of place 0.\<close>

definition place :: "u32 \<Rightarrow> u32 \<Rightarrow> nat" where
  "place base x = unat (x - base)"

definition place_elem :: "nat \<Rightarrow> u32 \<Rightarrow> rte_ring \<Rightarrow> nat \<Rightarrow> u32 list" where
  "place_elem w base r p = elem_at w (r_mem r) ((unat base + p) mod unat (r_size r))"

fun prod_span :: "u32 \<Rightarrow> ring_thread \<Rightarrow> (nat \<times> nat) option" where
  "prod_span base (PCopy obj old k free i) = Some (place base old, unat k)"
| "prod_span base (PStore obj old k free) = Some (place base old, unat k)"
| "prod_span base _ = None"

fun cons_span :: "u32 \<Rightarrow> ring_thread \<Rightarrow> (nat \<times> nat) option" where
  "cons_span base (CCopy obj old k entries i) = Some (place base old, unat k)"
| "cons_span base (CStore obj old k entries) = Some (place base old, unat k)"
| "cons_span base _ = None"

text \<open>What a thread knows: a head it loaded may be stale, but not when the compare-and-set succeeds.\<close>

fun thread_ok :: "nat \<Rightarrow> u32 \<Rightarrow> nat \<Rightarrow> u32 list list \<Rightarrow> nat \<Rightarrow> nat \<Rightarrow> nat \<Rightarrow> (nat \<Rightarrow> u32 list) \<Rightarrow> ring_thread \<Rightarrow> bool" where
  "thread_ok w base cap L pt ch ct S (Free k avail obj) \<longleftrightarrow> True"
| "thread_ok w base cap L pt ch ct S (PStart obj n behavior) \<longleftrightarrow> unat n * w \<le> length obj"
| "thread_ok w base cap L pt ch ct S (PHead obj n behavior old) \<longleftrightarrow> unat n * w \<le> length obj \<and> place base old \<le> length L"
| "thread_ok w base cap L pt ch ct S (PCas obj n behavior old k free) \<longleftrightarrow>
     unat n * w \<le> length obj \<and> k \<le> n \<and> 0 < k \<and> place base old \<le> length L \<and>
     (place base old = length L \<longrightarrow> place base old + unat k \<le> ct + cap)"
| "thread_ok w base cap L pt ch ct S (PCopy obj old k free i) \<longleftrightarrow>
     unat k * w \<le> length obj \<and> i \<le> unat k \<and> (\<forall>j<unat k. L ! (place base old + j) = elem_at w obj j) \<and>
     (\<forall>j<i. S (place base old + j) = elem_at w obj j)"
| "thread_ok w base cap L pt ch ct S (PStore obj old k free) \<longleftrightarrow>
     place base old = pt \<and> (\<forall>j<unat k. L ! (place base old + j) = elem_at w obj j \<and> S (place base old + j) = elem_at w obj j)"
| "thread_ok w base cap L pt ch ct S (CStart obj n behavior) \<longleftrightarrow> unat n * w \<le> length obj"
| "thread_ok w base cap L pt ch ct S (CHead obj n behavior old) \<longleftrightarrow> unat n * w \<le> length obj \<and> place base old \<le> ch"
| "thread_ok w base cap L pt ch ct S (CCas obj n behavior old k entries) \<longleftrightarrow>
     unat n * w \<le> length obj \<and> k \<le> n \<and> 0 < k \<and> place base old \<le> ch \<and> (place base old = ch \<longrightarrow> place base old + unat k \<le> pt)"
| "thread_ok w base cap L pt ch ct S (CCopy obj old k entries i) \<longleftrightarrow>
     unat k * w \<le> length obj \<and> i \<le> unat k \<and> (\<forall>j<i. elem_at w obj j = L ! (place base old + j))"
| "thread_ok w base cap L pt ch ct S (CStore obj old k entries) \<longleftrightarrow>
     place base old = ct \<and> (\<forall>j<unat k. elem_at w obj j = L ! (place base old + j))"

definition ring_inv :: "nat \<Rightarrow> u32 \<Rightarrow> ring_sys \<Rightarrow> bool" where
  "ring_inv w base s \<longleftrightarrow> (let r = s_ring s; L = s_reserved s; pt = length (s_published s); ch = s_claimed s; ct = length (s_returned s) in
     ring_shape r \<and> r_capacity r \<le> r_mask r \<and> 0 < w \<and> length (r_mem r) = unat (r_size r) * w \<and>
     ht_head (r_prod r) = base + of_nat (length L) \<and> ht_tail (r_prod r) = base + of_nat pt \<and>
     ht_head (r_cons r) = base + of_nat ch \<and> ht_tail (r_cons r) = base + of_nat ct \<and>
     ct \<le> ch \<and> ch \<le> pt \<and> pt \<le> length L \<and> length L \<le> ct + unat (r_capacity r) \<and>
     s_published s = take pt L \<and> s_returned s = take ct L \<and>
     tiled pt (length L) (\<lambda>t. prod_span base (s_thr s t)) \<and> tiled ct ch (\<lambda>t. cons_span base (s_thr s t)) \<and>
     (\<forall>p. ct \<le> p \<and> p < pt \<longrightarrow> place_elem w base r p = L ! p) \<and>
     (\<forall>t. thread_ok w base (unat (r_capacity r)) L pt ch ct (place_elem w base r) (s_thr s t)))"

lemma place_of: "a < 2 ^ 32 \<Longrightarrow> place base (base + of_nat a) = a"
  by (simp add: place_def unat_of_nat)

lemma of_place: "base + of_nat (place base x) = x"
  by (simp add: place_def)

lemma at_place: "place base x = a \<Longrightarrow> base + of_nat a = x"
  using of_place by blast

lemma place_add: "x + k = base + of_nat (place base x + unat k)"
  by (simp add: place_def)

lemma slot_place:
  assumes "ring_shape r"
  shows "ring_slot r x i = (unat base + (place base x + i)) mod unat (r_size r)"
proof -
  have "(unat x mod unat (r_size r) + i) mod unat (r_size r) = ((unat base + unat (x - base)) mod unat (r_size r) + i) mod unat (r_size r)"
    using slot_add [OF assms, of base "x - base"] by simp
  then show ?thesis by (simp add: ring_slot_def unat_and_mask [OF assms] place_def mod_add_left_eq add.assoc)
qed

lemma thread_ok_mono:
  assumes "thread_ok w base cap L pt ch ct S th" "ct \<le> ct'" "pt \<le> pt'" "ch \<le> ch'"
    and "\<And>a n. prod_span base th = Some (a, n) \<Longrightarrow>
      a + n \<le> length L \<and> (a = pt \<longrightarrow> pt' = pt) \<and> (\<forall>j<n. S (a + j) = L ! (a + j) \<longrightarrow> S' (a + j) = S (a + j))"
    and "\<And>a n. cons_span base th = Some (a, n) \<Longrightarrow> a + n \<le> length L \<and> (a = ct \<longrightarrow> ct' = ct)"
  shows "thread_ok w base cap (L @ X) pt' ch' ct' S' th"
  using assms by (cases th) (auto simp: nth_append)

lemmas thread_ok_mono_same = thread_ok_mono [where X = "[]", unfolded append_Nil2]

lemma ring_inv_goto:
  assumes "ring_inv w base s" "prod_span base th = prod_span base (s_thr s t)" "cons_span base th = cons_span base (s_thr s t)"
    and "thread_ok w base (unat (r_capacity (s_ring s))) (s_reserved s) (length (s_published s)) (s_claimed s)
      (length (s_returned s)) (place_elem w base (s_ring s)) th"
  shows "ring_inv w base (goto t th s)"
proof -
  have "(\<lambda>u. prod_span base (s_thr (goto t th s) u)) = (\<lambda>u. prod_span base (s_thr s u))"
    "(\<lambda>u. cons_span base (s_thr (goto t th s) u)) = (\<lambda>u. cons_span base (s_thr s u))"
    using assms(2,3) by (auto simp: goto_def fun_eq_iff)
  then show ?thesis using assms(1,4) unfolding ring_inv_def by (simp add: Let_def goto_def)
qed

section \<open>Every step keeps it\<close>

lemma ring_invD:
  assumes "ring_inv w base s"
  shows "ring_shape (s_ring s)" "r_capacity (s_ring s) \<le> r_mask (s_ring s)" "0 < w"
    "length (r_mem (s_ring s)) = unat (r_size (s_ring s)) * w"
    "ht_head (r_prod (s_ring s)) = base + of_nat (length (s_reserved s))"
    "ht_tail (r_prod (s_ring s)) = base + of_nat (length (s_published s))"
    "ht_head (r_cons (s_ring s)) = base + of_nat (s_claimed s)"
    "ht_tail (r_cons (s_ring s)) = base + of_nat (length (s_returned s))"
    "length (s_returned s) \<le> s_claimed s" "s_claimed s \<le> length (s_published s)"
    "length (s_published s) \<le> length (s_reserved s)"
    "length (s_reserved s) \<le> length (s_returned s) + unat (r_capacity (s_ring s))"
    "s_published s = take (length (s_published s)) (s_reserved s)"
    "s_returned s = take (length (s_returned s)) (s_reserved s)"
    "tiled (length (s_published s)) (length (s_reserved s)) (\<lambda>t. prod_span base (s_thr s t))"
    "tiled (length (s_returned s)) (s_claimed s) (\<lambda>t. cons_span base (s_thr s t))"
    "\<And>p. length (s_returned s) \<le> p \<Longrightarrow> p < length (s_published s) \<Longrightarrow> place_elem w base (s_ring s) p = s_reserved s ! p"
    "\<And>t. thread_ok w base (unat (r_capacity (s_ring s))) (s_reserved s) (length (s_published s)) (s_claimed s)
      (length (s_returned s)) (place_elem w base (s_ring s)) (s_thr s t)"
  using assms unfolding ring_inv_def Let_def by blast+

lemma room_at_head:
  assumes "ct \<le> ph" "ph \<le> ct + unat cap" "ph < 2 ^ 32"
  shows "unat (cap + (base + of_nat ct) - (base + of_nat ph)) = ct + unat (cap :: u32) - ph"
proof -
  have "cap + (base + of_nat ct) - (base + of_nat ph) = of_nat (ct + unat cap - ph)"
    using assms(2) by (simp add: of_nat_diff algebra_simps)
  moreover have "ct + unat cap - ph \<le> unat cap" using assms(1) by simp
  then have "ct + unat cap - ph < 4294967296" using unat_less_32 by (rule order.strict_trans1)
  ultimately show ?thesis by (simp add: unat_of_nat)
qed

lemma entries_at_head:
  assumes "ch \<le> pt" "pt < 2 ^ 32"
  shows "unat ((base + of_nat pt) - (base + of_nat ch) :: u32) = pt - ch"
proof -
  have "(base + of_nat pt) - (base + of_nat ch) = (of_nat (pt - ch) :: u32)" using assms(1) by (simp add: of_nat_diff)
  then show ?thesis using assms(2) by (simp add: unat_of_nat)
qed

lemma nonzero_unat: "k \<noteq> 0 \<Longrightarrow> 0 < (k :: u32)"
  by (simp add: word_neq_0_conv)

text \<open>Steps that change no shared word.\<close>

lemma inv_PHead:
  assumes inv: "ring_inv w base s" and small: "length (s_reserved s) < 2 ^ 32" and t: "s_thr s t = PHead obj n behavior old"
    and k: "k = ring_room behavior free n" "free = r_capacity (s_ring s) + ht_tail (r_cons (s_ring s)) - old"
  shows "ring_inv w base (goto t (if k = 0 then Free 0 free obj else PCas obj n behavior old k free) s)"
proof (rule ring_inv_goto [OF inv])
  note I = ring_invD [OF inv]
  have "place base old + unat k \<le> length (s_returned s) + unat (r_capacity (s_ring s))" if "place base old = length (s_reserved s)"
  proof -
    have "old = base + of_nat (length (s_reserved s))" using of_place [of base old] that by simp
    then have "unat free = length (s_returned s) + unat (r_capacity (s_ring s)) - length (s_reserved s)"
      unfolding k(2) I(8) using I(9-12) small by (simp only: room_at_head)
    moreover have "unat k \<le> unat free" using ring_room_le k(1) by (simp add: word_le_nat_alt)
    ultimately show ?thesis using that I(12) by simp
  qed
  then show "thread_ok w base (unat (r_capacity (s_ring s))) (s_reserved s) (length (s_published s)) (s_claimed s)
      (length (s_returned s)) (place_elem w base (s_ring s)) (if k = 0 then Free 0 free obj else PCas obj n behavior old k free)"
    using I(18) [of t] t k(1) ring_room_le nonzero_unat by auto
qed (simp_all add: t)

lemma inv_CHead:
  assumes inv: "ring_inv w base s" and small: "length (s_reserved s) < 2 ^ 32" and t: "s_thr s t = CHead obj n behavior old"
    and k: "k = ring_room behavior entries n" "entries = ht_tail (r_prod (s_ring s)) - old"
  shows "ring_inv w base (goto t (if k = 0 then Free 0 entries obj else CCas obj n behavior old k entries) s)"
proof (rule ring_inv_goto [OF inv])
  note I = ring_invD [OF inv]
  have "place base old + unat k \<le> length (s_published s)" if "place base old = s_claimed s"
  proof -
    have "old = base + of_nat (s_claimed s)" using of_place [of base old] that by simp
    then have "unat entries = length (s_published s) - s_claimed s"
      unfolding k(2) I(6) using I(10,11) small by (simp only: entries_at_head order.strict_trans1)
    moreover have "unat k \<le> unat entries" using ring_room_le k(1) by (simp add: word_le_nat_alt)
    ultimately show ?thesis using that I(10) by simp
  qed
  then show "thread_ok w base (unat (r_capacity (s_ring s))) (s_reserved s) (length (s_published s)) (s_claimed s)
      (length (s_returned s)) (place_elem w base (s_ring s)) (if k = 0 then Free 0 entries obj else CCas obj n behavior old k entries)"
    using I(18) [of t] t k(1) ring_room_le nonzero_unat by auto
qed (simp_all add: t)

text \<open>Reserving and claiming places.\<close>

lemma shared_upd [simp]:
  "place_elem w base (r\<lparr>r_prod := x\<rparr>) = place_elem w base r" "place_elem w base (r\<lparr>r_cons := y\<rparr>) = place_elem w base r"
  "ring_shape (r\<lparr>r_prod := x\<rparr>) = ring_shape r" "ring_shape (r\<lparr>r_mem := m\<rparr>) = ring_shape r"
  by (simp_all add: fun_eq_iff place_elem_def ring_shape_def)

lemma ring_inv_gotoI:
  assumes "ring_shape (s_ring s)" "r_capacity (s_ring s) \<le> r_mask (s_ring s)" "0 < w"
    "length (r_mem (s_ring s)) = unat (r_size (s_ring s)) * w"
    "ht_head (r_prod (s_ring s)) = base + of_nat (length (s_reserved s))"
    "ht_tail (r_prod (s_ring s)) = base + of_nat (length (s_published s))"
    "ht_head (r_cons (s_ring s)) = base + of_nat (s_claimed s)"
    "ht_tail (r_cons (s_ring s)) = base + of_nat (length (s_returned s))"
    "length (s_returned s) \<le> s_claimed s" "s_claimed s \<le> length (s_published s)"
    "length (s_published s) \<le> length (s_reserved s)"
    "length (s_reserved s) \<le> length (s_returned s) + unat (r_capacity (s_ring s))"
    "s_published s = take (length (s_published s)) (s_reserved s)"
    "s_returned s = take (length (s_returned s)) (s_reserved s)"
    "tiled (length (s_published s)) (length (s_reserved s)) ((\<lambda>u. prod_span base (s_thr s u))(t := prod_span base th))"
    "tiled (length (s_returned s)) (s_claimed s) ((\<lambda>u. cons_span base (s_thr s u))(t := cons_span base th))"
    "\<And>p. length (s_returned s) \<le> p \<Longrightarrow> p < length (s_published s) \<Longrightarrow> place_elem w base (s_ring s) p = s_reserved s ! p"
    "thread_ok w base (unat (r_capacity (s_ring s))) (s_reserved s) (length (s_published s)) (s_claimed s)
      (length (s_returned s)) (place_elem w base (s_ring s)) th"
    "\<And>u. u \<noteq> t \<Longrightarrow> thread_ok w base (unat (r_capacity (s_ring s))) (s_reserved s) (length (s_published s)) (s_claimed s)
      (length (s_returned s)) (place_elem w base (s_ring s)) (s_thr s u)"
  shows "ring_inv w base (goto t th s)"
proof -
  have "(\<lambda>u. prod_span base (s_thr (goto t th s) u)) = (\<lambda>u. prod_span base (s_thr s u))(t := prod_span base th)"
    "(\<lambda>u. cons_span base (s_thr (goto t th s) u)) = (\<lambda>u. cons_span base (s_thr s u))(t := cons_span base th)"
    by (simp_all add: fun_eq_iff)
  moreover have "thread_ok w base (unat (r_capacity (s_ring s))) (s_reserved s) (length (s_published s)) (s_claimed s)
      (length (s_returned s)) (place_elem w base (s_ring s)) (s_thr (goto t th s) u)" for u
    using assms(18,19) by simp
  ultimately show ?thesis using assms(1-17) unfolding ring_inv_def Let_def by (simp only: goto_sel) blast
qed

lemma span_same:
  "prod_span base (s_thr s t) = x \<Longrightarrow> (\<lambda>u. prod_span base (s_thr s u))(t := x) = (\<lambda>u. prod_span base (s_thr s u))"
  "cons_span base (s_thr s t) = y \<Longrightarrow> (\<lambda>u. cons_span base (s_thr s u))(t := y) = (\<lambda>u. cons_span base (s_thr s u))"
  by (simp_all add: fun_eq_iff)

lemma inv_reserve:
  assumes inv: "ring_inv w base s" and small: "length (s_reserved s) < 2 ^ 32" and t: "s_thr s t = PCas obj n behavior old k free"
    and cas: "ht_head (r_prod (s_ring s)) = old"
  shows "ring_inv w base (goto t (PCopy obj old k free 0)
    (s\<lparr>s_ring := (s_ring s)\<lparr>r_prod := (r_prod (s_ring s))\<lparr>ht_head := old + k\<rparr>\<rparr>, s_reserved := s_reserved s @ elems w obj (unat k)\<rparr>))"
proof -
  note I = ring_invD [OF inv]
  let ?L = "s_reserved s" and ?pt = "length (s_published s)" and ?ct = "length (s_returned s)"
  have T: "unat n * w \<le> length obj" "k \<le> n" "0 < k" "place base old \<le> length ?L"
    "place base old = length ?L \<longrightarrow> place base old + unat k \<le> ?ct + unat (r_capacity (s_ring s))"
    using I(18) [of t] by (simp_all add: t)
  have old: "place base old = length ?L" using place_of [OF small, of base] cas I(5) by simp
  have fits: "unat k * w \<le> length obj" using T(1,2) by (meson le_trans mult_le_mono1 word_le_nat_alt)
  have head: "old + k = base + of_nat (length ?L + unat k)" using place_add [of old k base] old by simp
  have others: "thread_ok w base (unat (r_capacity (s_ring s))) (?L @ elems w obj (unat k)) ?pt (s_claimed s) ?ct
      (place_elem w base (s_ring s)) (s_thr s u)" for u
    by (rule thread_ok_mono [OF I(18) [of u]]) (use tiled_bounds [OF I(15), of u] tiled_bounds [OF I(16), of u] I(10,11) in force)+
  have "tiled ?pt (length ?L + unat k) ((\<lambda>u. prod_span base (s_thr s u))(t := Some (length ?L, unat k)))"
    using I(15) T(3) I(11) by (intro tiled_reserve) (simp_all add: t unat_gt_0)
  then show ?thesis
    by (intro ring_inv_gotoI) (use I(1-14,16,17) T(5) old head fits others in \<open>simp_all add: span_same t elems_def nth_append\<close>)
qed

lemma inv_claim:
  assumes inv: "ring_inv w base s" and small: "length (s_reserved s) < 2 ^ 32" and t: "s_thr s t = CCas obj n behavior old k entries"
    and cas: "ht_head (r_cons (s_ring s)) = old"
  shows "ring_inv w base (goto t (CCopy obj old k entries 0)
    (s\<lparr>s_ring := (s_ring s)\<lparr>r_cons := (r_cons (s_ring s))\<lparr>ht_head := old + k\<rparr>\<rparr>, s_claimed := s_claimed s + unat k\<rparr>))"
proof -
  note I = ring_invD [OF inv]
  let ?L = "s_reserved s" and ?pt = "length (s_published s)" and ?ch = "s_claimed s" and ?ct = "length (s_returned s)"
  have T: "unat n * w \<le> length obj" "k \<le> n" "0 < k" "place base old = ?ch \<longrightarrow> place base old + unat k \<le> ?pt"
    using I(18) [of t] by (simp_all add: t)
  have "?ch < 2 ^ 32" using small I(10,11) by simp
  then have old: "place base old = ?ch" using place_of [of ?ch base] cas I(7) by simp
  have fits: "unat k * w \<le> length obj" using T(1,2) by (meson le_trans mult_le_mono1 word_le_nat_alt)
  have head: "old + k = base + of_nat (?ch + unat k)" using place_add [of old k base] old by simp
  have others: "thread_ok w base (unat (r_capacity (s_ring s))) ?L ?pt (?ch + unat k) ?ct (place_elem w base (s_ring s)) (s_thr s u)" for u
    by (rule thread_ok_mono_same [OF I(18) [of u]]) (use tiled_bounds [OF I(15), of u] tiled_bounds [OF I(16), of u] I(10,11) in force)+
  have "tiled ?ct (?ch + unat k) ((\<lambda>u. cons_span base (s_thr s u))(t := Some (?ch, unat k)))"
    using I(16) T(3) I(9) by (intro tiled_reserve) (simp_all add: t unat_gt_0)
  then show ?thesis
    by (intro ring_inv_gotoI) (use I(1-15,17) T(4) old head fits others in \<open>simp_all add: span_same t\<close>)
qed

text \<open>Copying an element in touches only a place that the thread has reserved.\<close>

lemma place_elem_copy_in:
  assumes inv: "ring_inv w base s" and t: "s_thr s t = PCopy obj old k free i" and i: "i < unat k"
  shows "\<exists>mem. copy_elem w (r_mem (s_ring s)) (ring_slot (s_ring s) old i) obj i = Some mem \<and> length mem = length (r_mem (s_ring s)) \<and>
    (\<forall>p. length (s_returned s) \<le> p \<and> p < length (s_reserved s) \<longrightarrow> place_elem w base ((s_ring s)\<lparr>r_mem := mem\<rparr>) p =
      (if p = place base old + i then elem_at w obj i else place_elem w base (s_ring s) p))"
proof -
  note I = ring_invD [OF inv]
  let ?r = "s_ring s" and ?a = "place base old" and ?ct = "length (s_returned s)"
  have T: "unat k * w \<le> length obj" using I(18) [of t] by (simp add: t)
  have span: "length (s_published s) \<le> ?a" "?a + unat k \<le> length (s_reserved s)"
    using tiled_bounds [OF I(15), of t] by (simp_all add: t)
  have cap: "unat (r_capacity ?r) < unat (r_size ?r)"
  proof -
    have "unat (r_mask ?r) < unat (r_size ?r)" using I(1) ring_shape_pos [OF I(1)]
      by (simp add: ring_shape_def unat_minus_one unat_gt_0)
    then show ?thesis using I(2) by (simp add: word_le_nat_alt)
  qed
  have lt: "ring_slot ?r old i < unat (r_size ?r)" using ring_shape_pos [OF I(1)] by (simp add: ring_slot_def)
  have fits: "(j + 1) * w \<le> unat (r_size ?r) * w" if "j < unat (r_size ?r)" for j using that by (intro mult_le_mono1) simp
  have "(i + 1) * w \<le> unat k * w" using i by (intro mult_le_mono1) simp
  then obtain mem where mem: "copy_elem w (r_mem ?r) (ring_slot ?r old i) obj i = Some mem" "length mem = length (r_mem ?r)"
    "\<forall>j. (j + 1) * w \<le> length (r_mem ?r) \<longrightarrow> elem_at w mem j = (if j = ring_slot ?r old i then elem_at w obj i else elem_at w (r_mem ?r) j)"
    using copy_elem_Some [of "ring_slot ?r old i" w "r_mem ?r" i obj] fits [OF lt] T I(4) by auto
  have "place_elem w base (?r\<lparr>r_mem := mem\<rparr>) p = (if p = ?a + i then elem_at w obj i else place_elem w base ?r p)"
    if p: "?ct \<le> p" "p < length (s_reserved s)" for p
  proof -
    have "(unat base + p) mod unat (r_size ?r) = ring_slot ?r old i \<longleftrightarrow> p = ?a + i"
      using mod_window [of "p - ?ct" "unat (r_size ?r)" "?a + i - ?ct" "unat base + ?ct"] p span i cap I(9,10,12)
      by (simp add: slot_place [OF I(1), where base = base]) linarith
    moreover have "(unat base + p) mod unat (r_size ?r) < unat (r_size ?r)" using ring_shape_pos [OF I(1)] by simp
    ultimately show ?thesis using mem(3) fits I(4) by (simp add: place_elem_def)
  qed
  then show ?thesis using mem(1,2) by blast
qed

lemma inv_copy_in:
  assumes inv: "ring_inv w base s" and t: "s_thr s t = PCopy obj old k free i" and i: "i < unat k"
    and mem: "copy_elem w (r_mem (s_ring s)) (ring_slot (s_ring s) old i) obj i = Some mem"
  shows "ring_inv w base (goto t (PCopy obj old k free (i + 1)) (s\<lparr>s_ring := (s_ring s)\<lparr>r_mem := mem\<rparr>\<rparr>))"
proof -
  note I = ring_invD [OF inv]
  let ?a = "place base old" and ?S = "place_elem w base (s_ring s)" and ?S' = "place_elem w base ((s_ring s)\<lparr>r_mem := mem\<rparr>)"
  have M: "length mem = length (r_mem (s_ring s))"
    "\<And>p. length (s_returned s) \<le> p \<Longrightarrow> p < length (s_reserved s) \<Longrightarrow> ?S' p = (if p = ?a + i then elem_at w obj i else ?S p)"
    using place_elem_copy_in [OF inv t i] mem by auto
  have span: "length (s_published s) \<le> ?a" "?a + unat k \<le> length (s_reserved s)"
    using tiled_bounds [OF I(15), of t] by (simp_all add: t)
  have same: "?S' (b + j) = ?S (b + j)" if "prod_span base (s_thr s u) = Some (b, m)" "j < m" "u \<noteq> t" for u b m j
    using tiled_apart [OF I(15), of u b m t ?a "unat k"] tiled_bounds [OF I(15) that(1)] that M(2) [of "b + j"] I(9,10) i by (auto simp: t)
  have others: "thread_ok w base (unat (r_capacity (s_ring s))) (s_reserved s) (length (s_published s)) (s_claimed s)
      (length (s_returned s)) ?S' (s_thr s u)" if "u \<noteq> t" for u
    by (rule thread_ok_mono_same [OF I(18) [of u]])
      (use tiled_bounds [OF I(15), of u] tiled_bounds [OF I(16), of u] I(10,11) same [OF _ _ that] in force)+
  have T: "unat k * w \<le> length obj" "\<forall>j<unat k. s_reserved s ! (?a + j) = elem_at w obj j" "\<forall>j<i. ?S (?a + j) = elem_at w obj j"
    using I(18) [of t] by (simp_all add: t)
  have own: "?S' (?a + j) = elem_at w obj j" if "j < i + 1" for j
    using M(2) [of "?a + j"] T(3) that span I(9,10) i by (cases "j = i") simp_all
  have old: "?S' p = s_reserved s ! p" if "length (s_returned s) \<le> p" "p < length (s_published s)" for p
    using M(2) [of p] I(17) [of p] that span I(11) by simp
  show ?thesis
    by (intro ring_inv_gotoI) (use I(1-16) M(1) T(1,2) own old others i in \<open>simp_all add: span_same t\<close>)
qed

text \<open>Publishing: the thread whose places begin at the tail moves it to their end.\<close>

lemma inv_publish:
  assumes inv: "ring_inv w base s" and t: "s_thr s t = PStore obj old k free"
  shows "ring_inv w base (goto t (Free k (free - k) obj)
    (s\<lparr>s_ring := (s_ring s)\<lparr>r_prod := (r_prod (s_ring s))\<lparr>ht_tail := old + k\<rparr>\<rparr>, s_published := s_published s @ elems w obj (unat k)\<rparr>))"
proof -
  note I = ring_invD [OF inv]
  let ?L = "s_reserved s" and ?pt = "length (s_published s)" and ?ct = "length (s_returned s)"
  have T: "place base old = ?pt" "\<forall>j<unat k. ?L ! (?pt + j) = elem_at w obj j \<and> place_elem w base (s_ring s) (?pt + j) = elem_at w obj j"
    using I(18) [of t] by (auto simp: t)
  have span: "prod_span base (s_thr s t) = Some (?pt, unat k)" using T(1) by (simp add: t)
  then have le: "?pt + unat k \<le> length ?L" using tiled_bounds [OF I(15), of t] by simp
  have tail: "old + k = base + of_nat (?pt + unat k)" using place_add [of old k base] T(1) by simp
  have others: "thread_ok w base (unat (r_capacity (s_ring s))) ?L (?pt + unat k) (s_claimed s) ?ct (place_elem w base (s_ring s)) (s_thr s u)"
    if "u \<noteq> t" for u
  proof (rule thread_ok_mono_same [OF I(18) [of u]])
    fix a n assume u: "prod_span base (s_thr s u) = Some (a, n)"
    have "a \<noteq> ?pt" using tiled_apart [OF I(15) u span that] tiled_bounds [OF I(15) u] tiled_bounds [OF I(15) span] by auto
    then show "a + n \<le> length ?L \<and> (a = ?pt \<longrightarrow> ?pt + unat k = ?pt) \<and> (\<forall>j<n. place_elem w base (s_ring s) (a + j) = ?L ! (a + j) \<longrightarrow>
        place_elem w base (s_ring s) (a + j) = place_elem w base (s_ring s) (a + j))"
      using tiled_bounds [OF I(15) u] by simp
  qed (use tiled_bounds [OF I(16), of u] I(10,11) in force)+
  have "elems w obj (unat k) = take (unat k) (drop ?pt ?L)"
    using T(2) le by (intro nth_equalityI) (simp_all add: elems_def)
  then have pub: "s_published s @ elems w obj (unat k) = take (?pt + unat k) ?L"
    using I(13) by (simp add: take_add)
  have mem: "place_elem w base (s_ring s) p = ?L ! p" if "?ct \<le> p" "p < ?pt + unat k" for p
    using I(17) [OF that(1)] T(2) [rule_format, of "p - ?pt"] that by (cases "p < ?pt") simp_all
  have tiles: "tiled (?pt + unat k) (length ?L) ((\<lambda>u. prod_span base (s_thr s u))(t := None))"
    using tiled_release [OF I(15), of t] span by simp
  show ?thesis
    by (intro ring_inv_gotoI) (use I(1-12,14,16) le tail pub mem others tiles in \<open>simp_all add: span_same t\<close>)
qed

text \<open>Copying out.\<close>

lemma copy_out_elem:
  assumes inv: "ring_inv w base s" and t: "s_thr s t = CCopy obj old k entries i" and i: "i < unat k"
  shows "\<exists>obj'. copy_elem w obj i (r_mem (s_ring s)) (ring_slot (s_ring s) old i) = Some obj' \<and> length obj' = length obj \<and>
    (\<forall>j\<le>i. elem_at w obj' j = s_reserved s ! (place base old + j))"
proof -
  note I = ring_invD [OF inv]
  let ?r = "s_ring s" and ?a = "place base old"
  have T: "unat k * w \<le> length obj" "\<forall>j<i. elem_at w obj j = s_reserved s ! (?a + j)" using I(18) [of t] by (simp_all add: t)
  have span: "length (s_returned s) \<le> ?a" "?a + unat k \<le> s_claimed s" using tiled_bounds [OF I(16), of t] by (simp_all add: t)
  have "ring_slot ?r old i < unat (r_size ?r)" using ring_shape_pos [OF I(1)] by (simp add: ring_slot_def)
  then have "(ring_slot ?r old i + 1) * w \<le> length (r_mem ?r)" unfolding I(4) by (intro mult_le_mono1) simp
  moreover have fit: "(j + 1) * w \<le> length obj" if "j \<le> i" for j
    using that i T(1) le_trans [OF mult_le_mono1 [of "j + 1" "unat k" w]] by simp
  ultimately obtain obj' where obj': "copy_elem w obj i (r_mem ?r) (ring_slot ?r old i) = Some obj'" "length obj' = length obj"
    "\<forall>j. (j + 1) * w \<le> length obj \<longrightarrow> elem_at w obj' j = (if j = i then elem_at w (r_mem ?r) (ring_slot ?r old i) else elem_at w obj j)"
    using copy_elem_Some [of i w obj "ring_slot ?r old i" "r_mem ?r"] by blast
  have "elem_at w (r_mem ?r) (ring_slot ?r old i) = s_reserved s ! (?a + i)"
    using I(17) [of "?a + i"] span i I(10) by (simp add: place_elem_def slot_place [OF I(1), of _ _ base])
  then have "\<forall>j\<le>i. elem_at w obj' j = s_reserved s ! (?a + j)" using obj'(3) fit T(2) by auto
  then show ?thesis using obj'(1,2) by blast
qed

lemma inv_copy_out:
  assumes inv: "ring_inv w base s" and t: "s_thr s t = CCopy obj old k entries i" and i: "i < unat k"
    and obj': "copy_elem w obj i (r_mem (s_ring s)) (ring_slot (s_ring s) old i) = Some obj'"
  shows "ring_inv w base (goto t (CCopy obj' old k entries (i + 1)) s)"
proof (rule ring_inv_goto [OF inv])
  have "unat k * w \<le> length obj" using ring_invD(18) [OF inv, of t] by (simp add: t)
  then show "thread_ok w base (unat (r_capacity (s_ring s))) (s_reserved s) (length (s_published s)) (s_claimed s)
      (length (s_returned s)) (place_elem w base (s_ring s)) (CCopy obj' old k entries (i + 1))"
    using copy_out_elem [OF inv t i] obj' i by auto
qed (simp_all add: t)

lemma inv_return:
  assumes inv: "ring_inv w base s" and t: "s_thr s t = CStore obj old k entries"
  shows "ring_inv w base (goto t (Free k (entries - k) obj)
    (s\<lparr>s_ring := (s_ring s)\<lparr>r_cons := (r_cons (s_ring s))\<lparr>ht_tail := old + k\<rparr>\<rparr>, s_returned := s_returned s @ elems w obj (unat k)\<rparr>))"
proof -
  note I = ring_invD [OF inv]
  let ?L = "s_reserved s" and ?pt = "length (s_published s)" and ?ct = "length (s_returned s)"
  have T: "place base old = ?ct" "\<forall>j<unat k. elem_at w obj j = ?L ! (?ct + j)" using I(18) [of t] by (simp_all add: t)
  have span: "cons_span base (s_thr s t) = Some (?ct, unat k)" using T(1) by (simp add: t)
  then have le: "?ct + unat k \<le> s_claimed s" using tiled_bounds [OF I(16), of t] by simp
  have tail: "old + k = base + of_nat (?ct + unat k)" using place_add [of old k base] T(1) by simp
  have others: "thread_ok w base (unat (r_capacity (s_ring s))) ?L ?pt (s_claimed s) (?ct + unat k) (place_elem w base (s_ring s)) (s_thr s u)"
    if "u \<noteq> t" for u
  proof (rule thread_ok_mono_same [OF I(18) [of u]])
    fix a n assume u: "cons_span base (s_thr s u) = Some (a, n)"
    have "a \<noteq> ?ct" using tiled_apart [OF I(16) u span that] tiled_bounds [OF I(16) u] tiled_bounds [OF I(16) span] by auto
    then show "a + n \<le> length ?L \<and> (a = ?ct \<longrightarrow> ?ct + unat k = ?ct)" using tiled_bounds [OF I(16) u] I(10,11) by simp
  qed (use tiled_bounds [OF I(15), of u] in force)+
  have "elems w obj (unat k) = take (unat k) (drop ?ct ?L)"
    using T(2) le I(10,11) by (intro nth_equalityI) (simp_all add: elems_def)
  then have ret: "s_returned s @ elems w obj (unat k) = take (?ct + unat k) ?L"
    using I(14) by (simp add: take_add)
  have tiles: "tiled (?ct + unat k) (s_claimed s) ((\<lambda>u. cons_span base (s_thr s u))(t := None))"
    using tiled_release [OF I(16), of t] span by simp
  show ?thesis
    by (intro ring_inv_gotoI) (use I(1-13,15,17) le tail ret others tiles in \<open>simp_all add: span_same t\<close>)
qed

section \<open>Runs\<close>

lemma thread_step_ok:
  assumes inv: "ring_inv w base s" and small: "length (s_reserved s) < 2 ^ 32"
  shows "\<exists>s'. thread_step w t s = Some s' \<and> ring_inv w base s'"
proof -
  note I = ring_invD [OF inv]
  note ok = I(18) [of t]
  show ?thesis
  proof (cases "s_thr s t")
    case (Free k avail obj)
    then show ?thesis using inv by (simp add: thread_step_def Let_def)
  next
    case (PStart obj n behavior)
    then show ?thesis using ok place_of [OF small, of base] I(5)
      by (auto simp: thread_step_def Let_def intro!: ring_inv_goto [OF inv])
  next
    case (PHead obj n behavior old)
    then show ?thesis using inv_PHead [OF inv small PHead refl refl] by (simp add: thread_step_def Let_def)
  next
    case (PCas obj n behavior old k free)
    then show ?thesis using ok inv_reserve [OF inv small PCas] ring_inv_goto [OF inv, of "PStart obj n behavior" t]
      by (cases "ht_head (r_prod (s_ring s)) = old") (simp_all add: thread_step_def Let_def)
  next
    case (PCopy obj old k free i)
    show ?thesis
    proof (cases "i < unat k")
      case True
      then obtain mem where "copy_elem w (r_mem (s_ring s)) (ring_slot (s_ring s) old i) obj i = Some mem"
        using place_elem_copy_in [OF inv PCopy] by blast
      then show ?thesis using PCopy True inv_copy_in [OF inv PCopy True] by (simp add: thread_step_def Let_def)
    next
      case False
      have pt: "length (s_published s) < 2 ^ 32" using small I(11) by simp
      show ?thesis
        using PCopy False ok inv place_of [OF pt, of base] I(6) by (auto simp: thread_step_def Let_def intro!: ring_inv_goto [OF inv])
    qed
  next
    case (PStore obj old k free)
    then show ?thesis using inv_publish [OF inv PStore] by (simp add: thread_step_def Let_def)
  next
    case (CStart obj n behavior)
    have "s_claimed s < 2 ^ 32" using small I(10,11) by simp
    then show ?thesis using CStart ok place_of [of "s_claimed s" base] I(7)
      by (auto simp: thread_step_def Let_def intro!: ring_inv_goto [OF inv])
  next
    case (CHead obj n behavior old)
    then show ?thesis using inv_CHead [OF inv small CHead refl refl] by (simp add: thread_step_def Let_def)
  next
    case (CCas obj n behavior old k entries)
    then show ?thesis using ok inv_claim [OF inv small CCas] ring_inv_goto [OF inv, of "CStart obj n behavior" t]
      by (cases "ht_head (r_cons (s_ring s)) = old") (simp_all add: thread_step_def Let_def)
  next
    case (CCopy obj old k entries i)
    show ?thesis
    proof (cases "i < unat k")
      case True
      then obtain obj' where "copy_elem w obj i (r_mem (s_ring s)) (ring_slot (s_ring s) old i) = Some obj'"
        using copy_out_elem [OF inv CCopy] by blast
      then show ?thesis using CCopy True inv_copy_out [OF inv CCopy True] by (simp add: thread_step_def Let_def)
    next
      case False
      have ct: "length (s_returned s) < 2 ^ 32" using small I(9-11) by simp
      show ?thesis
        using CCopy False ok inv place_of [OF ct, of base] I(8) by (auto simp: thread_step_def Let_def intro!: ring_inv_goto [OF inv])
    qed
  next
    case (CStore obj old k entries)
    then show ?thesis using inv_return [OF inv CStore] by (simp add: thread_step_def Let_def)
  qed
qed

lemma ring_step_grows:
  "ring_step w s s' \<Longrightarrow> length (s_reserved s) \<le> length (s_reserved s') \<and> r_capacity (s_ring s') = r_capacity (s_ring s)"
  by (induction rule: ring_step.induct)
    (auto simp: thread_step_def Let_def split: ring_thread.splits if_splits bind_splits)

lemma ring_step_inv:
  assumes "ring_step w s s'" "ring_inv w base s" "length (s_reserved s) < 2 ^ 32"
  shows "ring_inv w base s'"
  using assms(1)
proof cases
  case (call t k avail obj x)
  then show ?thesis using assms(2) by (cases x) (auto intro!: ring_inv_goto)
next
  case (step t)
  then show ?thesis using thread_step_ok [OF assms(2,3), of t] by simp
qed

lemma ring_inv_init:
  assumes "ring_ok w r"
  shows "ring_inv w (ht_tail (r_cons r)) (ring_threads_init w r)"
proof -
  let ?base = "ht_tail (r_cons r)"
  have s: "ring_shape r" "r_capacity r \<le> r_mask r" "0 < w" "length (r_mem r) = unat (r_size r) * w"
    "quiet (r_prod r)" "quiet (r_cons r)" using assms by (simp_all add: ring_ok_def)
  have u: "unat (ring_used r) \<le> unat (r_capacity r)" using ring_ok_facts [OF assms] by simp
  have tail: "ht_tail (r_prod r) = ?base + of_nat (unat (ring_used r))" by (simp add: ring_used_def)
  have "place_elem w ?base r p = contents w r ! p" if "p < unat (ring_used r)" for p
    using that by (simp add: place_elem_def contents_def)
  moreover have "tiled n n (\<lambda>t. None)" for n by (simp add: tiled_def)
  ultimately show ?thesis using s u tail by (simp add: ring_inv_def ring_threads_init_def Let_def quiet_def)
qed

lemma ring_threads_inv:
  assumes "ring_ok w r" "(ring_step w)\<^sup>*\<^sup>* (ring_threads_init w r) s"
  shows "r_capacity (s_ring s) = r_capacity r \<and> (length (s_reserved s) < 2 ^ 32 \<longrightarrow> ring_inv w (ht_tail (r_cons r)) s)"
  using assms(2)
proof (induction rule: rtranclp_induct)
  case base
  then show ?case using ring_inv_init [OF assms(1)] by (simp add: ring_threads_init_def)
next
  case (step s s')
  then show ?case using ring_step_grows [OF step(2)] ring_step_inv [OF step(2)] by auto
qed

lemma contents_inv:
  assumes "ring_inv w base s" "length (s_reserved s) < 2 ^ 32"
  shows "s_published s = s_returned s @ contents w (s_ring s)"
    "length (contents w (s_ring s)) \<le> unat (r_capacity (s_ring s))"
proof -
  note I = ring_invD [OF assms(1)]
  let ?L = "s_reserved s" and ?pt = "length (s_published s)" and ?ct = "length (s_returned s)"
  have le: "?ct \<le> ?pt" "?pt < 2 ^ 32" "?pt \<le> length ?L" using I(9-11) assms(2) by simp_all
  have used: "unat (ring_used (s_ring s)) = ?pt - ?ct"
    unfolding ring_used_def I(6,8) by (rule entries_at_head [OF le(1,2)])
  then show "length (contents w (s_ring s)) \<le> unat (r_capacity (s_ring s))" using I(11,12) by simp
  have "(unat (base + of_nat ?ct) + i) mod unat (r_size (s_ring s)) = (unat base + (?ct + i)) mod unat (r_size (s_ring s))" for i
  proof -
    have "?ct < 2 ^ 32" using le by simp
    then have "unat (of_nat ?ct :: u32) = ?ct" by (simp add: unat_of_nat)
    then have "(unat (base + of_nat ?ct) mod unat (r_size (s_ring s)) + i) mod unat (r_size (s_ring s)) =
        ((unat base + ?ct) mod unat (r_size (s_ring s)) + i) mod unat (r_size (s_ring s))"
      by (simp only: slot_add [OF I(1)])
    then show ?thesis by (simp add: mod_add_left_eq add.assoc)
  qed
  then have "contents w (s_ring s) = map (\<lambda>i. place_elem w base (s_ring s) (?ct + i)) [0..<?pt - ?ct]"
    by (simp add: contents_def used I(8) place_elem_def)
  also have "\<dots> = map (\<lambda>i. ?L ! (?ct + i)) [0..<?pt - ?ct]" using I(17) by simp
  also have "\<dots> = drop ?ct (take ?pt ?L)" using le by (intro nth_equalityI) simp_all
  finally have c: "contents w (s_ring s) = drop ?ct (take ?pt ?L)" .
  have "take ?ct (take ?pt ?L) = s_returned s" using I(14) le(1) by (simp add: min_absorb1)
  then show "s_published s = s_returned s @ contents w (s_ring s)"
    unfolding c using I(13) append_take_drop_id [of ?ct "take ?pt ?L"] by simp
qed

section \<open>What the threads may rely on\<close>

text \<open>C4: Under any interleaving of any number of producers and consumers, what consumers have returned, followed by
  what is in the ring, is what producers have published: nothing is lost, duplicated, reordered or read before it
  is written, the ring is never over its capacity, and no thread reads or writes outside of the ring or of a
  table.\<close>

theorem ring_threads_keep_order:
  assumes "ring_ok w r" "(ring_step w)\<^sup>*\<^sup>* (ring_threads_init w r) s" "length (s_reserved s) < 2 ^ 32"
  shows "s_published s = s_returned s @ contents w (s_ring s) \<and>
    length (contents w (s_ring s)) \<le> unat (r_capacity r) \<and> (\<forall>t. thread_step w t s \<noteq> None)"
proof -
  have inv: "ring_inv w (ht_tail (r_cons r)) s" and cap: "r_capacity (s_ring s) = r_capacity r"
    using ring_threads_inv [OF assms(1,2)] assms(3) by simp_all
  have "thread_step w t s \<noteq> None" for t using thread_step_ok [OF inv assms(3), of t] by auto
  then show ?thesis using contents_inv [OF inv assms(3)] cap by simp
qed

text \<open>A schedule: each entry is a call or a step of one thread.\<close>

fun ring_schedule :: "nat \<Rightarrow> (nat \<times> ring_op option) list \<Rightarrow> ring_sys \<Rightarrow> ring_sys option" where
  "ring_schedule w [] s = Some s"
| "ring_schedule w ((t, None) # xs) s = do { s \<leftarrow> thread_step w t s; ring_schedule w xs s }"
| "ring_schedule w ((t, Some x) # xs) s =
     (case s_thr s t of Free k avail obj \<Rightarrow> if op_fits w x then ring_schedule w xs (goto t (call x) s) else None | _ \<Rightarrow> None)"

lemma ring_schedule_steps: "ring_schedule w xs s = Some s' \<Longrightarrow> (ring_step w)\<^sup>*\<^sup>* s s'"
proof (induction w xs s rule: ring_schedule.induct)
  case (2 w t xs s)
  then obtain s1 where "thread_step w t s = Some s1" "(ring_step w)\<^sup>*\<^sup>* s1 s'" by (auto split: bind_splits)
  then show ?case by (meson ring_step.step converse_rtranclp_into_rtranclp)
next
  case (3 w t x xs s)
  then obtain k avail obj where "s_thr s t = Free k avail obj" "op_fits w x" "(ring_step w)\<^sup>*\<^sup>* (goto t (call x) s) s'"
    by (auto split: ring_thread.splits if_splits)
  then show ?case by (meson ring_step.call converse_rtranclp_into_rtranclp)
qed simp

lemma wrapping_threads:
  "ring_threads_init 2 wrapping_ring = \<lparr>s_ring = wrapping_ring, s_thr = (\<lambda>t. Free 0 0 []), s_reserved = [], s_claimed = 0,
     s_published = [], s_returned = []\<rparr>"
  by (simp add: ring_threads_init_def wrapping_ring_ok(2))

text \<open>Thread 0 reserves first, thread 1 reserves, copies and waits, thread 2 finds the ring empty; then thread 0
  publishes, thread 1 publishes and thread 2, who calls again, takes both elements.\<close>

definition ring_race :: "(nat \<times> ring_op option) list" where
  "ring_race =
     [(0, Some (Put RTE_RING_QUEUE_FIXED [1, 2] 1)), (1, Some (Put RTE_RING_QUEUE_FIXED [3, 4] 1)),
      (2, Some (Take RTE_RING_QUEUE_VARIABLE [0, 0, 0, 0] 2)), (0, None), (1, None), (0, None), (0, None)] @
     map (\<lambda>_. (1, None)) [0..<7] @ [(2, None), (2, None)] @ map (\<lambda>_. (0, None)) [0..<3] @ [(1, None), (1, None)] @
     [(2, Some (Take RTE_RING_QUEUE_VARIABLE [0, 0, 0, 0] 2))] @ map (\<lambda>_. (2, None)) [0..<7]"

lemma ring_race_result:
  "map_option (\<lambda>s. (s_reserved s, s_published s, s_returned s, s_thr s 1, s_thr s 2)) (ring_schedule 2 ring_race (ring_threads_init 2 wrapping_ring)) =
     Some ([[1, 2], [3, 4]], [[1, 2], [3, 4]], [[1, 2], [3, 4]], Free 1 1 [3, 4], Free 2 0 [1, 2, 3, 4])"
  unfolding wrapping_threads by code_simp

theorem ring_threads_keep_order_witness:
  "\<exists>s. ring_schedule 2 ring_race (ring_threads_init 2 wrapping_ring) = Some s \<and>
     s_published s = [[1, 2], [3, 4]] \<and> s_returned s = [[1, 2], [3, 4]] \<and> contents 2 (s_ring s) = []"
proof -
  obtain s where s: "ring_schedule 2 ring_race (ring_threads_init 2 wrapping_ring) = Some s"
    "s_reserved s = [[1, 2], [3, 4]]" "s_published s = [[1, 2], [3, 4]]" "s_returned s = [[1, 2], [3, 4]]"
    using ring_race_result by auto
  then show ?thesis using ring_threads_keep_order [OF wrapping_ring_ok(1) ring_schedule_steps [OF s(1)]] by simp
qed

text \<open>A waiting loop: everything is copied and it is not this thread's turn.\<close>

definition waits :: "ring_sys \<Rightarrow> nat \<Rightarrow> bool" where
  "waits s t = (case s_thr s t of
     PCopy obj old k free i \<Rightarrow> i = unat k \<and> ht_tail (r_prod (s_ring s)) \<noteq> old
   | CCopy obj old k entries i \<Rightarrow> i = unat k \<and> ht_tail (r_cons (s_ring s)) \<noteq> old
   | _ \<Rightarrow> False)"

lemma waiting_cases:
  assumes "\<not> waits s t \<Longrightarrow> P"
    and "\<And>obj old k free. s_thr s t = PCopy obj old k free (unat k) \<Longrightarrow> ht_tail (r_prod (s_ring s)) \<noteq> old \<Longrightarrow> P"
    and "\<And>obj old k entries. s_thr s t = CCopy obj old k entries (unat k) \<Longrightarrow> ht_tail (r_cons (s_ring s)) \<noteq> old \<Longrightarrow> P"
  shows P
  using assms by (cases "s_thr s t") (auto simp: waits_def)

lemma thread_moves:
  assumes inv: "ring_inv w base s" and small: "length (s_reserved s) < 2 ^ 32"
    and busy: "\<nexists>k avail obj. s_thr s t = Free k avail obj" and turn: "\<not> waits s t"
  shows "\<exists>s'. thread_step w t s = Some s' \<and> s_thr s' t \<noteq> s_thr s t"
proof -
  obtain s' where s': "thread_step w t s = Some s'" using thread_step_ok [OF inv small] by blast
  moreover have "s_thr s' t \<noteq> s_thr s t"
    using s' busy turn ring_invD(18) [OF inv, of t]
    by (cases "s_thr s t") (auto simp: thread_step_def Let_def waits_def split: if_splits bind_splits)
  ultimately show ?thesis by blast
qed

lemma ring_wait_result:
  "map_option (\<lambda>s. (s_reserved s, s_thr s 1)) (ring_schedule 2 (take 14 ring_race) (ring_threads_init 2 wrapping_ring)) =
     Some ([[1, 2], [3, 4]], PCopy [3, 4] (- 1) 1 2 1)"
  unfolding wrapping_threads by code_simp

text \<open>C21: The waits for the tail never end in a deadlock: while an enqueue or a dequeue is under way, some thread has
  a step that is not another turn of a waiting loop.\<close>

theorem ring_threads_do_not_deadlock:
  assumes "ring_ok w r" "(ring_step w)\<^sup>*\<^sup>* (ring_threads_init w r) s" "length (s_reserved s) < 2 ^ 32"
    and "\<nexists>k avail obj. s_thr s t = Free k avail obj"
  shows "\<exists>u s'. thread_step w u s = Some s' \<and> s_thr s' u \<noteq> s_thr s u"
proof -
  have inv: "ring_inv w (ht_tail (r_cons r)) s" using ring_threads_inv [OF assms(1,2)] assms(3) by simp
  note I = ring_invD [OF inv]
  show ?thesis
  proof (rule waiting_cases [of s t])
    assume "\<not> waits s t"
    then show ?thesis using thread_moves [OF inv assms(3,4)] by blast
  next
    fix obj old k free assume t: "s_thr s t = PCopy obj old k free (unat k)" "ht_tail (r_prod (s_ring s)) \<noteq> old"
    have "length (s_published s) < length (s_reserved s)" using tiled_bounds [OF I(15), of t] by (simp add: t)
    then obtain u n where "prod_span (ht_tail (r_cons r)) (s_thr s u) = Some (length (s_published s), n)"
      using tiled_first [OF I(15)] by blast
    then have "\<not> waits s u \<and> (\<nexists>k avail obj. s_thr s u = Free k avail obj)"
      using I(6) by (cases "s_thr s u") (auto simp: waits_def dest: at_place)
    then show ?thesis using thread_moves [OF inv assms(3)] by blast
  next
    fix obj old k entries assume t: "s_thr s t = CCopy obj old k entries (unat k)" "ht_tail (r_cons (s_ring s)) \<noteq> old"
    have "length (s_returned s) < s_claimed s" using tiled_bounds [OF I(16), of t] by (simp add: t)
    then obtain u n where "cons_span (ht_tail (r_cons r)) (s_thr s u) = Some (length (s_returned s), n)"
      using tiled_first [OF I(16)] by blast
    then have "\<not> waits s u \<and> (\<nexists>k avail obj. s_thr s u = Free k avail obj)"
      using I(8) by (cases "s_thr s u") (auto simp: waits_def dest: at_place)
    then show ?thesis using thread_moves [OF inv assms(3)] by blast
  qed
qed

theorem ring_threads_do_not_deadlock_witness:
  "\<exists>s u s'. ring_schedule 2 (take 14 ring_race) (ring_threads_init 2 wrapping_ring) = Some s \<and>
     s_thr s 1 = PCopy [3, 4] (- 1) 1 2 1 \<and> thread_step 2 u s = Some s' \<and> s_thr s' u \<noteq> s_thr s u"
proof -
  obtain s where s: "ring_schedule 2 (take 14 ring_race) (ring_threads_init 2 wrapping_ring) = Some s"
    "s_reserved s = [[1, 2], [3, 4]]" "s_thr s 1 = PCopy [3, 4] (- 1) 1 2 1"
    using ring_wait_result by auto
  then show ?thesis using ring_threads_do_not_deadlock [OF wrapping_ring_ok(1) ring_schedule_steps [OF s(1)], of 1] by simp
qed

end
