(* ===== verification/RteTimer.thy ===== *)
theory RteTimer
  imports RteRandom "HOL-Library.Sublist" "HOL-Library.Multiset"
begin

text \<open>
  The timer library, \<^verbatim>\<open>lib/timer/rte_timer.c\<close>: per-lcore skip lists of pending timers ordered
  by expiry, the status machine of a timer handle, and the manage loop that runs the expired
  timers' callbacks.

  A timer handle is an address (a \<open>nat\<close>) into a store of \<open>rte_timer\<close> records. The chain of
  \<^verbatim>\<open>sl_next[lvl]\<close> pointers that starts at an lcore's \<^verbatim>\<open>pending_head\<close> is the list \<open>sl p ! lvl\<close>.
  Every function runs on one lcore and is atomic (the list lock and the CONFIG state give the
  code that atomicity); the interleaving of several lcores inside one call is not modelled.
  The library instance is the default one (\<^verbatim>\<open>default_data_id\<close>).
\<close>

section \<open>State\<close>

datatype rte_timer_state = RTE_TIMER_STOP | RTE_TIMER_PENDING | RTE_TIMER_RUNNING | RTE_TIMER_CONFIG

datatype rte_timer_type = SINGLE | PERIODICAL

definition RTE_TIMER_NO_OWNER :: int where
  "RTE_TIMER_NO_OWNER = - 2"

definition MAX_SKIPLIST_DEPTH :: nat where
  "MAX_SKIPLIST_DEPTH = 10"

text \<open>\<open>f\<close> is the callback with its argument (the code keeps the two pointers \<^verbatim>\<open>f\<close> and \<^verbatim>\<open>arg\<close>).\<close>

record 'cb rte_timer =
  expire :: u64
  state :: rte_timer_state
  owner :: int
  period :: u64
  f :: "'cb option"

record priv_timer =
  head_expire :: u64
  sl :: "nat list list"
  updated :: bool
  curr_skiplist_depth :: nat
  prev_lcore :: nat
  running_tim :: "nat option"

record 'cb timer_data =
  tims :: "nat \<Rightarrow> 'cb rte_timer"
  priv :: "nat \<Rightarrow> priv_timer"
  timer_ready :: bool
  rands :: "rte_rand_state list"

text \<open>
  What a call reads from the machine: the calling lcore, the main lcore, the enabled lcores,
  the timer frequency and the cycle counter. The counter does not advance within one call.
\<close>

record eal =
  lcore_id :: nat
  main_lcore :: nat
  lcore_enabled :: "nat \<Rightarrow> bool"
  timer_hz :: u64
  timer_cycles :: u64

definition set_tim :: "nat \<Rightarrow> ('cb rte_timer \<Rightarrow> 'cb rte_timer) \<Rightarrow> 'cb timer_data \<Rightarrow> 'cb timer_data" where
  "set_tim t g d = d\<lparr>tims := (tims d)(t := g (tims d t))\<rparr>"

definition set_priv :: "nat \<Rightarrow> (priv_timer \<Rightarrow> priv_timer) \<Rightarrow> 'cb timer_data \<Rightarrow> 'cb timer_data" where
  "set_priv l g d = d\<lparr>priv := (priv d)(l := g (priv d l))\<rparr>"

section \<open>Status changes\<close>

definition rte_timer_init :: "nat \<Rightarrow> 'cb timer_data \<Rightarrow> 'cb timer_data" where
  "rte_timer_init tim = set_tim tim (\<lambda>t. t\<lparr>state := RTE_TIMER_STOP, owner := RTE_TIMER_NO_OWNER\<rparr>)"

text \<open>
  The compare-and-swap loop of \<^verbatim>\<open>timer_set_config_state\<close> without a competing writer: one pass.
  \<open>None\<close> is the return value -1; otherwise the previous status is returned.
\<close>

definition timer_set_config_state ::
  "eal \<Rightarrow> nat \<Rightarrow> 'cb timer_data \<Rightarrow> ((rte_timer_state \<times> int) \<times> 'cb timer_data) option" where
  "timer_set_config_state e tim d =
     (let prev = tims d tim in
      if state prev = RTE_TIMER_RUNNING \<and>
         (owner prev \<noteq> int (lcore_id e) \<or> Some tim \<noteq> running_tim (priv d (lcore_id e)))
      then None
      else if state prev = RTE_TIMER_CONFIG then None
      else Some ((state prev, owner prev),
                 set_tim tim (\<lambda>t. t\<lparr>state := RTE_TIMER_CONFIG, owner := int (lcore_id e)\<rparr>) d))"

definition timer_set_running_state :: "eal \<Rightarrow> nat \<Rightarrow> 'cb timer_data \<Rightarrow> 'cb timer_data option" where
  "timer_set_running_state e tim d =
     (if state (tims d tim) \<noteq> RTE_TIMER_PENDING then None
      else Some (set_tim tim (\<lambda>t. t\<lparr>state := RTE_TIMER_RUNNING, owner := int (lcore_id e)\<rparr>) d))"

section \<open>Skip list search\<close>

text \<open>\<open>rte_bsf32\<close>: the index of the lowest set bit.\<close>

definition rte_bsf32 :: "u32 \<Rightarrow> nat" where
  "rte_bsf32 v = (case find (bit v) [0..<32] of Some i \<Rightarrow> i | None \<Rightarrow> 0)"

definition timer_get_skiplist_level :: "eal \<Rightarrow> nat \<Rightarrow> 'cb timer_data \<Rightarrow> nat \<times> 'cb timer_data" where
  "timer_get_skiplist_level e curr_depth d =
     (let (r, rs) = rte_rand (lcore_id e) (rands d);
          rand = ucast r AND (- 1 - 1 :: u32);
          level = (if rand = 0 then MAX_SKIPLIST_DEPTH else (rte_bsf32 rand - 1) div 2);
          level = (if level > curr_depth then curr_depth else level);
          level = (if level \<ge> MAX_SKIPLIST_DEPTH then MAX_SKIPLIST_DEPTH - 1 else level)
      in (level, d\<lparr>rands := rs\<rparr>))"

text \<open>
  A position in a chain is the node before it: \<open>None\<close> is the \<^verbatim>\<open>pending_head\<close>. \<open>succs ch prev\<close> is
  what \<^verbatim>\<open>prev->sl_next[lvl]\<close> leads to, and \<open>walk\<close> the inner loop that moves \<^verbatim>\<open>prev\<close> forward.
\<close>

fun succs :: "'a list \<Rightarrow> 'a option \<Rightarrow> 'a list" where
  "succs ch None = ch"
| "succs ch (Some p) = tl (dropWhile (\<lambda>x. x \<noteq> p) ch)"

fun walk :: "('a \<Rightarrow> bool) \<Rightarrow> 'a option \<Rightarrow> 'a list \<Rightarrow> 'a option" where
  "walk go prev [] = prev"
| "walk go prev (x # xs) = (if go x then walk go (Some x) xs else prev)"

definition step_level :: "(nat \<Rightarrow> bool) \<Rightarrow> nat list list \<Rightarrow> nat \<Rightarrow> nat option \<Rightarrow> nat option" where
  "step_level go chs lvl prev = walk go prev (succs (chs ! lvl) prev)"

text \<open>The entry \<open>prev[depth - k]\<close> after \<open>k\<close> rounds of the outer loop.\<close>

fun prev_entry :: "(nat \<Rightarrow> bool) \<Rightarrow> nat list list \<Rightarrow> nat \<Rightarrow> nat \<Rightarrow> nat option" where
  "prev_entry go chs depth 0 = None"
| "prev_entry go chs depth (Suc k) =
     step_level go chs (depth - Suc k) (prev_entry go chs depth k)"

definition timer_get_prev_entries :: "u64 \<Rightarrow> nat \<Rightarrow> 'cb timer_data \<Rightarrow> nat option list" where
  "timer_get_prev_entries time_val tim_lcore d =
     (let p = priv d tim_lcore; depth = curr_skiplist_depth p
      in map (\<lambda>lvl. prev_entry (\<lambda>t. expire (tims d t) \<le> time_val) (sl p) depth (depth - lvl))
             [0..<Suc depth])"

definition timer_get_prev_entries_for_node :: "nat \<Rightarrow> nat \<Rightarrow> 'cb timer_data \<Rightarrow> nat option list" where
  "timer_get_prev_entries_for_node tim tim_lcore d =
     (let p = priv d tim_lcore; depth = curr_skiplist_depth p;
          prev = timer_get_prev_entries (expire (tims d tim) - 1) tim_lcore d
      in map (\<lambda>i. if i < depth
                  then step_level (\<lambda>t. t \<noteq> tim \<and> expire (tims d t) \<le> expire (tims d tim)) (sl p) i (prev ! i)
                  else prev ! i)
             [0..<Suc depth])"

section \<open>Insertion and removal\<close>

fun insert_after :: "'a option \<Rightarrow> 'a \<Rightarrow> 'a list \<Rightarrow> 'a list" where
  "insert_after None t ch = t # ch"
| "insert_after (Some p) t ch =
     takeWhile (\<lambda>x. x \<noteq> p) ch @ p # t # tl (dropWhile (\<lambda>x. x \<noteq> p) ch)"

fun unlink_after :: "'a option \<Rightarrow> 'a \<Rightarrow> 'a list \<Rightarrow> 'a list" where
  "unlink_after None t ch = (if ch \<noteq> [] \<and> hd ch = t then tl ch else ch)"
| "unlink_after (Some p) t ch =
     (let rest = tl (dropWhile (\<lambda>x. x \<noteq> p) ch)
      in if rest \<noteq> [] \<and> hd rest = t then takeWhile (\<lambda>x. x \<noteq> p) ch @ p # tl rest else ch)"

definition first_expire :: "'cb timer_data \<Rightarrow> nat list \<Rightarrow> u64" where
  "first_expire d ch = (case ch of [] \<Rightarrow> 0 | t # _ \<Rightarrow> expire (tims d t))"

definition timer_add :: "eal \<Rightarrow> nat \<Rightarrow> nat \<Rightarrow> 'cb timer_data \<Rightarrow> 'cb timer_data" where
  "timer_add e tim tim_lcore d =
     (let prev = timer_get_prev_entries (expire (tims d tim)) tim_lcore d;
          depth = curr_skiplist_depth (priv d tim_lcore);
          (tim_level, d) = timer_get_skiplist_level e depth d;
          sl' = map (\<lambda>lvl. if lvl \<le> tim_level then insert_after (prev ! lvl) tim (sl (priv d tim_lcore) ! lvl)
                           else sl (priv d tim_lcore) ! lvl) [0..<MAX_SKIPLIST_DEPTH]
      in set_priv tim_lcore (\<lambda>p. p\<lparr>sl := sl',
           curr_skiplist_depth := (if tim_level = depth then Suc depth else depth),
           head_expire := first_expire d (sl' ! 0)\<rparr>) d)"

text \<open>The last loop of \<^verbatim>\<open>timer_del\<close>: drop the levels that became empty, from the top.\<close>

fun shrink_depth :: "nat list list \<Rightarrow> nat \<Rightarrow> nat" where
  "shrink_depth chs 0 = 0"
| "shrink_depth chs (Suc i) = (if chs ! i = [] then shrink_depth chs i else Suc i)"

definition timer_del :: "nat \<Rightarrow> int \<Rightarrow> 'cb timer_data \<Rightarrow> 'cb timer_data" where
  "timer_del tim prev_owner d =
     (let l = nat prev_owner; p = priv d l; depth = curr_skiplist_depth p;
          he = (if sl p ! 0 \<noteq> [] \<and> hd (sl p ! 0) = tim then first_expire d (tl (sl p ! 0)) else head_expire p);
          prev = timer_get_prev_entries_for_node tim l d;
          sl' = map (\<lambda>i. if i < depth then unlink_after (prev ! i) tim (sl p ! i) else sl p ! i)
                    [0..<MAX_SKIPLIST_DEPTH]
      in set_priv l (\<lambda>p. p\<lparr>sl := sl', head_expire := he,
                          curr_skiplist_depth := shrink_depth sl' depth\<rparr>) d)"

section \<open>Reset and stop\<close>

text \<open>
  \<open>rte_get_next_lcore i 0 1\<close> (\<^verbatim>\<open>lib/eal/common/eal_common_lcore.c\<close>): the next enabled lcore after
  \<open>i\<close>, wrapping. The main lcore is always enabled, so the search ends within one turn.
\<close>

definition rte_get_next_lcore :: "eal \<Rightarrow> nat \<Rightarrow> nat" where
  "rte_get_next_lcore e i =
     (case find (lcore_enabled e) (map (\<lambda>k. (i + 1 + k) mod RTE_MAX_LCORE) [0..<RTE_MAX_LCORE]) of
        Some l \<Rightarrow> l | None \<Rightarrow> main_lcore e)"

definition pick_lcore :: "eal \<Rightarrow> nat \<Rightarrow> 'cb timer_data \<Rightarrow> nat \<times> 'cb timer_data" where
  "pick_lcore e tim_lcore d =
     (if tim_lcore = LCORE_ID_ANY then
        if lcore_id e < RTE_MAX_LCORE then
          (let l = rte_get_next_lcore e (prev_lcore (priv d (lcore_id e)))
           in (l, set_priv (lcore_id e) (\<lambda>p. p\<lparr>prev_lcore := l\<rparr>) d))
        else (rte_get_next_lcore e LCORE_ID_ANY, d)
      else (tim_lcore, d))"

text \<open>
  The two steps \<^verbatim>\<open>__rte_timer_reset\<close> and \<^verbatim>\<open>__rte_timer_stop\<close> share: take the handle into CONFIG
  state, note the update of a running timer, and unlink a pending one.
\<close>

definition timer_grab :: "eal \<Rightarrow> nat \<Rightarrow> 'cb timer_data \<Rightarrow> 'cb timer_data option" where
  "timer_grab e tim d =
     (case timer_set_config_state e tim d of
        None \<Rightarrow> None
      | Some ((prev_state, prev_owner), d) \<Rightarrow>
          let d = (if prev_state = RTE_TIMER_RUNNING \<and> lcore_id e < RTE_MAX_LCORE
                   then set_priv (lcore_id e) (\<lambda>p. p\<lparr>updated := True\<rparr>) d else d)
          in Some (if prev_state = RTE_TIMER_PENDING then timer_del tim prev_owner d else d))"

definition rte_timer_reset_at ::
  "eal \<Rightarrow> nat \<Rightarrow> u64 \<Rightarrow> u64 \<Rightarrow> nat \<Rightarrow> 'cb \<Rightarrow> 'cb timer_data \<Rightarrow> int \<times> 'cb timer_data" where
  "rte_timer_reset_at e tim exp per tim_lcore fct d =
     (let (tim_lcore, d) = pick_lcore e tim_lcore d in
      case timer_grab e tim d of
        None \<Rightarrow> (- 1, d)
      | Some d \<Rightarrow>
          let d = set_tim tim (\<lambda>t. t\<lparr>period := per, expire := exp, f := Some fct\<rparr>) d;
              d = timer_add e tim tim_lcore d
          in (0, set_tim tim (\<lambda>t. t\<lparr>state := RTE_TIMER_PENDING, owner := int tim_lcore\<rparr>) d))"

definition EALREADY :: int where "EALREADY = 114"

definition rte_timer_reset ::
  "eal \<Rightarrow> nat \<Rightarrow> u64 \<Rightarrow> rte_timer_type \<Rightarrow> nat \<Rightarrow> 'cb \<Rightarrow> 'cb timer_data \<Rightarrow> int \<times> 'cb timer_data" where
  "rte_timer_reset e tim ticks type tim_lcore fct d =
     (if \<not> timer_ready d then (- EINVAL, d)
      else rte_timer_reset_at e tim (timer_cycles e + ticks)
             (if type = PERIODICAL then ticks else 0) tim_lcore fct d)"

definition rte_timer_stop :: "eal \<Rightarrow> nat \<Rightarrow> 'cb timer_data \<Rightarrow> int \<times> 'cb timer_data" where
  "rte_timer_stop e tim d =
     (if \<not> timer_ready d then (- EINVAL, d)
      else case timer_grab e tim d of
        None \<Rightarrow> (- 1, d)
      | Some d \<Rightarrow>
          (0, set_tim tim (\<lambda>t. t\<lparr>state := RTE_TIMER_STOP, owner := RTE_TIMER_NO_OWNER\<rparr>) d))"

definition rte_timer_pending :: "nat \<Rightarrow> 'cb timer_data \<Rightarrow> bool" where
  "rte_timer_pending tim d \<longleftrightarrow> state (tims d tim) = RTE_TIMER_PENDING"

definition rte_timer_next_ticks :: "eal \<Rightarrow> 'cb timer_data \<Rightarrow> int" where
  "rte_timer_next_ticks e d =
     (if \<not> timer_ready d then - EINVAL
      else case sl (priv d (lcore_id e)) ! 0 of
        [] \<Rightarrow> - ENOENT
      | tm # _ \<Rightarrow> let left = sint (expire (tims d tm) - timer_cycles e)
                  in if left < 0 then 0 else left)"

section \<open>The manage loop\<close>

text \<open>
  Breaking the lists at the current time: level \<open>i\<close> keeps what follows \<^verbatim>\<open>prev[i]\<close>. A level whose
  \<^verbatim>\<open>prev[i]\<close> is the head keeps everything and leaves the depth alone.
\<close>

definition break_lists :: "u64 \<Rightarrow> nat \<Rightarrow> 'cb timer_data \<Rightarrow> nat list \<times> 'cb timer_data" where
  "break_lists cur_time l d =
     (let p = priv d l; depth = curr_skiplist_depth p;
          prev = timer_get_prev_entries cur_time l d;
          sl' = map (\<lambda>i. if i < depth then succs (sl p ! i) (prev ! i) else sl p ! i)
                    [0..<MAX_SKIPLIST_DEPTH];
          gone = length (filter (\<lambda>i. prev ! i \<noteq> None \<and> sl' ! i = []) [0..<depth]);
          expired = take (length (sl p ! 0) - length (sl' ! 0)) (sl p ! 0)
      in (expired, set_priv l (\<lambda>p. p\<lparr>sl := sl', curr_skiplist_depth := depth - gone\<rparr>) d))"

text \<open>The run list: the expired timers whose status could be moved from PENDING to RUNNING.\<close>

fun mark_running :: "eal \<Rightarrow> nat list \<Rightarrow> 'cb timer_data \<Rightarrow> nat list \<times> 'cb timer_data" where
  "mark_running e [] d = ([], d)"
| "mark_running e (t # ts) d =
     (case timer_set_running_state e t d of
        None \<Rightarrow> mark_running e ts d
      | Some d' \<Rightarrow> let (run, d'') = mark_running e ts d' in (t # run, d''))"

text \<open>
  One callback: \<open>call\<close> is what \<^verbatim>\<open>tim->f(tim, tim->arg)\<close> does to the application's state and the
  timer library's. A timer the callback stopped or reset is left alone; a one-shot timer is
  stopped; a periodic one is put back, due one period after its previous expiry.
\<close>

definition run_timer ::
  "eal \<Rightarrow> ('cb \<Rightarrow> 's \<times> 'cb timer_data \<Rightarrow> 's \<times> 'cb timer_data) \<Rightarrow> nat \<Rightarrow>
     's \<times> 'cb timer_data \<Rightarrow> 's \<times> 'cb timer_data" where
  "run_timer e call tim sd =
     (let (s, d) = sd; l = lcore_id e;
          d = set_priv l (\<lambda>p. p\<lparr>updated := False, running_tim := Some tim\<rparr>) d;
          (s, d) = (case f (tims d tim) of Some cb \<Rightarrow> call cb (s, d) | None \<Rightarrow> (s, d))
      in if updated (priv d l) then (s, d)
         else if period (tims d tim) = 0 then
           (s, set_tim tim (\<lambda>t. t\<lparr>state := RTE_TIMER_STOP, owner := RTE_TIMER_NO_OWNER\<rparr>) d)
         else
           (let d = set_tim tim (\<lambda>t. t\<lparr>state := RTE_TIMER_PENDING, owner := int l\<rparr>) d
            in case f (tims d tim) of
                 Some cb \<Rightarrow> (s, snd (rte_timer_reset_at e tim (expire (tims d tim) + period (tims d tim))
                                  (period (tims d tim)) l cb d))
               | None \<Rightarrow> (s, d)))"

definition rte_timer_manage ::
  "eal \<Rightarrow> ('cb \<Rightarrow> 's \<times> 'cb timer_data \<Rightarrow> 's \<times> 'cb timer_data) \<Rightarrow>
     's \<times> 'cb timer_data \<Rightarrow> int \<times> 's \<times> 'cb timer_data" where
  "rte_timer_manage e call sd =
     (let (s, d) = sd; l = lcore_id e; now = timer_cycles e in
      if \<not> timer_ready d then (- EINVAL, s, d)
      else if sl (priv d l) ! 0 = [] then (0, s, d)
      else if head_expire (priv d l) > now then (0, s, d)
      else if expire (tims d (hd (sl (priv d l) ! 0))) > now then (0, s, d)
      else
        let (expired, d) = break_lists now l d;
            (run, d) = mark_running e expired d;
            d = set_priv l (\<lambda>p. p\<lparr>head_expire := first_expire d (sl p ! 0)\<rparr>) d;
            (s, d) = fold (run_timer e call) run (s, d)
        in (0, s, set_priv l (\<lambda>p. p\<lparr>running_tim := None\<rparr>) d))"

text \<open>
  \<^verbatim>\<open>rte_timer_subsystem_init\<close>, in a primary process whose memzone was reserved: empty lists,
  and the round robin of each lcore starts at itself.
\<close>

definition rte_timer_subsystem_init :: "'cb timer_data \<Rightarrow> int \<times> 'cb timer_data" where
  "rte_timer_subsystem_init d =
     (if timer_ready d then (- EALREADY, d)
      else (0, d\<lparr>timer_ready := True,
        priv := (\<lambda>l. \<lparr>head_expire = 0, sl = replicate MAX_SKIPLIST_DEPTH [], updated = False,
                     curr_skiplist_depth = 0, prev_lcore = l, running_tim = None\<rparr>)\<rparr>))"

end
