(* ===== verification/RteTimerLists.thy ===== *)
theory RteTimerLists
  imports RteTimer
begin

text \<open>
  The skip list of one lcore as pure list theory: the multi-level search computes, at every
  level, the last entry the search condition accepts; insertion after it is ordered insertion;
  unlinking the node after it removes the node; and the level structure stays well formed.
\<close>

section \<open>Searching one chain\<close>

definition last_opt :: "'a list \<Rightarrow> 'a option" where
  "last_opt xs = (if xs = [] then None else Some (last xs))"

lemma last_opt_simps [simp]:
  "last_opt [] = None" "last_opt (xs @ [x]) = Some x" "last_opt xs = None \<longleftrightarrow> xs = []"
  by (auto simp: last_opt_def)

lemma walk_split:
  "(\<forall>x\<in>set xs. go x) \<Longrightarrow> ys = [] \<or> \<not> go (hd ys) \<Longrightarrow>
     walk go prev (xs @ ys) = (if xs = [] then prev else Some (last xs))"
proof (induction xs arbitrary: prev)
  case Nil
  then show ?case by (cases ys) auto
qed simp

lemma takeWhile_upto: "p \<notin> set as \<Longrightarrow> takeWhile (\<lambda>x. x \<noteq> p) (as @ p # bs) = as"
  by (induction as) auto

lemma dropWhile_upto: "p \<notin> set as \<Longrightarrow> dropWhile (\<lambda>x. x \<noteq> p) (as @ p # bs) = p # bs"
  by (induction as) auto

lemma succs_Some_split: "p \<notin> set as \<Longrightarrow> succs (as @ p # bs) (Some p) = bs"
  by (simp add: dropWhile_upto)

lemma hd_dropWhile_not: "dropWhile P xs = [] \<or> \<not> P (hd (dropWhile P xs))"
  by (induction xs) auto

text \<open>Starting anywhere in the accepted prefix, the walk ends at its last element.\<close>

lemma walk_succs:
  assumes "distinct ch" and p: "prev = None \<or> (\<exists>p. prev = Some p \<and> p \<in> set (takeWhile go ch))"
  shows "walk go prev (succs ch prev) = last_opt (takeWhile go ch)"
proof (cases prev)
  case None
  moreover have "\<forall>x\<in>set (takeWhile go ch). go x" by (auto dest: set_takeWhileD)
  ultimately show ?thesis
    using walk_split [of "takeWhile go ch" go "dropWhile go ch" None] hd_dropWhile_not [of go ch]
    by (simp add: last_opt_def)
next
  case (Some q)
  with p obtain as bs where ab: "takeWhile go ch = as @ q # bs" by (auto dest: split_list)
  then have ch: "ch = as @ q # bs @ dropWhile go ch"
    using takeWhile_dropWhile_id [of go ch] by simp
  have "q \<notin> set as"
    using assms(1) by (subst (asm) ch) simp
  then have "succs ch prev = bs @ dropWhile go ch"
    using Some succs_Some_split [of q as "bs @ dropWhile go ch"] ch by simp
  moreover have "\<forall>x\<in>set bs. go x"
    using ab set_takeWhileD [of _ go ch] by (metis UnCI list.set_intros(2) set_append)
  ultimately show ?thesis
    using walk_split [of bs go "dropWhile go ch" prev] hd_dropWhile_not [of go ch] Some ab
    by (auto simp: last_opt_def)
qed

lemma insert_after_takeWhile:
  "distinct ch \<Longrightarrow>
     insert_after (last_opt (takeWhile go ch)) t ch = takeWhile go ch @ t # dropWhile go ch"
proof (cases "takeWhile go ch" rule: rev_cases)
  case Nil
  then have "dropWhile go ch = ch" by (metis append_Nil takeWhile_dropWhile_id)
  with Nil show ?thesis by simp
next
  case (snoc as p)
  assume d: "distinct ch"
  have ch: "ch = as @ p # dropWhile go ch"
    using snoc takeWhile_dropWhile_id [of go ch] by simp
  have "p \<notin> set as"
    using d by (subst (asm) ch) simp
  then have "takeWhile (\<lambda>x. x \<noteq> p) ch = as" "dropWhile (\<lambda>x. x \<noteq> p) ch = p # dropWhile go ch"
    by (subst ch, simp only: takeWhile_upto dropWhile_upto)+
  then show ?thesis using snoc by simp
qed

lemma unlink_after_takeWhile:
  assumes "distinct ch"
  shows "unlink_after (last_opt (takeWhile go ch)) t ch =
     (if dropWhile go ch \<noteq> [] \<and> hd (dropWhile go ch) = t
      then takeWhile go ch @ tl (dropWhile go ch) else ch)"
proof (cases "takeWhile go ch" rule: rev_cases)
  case Nil
  then have "dropWhile go ch = ch" by (metis append_Nil takeWhile_dropWhile_id)
  with Nil show ?thesis by simp
next
  case (snoc as p)
  have ch: "ch = as @ p # dropWhile go ch"
    using snoc takeWhile_dropWhile_id [of go ch] by simp
  have "p \<notin> set as"
    using assms by (subst (asm) ch) simp
  then have "takeWhile (\<lambda>x. x \<noteq> p) ch = as" "dropWhile (\<lambda>x. x \<noteq> p) ch = p # dropWhile go ch"
    by (subst ch, simp only: takeWhile_upto dropWhile_upto)+
  then show ?thesis using snoc by (simp add: Let_def)
qed

section \<open>Chains ordered by expiry\<close>

lemma takeWhile_le_filter:
  "sorted (map ex ch) \<Longrightarrow> takeWhile (\<lambda>x. ex x \<le> v) ch = filter (\<lambda>x. ex x \<le> (v :: 'b::linorder)) ch"
proof (induction ch)
  case (Cons a ch)
  then have "\<not> ex a \<le> v \<Longrightarrow> filter (\<lambda>x. ex x \<le> v) ch = []"
    by (fastforce simp: filter_empty_conv)
  with Cons show ?case by simp
qed simp

lemma dropWhile_le_filter:
  "sorted (map ex ch) \<Longrightarrow> dropWhile (\<lambda>x. ex x \<le> v) ch = filter (\<lambda>x. \<not> ex x \<le> (v :: 'b::linorder)) ch"
  by (induction ch) (auto intro!: filter_True [symmetric])

definition ins_timer :: "(nat \<Rightarrow> u64) \<Rightarrow> nat \<Rightarrow> nat list \<Rightarrow> nat list" where
  "ins_timer ex t ch = filter (\<lambda>x. ex x \<le> ex t) ch @ t # filter (\<lambda>x. \<not> ex x \<le> ex t) ch"

lemma ins_timer_takeWhile:
  "sorted (map ex ch) \<Longrightarrow>
     takeWhile (\<lambda>x. ex x \<le> ex t) ch @ t # dropWhile (\<lambda>x. ex x \<le> ex t) ch = ins_timer ex t ch"
  by (simp add: ins_timer_def takeWhile_le_filter dropWhile_le_filter)

lemma set_ins_timer [simp]: "set (ins_timer ex t ch) = insert t (set ch)"
  by (auto simp: ins_timer_def)

lemma mset_ins_timer: "mset (ins_timer ex t ch) = add_mset t (mset ch)"
proof -
  have "mset (filter (\<lambda>x. ex x \<le> ex t) ch) + mset (filter (\<lambda>x. \<not> ex x \<le> ex t) ch) = mset ch"
    using mset_filter multiset_partition by metis
  then show ?thesis by (simp add: ins_timer_def)
qed

lemma distinct_ins_timer: "distinct ch \<Longrightarrow> t \<notin> set ch \<Longrightarrow> distinct (ins_timer ex t ch)"
  by (auto simp: ins_timer_def)

lemma sorted_ins_timer: "sorted (map ex ch) \<Longrightarrow> sorted (map ex (ins_timer ex t ch))"
  unfolding ins_timer_def map_append list.map sorted_append sorted_simps(2)
  by (intro conjI sorted_filter) auto

lemma subseq_ins_timer: "subseq up low \<Longrightarrow> subseq (ins_timer ex t up) (ins_timer ex t low)"
  unfolding ins_timer_def
  by (intro list_emb_append_mono subseq_Cons2 subseq_filter)

lemma subseq_ins_timer_low: "subseq low (ins_timer ex t low)" if "sorted (map ex low)"
proof -
  have "subseq (filter (\<lambda>x. ex x \<le> ex t) low @ filter (\<lambda>x. \<not> ex x \<le> ex t) low) (ins_timer ex t low)"
    unfolding ins_timer_def by (intro list_emb_append_mono) auto
  then show ?thesis
    using that takeWhile_dropWhile_id [of "\<lambda>x. ex x \<le> ex t" low]
    by (simp add: takeWhile_le_filter dropWhile_le_filter)
qed

text \<open>The shape of an lcore's skip list.\<close>

definition sl_wf :: "(nat \<Rightarrow> u64) \<Rightarrow> nat \<Rightarrow> nat list list \<Rightarrow> bool" where
  "sl_wf ex depth chs \<longleftrightarrow>
     length chs = MAX_SKIPLIST_DEPTH \<and> depth \<le> MAX_SKIPLIST_DEPTH \<and>
     (\<forall>i<MAX_SKIPLIST_DEPTH. chs ! i = [] \<longleftrightarrow> depth \<le> i) \<and>
     (\<forall>i. Suc i < MAX_SKIPLIST_DEPTH \<longrightarrow> subseq (chs ! Suc i) (chs ! i)) \<and>
     distinct (chs ! 0) \<and> sorted (map ex (chs ! 0))"

lemma sl_wf_empty: "sl_wf ex depth chs \<Longrightarrow> depth \<le> i \<Longrightarrow> i < MAX_SKIPLIST_DEPTH \<Longrightarrow> chs ! i = []"
  unfolding sl_wf_def by blast

lemma MAX_SKIPLIST_DEPTH_pos [simp]: "0 < MAX_SKIPLIST_DEPTH"
  by (simp add: MAX_SKIPLIST_DEPTH_def)

lemma sl_wf_subseq0:
  assumes "sl_wf ex depth chs" "i < MAX_SKIPLIST_DEPTH"
  shows "subseq (chs ! i) (chs ! 0)"
  using assms(2)
proof (induction i)
  case (Suc i)
  then show ?case
    using assms(1) unfolding sl_wf_def by (meson Suc_lessD subseq_order.trans)
qed simp

lemma subseq_set: "subseq xs ys \<Longrightarrow> set xs \<subseteq> set ys"
  by (metis (full_types) list_emb_set subsetI)

lemma subseq_sorted: "subseq xs ys \<Longrightarrow> sorted (map ex ys) \<Longrightarrow> sorted (map ex xs)"
  by (induction xs ys rule: list_emb.induct) (auto dest!: subseq_set)

lemma subseq_distinct_mono: "subseq xs ys \<Longrightarrow> distinct ys \<Longrightarrow> distinct xs"
  by (induction xs ys rule: list_emb.induct) (auto dest!: subseq_set)

lemma sl_wf_level:
  assumes "sl_wf ex depth chs" "i < MAX_SKIPLIST_DEPTH"
  shows "distinct (chs ! i)" "sorted (map ex (chs ! i))" "set (chs ! i) \<subseteq> set (chs ! 0)"
  using subseq_distinct_mono [OF sl_wf_subseq0 [OF assms]] subseq_sorted [OF sl_wf_subseq0 [OF assms]]
    subseq_set [OF sl_wf_subseq0 [OF assms]] assms(1)
  by (auto simp: sl_wf_def)

section \<open>Searching all levels\<close>

lemma prev_entry_eq:
  assumes wf: "sl_wf ex depth chs" and "k \<le> depth"
  shows "prev_entry (\<lambda>x. ex x \<le> v) chs depth k =
     (if k = 0 then None else last_opt (takeWhile (\<lambda>x. ex x \<le> v) (chs ! (depth - k))))"
  using assms(2)
proof (induction k)
  case (Suc k)
  let ?go = "\<lambda>x. ex x \<le> v" and ?lvl = "depth - Suc k"
  have lvl: "?lvl < MAX_SKIPLIST_DEPTH" using Suc.prems wf by (auto simp: sl_wf_def)
  have "prev_entry ?go chs depth k = None \<or>
     (\<exists>p. prev_entry ?go chs depth k = Some p \<and> p \<in> set (takeWhile ?go (chs ! ?lvl)))"
  proof (cases "k = 0 \<or> takeWhile ?go (chs ! (depth - k)) = []")
    case False
    then have d: "depth - k < MAX_SKIPLIST_DEPTH" "Suc ?lvl = depth - k"
      using Suc.prems wf by (auto simp: sl_wf_def)
    then have "subseq (chs ! (depth - k)) (chs ! ?lvl)"
      using wf unfolding sl_wf_def by metis
    then have "set (takeWhile ?go (chs ! (depth - k))) \<subseteq> set (takeWhile ?go (chs ! ?lvl))"
      using sl_wf_level [OF wf d(1)] sl_wf_level [OF wf lvl]
      by (auto simp: takeWhile_le_filter dest!: subseq_set)
    moreover have "prev_entry ?go chs depth k = Some (last (takeWhile ?go (chs ! (depth - k))))"
      using Suc False by (auto simp: last_opt_def)
    ultimately show ?thesis using False last_in_set by blast
  qed (use Suc in \<open>auto simp: last_opt_def\<close>)
  then show ?case
    using walk_succs [OF sl_wf_level(1) [OF wf lvl]] by (simp add: step_level_def)
qed simp

definition found_prev :: "(nat \<Rightarrow> u64) \<Rightarrow> u64 \<Rightarrow> nat list list \<Rightarrow> nat \<Rightarrow> nat option" where
  "found_prev ex v chs lvl = last_opt (takeWhile (\<lambda>x. ex x \<le> v) (chs ! lvl))"

lemma prev_entry_found:
  assumes "sl_wf ex depth chs" "lvl < depth"
  shows "prev_entry (\<lambda>x. ex x \<le> v) chs depth (depth - lvl) = found_prev ex v chs lvl"
  using prev_entry_eq [OF assms(1), of "depth - lvl" v] assms(2) by (simp add: found_prev_def)

text \<open>The second search, for the node itself, stops right before it wherever it is linked.\<close>

lemma step_level_for_node:
  assumes ch: "distinct (chs ! i)" "sorted (map ex (chs ! i))" and pos: "ex tim \<noteq> 0"
  shows "step_level (\<lambda>t. t \<noteq> tim \<and> ex t \<le> ex tim) chs i (found_prev ex (ex tim - 1) chs i) =
     last_opt (takeWhile (\<lambda>t. t \<noteq> tim \<and> ex t \<le> ex tim) (chs ! i))"
proof -
  let ?low = "\<lambda>x. ex x \<le> ex tim - 1" and ?go = "\<lambda>t. t \<noteq> tim \<and> ex t \<le> ex tim"
  have "set (takeWhile ?low (chs ! i)) \<subseteq> set (takeWhile ?go (chs ! i))"
    by (rule set_takeWhile_mono) (use pos in \<open>auto simp: le_minus_one_iff_less\<close>)
  then have "found_prev ex (ex tim - 1) chs i = None \<or>
     (\<exists>p. found_prev ex (ex tim - 1) chs i = Some p \<and> p \<in> set (takeWhile ?go (chs ! i)))"
    by (auto simp: found_prev_def last_opt_def)
  then show ?thesis
    unfolding step_level_def by (rule walk_succs [OF ch(1)])
qed

lemma unlink_for_node:
  assumes "distinct ch" "sorted (map ex ch)"
  shows "unlink_after (last_opt (takeWhile (\<lambda>t. t \<noteq> tim \<and> ex t \<le> ex tim) ch)) tim ch =
     filter (\<lambda>t. t \<noteq> tim) ch"
proof -
  let ?go = "\<lambda>t. t \<noteq> tim \<and> ex t \<le> ex tim"
  show ?thesis
  proof (cases "tim \<in> set ch")
    case True
    then obtain as bs where ch: "ch = as @ tim # bs" by (auto dest: split_list)
    then have notin: "tim \<notin> set as" "tim \<notin> set bs" using assms(1) by auto
    have "\<forall>x\<in>set as. ?go x" using assms(2) notin ch by (auto simp: sorted_append)
    then have "takeWhile ?go ch = as" "dropWhile ?go ch = tim # bs"
      using ch by (simp_all add: takeWhile_append2 dropWhile_append2)
    moreover have "filter (\<lambda>t. t \<noteq> tim) ch = as @ bs"
      using ch notin by simp
    ultimately show ?thesis
      using unlink_after_takeWhile [OF assms(1), of ?go tim] by simp
  next
    case False
    then have "dropWhile ?go ch = [] \<or> hd (dropWhile ?go ch) \<noteq> tim"
      by (metis hd_in_set set_dropWhileD)
    moreover have "filter (\<lambda>t. t \<noteq> tim) ch = ch" using False by simp
    ultimately show ?thesis
      using unlink_after_takeWhile [OF assms(1), of ?go tim] by auto
  qed
qed

section \<open>Levels after insertion, removal and breaking\<close>

lemma sl_wf_insert:
  assumes wf: "sl_wf ex depth chs" and t: "t \<notin> set (chs ! 0)"
    and lev: "tim_level \<le> depth" "tim_level < MAX_SKIPLIST_DEPTH"
    and chs': "chs' = map (\<lambda>l. if l \<le> tim_level then ins_timer ex t (chs ! l) else chs ! l)
                      [0..<MAX_SKIPLIST_DEPTH]"
  shows "sl_wf ex (if tim_level = depth then Suc depth else depth) chs'"
  unfolding sl_wf_def
proof (intro conjI allI impI)
  have nth: "chs' ! i = (if i \<le> tim_level then ins_timer ex t (chs ! i) else chs ! i)"
    if "i < MAX_SKIPLIST_DEPTH" for i using that chs' by simp
  have pos: "0 < MAX_SKIPLIST_DEPTH" using lev by simp
  show "length chs' = MAX_SKIPLIST_DEPTH" using chs' by simp
  show "(if tim_level = depth then Suc depth else depth) \<le> MAX_SKIPLIST_DEPTH"
    using wf lev by (auto simp: sl_wf_def)
  show "(chs' ! i = []) = ((if tim_level = depth then Suc depth else depth) \<le> i)"
    if "i < MAX_SKIPLIST_DEPTH" for i
    using nth [OF that] wf lev that by (auto simp: sl_wf_def ins_timer_def)
  show "subseq (chs' ! Suc i) (chs' ! i)" if "Suc i < MAX_SKIPLIST_DEPTH" for i
  proof -
    have sub: "subseq (chs ! Suc i) (chs ! i)" using wf that by (auto simp: sl_wf_def)
    have "subseq (chs ! i) (ins_timer ex t (chs ! i))"
      using sl_wf_level(2) [OF wf] that by (intro subseq_ins_timer_low) auto
    with sub show ?thesis
      using nth [of i] nth [of "Suc i"] that
      by (auto intro: subseq_ins_timer elim: subseq_order.trans)
  qed
  show "distinct (chs' ! 0)" "sorted (map ex (chs' ! 0))"
    using nth [OF pos] wf t by (auto simp: sl_wf_def distinct_ins_timer sorted_ins_timer)
qed

lemma shrink_depth_eq:
  assumes "\<And>i j. i \<le> j \<Longrightarrow> j < depth \<Longrightarrow> chs ! i = [] \<Longrightarrow> chs ! j = []"
  shows "shrink_depth chs depth \<le> depth \<and> (\<forall>i<depth. chs ! i = [] \<longleftrightarrow> shrink_depth chs depth \<le> i)"
  using assms
proof (induction depth)
  case (Suc d)
  show ?case
  proof (cases "chs ! d = []")
    case True
    have "shrink_depth chs d \<le> d \<and> (\<forall>i<d. chs ! i = [] \<longleftrightarrow> shrink_depth chs d \<le> i)"
      using Suc by (meson less_SucI)
    with True show ?thesis by (auto simp: less_Suc_eq)
  next
    case False
    then have "chs ! i \<noteq> []" if "i < Suc d" for i using Suc.prems [of i d] that by auto
    with False show ?thesis by auto
  qed
qed simp

lemma shrink_to_wf:
  assumes len: "length chs = MAX_SKIPLIST_DEPTH" and d: "depth \<le> MAX_SKIPLIST_DEPTH"
    and above: "\<And>i. depth \<le> i \<Longrightarrow> i < MAX_SKIPLIST_DEPTH \<Longrightarrow> chs ! i = []"
    and sub: "\<And>i. Suc i < MAX_SKIPLIST_DEPTH \<Longrightarrow> subseq (chs ! Suc i) (chs ! i)"
    and zero: "distinct (chs ! 0)" "sorted (map ex (chs ! 0))"
  shows "sl_wf ex (shrink_depth chs depth) chs"
proof -
  have up: "chs ! j = []" if "i \<le> j" "j < MAX_SKIPLIST_DEPTH" "chs ! i = []" for i j
    using that
  proof (induction j rule: dec_induct)
    case (step n)
    then show ?case using sub [of n] by (simp add: list_emb_Nil2)
  qed
  then have "shrink_depth chs depth \<le> depth \<and>
      (\<forall>i<depth. chs ! i = [] \<longleftrightarrow> shrink_depth chs depth \<le> i)"
    using d by (intro shrink_depth_eq) auto
  then show ?thesis
    using len d above sub zero unfolding sl_wf_def by (metis le_trans linorder_not_le)
qed

lemma sl_wf_filter:
  assumes wf: "sl_wf ex depth chs"
    and chs': "chs' = map (\<lambda>i. if i < depth then filter P (chs ! i) else chs ! i) [0..<MAX_SKIPLIST_DEPTH]"
  shows "sl_wf ex (shrink_depth chs' depth) chs'"
proof (rule shrink_to_wf)
  have nth: "chs' ! i = filter P (chs ! i)" if "i < MAX_SKIPLIST_DEPTH" for i
    using that chs' wf by (auto simp: sl_wf_def)
  have pos: "0 < MAX_SKIPLIST_DEPTH" by (simp add: MAX_SKIPLIST_DEPTH_def)
  show "length chs' = MAX_SKIPLIST_DEPTH" using chs' by simp
  show "depth \<le> MAX_SKIPLIST_DEPTH" using wf by (simp add: sl_wf_def)
  show "chs' ! i = []" if "depth \<le> i" "i < MAX_SKIPLIST_DEPTH" for i
    using nth that wf by (auto simp: sl_wf_def)
  show "subseq (chs' ! Suc i) (chs' ! i)" if "Suc i < MAX_SKIPLIST_DEPTH" for i
    using nth [of i] nth [of "Suc i"] that wf by (auto simp: sl_wf_def)
  show "distinct (chs' ! 0)" "sorted (map ex (chs' ! 0))"
    using nth [OF pos] wf by (auto simp: sl_wf_def sorted_filter)
qed

lemma sl_wf_depth_unique: "sl_wf ex d chs \<Longrightarrow> sl_wf ex d' chs \<Longrightarrow> d = d'"
proof (rule ccontr)
  assume wf: "sl_wf ex d chs" "sl_wf ex d' chs" and "d \<noteq> d'"
  then consider "d < d'" | "d' < d" by linarith
  then show False
  proof cases
    case 1
    then have "d < MAX_SKIPLIST_DEPTH" using wf(2) by (auto simp: sl_wf_def)
    with 1 wf show False unfolding sl_wf_def by (metis le_refl linorder_not_le)
  next
    case 2
    then have "d' < MAX_SKIPLIST_DEPTH" using wf(1) by (auto simp: sl_wf_def)
    with 2 wf show False unfolding sl_wf_def by (metis le_refl linorder_not_le)
  qed
qed

text \<open>Counting the emptied levels from the top gives the same depth as dropping them one by one.\<close>

lemma shrink_depth_count:
  assumes "\<And>i j. i \<le> j \<Longrightarrow> j < depth \<Longrightarrow> chs ! i = [] \<Longrightarrow> chs ! j = []"
  shows "depth - length (filter (\<lambda>i. chs ! i = []) [0..<depth]) = shrink_depth chs depth"
  using assms
proof (induction depth)
  case (Suc d)
  have IH: "d - length (filter (\<lambda>i. chs ! i = []) [0..<d]) = shrink_depth chs d"
    using Suc by (meson less_SucI)
  have le: "length (filter (\<lambda>i. chs ! i = []) [0..<d]) \<le> d"
    by (metis length_filter_le length_upt minus_nat.diff_0)
  show ?case
  proof (cases "chs ! d = []")
    case True
    then show ?thesis using IH by simp
  next
    case False
    then have "chs ! i \<noteq> []" if "i < d" for i using Suc.prems [of i d] that by auto
    then have "filter (\<lambda>i. chs ! i = []) [0..<d] = []" by (auto simp: filter_empty_conv)
    with False show ?thesis by simp
  qed
qed simp

end
