(* ===== verification/RteTimerFacts.thy ===== *)
theory RteTimerFacts
  imports RteTimerLists
begin

text \<open>
  The timer library's invariant (every lcore's skip list is well formed, and a handle is linked
  in an lcore's list exactly when its status says PENDING with that owner), and what reset, stop
  and manage do to it.
\<close>

section \<open>Invariant\<close>

definition ex_of :: "'cb timer_data \<Rightarrow> nat \<Rightarrow> u64" where
  "ex_of d t = expire (tims d t)"

definition pending_list :: "nat \<Rightarrow> 'cb timer_data \<Rightarrow> nat list" where
  "pending_list l d = sl (priv d l) ! 0"

definition list_inv :: "'cb timer_data \<Rightarrow> nat \<Rightarrow> bool" where
  "list_inv d l \<longleftrightarrow> sl_wf (ex_of d) (curr_skiplist_depth (priv d l)) (sl (priv d l)) \<and>
     head_expire (priv d l) = first_expire d (pending_list l d)"

definition timer_inv :: "'cb timer_data \<Rightarrow> bool" where
  "timer_inv d \<longleftrightarrow> timer_ready d \<and> (\<forall>l. list_inv d l) \<and>
     (\<forall>t. state (tims d t) = RTE_TIMER_PENDING \<longrightarrow> 0 \<le> owner (tims d t)) \<and>
     (\<forall>l t. t \<in> set (pending_list l d) \<longleftrightarrow>
        state (tims d t) = RTE_TIMER_PENDING \<and> owner (tims d t) = int l) \<and>
     (\<forall>l. \<forall>t \<in> set (pending_list l d). ex_of d t \<noteq> 0)"

lemma timer_invD:
  assumes "timer_inv d"
  shows "timer_ready d" "list_inv d l" "state (tims d t) = RTE_TIMER_PENDING \<Longrightarrow> 0 \<le> owner (tims d t)"
    "t \<in> set (pending_list l d) \<longleftrightarrow>
       state (tims d t) = RTE_TIMER_PENDING \<and> owner (tims d t) = int l"
    "t \<in> set (pending_list l d) \<Longrightarrow> ex_of d t \<noteq> 0"
  using assms unfolding timer_inv_def by blast+

text \<open>The order of expiry among the timers pending on an lcore.\<close>

lemma timer_inv_pending_list:
  assumes "timer_inv d"
  shows "distinct (pending_list l d)" "sorted (map (ex_of d) (pending_list l d))"
  using assms by (auto simp: timer_inv_def list_inv_def sl_wf_def pending_list_def)

lemma ex_of_cong: "tims d = tims d' \<Longrightarrow> ex_of d = ex_of d'"
  by (rule ext) (simp add: ex_of_def)

lemma set_tim_simps [simp]:
  "tims (set_tim t g d) = (tims d)(t := g (tims d t))" "priv (set_tim t g d) = priv d"
  "timer_ready (set_tim t g d) = timer_ready d" "rands (set_tim t g d) = rands d"
  by (simp_all add: set_tim_def)

lemma set_priv_simps [simp]:
  "tims (set_priv l g d) = tims d" "priv (set_priv l g d) = (priv d)(l := g (priv d l))"
  "timer_ready (set_priv l g d) = timer_ready d" "rands (set_priv l g d) = rands d"
  by (simp_all add: set_priv_def)

lemma pending_list_set_tim [simp]: "pending_list l (set_tim t g d) = pending_list l d"
  by (simp add: pending_list_def)

lemma first_expire_set_priv [simp]: "first_expire (set_priv l g d) ch = first_expire d ch"
  by (simp add: first_expire_def cong: list.case_cong)

lemma ex_of_set_priv [simp]: "ex_of (set_priv l g d) = ex_of d"
  by (rule ext) (simp add: ex_of_def)

lemma first_expire_cong:
  "(\<And>t. t \<in> set ch \<Longrightarrow> expire (tims d t) = expire (tims d' t)) \<Longrightarrow> first_expire d ch = first_expire d' ch"
  by (cases ch) (auto simp: first_expire_def)

lemma sl_wf_cong:
  assumes "\<And>t. t \<in> set (chs ! 0) \<Longrightarrow> ex t = ex' t"
  shows "sl_wf ex n chs = sl_wf ex' n chs"
proof -
  have "map ex (chs ! 0) = map ex' (chs ! 0)" using assms by simp
  then show ?thesis unfolding sl_wf_def by (simp only:)
qed

lemma list_inv_cong:
  assumes "list_inv d l" "priv d' l = priv d l"
    and "\<And>t. t \<in> set (pending_list l d) \<Longrightarrow> ex_of d' t = ex_of d t"
  shows "list_inv d' l"
  using assms sl_wf_cong [of "sl (priv d l)" "ex_of d" "ex_of d'"]
    first_expire_cong [of "pending_list l d" d d']
  by (auto simp: list_inv_def pending_list_def ex_of_def)

section \<open>Linking\<close>

lemma timer_get_skiplist_level_bounds:
  assumes "timer_get_skiplist_level e depth d = (lev, d')"
  shows "lev \<le> depth" "lev < MAX_SKIPLIST_DEPTH" "tims d' = tims d" "priv d' = priv d"
    "timer_ready d' = timer_ready d"
  using assms
  by (auto simp: timer_get_skiplist_level_def Let_def MAX_SKIPLIST_DEPTH_def split: prod.splits if_splits)

lemma timer_get_prev_entries_nth:
  assumes "list_inv d l" "lvl \<le> curr_skiplist_depth (priv d l)" "lvl < MAX_SKIPLIST_DEPTH"
  shows "timer_get_prev_entries v l d ! lvl = found_prev (ex_of d) v (sl (priv d l)) lvl"
proof -
  let ?p = "priv d l"
  have wf: "sl_wf (ex_of d) (curr_skiplist_depth ?p) (sl ?p)" using assms(1) by (simp add: list_inv_def)
  have "timer_get_prev_entries v l d ! lvl =
      prev_entry (\<lambda>t. ex_of d t \<le> v) (sl ?p) (curr_skiplist_depth ?p) (curr_skiplist_depth ?p - lvl)"
    using assms(2) by (simp add: timer_get_prev_entries_def Let_def ex_of_def nth_append del: upt_Suc)
  also have "\<dots> = found_prev (ex_of d) v (sl ?p) lvl"
  proof (cases "lvl = curr_skiplist_depth ?p")
    case True
    then show ?thesis using sl_wf_empty [OF wf, of lvl] assms(3) by (simp add: found_prev_def)
  qed (use prev_entry_found [OF wf] assms(2) in auto)
  finally show ?thesis .
qed

lemma timer_add_spec:
  fixes e :: eal and d :: "'cb timer_data" and m :: nat
  assumes inv: "list_inv d l" and t: "t \<notin> set (pending_list l d)"
  defines "d' \<equiv> timer_add e t l d"
  shows "list_inv d' l" "pending_list l d' = ins_timer (ex_of d) t (pending_list l d)"
    "tims d' = tims d" "\<And>m. m \<noteq> l \<Longrightarrow> priv d' m = priv d m" "timer_ready d' = timer_ready d"
    "updated (priv d' m) = updated (priv d m)" "running_tim (priv d' m) = running_tim (priv d m)"
proof -
  let ?p = "priv d l" and ?ex = "ex_of d"
  define depth where "depth = curr_skiplist_depth ?p"
  obtain lev d1 where lev: "timer_get_skiplist_level e depth d = (lev, d1)" by fastforce
  note levb = timer_get_skiplist_level_bounds [OF lev]
  define chs' where "chs' = map (\<lambda>i. if i \<le> lev then ins_timer ?ex t (sl ?p ! i) else sl ?p ! i)
      [0..<MAX_SKIPLIST_DEPTH]"
  have wf: "sl_wf ?ex depth (sl ?p)" using inv by (simp add: list_inv_def depth_def)
  have "insert_after (timer_get_prev_entries (expire (tims d t)) l d ! i) t (sl ?p ! i) =
      ins_timer ?ex t (sl ?p ! i)" if "i \<le> lev" for i
  proof -
    have i: "i < MAX_SKIPLIST_DEPTH" "i \<le> depth" using that levb by auto
    have "timer_get_prev_entries (?ex t) l d ! i = last_opt (takeWhile (\<lambda>x. ?ex x \<le> ?ex t) (sl ?p ! i))"
      using timer_get_prev_entries_nth [OF inv, of i] i by (simp add: depth_def found_prev_def)
    then show ?thesis
      using insert_after_takeWhile [OF sl_wf_level(1) [OF wf i(1)]]
        ins_timer_takeWhile [OF sl_wf_level(2) [OF wf i(1)], of t]
      unfolding ex_of_def by simp
  qed
  then have chs: "map (\<lambda>lvl. if lvl \<le> lev
        then insert_after (timer_get_prev_entries (expire (tims d t)) l d ! lvl) t (sl ?p ! lvl)
        else sl ?p ! lvl) [0..<MAX_SKIPLIST_DEPTH] = chs'"
    by (simp add: chs'_def)
  have d': "d' = set_priv l (\<lambda>p. p\<lparr>sl := chs', curr_skiplist_depth := (if lev = depth then Suc depth else depth),
      head_expire := first_expire d1 (chs' ! 0)\<rparr>) d1"
    unfolding d'_def timer_add_def Let_def depth_def [symmetric] lev prod.case levb(4) chs ..
  have wf': "sl_wf ?ex (if lev = depth then Suc depth else depth) chs'"
    using sl_wf_insert [OF wf _ levb(1,2)] t by (simp add: chs'_def pending_list_def)
  have c0: "chs' ! 0 = ins_timer ?ex t (pending_list l d)"
    by (simp add: chs'_def pending_list_def MAX_SKIPLIST_DEPTH_def del: upt_Suc)
  have "ex_of d' = ?ex" by (rule ex_of_cong) (simp add: d' levb(3))
  then show "list_inv d' l"
    using wf' d' by (simp add: list_inv_def pending_list_def)
  show "pending_list l d' = ins_timer ?ex t (pending_list l d)"
    using c0 d' by (simp add: pending_list_def)
  show "tims d' = tims d" "\<And>m. m \<noteq> l \<Longrightarrow> priv d' m = priv d m" "timer_ready d' = timer_ready d"
    "updated (priv d' m) = updated (priv d m)" "running_tim (priv d' m) = running_tim (priv d m)"
    using d' levb by simp_all
qed

section \<open>Unlinking\<close>

lemma timer_get_prev_entries_for_node_nth:
  assumes inv: "list_inv d l" and i: "i < curr_skiplist_depth (priv d l)" and pos: "ex_of d t \<noteq> 0"
  shows "timer_get_prev_entries_for_node t l d ! i =
     last_opt (takeWhile (\<lambda>x. x \<noteq> t \<and> ex_of d x \<le> ex_of d t) (sl (priv d l) ! i))"
proof -
  let ?p = "priv d l"
  have wf: "sl_wf (ex_of d) (curr_skiplist_depth ?p) (sl ?p)" using inv by (simp add: list_inv_def)
  then have im: "i < MAX_SKIPLIST_DEPTH" using i by (simp add: sl_wf_def)
  have "timer_get_prev_entries_for_node t l d ! i =
     step_level (\<lambda>x. x \<noteq> t \<and> ex_of d x \<le> ex_of d t) (sl ?p) i
       (found_prev (ex_of d) (ex_of d t - 1) (sl ?p) i)"
    using i timer_get_prev_entries_nth [OF inv _ im]
    by (simp add: timer_get_prev_entries_for_node_def Let_def ex_of_def del: upt_Suc)
  then show ?thesis
    using step_level_for_node [where ex = "ex_of d"] sl_wf_level [OF wf im] pos by simp
qed

lemma first_expire_filter:
  "first_expire d (filter (\<lambda>x. x \<noteq> t) ch) =
     (if ch \<noteq> [] \<and> hd ch = t then first_expire d (tl ch) else first_expire d ch)"
  if "distinct ch"
  using that by (cases ch) (auto simp: first_expire_def)

lemma timer_del_spec:
  fixes d :: "'cb timer_data" and m :: nat
  assumes inv: "list_inv d l" and pos: "ex_of d t \<noteq> 0"
  defines "d' \<equiv> timer_del t (int l) d"
  shows "list_inv d' l" "pending_list l d' = filter (\<lambda>x. x \<noteq> t) (pending_list l d)"
    "tims d' = tims d" "\<And>m. m \<noteq> l \<Longrightarrow> priv d' m = priv d m" "timer_ready d' = timer_ready d"
    "updated (priv d' m) = updated (priv d m)" "running_tim (priv d' m) = running_tim (priv d m)"
proof -
  let ?p = "priv d l" and ?ex = "ex_of d"
  define depth where "depth = curr_skiplist_depth ?p"
  define chs' where "chs' = map (\<lambda>i. if i < depth then filter (\<lambda>x. x \<noteq> t) (sl ?p ! i) else sl ?p ! i)
      [0..<MAX_SKIPLIST_DEPTH]"
  have wf: "sl_wf ?ex depth (sl ?p)" using inv by (simp add: list_inv_def depth_def)
  have "unlink_after (timer_get_prev_entries_for_node t l d ! i) t (sl ?p ! i) =
      filter (\<lambda>x. x \<noteq> t) (sl ?p ! i)" if "i < depth" for i
  proof -
    have "i < MAX_SKIPLIST_DEPTH" using that wf by (simp add: sl_wf_def)
    then show ?thesis
      using timer_get_prev_entries_for_node_nth [OF inv _ pos, of i] that
        unlink_for_node [where ex = ?ex] sl_wf_level [OF wf] by (simp add: depth_def)
  qed
  then have chs: "map (\<lambda>i. if i < depth
        then unlink_after (timer_get_prev_entries_for_node t l d ! i) t (sl ?p ! i)
        else sl ?p ! i) [0..<MAX_SKIPLIST_DEPTH] = chs'"
    by (simp add: chs'_def)
  define he where "he = (if pending_list l d \<noteq> [] \<and> hd (pending_list l d) = t
      then first_expire d (tl (pending_list l d)) else head_expire ?p)"
  have d': "d' = set_priv l (\<lambda>p. p\<lparr>sl := chs', head_expire := he,
      curr_skiplist_depth := shrink_depth chs' depth\<rparr>) d"
    unfolding d'_def timer_del_def Let_def nat_int depth_def [symmetric] chs
      he_def [unfolded pending_list_def, symmetric] ..
  have wf': "sl_wf ?ex (shrink_depth chs' depth) chs'"
    using sl_wf_filter [OF wf] by (simp add: chs'_def)
  have c0: "chs' ! 0 = filter (\<lambda>x. x \<noteq> t) (pending_list l d)"
    using sl_wf_empty [OF wf, of 0] by (cases "depth = 0") (simp_all add: chs'_def pending_list_def)
  have he: "he = first_expire d (filter (\<lambda>x. x \<noteq> t) (pending_list l d))"
  proof -
    have "distinct (pending_list l d)" "head_expire ?p = first_expire d (pending_list l d)"
      using inv by (simp_all add: list_inv_def sl_wf_def pending_list_def)
    then show ?thesis using first_expire_filter [of "pending_list l d" d t] by (simp add: he_def)
  qed
  have "ex_of d' = ?ex" by (rule ex_of_cong) (simp add: d')
  then show "list_inv d' l"
    using wf' d' he c0 by (simp add: list_inv_def pending_list_def)
  show "pending_list l d' = filter (\<lambda>x. x \<noteq> t) (pending_list l d)"
    using c0 d' by (simp add: pending_list_def)
  show "tims d' = tims d" "\<And>m. m \<noteq> l \<Longrightarrow> priv d' m = priv d m" "timer_ready d' = timer_ready d"
    "updated (priv d' m) = updated (priv d m)" "running_tim (priv d' m) = running_tim (priv d m)"
    using d' by simp_all
qed

section \<open>Taking a handle\<close>

text \<open>The invariant while the handle \<open>t\<close> is being configured: \<open>t\<close> is in no list.\<close>

definition timer_inv_but :: "nat \<Rightarrow> 'cb timer_data \<Rightarrow> bool" where
  "timer_inv_but t d \<longleftrightarrow> timer_ready d \<and> (\<forall>l. list_inv d l) \<and> (\<forall>l. t \<notin> set (pending_list l d)) \<and>
     (\<forall>u. u \<noteq> t \<longrightarrow> state (tims d u) = RTE_TIMER_PENDING \<longrightarrow> 0 \<le> owner (tims d u)) \<and>
     (\<forall>l u. u \<noteq> t \<longrightarrow> (u \<in> set (pending_list l d) \<longleftrightarrow>
        state (tims d u) = RTE_TIMER_PENDING \<and> owner (tims d u) = int l)) \<and>
     (\<forall>l. \<forall>u \<in> set (pending_list l d). ex_of d u \<noteq> 0)"

lemma timer_inv_butD:
  assumes "timer_inv_but t d"
  shows "timer_ready d" "list_inv d l" "t \<notin> set (pending_list l d)"
    "u \<noteq> t \<Longrightarrow> state (tims d u) = RTE_TIMER_PENDING \<Longrightarrow> 0 \<le> owner (tims d u)"
    "u \<noteq> t \<Longrightarrow> u \<in> set (pending_list l d) \<longleftrightarrow>
       state (tims d u) = RTE_TIMER_PENDING \<and> owner (tims d u) = int l"
    "u \<in> set (pending_list l d) \<Longrightarrow> ex_of d u \<noteq> 0"
  using assms unfolding timer_inv_but_def by blast+

lemma timer_inv_but_not_pending:
  assumes "timer_inv_but t d" "state (tims d t) \<noteq> RTE_TIMER_PENDING"
  shows "timer_inv d"
  unfolding timer_inv_def
proof (intro conjI allI impI ballI)
  fix u l
  show "u \<in> set (pending_list l d) \<longleftrightarrow>
      state (tims d u) = RTE_TIMER_PENDING \<and> owner (tims d u) = int l"
    using timer_inv_butD(3,5) [OF assms(1)] assms(2) by (cases "u = t") auto
  assume "state (tims d u) = RTE_TIMER_PENDING"
  then show "0 \<le> owner (tims d u)"
    using timer_inv_butD(4) [OF assms(1)] assms(2) by (cases "u = t") auto
qed (use timer_inv_butD [OF assms(1)] in auto)

lemma timer_inv_but_set_tim:
  assumes "timer_inv_but t d"
  shows "timer_inv_but t (set_tim t g d)"
proof -
  note D = timer_inv_butD [OF assms]
  have ex: "ex_of (set_tim t g d) u = ex_of d u" if "u \<noteq> t" for u using that by (simp add: ex_of_def)
  have "list_inv (set_tim t g d) l" for l
  proof (rule list_inv_cong [of d l])
    show "ex_of (set_tim t g d) u = ex_of d u" if "u \<in> set (pending_list l d)" for u
      using that D(3) by (intro ex) auto
  qed (simp_all add: D(2))
  moreover have "ex_of (set_tim t g d) u \<noteq> 0" if "u \<in> set (pending_list l d)" for u l
    using D(3,6) that by (cases "u = t") (auto simp: ex)
  ultimately show ?thesis
    unfolding timer_inv_but_def using D(1,3-5) by (intro conjI allI impI ballI) simp_all
qed

lemma list_inv_priv_flags:
  assumes "list_inv d l" "tims d' = tims d"
    "sl (priv d' l) = sl (priv d l)" "curr_skiplist_depth (priv d' l) = curr_skiplist_depth (priv d l)"
    "head_expire (priv d' l) = head_expire (priv d l)"
  shows "list_inv d' l"
proof -
  have "ex_of d' = ex_of d" by (rule ex_of_cong) (rule assms)
  moreover have "first_expire d' ch = first_expire d ch" for ch
    using assms(2) by (simp add: first_expire_def cong: list.case_cong)
  ultimately show ?thesis using assms by (simp add: list_inv_def pending_list_def)
qed

lemma timer_grab_spec:
  assumes inv: "timer_inv d" and grab: "timer_grab e t d = Some d'"
  shows "timer_inv_but t d'" "\<And>l. pending_list l d' = filter (\<lambda>x. x \<noteq> t) (pending_list l d)"
    "\<And>u. u \<noteq> t \<Longrightarrow> tims d' u = tims d u"
    "tims d' t = (tims d t)\<lparr>state := RTE_TIMER_CONFIG, owner := int (lcore_id e)\<rparr>"
    "updated (priv d' l) \<longleftrightarrow> updated (priv d l) \<or>
       (l = lcore_id e \<and> lcore_id e < RTE_MAX_LCORE \<and> state (tims d t) = RTE_TIMER_RUNNING)"
    "running_tim (priv d' l) = running_tim (priv d l)"
proof -
  let ?s = "state (tims d t)" and ?o = "owner (tims d t)"
  define d1 where "d1 = set_tim t (\<lambda>x. x\<lparr>state := RTE_TIMER_CONFIG, owner := int (lcore_id e)\<rparr>) d"
  define d2 where "d2 = (if ?s = RTE_TIMER_RUNNING \<and> lcore_id e < RTE_MAX_LCORE
      then set_priv (lcore_id e) (\<lambda>p. p\<lparr>updated := True\<rparr>) d1 else d1)"
  have d': "d' = (if ?s = RTE_TIMER_PENDING then timer_del t ?o d2 else d2)"
    using grab by (auto simp: timer_grab_def timer_set_config_state_def d1_def d2_def Let_def split: if_splits)
  have li: "list_inv d2 l" for l
  proof -
    have "list_inv d1 l"
      using timer_invD(2) [OF inv] by (rule list_inv_cong [of d l]) (simp_all add: d1_def ex_of_def)
    then show ?thesis
      by (rule list_inv_priv_flags) (simp_all add: d2_def)
  qed
  have t2: "tims d2 = (tims d)(t := (tims d t)\<lparr>state := RTE_TIMER_CONFIG, owner := int (lcore_id e)\<rparr>)"
    by (simp add: d2_def d1_def)
  have ex2: "ex_of d2 = ex_of d" by (rule ext) (simp add: ex_of_def t2)
  have pl2: "pending_list l d2 = pending_list l d" for l
    by (simp add: pending_list_def d2_def d1_def)
  have up2: "updated (priv d2 l) \<longleftrightarrow> updated (priv d l) \<or>
      (l = lcore_id e \<and> lcore_id e < RTE_MAX_LCORE \<and> ?s = RTE_TIMER_RUNNING)"
    "running_tim (priv d2 l) = running_tim (priv d l)" "timer_ready d2" for l
    using timer_invD(1) [OF inv] by (auto simp: d2_def d1_def)
  have all: "tims d' = tims d2 \<and> timer_ready d' \<and> (\<forall>l. list_inv d' l) \<and>
      (\<forall>l. pending_list l d' = filter (\<lambda>x. x \<noteq> t) (pending_list l d)) \<and>
      (\<forall>l. updated (priv d' l) = updated (priv d2 l) \<and> running_tim (priv d' l) = running_tim (priv d2 l))"
  proof (cases "?s = RTE_TIMER_PENDING")
    case True
    then have o: "?o = int (nat ?o)" "t \<in> set (pending_list (nat ?o) d)"
      using timer_invD(3,4) [OF inv, of t] by simp_all
    then have pos: "ex_of d2 t \<noteq> 0" using timer_invD(5) [OF inv] ex2 by simp
    note spec = timer_del_spec [where l = "nat ?o", OF li pos, folded o(1)]
    have d'2: "d' = timer_del t ?o d2" using d' True by simp
    have other: "t \<notin> set (pending_list l d)" if "l \<noteq> nat ?o" for l
      using timer_invD(4) [OF inv] o(1) that by auto
    have pl: "pending_list l d' = filter (\<lambda>x. x \<noteq> t) (pending_list l d)" for l
    proof (cases "l = nat ?o")
      case True
      then show ?thesis using spec(2) d'2 pl2 by simp
    next
      case False
      then have "pending_list l d' = pending_list l d2" using spec(4) d'2 by (simp add: pending_list_def)
      then show ?thesis using other [OF False] pl2 by simp
    qed
    have "list_inv d' l" for l
    proof (cases "l = nat ?o")
      case False
      then show ?thesis
        by (intro list_inv_priv_flags [OF li [of l]]) (simp_all add: spec(3,4) d'2)
    qed (use spec(1) d'2 in simp)
    then show ?thesis using spec(3,5-7) d'2 pl up2(3) by simp
  next
    case False
    then have "t \<notin> set (pending_list l d)" for l using timer_invD(4) [OF inv] by simp
    then show ?thesis using False d' li pl2 up2(3) by simp
  qed
  have "ex_of d' = ex_of d" using ex_of_cong [of d' d2] all ex2 by simp
  then show "timer_inv_but t d'"
    using all timer_invD(3-5) [OF inv] unfolding timer_inv_but_def
    by (intro conjI allI impI ballI) (simp_all add: t2)
  show "\<And>l. pending_list l d' = filter (\<lambda>x. x \<noteq> t) (pending_list l d)"
    "\<And>u. u \<noteq> t \<Longrightarrow> tims d' u = tims d u"
    "tims d' t = (tims d t)\<lparr>state := RTE_TIMER_CONFIG, owner := int (lcore_id e)\<rparr>"
    "updated (priv d' l) \<longleftrightarrow> updated (priv d l) \<or>
       (l = lcore_id e \<and> lcore_id e < RTE_MAX_LCORE \<and> state (tims d t) = RTE_TIMER_RUNNING)"
    "running_tim (priv d' l) = running_tim (priv d l)"
    using all t2 up2 by auto
qed

lemma timer_grab_None_iff:
  "timer_grab e t d = None \<longleftrightarrow>
     state (tims d t) = RTE_TIMER_CONFIG \<or>
     (state (tims d t) = RTE_TIMER_RUNNING \<and>
       (owner (tims d t) \<noteq> int (lcore_id e) \<or> running_tim (priv d (lcore_id e)) \<noteq> Some t))"
  by (auto simp: timer_grab_def timer_set_config_state_def Let_def)

section \<open>Stop\<close>

lemma rte_timer_stop_spec:
  assumes inv: "timer_inv d" and grab: "timer_grab e t d \<noteq> None"
  defines "r \<equiv> rte_timer_stop e t d"
  shows "fst r = 0" "timer_inv (snd r)" "state (tims (snd r) t) = RTE_TIMER_STOP"
    "pending_list l (snd r) = filter (\<lambda>x. x \<noteq> t) (pending_list l d)"
    "u \<noteq> t \<Longrightarrow> tims (snd r) u = tims d u"
    "updated (priv (snd r) l) \<longleftrightarrow> updated (priv d l) \<or>
       (l = lcore_id e \<and> lcore_id e < RTE_MAX_LCORE \<and> state (tims d t) = RTE_TIMER_RUNNING)"
    "running_tim (priv (snd r) l) = running_tim (priv d l)"
proof -
  obtain d1 where d1: "timer_grab e t d = Some d1" using grab by auto
  note spec = timer_grab_spec [OF inv d1]
  have r: "r = (0, set_tim t (\<lambda>t. t\<lparr>state := RTE_TIMER_STOP, owner := RTE_TIMER_NO_OWNER\<rparr>) d1)"
    using timer_invD(1) [OF inv] by (simp add: r_def rte_timer_stop_def d1)
  show "timer_inv (snd r)"
    unfolding r snd_conv
    by (rule timer_inv_but_not_pending [OF timer_inv_but_set_tim [OF spec(1)]]) simp
  show "fst r = 0" "state (tims (snd r) t) = RTE_TIMER_STOP"
    "pending_list l (snd r) = filter (\<lambda>x. x \<noteq> t) (pending_list l d)"
    "u \<noteq> t \<Longrightarrow> tims (snd r) u = tims d u"
    "updated (priv (snd r) l) \<longleftrightarrow> updated (priv d l) \<or>
       (l = lcore_id e \<and> lcore_id e < RTE_MAX_LCORE \<and> state (tims d t) = RTE_TIMER_RUNNING)"
    "running_tim (priv (snd r) l) = running_tim (priv d l)"
    using spec by (simp_all add: r)
qed

lemma rte_timer_stop_fail:
  "timer_ready d \<Longrightarrow> timer_grab e t d = None \<Longrightarrow> rte_timer_stop e t d = (- 1, d)"
  by (simp add: rte_timer_stop_def)

section \<open>Reset\<close>

lemma pick_lcore_given: "tim_lcore \<noteq> LCORE_ID_ANY \<Longrightarrow> pick_lcore e tim_lcore d = (tim_lcore, d)"
  by (simp add: pick_lcore_def)

text \<open>Arming a handle that is being configured: set its fields, link it, publish PENDING.\<close>

definition arm :: "eal \<Rightarrow> nat \<Rightarrow> u64 \<Rightarrow> u64 \<Rightarrow> nat \<Rightarrow> 'cb \<Rightarrow> 'cb timer_data \<Rightarrow> 'cb timer_data" where
  "arm e t exp per l cb d =
     set_tim t (\<lambda>t. t\<lparr>state := RTE_TIMER_PENDING, owner := int l\<rparr>)
       (timer_add e t l (set_tim t (\<lambda>t. t\<lparr>period := per, expire := exp, f := Some cb\<rparr>) d))"

lemma arm_spec:
  fixes e :: eal and d :: "'cb timer_data" and l m :: nat and cb :: 'cb and per :: u64
  assumes inv: "timer_inv_but t d" and pos: "exp \<noteq> 0"
  defines "d' \<equiv> arm e t exp per l cb d"
  shows "timer_inv d'" "pending_list l d' = ins_timer ((ex_of d)(t := exp)) t (pending_list l d)"
    "m \<noteq> l \<Longrightarrow> pending_list m d' = pending_list m d"
    "tims d' t = (tims d t)\<lparr>state := RTE_TIMER_PENDING, owner := int l, period := per, expire := exp,
       f := Some cb\<rparr>"
    "u \<noteq> t \<Longrightarrow> tims d' u = tims d u"
    "updated (priv d' m) = updated (priv d m)" "running_tim (priv d' m) = running_tim (priv d m)"
proof -
  define d1 where "d1 = set_tim t (\<lambda>t. t\<lparr>period := per, expire := exp, f := Some cb\<rparr>) d"
  define d2 where "d2 = timer_add e t l d1"
  have inv1: "timer_inv_but t d1" unfolding d1_def by (rule timer_inv_but_set_tim [OF inv])
  note D1 = timer_inv_butD [OF inv1]
  note add = timer_add_spec [where l = l and e = e, OF D1(2,3), folded d2_def]
  have d': "d' = set_tim t (\<lambda>t. t\<lparr>state := RTE_TIMER_PENDING, owner := int l\<rparr>) d2"
    by (simp add: d'_def arm_def d2_def d1_def)
  have ex1: "ex_of d1 = (ex_of d)(t := exp)" by (rule ext) (simp add: ex_of_def d1_def)
  have ex': "ex_of d' = ex_of d1" by (rule ext) (simp add: ex_of_def d' add(3))
  have pl1: "pending_list m d1 = pending_list m d" for m by (simp add: d1_def)
  have plo: "pending_list m d' = pending_list m d" if "m \<noteq> l" for m
    using add(4) [OF that] pl1 by (simp add: d' pending_list_def d1_def)
  have pll: "pending_list l d' = ins_timer (ex_of d1) t (pending_list l d)"
    using add(2) pl1 by (simp add: d')
  have tims': "tims d' = (tims d)(t := (tims d t)\<lparr>state := RTE_TIMER_PENDING, owner := int l,
      period := per, expire := exp, f := Some cb\<rparr>)"
    by (rule ext) (simp add: d' add(3) d1_def)
  have li: "list_inv d' m" for m
  proof (cases "m = l")
    case True
    then show ?thesis
      unfolding d' True by (intro list_inv_cong [OF add(1)]) (simp_all add: ex_of_def)
  next
    case False
    then show ?thesis
      using add(4) [OF False]
      by (intro list_inv_cong [OF D1(2) [of m]]) (simp_all only: ex', simp add: d')
  qed
  show "timer_inv d'"
    unfolding timer_inv_def
  proof (intro conjI allI impI ballI)
    fix u m
    show "u \<in> set (pending_list m d') \<longleftrightarrow>
        state (tims d' u) = RTE_TIMER_PENDING \<and> owner (tims d' u) = int m"
      using timer_inv_butD(3,5) [OF inv] plo pll by (cases "m = l"; cases "u = t") (simp_all add: tims')
  next
    fix u assume "state (tims d' u) = RTE_TIMER_PENDING"
    then show "0 \<le> owner (tims d' u)"
      using timer_inv_butD(4) [OF inv] by (cases "u = t") (simp_all add: tims')
  next
    fix m u assume "u \<in> set (pending_list m d')"
    then show "ex_of d' u \<noteq> 0"
      using timer_inv_butD(6) [OF inv] plo pll pos
      by (cases "m = l"; cases "u = t") (simp_all add: ex' ex1)
  qed (use li D1(1) add(5) in \<open>simp_all add: d'\<close>)
  show "pending_list l d' = ins_timer ((ex_of d)(t := exp)) t (pending_list l d)"
    using pll ex1 by simp
  show "m \<noteq> l \<Longrightarrow> pending_list m d' = pending_list m d" by (rule plo)
  show "tims d' t = (tims d t)\<lparr>state := RTE_TIMER_PENDING, owner := int l, period := per,
      expire := exp, f := Some cb\<rparr>" "u \<noteq> t \<Longrightarrow> tims d' u = tims d u"
    by (simp_all add: tims')
  show "updated (priv d' m) = updated (priv d m)" "running_tim (priv d' m) = running_tim (priv d m)"
    using add(6,7) by (simp_all add: d' d1_def)
qed

lemma rte_timer_reset_at_eq:
  "l \<noteq> LCORE_ID_ANY \<Longrightarrow> rte_timer_reset_at e t exp per l cb d =
     (case timer_grab e t d of None \<Rightarrow> (- 1, d) | Some d \<Rightarrow> (0, arm e t exp per l cb d))"
  by (simp add: rte_timer_reset_at_def pick_lcore_given arm_def Let_def split: option.split)

lemma filter_neq_fun_upd:
  "ins_timer ((ex_of d')(t := exp)) t (filter (\<lambda>x. x \<noteq> t) xs) =
   ins_timer ((ex_of d)(t := exp)) t (filter (\<lambda>x. x \<noteq> t) xs)"
  if "\<And>u. u \<noteq> t \<Longrightarrow> tims d' u = tims d u"
  using that by (auto simp: ins_timer_def ex_of_def intro!: filter_cong)

lemma rte_timer_reset_at_spec:
  fixes e :: eal and d :: "'cb timer_data" and l m :: nat and cb :: 'cb and per :: u64
  assumes inv: "timer_inv d" and grab: "timer_grab e t d \<noteq> None" and l: "l \<noteq> LCORE_ID_ANY"
    and pos: "exp \<noteq> 0"
  defines "r \<equiv> rte_timer_reset_at e t exp per l cb d"
  shows "fst r = 0" "timer_inv (snd r)"
    "pending_list l (snd r) = ins_timer ((ex_of d)(t := exp)) t (filter (\<lambda>x. x \<noteq> t) (pending_list l d))"
    "m \<noteq> l \<Longrightarrow> pending_list m (snd r) = filter (\<lambda>x. x \<noteq> t) (pending_list m d)"
    "tims (snd r) t = (tims d t)\<lparr>state := RTE_TIMER_PENDING, owner := int l, period := per,
       expire := exp, f := Some cb\<rparr>"
    "u \<noteq> t \<Longrightarrow> tims (snd r) u = tims d u"
    "updated (priv (snd r) m) \<longleftrightarrow> updated (priv d m) \<or>
       (m = lcore_id e \<and> lcore_id e < RTE_MAX_LCORE \<and> state (tims d t) = RTE_TIMER_RUNNING)"
    "running_tim (priv (snd r) m) = running_tim (priv d m)"
proof -
  obtain d1 where d1: "timer_grab e t d = Some d1" using grab by auto
  note spec = timer_grab_spec [OF inv d1]
  note ar = arm_spec [where l = l and e = e and per = per and cb = cb, OF spec(1) pos]
  have r: "r = (0, arm e t exp per l cb d1)"
    by (simp add: r_def rte_timer_reset_at_eq [OF l] d1)
  show "fst r = 0" "timer_inv (snd r)" using ar(1) by (simp_all add: r)
  show "pending_list l (snd r) =
      ins_timer ((ex_of d)(t := exp)) t (filter (\<lambda>x. x \<noteq> t) (pending_list l d))"
    unfolding r snd_conv ar(2) spec(2) by (rule filter_neq_fun_upd) (rule spec(3))
  show "m \<noteq> l \<Longrightarrow> pending_list m (snd r) = filter (\<lambda>x. x \<noteq> t) (pending_list m d)"
    using ar(3) spec(2) by (simp add: r)
  show "tims (snd r) t = (tims d t)\<lparr>state := RTE_TIMER_PENDING, owner := int l, period := per,
      expire := exp, f := Some cb\<rparr>"
    using ar(4) spec(4) by (simp add: r)
  show "u \<noteq> t \<Longrightarrow> tims (snd r) u = tims d u"
    using ar(5) spec(3) by (simp add: r)
  show "updated (priv (snd r) m) \<longleftrightarrow> updated (priv d m) \<or>
       (m = lcore_id e \<and> lcore_id e < RTE_MAX_LCORE \<and> state (tims d t) = RTE_TIMER_RUNNING)"
    "running_tim (priv (snd r) m) = running_tim (priv d m)"
    using ar(6,7) spec(5,6) by (simp_all add: r)
qed

lemma rte_timer_reset_eq:
  "timer_ready d \<Longrightarrow> rte_timer_reset e t ticks ty l cb d =
     rte_timer_reset_at e t (timer_cycles e + ticks) (if ty = PERIODICAL then ticks else 0) l cb d"
  by (simp add: rte_timer_reset_def)

lemma rte_timer_init_inv:
  assumes "timer_inv d" "state (tims d t) \<noteq> RTE_TIMER_PENDING"
  shows "timer_inv (rte_timer_init t d)"
proof -
  have "timer_inv_but t d"
    using timer_invD [OF assms(1)] assms(2) unfolding timer_inv_but_def
    by (intro conjI allI impI ballI) simp_all
  then have "timer_inv_but t (rte_timer_init t d)"
    unfolding rte_timer_init_def by (rule timer_inv_but_set_tim)
  then show ?thesis
    by (rule timer_inv_but_not_pending) (simp add: rte_timer_init_def)
qed

lemma rte_timer_subsystem_init_inv:
  assumes "\<not> timer_ready d" "\<And>t. state (tims d t) \<noteq> RTE_TIMER_PENDING"
  shows "fst (rte_timer_subsystem_init d) = 0 \<and> timer_inv (snd (rte_timer_subsystem_init d))"
proof -
  let ?d = "snd (rte_timer_subsystem_init d)"
  have "list_inv ?d l" for l
    using assms(1)
    by (auto simp: rte_timer_subsystem_init_def list_inv_def sl_wf_def pending_list_def first_expire_def
        MAX_SKIPLIST_DEPTH_def)
  moreover have "pending_list l ?d = []" for l
    using assms(1) by (simp add: rte_timer_subsystem_init_def pending_list_def)
  ultimately show ?thesis
    using assms unfolding timer_inv_def
    by (intro conjI allI impI ballI) (simp_all add: rte_timer_subsystem_init_def)
qed

section \<open>A booted library\<close>

definition boot_timers :: "'cb timer_data" where
  "boot_timers = snd (rte_timer_subsystem_init
     \<lparr>tims = (\<lambda>_. \<lparr>expire = 0, state = RTE_TIMER_STOP, owner = RTE_TIMER_NO_OWNER, period = 0, f = None\<rparr>),
      priv = (\<lambda>_. \<lparr>head_expire = 0, sl = [], updated = False, curr_skiplist_depth = 0,
                   prev_lcore = 0, running_tim = None\<rparr>),
      timer_ready = False, rands = rte_srand 0\<rparr>)"

lemma boot_timers_ok: "timer_inv boot_timers" "state (tims boot_timers t) = RTE_TIMER_STOP"
  unfolding boot_timers_def
  by (rule rte_timer_subsystem_init_inv [THEN conjunct2]) (simp_all add: rte_timer_subsystem_init_def)

lemma boot_timers_list: "pending_list l boot_timers = []"
  by (simp add: boot_timers_def rte_timer_subsystem_init_def pending_list_def MAX_SKIPLIST_DEPTH_def)

lemma boot_timers_grab: "timer_grab e t boot_timers \<noteq> None"
  by (simp add: timer_grab_None_iff boot_timers_ok)

section \<open>Properties\<close>

text \<open>\<^verbatim>\<open>rte_timer_subsystem_init\<close> succeeds on a library that is not initialised and whose handles are
  not pending, and establishes the invariant of the lists.\<close>

theorem rte_timer_subsystem_init_ok:
  assumes "\<not> timer_ready d" "\<And>t. state (tims d t) \<noteq> RTE_TIMER_PENDING"
  shows "fst (rte_timer_subsystem_init d) = 0 \<and> timer_inv (snd (rte_timer_subsystem_init d)) \<and>
    pending_list l (snd (rte_timer_subsystem_init d)) = []"
  using rte_timer_subsystem_init_inv [OF assms] assms(1)
  by (simp add: rte_timer_subsystem_init_def pending_list_def)

definition cold_timers :: "nat timer_data" where
  "cold_timers = \<lparr>tims = (\<lambda>_. \<lparr>expire = 0, state = RTE_TIMER_STOP, owner = RTE_TIMER_NO_OWNER, period = 0, f = None\<rparr>),
     priv = (\<lambda>_. \<lparr>head_expire = 0, sl = [], updated = False, curr_skiplist_depth = 0,
                  prev_lcore = 0, running_tim = None\<rparr>),
     timer_ready = False, rands = []\<rparr>"

lemma rte_timer_subsystem_init_ok_witness:
  "fst (rte_timer_subsystem_init cold_timers) = 0 \<and> timer_inv (snd (rte_timer_subsystem_init cold_timers)) \<and>
   pending_list 0 (snd (rte_timer_subsystem_init cold_timers)) = []"
  by (rule rte_timer_subsystem_init_ok) (simp_all add: cold_timers_def)

text \<open>C10: \<^verbatim>\<open>rte_timer_reset\<close> of a handle that this lcore may configure succeeds, keeps the invariant,
  takes the handle out of every pending list and puts it into the list of the target lcore behind
  all timers that do not expire later, so the list stays ordered by expiry; no other handle
  changes.\<close>

theorem rte_timer_reset_inserts_in_order:
  fixes d :: "'cb timer_data" and cb :: "'cb" and e :: eal and ty :: rte_timer_type
  assumes "timer_inv d" "timer_grab e t d \<noteq> None" "l \<noteq> LCORE_ID_ANY" "timer_cycles e + ticks \<noteq> 0"
  defines "r \<equiv> rte_timer_reset e t ticks ty l cb d"
    and "rest \<equiv> filter (\<lambda>x. x \<noteq> t) (pending_list l d)"
  shows "fst r = 0 \<and> timer_inv (snd r) \<and>
    pending_list l (snd r) =
      filter (\<lambda>x. ex_of d x \<le> timer_cycles e + ticks) rest @ t # filter (\<lambda>x. timer_cycles e + ticks < ex_of d x) rest \<and>
    tims (snd r) t = \<lparr>expire = timer_cycles e + ticks, state = RTE_TIMER_PENDING, owner = int l,
      period = (if ty = PERIODICAL then ticks else 0), f = Some cb\<rparr> \<and>
    (u = t \<or> tims (snd r) u = tims d u) \<and>
    sorted (map (ex_of (snd r)) (pending_list l (snd r))) \<and>
    (m = l \<or> pending_list m (snd r) = filter (\<lambda>x. x \<noteq> t) (pending_list m d))"
proof -
  note R = rte_timer_reset_at_spec [OF assms(1-4), where per = "if ty = PERIODICAL then ticks else 0" and cb = cb]
  have r: "r = rte_timer_reset_at e t (timer_cycles e + ticks) (if ty = PERIODICAL then ticks else 0) l cb d"
    unfolding r_def by (rule rte_timer_reset_eq [OF timer_invD(1) [OF assms(1)]])
  have "ins_timer ((ex_of d)(t := timer_cycles e + ticks)) t rest =
      filter (\<lambda>x. ex_of d x \<le> timer_cycles e + ticks) rest @ t # filter (\<lambda>x. timer_cycles e + ticks < ex_of d x) rest"
  proof -
    let ?E = "timer_cycles e + ticks" and ?ex = "(ex_of d)(t := timer_cycles e + ticks)"
    have "filter (\<lambda>x. ?ex x \<le> ?ex t) rest = filter (\<lambda>x. ex_of d x \<le> ?E) rest"
      "filter (\<lambda>x. \<not> ?ex x \<le> ?ex t) rest = filter (\<lambda>x. ?E < ex_of d x) rest"
      by (rule filter_cong, simp, simp add: rest_def not_le)+
    then show ?thesis by (simp only: ins_timer_def)
  qed
  then have "pending_list l (snd r) = filter (\<lambda>x. ex_of d x \<le> timer_cycles e + ticks) rest @ t #
      filter (\<lambda>x. timer_cycles e + ticks < ex_of d x) rest"
    using R(3) unfolding r rest_def by (rule trans [rotated])
  moreover have "tims (snd r) t = \<lparr>expire = timer_cycles e + ticks, state = RTE_TIMER_PENDING, owner = int l,
      period = (if ty = PERIODICAL then ticks else 0), f = Some cb\<rparr>"
    using R(5) unfolding r by (cases "tims d t") simp
  moreover have "u = t \<or> tims (snd r) u = tims d u" using R(6) unfolding r by blast
  moreover have "m = l \<or> pending_list m (snd r) = filter (\<lambda>x. x \<noteq> t) (pending_list m d)"
    using R(4) unfolding r by blast
  moreover have "fst r = 0" "timer_inv (snd r)" using R(1,2) unfolding r by blast+
  moreover from this(2) have "sorted (map (ex_of (snd r)) (pending_list l (snd r)))"
    by (rule timer_inv_pending_list(2))
  ultimately show ?thesis by blast
qed

lemma rte_timer_reset_inserts_in_order_witness:
  "pending_list 0 (snd (rte_timer_reset \<lparr>lcore_id = 0, main_lcore = 0, lcore_enabled = (\<lambda>_. True), timer_hz = 1000,
     timer_cycles = 5\<rparr> 7 10 SINGLE 0 (1 :: nat) boot_timers)) = [7]"
  using rte_timer_reset_inserts_in_order [OF boot_timers_ok(1) boot_timers_grab,
      where e = "\<lparr>lcore_id = 0, main_lcore = 0, lcore_enabled = (\<lambda>_. True), timer_hz = 1000, timer_cycles = 5\<rparr>"
        and ticks = 10 and l = 0 and t = 7 and ty = SINGLE and cb = "1 :: nat"]
  by (simp add: LCORE_ID_ANY_def boot_timers_list)

text \<open>C24: \<^verbatim>\<open>rte_timer_stop\<close> of a handle that this lcore may configure succeeds, keeps the invariant,
  leaves the handle stopped and in no pending list, and changes no other handle and nothing of
  the order of the others. A callback sees through \<^verbatim>\<open>updated\<close> that its own timer was stopped.\<close>

theorem rte_timer_stop_unlinks:
  fixes d :: "'cb timer_data" and e :: eal
  assumes "timer_inv d" "timer_grab e t d \<noteq> None"
  defines "r \<equiv> rte_timer_stop e t d"
  shows "fst r = 0 \<and> timer_inv (snd r) \<and> state (tims (snd r) t) = RTE_TIMER_STOP \<and>
    pending_list l (snd r) = filter (\<lambda>x. x \<noteq> t) (pending_list l d) \<and> (u = t \<or> tims (snd r) u = tims d u)"
  using rte_timer_stop_spec [OF assms(1,2)] unfolding r_def by auto

lemma rte_timer_stop_unlinks_witness:
  "fst (rte_timer_stop \<lparr>lcore_id = 0, main_lcore = 0, lcore_enabled = (\<lambda>_. True), timer_hz = 1000,
     timer_cycles = 5\<rparr> 7 (boot_timers :: nat timer_data)) = 0"
  using rte_timer_stop_unlinks [OF boot_timers_ok(1) boot_timers_grab] by blast

text \<open>A timer that another lcore is configuring, or whose callback runs on another lcore or is not
  the one that calls, is refused: stop and reset return -1 and leave the lists and the handles as
  they are (reset may only have advanced the round robin).\<close>

theorem rte_timer_refuses_busy:
  assumes "timer_inv d" "state (tims d t) = RTE_TIMER_CONFIG \<or> (state (tims d t) = RTE_TIMER_RUNNING \<and>
      (owner (tims d t) \<noteq> int (lcore_id e) \<or> running_tim (priv d (lcore_id e)) \<noteq> Some t))" "l \<noteq> LCORE_ID_ANY"
  shows "rte_timer_stop e t d = (- 1, d) \<and> rte_timer_reset e t ticks ty l cb d = (- 1, d)"
proof -
  have "timer_grab e t d = None" using assms(2) by (simp only: timer_grab_None_iff)
  then show ?thesis
    using timer_invD(1) [OF assms(1)] assms(3)
    by (simp add: rte_timer_stop_fail rte_timer_reset_eq rte_timer_reset_at_eq)
qed

lemma running_elsewhere_inv: "timer_inv (set_tim 7 (\<lambda>x. x\<lparr>state := RTE_TIMER_RUNNING, owner := 1\<rparr>) boot_timers)"
proof -
  have "timer_inv_but 7 (boot_timers :: 'a timer_data)"
    using timer_invD [OF boot_timers_ok(1)] unfolding timer_inv_but_def
    by (intro conjI allI impI ballI) (simp_all add: boot_timers_list boot_timers_ok(2))
  then show ?thesis
    by (intro timer_inv_but_not_pending [OF timer_inv_but_set_tim]) simp_all
qed

lemma rte_timer_refuses_busy_witness:
  "fst (rte_timer_stop \<lparr>lcore_id = 0, main_lcore = 0, lcore_enabled = (\<lambda>_. True), timer_hz = 1000, timer_cycles = 5\<rparr> 7
     (set_tim 7 (\<lambda>x. x\<lparr>state := RTE_TIMER_RUNNING, owner := 1\<rparr>) (boot_timers :: nat timer_data))) = - 1"
  using rte_timer_refuses_busy [OF running_elsewhere_inv, where e = "\<lparr>lcore_id = 0, main_lcore = 0,
      lcore_enabled = (\<lambda>_. True), timer_hz = 1000, timer_cycles = 5\<rparr>" and l = 0 and t = 7
      and ticks = 1 and ty = SINGLE and cb = "0 :: nat"]
  by (simp add: LCORE_ID_ANY_def)

end
