(* ===== verification/RteTimerManage.thy ===== *)
theory RteTimerManage
  imports RteTimerFacts
begin

text \<open>
  The manage loop against its specification: the callbacks of exactly the expired timers of the
  calling lcore run, in the order of their expiry; a callback may stop or restart its own timer;
  the invariant holds again afterwards.
\<close>

definition expired_list :: "eal \<Rightarrow> 'cb timer_data \<Rightarrow> nat list" where
  "expired_list e d = takeWhile (\<lambda>t. ex_of d t \<le> timer_cycles e) (pending_list (lcore_id e) d)"

definition start_expired :: "eal \<Rightarrow> 'cb timer_data \<Rightarrow> 'cb timer_data" where
  "start_expired e d =
     (let l = lcore_id e; d = snd (mark_running e (fst (break_lists (timer_cycles e) l d))
                                     (snd (break_lists (timer_cycles e) l d)))
      in set_priv l (\<lambda>p. p\<lparr>head_expire := first_expire d (sl p ! 0)\<rparr>) d)"

lemma set_expired_list: "set (expired_list e d) \<subseteq> set (pending_list (lcore_id e) d)"
  by (auto simp: expired_list_def dest: set_takeWhileD)

lemma succs_found_prev:
  assumes "distinct ch"
  shows "succs ch (last_opt (takeWhile go ch)) = dropWhile go ch"
proof (cases "takeWhile go ch" rule: rev_cases)
  case Nil
  then have "dropWhile go ch = ch" by (metis append_Nil takeWhile_dropWhile_id)
  with Nil show ?thesis by simp
next
  case (snoc as p)
  have ch: "ch = as @ p # dropWhile go ch"
    using snoc takeWhile_dropWhile_id [of go ch] by simp
  have "p \<notin> set as" using assms by (subst (asm) ch) simp
  then have "succs ch (Some p) = dropWhile go ch"
    using succs_Some_split [of p as "dropWhile go ch"] ch by simp
  then show ?thesis using snoc by simp
qed

lemma break_lists_spec:
  fixes d :: "'cb timer_data" and now :: u64 and m :: nat
  assumes inv: "list_inv d l"
  defines "r \<equiv> break_lists now l d"
  shows "fst r = takeWhile (\<lambda>t. ex_of d t \<le> now) (pending_list l d)"
    "pending_list l (snd r) = dropWhile (\<lambda>t. ex_of d t \<le> now) (pending_list l d)"
    "sl_wf (ex_of d) (curr_skiplist_depth (priv (snd r) l)) (sl (priv (snd r) l))"
    "tims (snd r) = tims d" "\<And>m. m \<noteq> l \<Longrightarrow> priv (snd r) m = priv d m"
    "timer_ready (snd r) = timer_ready d"
    "updated (priv (snd r) m) = updated (priv d m)" "running_tim (priv (snd r) m) = running_tim (priv d m)"
proof -
  let ?p = "priv d l" and ?ex = "ex_of d" and ?go = "\<lambda>t. ex_of d t \<le> now"
  define depth where "depth = curr_skiplist_depth ?p"
  have wf: "sl_wf ?ex depth (sl ?p)" using inv by (simp add: list_inv_def depth_def)
  then have dm: "depth \<le> MAX_SKIPLIST_DEPTH" by (simp add: sl_wf_def)
  define prev where "prev = timer_get_prev_entries now l d"
  have prev: "prev ! i = last_opt (takeWhile ?go (sl ?p ! i))" if "i < depth" for i
    using timer_get_prev_entries_nth [OF inv, of i now] that dm by (simp add: depth_def prev_def found_prev_def)
  define chs' where "chs' = map (\<lambda>i. if i < depth then filter (\<lambda>t. \<not> ?go t) (sl ?p ! i) else sl ?p ! i)
      [0..<MAX_SKIPLIST_DEPTH]"
  have nth': "chs' ! i = filter (\<lambda>t. \<not> ?go t) (sl ?p ! i)" if "i < MAX_SKIPLIST_DEPTH" for i
    using that sl_wf_empty [OF wf, of i] by (simp add: chs'_def)
  have succ: "succs (sl ?p ! i) (prev ! i) = filter (\<lambda>t. \<not> ?go t) (sl ?p ! i)" if "i < depth" for i
  proof -
    have i: "i < MAX_SKIPLIST_DEPTH" using that dm by simp
    show ?thesis
      using succs_found_prev [OF sl_wf_level(1) [OF wf i], of ?go]
        dropWhile_le_filter [OF sl_wf_level(2) [OF wf i], of now] prev [OF that] by simp
  qed
  then have chs: "map (\<lambda>i. if i < depth then succs (sl ?p ! i) (prev ! i) else sl ?p ! i)
      [0..<MAX_SKIPLIST_DEPTH] = chs'"
    by (simp add: chs'_def)
  have gone: "(prev ! i \<noteq> None \<and> chs' ! i = []) = (chs' ! i = [])" if "i < depth" for i
  proof -
    have i: "i < MAX_SKIPLIST_DEPTH" using that dm by simp
    then have "sl ?p ! i \<noteq> []" using wf that unfolding sl_wf_def by (metis linorder_not_le)
    then show ?thesis
      using prev [OF that] nth' [OF i] succ [OF that] by (auto simp: filter_empty_conv)
  qed
  have wf': "sl_wf ?ex (shrink_depth chs' depth) chs'"
    using sl_wf_filter [OF wf] by (simp add: chs'_def)
  have up: "chs' ! j = []" if "i \<le> j" "j < depth" "chs' ! i = []" for i j
    using wf' that dm unfolding sl_wf_def by (metis le_trans less_le_trans le_less_trans)
  have cnt: "depth - length (filter (\<lambda>i. prev ! i \<noteq> None \<and> chs' ! i = []) [0..<depth]) =
      shrink_depth chs' depth"
  proof -
    have "filter (\<lambda>i. prev ! i \<noteq> None \<and> chs' ! i = []) [0..<depth] =
        filter (\<lambda>i. chs' ! i = []) [0..<depth]"
      by (rule filter_cong) (simp_all only: gone set_upt atLeastLessThan_iff)
    then show ?thesis using shrink_depth_count [of depth chs'] up by simp
  qed
  have r: "r = (take (length (sl ?p ! 0) - length (chs' ! 0)) (sl ?p ! 0),
      set_priv l (\<lambda>p. p\<lparr>sl := chs', curr_skiplist_depth := shrink_depth chs' depth\<rparr>) d)"
    unfolding r_def break_lists_def Let_def depth_def [symmetric] prev_def [symmetric] chs cnt ..
  have c0: "chs' ! 0 = dropWhile ?go (pending_list l d)"
    using nth' [of 0] dropWhile_le_filter [OF sl_wf_level(2) [OF wf, of 0], of now]
    by (simp add: pending_list_def)
  have "sl ?p ! 0 = takeWhile ?go (pending_list l d) @ chs' ! 0"
    using c0 by (simp add: pending_list_def)
  then have "take (length (sl ?p ! 0) - length (chs' ! 0)) (sl ?p ! 0) = takeWhile ?go (pending_list l d)"
    by (metis append_eq_conv_conj diff_add_inverse2 length_append)
  then show "fst r = takeWhile ?go (pending_list l d)" by (simp add: r)
  show "pending_list l (snd r) = dropWhile ?go (pending_list l d)"
    using c0 by (simp add: r pending_list_def)
  show "sl_wf ?ex (curr_skiplist_depth (priv (snd r) l)) (sl (priv (snd r) l))"
    using wf' by (simp add: r)
  show "tims (snd r) = tims d" "\<And>m. m \<noteq> l \<Longrightarrow> priv (snd r) m = priv d m"
    "timer_ready (snd r) = timer_ready d" "updated (priv (snd r) m) = updated (priv d m)"
    "running_tim (priv (snd r) m) = running_tim (priv d m)"
    by (simp_all add: r)
qed

lemma mark_running_spec:
  assumes "distinct ts" "\<forall>t\<in>set ts. state (tims d t) = RTE_TIMER_PENDING"
  shows "mark_running e ts d = (ts, d\<lparr>tims := (\<lambda>t. if t \<in> set ts
     then (tims d t)\<lparr>state := RTE_TIMER_RUNNING, owner := int (lcore_id e)\<rparr> else tims d t)\<rparr>)"
  using assms
proof (induction ts arbitrary: d)
  case (Cons t ts)
  let ?run = "\<lambda>x :: 'a rte_timer. x\<lparr>state := RTE_TIMER_RUNNING, owner := int (lcore_id e)\<rparr>"
  define d1 where "d1 = set_tim t ?run d"
  have "\<forall>u\<in>set ts. state (tims d1 u) = RTE_TIMER_PENDING" using Cons.prems by (auto simp: d1_def)
  then have "mark_running e ts d1 =
      (ts, d1\<lparr>tims := (\<lambda>u. if u \<in> set ts then ?run (tims d1 u) else tims d1 u)\<rparr>)"
    using Cons.IH Cons.prems(1) by auto
  moreover have "timer_set_running_state e t d = Some d1"
    using Cons.prems(2) by (simp add: timer_set_running_state_def d1_def)
  moreover have "d1\<lparr>tims := (\<lambda>u. if u \<in> set ts then ?run (tims d1 u) else tims d1 u)\<rparr> =
      d\<lparr>tims := (\<lambda>u. if u \<in> set (t # ts) then ?run (tims d u) else tims d u)\<rparr>"
    using Cons.prems(1) by (auto simp: d1_def set_tim_def fun_eq_iff)
  ultimately show ?case by simp
qed simp

text \<open>After the expired timers left the list: they are RUNNING, and the invariant holds.\<close>

lemma start_expired_spec:
  fixes d :: "'cb timer_data" and e :: eal and m :: nat
  assumes inv: "timer_inv d"
  defines "d' \<equiv> start_expired e d"
  shows "mark_running e (fst (break_lists (timer_cycles e) (lcore_id e) d))
       (snd (break_lists (timer_cycles e) (lcore_id e) d)) =
       (expired_list e d, snd (mark_running e (fst (break_lists (timer_cycles e) (lcore_id e) d))
       (snd (break_lists (timer_cycles e) (lcore_id e) d))))"
    and "timer_inv d'"
    and "pending_list (lcore_id e) d' =
       dropWhile (\<lambda>t. ex_of d t \<le> timer_cycles e) (pending_list (lcore_id e) d)"
    and "m \<noteq> lcore_id e \<Longrightarrow> pending_list m d' = pending_list m d"
    and "tims d' t = (if t \<in> set (expired_list e d)
       then (tims d t)\<lparr>state := RTE_TIMER_RUNNING, owner := int (lcore_id e)\<rparr> else tims d t)"
proof -
  let ?l = "lcore_id e" and ?now = "timer_cycles e"
  define b where "b = snd (break_lists ?now ?l d)"
  note B = break_lists_spec [where l = ?l and now = ?now, OF timer_invD(2) [OF inv], folded b_def]
  have ts: "fst (break_lists ?now ?l d) = expired_list e d" by (simp add: B(1) expired_list_def)
  have pend: "\<forall>t\<in>set (expired_list e d). state (tims b t) = RTE_TIMER_PENDING"
    using set_expired_list [of e d] timer_invD(4) [OF inv] by (auto simp: B(4))
  have dist: "distinct (expired_list e d)"
    using timer_inv_pending_list(1) [OF inv] by (simp add: expired_list_def distinct_takeWhile)
  note M = mark_running_spec [OF dist pend, of e]
  define c where "c = snd (mark_running e (expired_list e d) b)"
  have c: "tims c t = (if t \<in> set (expired_list e d)
      then (tims d t)\<lparr>state := RTE_TIMER_RUNNING, owner := int ?l\<rparr> else tims d t)"
    "priv c = priv b" "timer_ready c" for t
    using B(4,6) timer_invD(1) [OF inv] by (simp_all add: c_def M)
  have d': "d' = set_priv ?l (\<lambda>p. p\<lparr>head_expire := first_expire c (sl p ! 0)\<rparr>) c"
    by (simp add: d'_def start_expired_def Let_def ts b_def [symmetric] c_def)
  show "mark_running e (fst (break_lists ?now ?l d)) (snd (break_lists ?now ?l d)) =
      (expired_list e d, snd (mark_running e (fst (break_lists ?now ?l d)) (snd (break_lists ?now ?l d))))"
    by (simp add: ts b_def [symmetric] M)
  have exc: "ex_of c = ex_of d" by (rule ext) (simp add: ex_of_def c)
  have pl: "pending_list m d' = (if m = ?l then dropWhile (\<lambda>t. ex_of d t \<le> ?now) (pending_list m d)
      else pending_list m d)" for m
    using B(2,5) by (simp add: d' pending_list_def c(2))
  then show "pending_list ?l d' = dropWhile (\<lambda>t. ex_of d t \<le> ?now) (pending_list ?l d)"
    "m \<noteq> ?l \<Longrightarrow> pending_list m d' = pending_list m d" by simp_all
  have tims': "tims d' = tims c" by (simp add: d')
  then show "tims d' t = (if t \<in> set (expired_list e d)
      then (tims d t)\<lparr>state := RTE_TIMER_RUNNING, owner := int ?l\<rparr> else tims d t)" for t
    by (simp add: c)
  have li: "list_inv d' m" for m
  proof (cases "m = ?l")
    case True
    then show ?thesis using B(3) by (simp add: list_inv_def d' c(2) exc pending_list_def)
  next
    case False
    then show ?thesis
      using B(5) by (intro list_inv_cong [OF timer_invD(2) [OF inv, of m]]) (simp_all add: d' c(2) exc)
  qed
  have parts: "t \<in> set (pending_list ?l d) \<longleftrightarrow> t \<in> set (expired_list e d) \<or> t \<in> set (pending_list ?l d')"
    "\<not> (t \<in> set (expired_list e d) \<and> t \<in> set (pending_list ?l d'))" for t
  proof -
    have split: "pending_list ?l d = expired_list e d @ pending_list ?l d'"
      by (simp add: pl expired_list_def)
    show "t \<in> set (pending_list ?l d) \<longleftrightarrow> t \<in> set (expired_list e d) \<or> t \<in> set (pending_list ?l d')"
      by (simp add: split)
    show "\<not> (t \<in> set (expired_list e d) \<and> t \<in> set (pending_list ?l d'))"
      using timer_inv_pending_list(1) [OF inv, of ?l] by (auto simp: split)
  qed
  show "timer_inv d'"
    unfolding timer_inv_def
  proof (intro conjI allI impI ballI)
    fix m t
    show "t \<in> set (pending_list m d') \<longleftrightarrow>
        state (tims d' t) = RTE_TIMER_PENDING \<and> owner (tims d' t) = int m"
    proof (cases "m = ?l")
      case True
      then show ?thesis using parts [of t] timer_invD(4) [OF inv, of t ?l] by (auto simp: tims' c)
    next
      case False
      then show ?thesis
        using parts [of t] timer_invD(4) [OF inv, of t ?l] timer_invD(4) [OF inv, of t m] pl
        by (auto simp: tims' c)
    qed
  next
    fix m t assume "t \<in> set (pending_list m d')"
    then have "t \<in> set (pending_list m d)"
      using pl by (auto split: if_splits dest: set_dropWhileD)
    then show "ex_of d' t \<noteq> 0" using timer_invD(5) [OF inv] by (simp add: d' exc)
  next
    fix t assume "state (tims d' t) = RTE_TIMER_PENDING"
    then show "0 \<le> owner (tims d' t)" using timer_invD(3) [OF inv] by (auto simp: tims' c split: if_splits)
  qed (use li c(3) in \<open>simp_all add: d'\<close>)
qed

section \<open>Re-arming a periodic timer\<close>

text \<open>
  The periodic branch marks the timer PENDING before it calls \<^verbatim>\<open>__rte_timer_reset\<close>, although the
  timer is in no list; the unlinking that reset then does finds nothing to unlink.
\<close>

lemma timer_grab_unlinked:
  fixes d :: "'cb timer_data" and m :: nat
  assumes inv: "timer_inv_but t d" and st: "state (tims d t) = RTE_TIMER_PENDING"
    and ow: "owner (tims d t) = int l" and pos: "ex_of d t \<noteq> 0"
  obtains d' where "timer_grab e t d = Some d'" "timer_inv_but t d'"
    "\<And>m. pending_list m d' = pending_list m d" "\<And>u. u \<noteq> t \<Longrightarrow> tims d' u = tims d u"
    "\<And>m. updated (priv d' m) = updated (priv d m)" "\<And>m. running_tim (priv d' m) = running_tim (priv d m)"
proof -
  define d1 where "d1 = set_tim t (\<lambda>x. x\<lparr>state := RTE_TIMER_CONFIG, owner := int (lcore_id e)\<rparr>) d"
  define d' where "d' = timer_del t (int l) d1"
  have inv1: "timer_inv_but t d1" unfolding d1_def by (rule timer_inv_but_set_tim [OF inv])
  have pos1: "ex_of d1 t \<noteq> 0" using pos by (simp add: d1_def ex_of_def)
  note D = timer_inv_butD [OF inv1]
  note spec = timer_del_spec [where l = l, OF D(2) pos1, folded d'_def]
  have g: "timer_grab e t d = Some d'"
    using st ow by (simp add: timer_grab_def timer_set_config_state_def Let_def d'_def d1_def)
  have pl: "pending_list m d' = pending_list m d" for m
    using spec(2,4) D(3) by (cases "m = l") (simp_all add: pending_list_def d1_def)
  have li: "list_inv d' m" for m
  proof (cases "m = l")
    case False
    then show ?thesis
      by (intro list_inv_priv_flags [OF D(2) [of m]]) (simp_all add: spec(3,4))
  qed (simp add: spec(1))
  have ex: "ex_of d' = ex_of d1" by (rule ex_of_cong) (rule spec(3))
  have "timer_inv_but t d'"
    using D li spec(3,5) pl unfolding timer_inv_but_def
    by (intro conjI allI impI ballI) (simp_all add: ex d1_def)
  then show ?thesis
    using that [OF g] pl spec(3,6,7) by (simp add: d1_def)
qed

lemma rearm_spec:
  fixes d :: "'cb timer_data" and e :: eal and m :: nat and cb :: 'cb and per :: u64
  assumes inv: "timer_inv_but t d" and st: "state (tims d t) = RTE_TIMER_PENDING"
    and ow: "owner (tims d t) = int l" and pos: "ex_of d t \<noteq> 0" "exp \<noteq> 0" and l: "l \<noteq> LCORE_ID_ANY"
  defines "r \<equiv> rte_timer_reset_at e t exp per l cb d"
  shows "fst r = 0" "timer_inv (snd r)" "u \<noteq> t \<Longrightarrow> tims (snd r) u = tims d u"
    "updated (priv (snd r) m) = updated (priv d m)" "running_tim (priv (snd r) m) = running_tim (priv d m)"
    "t \<in> set (pending_list l (snd r))" "ex_of (snd r) t = exp"
proof -
  obtain d1 where d1: "timer_grab e t d = Some d1" "timer_inv_but t d1"
    "\<And>m. pending_list m d1 = pending_list m d" "\<And>u. u \<noteq> t \<Longrightarrow> tims d1 u = tims d u"
    "\<And>m. updated (priv d1 m) = updated (priv d m)" "\<And>m. running_tim (priv d1 m) = running_tim (priv d m)"
    using timer_grab_unlinked [OF inv st ow pos(1)] by blast
  note ar = arm_spec [where l = l and e = e and per = per and cb = cb, OF d1(2) pos(2)]
  have r: "r = (0, arm e t exp per l cb d1)" by (simp add: r_def rte_timer_reset_at_eq [OF l] d1(1))
  show "fst r = 0" "timer_inv (snd r)" "u \<noteq> t \<Longrightarrow> tims (snd r) u = tims d u"
    "updated (priv (snd r) m) = updated (priv d m)" "running_tim (priv (snd r) m) = running_tim (priv d m)"
    "t \<in> set (pending_list l (snd r))" "ex_of (snd r) t = exp"
    using ar d1 by (simp_all add: r ex_of_def)
qed

section \<open>The callback interface\<close>

lemma set_flags_inv:
  assumes "timer_inv d"
  shows "timer_inv (set_priv l (\<lambda>p. p\<lparr>updated := b, running_tim := x\<rparr>) d)"
proof -
  let ?d = "set_priv l (\<lambda>p. p\<lparr>updated := b, running_tim := x\<rparr>) d"
  have "list_inv ?d m" for m
    by (rule list_inv_priv_flags [OF timer_invD(2) [OF assms, of m]]) simp_all
  moreover have "pending_list m ?d = pending_list m d" "ex_of ?d = ex_of d" for m
    by (simp_all add: pending_list_def)
  ultimately show ?thesis
    using timer_invD [OF assms] unfolding timer_inv_def
    by (intro conjI allI impI ballI) simp_all
qed

text \<open>
  What the manage loop relies on from the callbacks it runs on this lcore, for the handles and
  callbacks that the application binds to each other (\<open>serves\<close>): they keep the library's
  invariant, they leave the other timers the loop has taken alone, and a callback that did not
  touch its own timer (through stop or reset, which set \<^verbatim>\<open>updated\<close>) leaves it as it was. A
  taken periodic timer's next expiry is not 0 (the 64-bit cycle counter has not wrapped).
\<close>

definition taken :: "eal \<Rightarrow> (nat \<Rightarrow> 'cb \<Rightarrow> bool) \<Rightarrow> 'cb timer_data \<Rightarrow> nat \<Rightarrow> bool" where
  "taken e serves d t \<longleftrightarrow> state (tims d t) = RTE_TIMER_RUNNING \<and> owner (tims d t) = int (lcore_id e) \<and>
     ex_of d t \<noteq> 0 \<and> (\<exists>cb. f (tims d t) = Some cb \<and> serves t cb) \<and>
     (period (tims d t) \<noteq> 0 \<longrightarrow> ex_of d t + period (tims d t) \<noteq> 0)"

locale timer_callbacks =
  fixes e :: eal
    and call :: "'cb \<Rightarrow> 's \<times> 'cb timer_data \<Rightarrow> 's \<times> 'cb timer_data"
    and serves :: "nat \<Rightarrow> 'cb \<Rightarrow> bool"
  assumes lcore_valid: "serves t cb \<Longrightarrow> lcore_id e < RTE_MAX_LCORE"
    and cb_inv: "\<lbrakk>timer_inv d; taken e serves d t; running_tim (priv d (lcore_id e)) = Some t;
        \<not> updated (priv d (lcore_id e)); f (tims d t) = Some cb\<rbrakk> \<Longrightarrow> timer_inv (snd (call cb (s, d)))"
    and cb_own: "\<lbrakk>timer_inv d; taken e serves d t; running_tim (priv d (lcore_id e)) = Some t;
        \<not> updated (priv d (lcore_id e)); f (tims d t) = Some cb;
        \<not> updated (priv (snd (call cb (s, d))) (lcore_id e))\<rbrakk>
        \<Longrightarrow> tims (snd (call cb (s, d))) t = tims d t"
    and cb_others: "\<lbrakk>timer_inv d; taken e serves d t; running_tim (priv d (lcore_id e)) = Some t;
        \<not> updated (priv d (lcore_id e)); f (tims d t) = Some cb; u \<noteq> t; taken e serves d u\<rbrakk>
        \<Longrightarrow> tims (snd (call cb (s, d))) u = tims d u"
begin

lemma lcore_not_any: "taken e serves d t \<Longrightarrow> lcore_id e \<noteq> LCORE_ID_ANY"
  using lcore_valid by (auto simp: taken_def RTE_MAX_LCORE_def LCORE_ID_ANY_def)

lemma run_timer_spec:
  assumes inv: "timer_inv d" and t: "taken e serves d t"
  shows "timer_inv (snd (run_timer e call t (s, d)))"
    "u \<noteq> t \<Longrightarrow> taken e serves d u \<Longrightarrow> tims (snd (run_timer e call t (s, d))) u = tims d u"
proof -
  let ?l = "lcore_id e"
  define d1 where "d1 = set_priv ?l (\<lambda>p. p\<lparr>updated := False, running_tim := Some t\<rparr>) d"
  have inv1: "timer_inv d1" unfolding d1_def by (rule set_flags_inv [OF inv])
  have tk: "taken e serves d1 u = taken e serves d u" for u by (simp add: taken_def d1_def)
  have flags: "running_tim (priv d1 ?l) = Some t" "\<not> updated (priv d1 ?l)" by (simp_all add: d1_def)
  obtain cb where cb: "f (tims d1 t) = Some cb" using t tk by (auto simp: taken_def)
  obtain s2 d2 where sd: "call cb (s, d1) = (s2, d2)" by fastforce
  have t1: "taken e serves d1 t" using t tk by simp
  have inv2: "timer_inv d2" using cb_inv [OF inv1 t1 flags cb, of s] sd by simp
  have own: "tims d2 t = tims d t" if "\<not> updated (priv d2 ?l)"
    using cb_own [OF inv1 t1 flags cb, of s] sd that by (simp add: d1_def)
  have oth: "tims d2 u = tims d u" if "u \<noteq> t" "taken e serves d u" for u
    using cb_others [OF inv1 t1 flags cb, of u s] sd that tk by (simp add: d1_def)
  have run: "run_timer e call t (s, d) =
     (if updated (priv d2 ?l) then (s2, d2)
      else if period (tims d2 t) = 0 then
        (s2, set_tim t (\<lambda>t. t\<lparr>state := RTE_TIMER_STOP, owner := RTE_TIMER_NO_OWNER\<rparr>) d2)
      else (s2, snd (rte_timer_reset_at e t (ex_of d2 t + period (tims d2 t)) (period (tims d2 t)) ?l
          (the (f (tims d2 t))) (set_tim t (\<lambda>t. t\<lparr>state := RTE_TIMER_PENDING, owner := int ?l\<rparr>) d2))))"
  proof -
    have f: "f (tims d t) = Some cb" using cb by (simp add: d1_def)
    have "f (tims d2 t) = Some cb" "period (tims d2 t) = period (tims d t)" "ex_of d2 t = expire (tims d t)"
      if "\<not> updated (priv d2 ?l)" using own [OF that] f by (simp_all add: ex_of_def)
    then show ?thesis
      by (cases "updated (priv d2 ?l)"; cases "period (tims d t) = 0")
        (simp_all add: run_timer_def Let_def d1_def [symmetric] f sd ex_of_def)
  qed
  have but: "timer_inv_but t d2" if "\<not> updated (priv d2 ?l)"
    using timer_invD [OF inv2] own [OF that] t unfolding timer_inv_but_def taken_def
    by (intro conjI allI impI ballI) simp_all
  define d3 where "d3 = set_tim t (\<lambda>t. t\<lparr>state := RTE_TIMER_PENDING, owner := int ?l\<rparr>) d2"
  have d3: "timer_inv_but t d3" "state (tims d3 t) = RTE_TIMER_PENDING" "owner (tims d3 t) = int ?l"
      "ex_of d3 t \<noteq> 0" "ex_of d2 t + period (tims d2 t) \<noteq> 0"
    if "\<not> updated (priv d2 ?l)" "period (tims d2 t) \<noteq> 0"
    using timer_inv_but_set_tim [OF but [OF that(1)]] own [OF that(1)] t that(2)
    by (auto simp: d3_def taken_def ex_of_def)
  show "timer_inv (snd (run_timer e call t (s, d)))"
    using inv2 timer_inv_but_not_pending [OF timer_inv_but_set_tim [OF but]]
      rearm_spec(2) [OF d3(1,2,3,4,5) lcore_not_any [OF t]] by (simp add: run d3_def [symmetric])
  show "tims (snd (run_timer e call t (s, d))) u = tims d u" if "u \<noteq> t" "taken e serves d u"
    using oth [OF that] that(1) rearm_spec(3) [OF d3(1,2,3,4,5) lcore_not_any [OF t]]
    by (simp add: run d3_def [symmetric]) (simp add: d3_def)
qed

lemma run_timers_inv:
  assumes "timer_inv d" "distinct ts" "\<forall>t\<in>set ts. taken e serves d t"
  shows "timer_inv (snd (fold (run_timer e call) ts (s, d)))"
  using assms
proof (induction ts arbitrary: s d)
  case (Cons t ts)
  obtain s' d' where r: "run_timer e call t (s, d) = (s', d')" by fastforce
  have "timer_inv d'" using run_timer_spec(1) [of d t s] Cons.prems r by simp
  moreover have "taken e serves d' u" if "u \<in> set ts" for u
  proof -
    have "u \<noteq> t" "taken e serves d u" "taken e serves d t" using Cons.prems that by auto
    then have "tims d' u = tims d u" using run_timer_spec(2) [of d t u s] Cons.prems(1) r by simp
    with \<open>taken e serves d u\<close> show ?thesis by (simp add: taken_def ex_of_def)
  qed
  ultimately show ?case using Cons r by simp
qed simp

end

section \<open>The whole loop\<close>

lemma set_running_tim_inv:
  assumes "timer_inv d"
  shows "timer_inv (set_priv l (\<lambda>p. p\<lparr>running_tim := x\<rparr>) d)"
proof -
  let ?d = "set_priv l (\<lambda>p. p\<lparr>running_tim := x\<rparr>) d"
  have "list_inv ?d m" for m
    by (rule list_inv_priv_flags [OF timer_invD(2) [OF assms, of m]]) simp_all
  moreover have "pending_list m ?d = pending_list m d" "ex_of ?d = ex_of d" for m
    by (simp_all add: pending_list_def)
  ultimately show ?thesis
    using timer_invD [OF assms] unfolding timer_inv_def
    by (intro conjI allI impI ballI) simp_all
qed

lemma rte_timer_manage_eq:
  assumes inv: "timer_inv d"
  shows "rte_timer_manage e call (s, d) =
     (if expired_list e d = [] then (0, s, d)
      else (0, fst (fold (run_timer e call) (expired_list e d) (s, start_expired e d)),
            set_priv (lcore_id e) (\<lambda>p. p\<lparr>running_tim := None\<rparr>)
              (snd (fold (run_timer e call) (expired_list e d) (s, start_expired e d)))))"
proof -
  let ?l = "lcore_id e" and ?now = "timer_cycles e"
  have li: "list_inv d ?l" by (rule timer_invD(2) [OF inv])
  have M: "mark_running e (fst (break_lists ?now ?l d)) (snd (break_lists ?now ?l d)) =
      (expired_list e d, snd (mark_running e (fst (break_lists ?now ?l d)) (snd (break_lists ?now ?l d))))"
    by (rule start_expired_spec(1) [OF inv])
  show ?thesis
  proof (cases "sl (priv d ?l) ! 0")
    case Nil
    then show ?thesis
      using timer_invD(1) [OF inv]
      by (simp add: rte_timer_manage_def Let_def expired_list_def pending_list_def)
  next
    case (Cons t ts)
    have he: "head_expire (priv d ?l) = ex_of d t"
      using li Cons by (simp add: list_inv_def first_expire_def pending_list_def ex_of_def)
    show ?thesis
    proof (cases "ex_of d t \<le> ?now")
      case False
      then show ?thesis
        using timer_invD(1) [OF inv] Cons he
        by (simp add: rte_timer_manage_def Let_def expired_list_def pending_list_def not_le)
    next
      case True
      then have ne: "expired_list e d \<noteq> []" using Cons by (simp add: expired_list_def pending_list_def)
      show ?thesis
        using timer_invD(1) [OF inv] Cons he True ne arg_cong [OF M, of fst]
        by (simp add: rte_timer_manage_def Let_def split_beta start_expired_def ex_of_def not_less
            not_le leD)
    qed
  qed
qed

context timer_callbacks
begin

lemma rte_timer_manage_inv:
  assumes inv: "timer_inv d"
    and cbs: "\<forall>t\<in>set (expired_list e d). (\<exists>cb. f (tims d t) = Some cb \<and> serves t cb) \<and>
      (period (tims d t) \<noteq> 0 \<longrightarrow> expire (tims d t) + period (tims d t) \<noteq> 0)"
  shows "timer_inv (snd (snd (rte_timer_manage e call (s, d))))"
proof (cases "expired_list e d = []")
  case False
  note S = start_expired_spec [OF inv, where e = e]
  have "taken e serves (start_expired e d) t" if t: "t \<in> set (expired_list e d)" for t
  proof -
    have "ex_of d t \<noteq> 0" using t set_expired_list timer_invD(5) [OF inv] by fastforce
    then show ?thesis using cbs t S(5) [of t] by (simp add: taken_def ex_of_def)
  qed
  moreover have "distinct (expired_list e d)"
    using timer_inv_pending_list(1) [OF inv] by (simp add: expired_list_def distinct_takeWhile)
  ultimately have "timer_inv (snd (fold (run_timer e call) (expired_list e d) (s, start_expired e d)))"
    using S(2) by (intro run_timers_inv) auto
  then show ?thesis
    using False rte_timer_manage_eq [OF inv, of e call s] by (simp add: set_running_tim_inv)
qed (simp add: rte_timer_manage_eq [OF inv] inv)

end

text \<open>The application's state changes in the manage loop only through the callbacks.\<close>

lemma run_timer_app:
  assumes "\<And>cb s d. P s \<Longrightarrow> P (fst (call cb (s, d)))" "P (fst sd)"
  shows "P (fst (run_timer e call t sd))"
  using assms
  by (cases sd) (simp add: run_timer_def Let_def split_beta split: option.split)

lemma fold_run_timer_app:
  assumes "\<And>cb s d. P s \<Longrightarrow> P (fst (call cb (s, d)))" "P (fst sd)"
  shows "P (fst (fold (run_timer e call) ts sd))"
  using assms(2)
proof (induction ts arbitrary: sd)
  case (Cons t ts)
  have "P (fst (run_timer e call t sd))"
    by (rule run_timer_app [where P = P]) (use assms(1) Cons.prems in auto)
  then show ?case using Cons.IH by simp
qed simp

lemma rte_timer_manage_app:
  assumes "\<And>cb s d. P s \<Longrightarrow> P (fst (call cb (s, d)))" "P s"
  shows "P (fst (snd (rte_timer_manage e call (s, d))))"
proof -
  have "P (fst (fold (run_timer e call) ts (s, d')))" for ts d'
    using fold_run_timer_app [where P = P] assms by (metis fst_conv)
  then show ?thesis
    using assms(2) by (simp add: rte_timer_manage_def Let_def split_beta)
qed

section \<open>Properties\<close>



end
