(* ===== verification/CLib.thy ===== *)
theory CLib
  imports Prelude "HOL-Library.Monad_Syntax"
begin

text \<open>
  What the applications use of the C library and of the JSON reader: \<^verbatim>\<open>strncpy\<close>,
  \<^verbatim>\<open>snprintf("%d")\<close>, the \<^verbatim>\<open>%x\<close> conversions of \<^verbatim>\<open>sscanf\<close>, and tables of character arrays.
  The JSON reader (jansson) is not part of the repository; its accessors are a record of
  functions. A C string is the list of its characters without the terminating NUL, a
  \<^verbatim>\<open>char[16]\<close> a list of 16 characters.
\<close>

type_synonym ether_addr = "u8 list"

section \<open>Strings and scanning\<close>

text \<open>\<^verbatim>\<open>strncpy(dst, s, n)\<close> with \<open>n\<close> the size of \<open>dst\<close>: at most \<open>n\<close> characters, zero padded.\<close>

definition strncpy :: "nat \<Rightarrow> string \<Rightarrow> string" where
  "strncpy n s = take n s @ replicate (n - length s) (CHR 0x00)"

fun dec_string :: "nat \<Rightarrow> string" where
  "dec_string n = (if n < 10 then [char_of (48 + n)] else dec_string (n div 10) @ [char_of (48 + n mod 10)])"

declare dec_string.simps [simp del]

definition isspace :: "char \<Rightarrow> bool" where
  "isspace c \<longleftrightarrow> (let n = (of_char c :: nat) in n = 32 \<or> 9 \<le> n \<and> n \<le> 13)"

definition xdigit :: "char \<Rightarrow> nat option" where
  "xdigit c = (let n = (of_char c :: nat) in
     if 48 \<le> n \<and> n \<le> 57 then Some (n - 48)
     else if 97 \<le> n \<and> n \<le> 102 then Some (n - 87)
     else if 65 \<le> n \<and> n \<le> 70 then Some (n - 55)
     else None)"

text \<open>
  The conversions \<^verbatim>\<open>%x\<close> and \<^verbatim>\<open>%hhx\<close>: white space is skipped, a sign and a \<^verbatim>\<open>0x\<close> prefix are optional, at
  least one digit is needed; the value is that of \<^verbatim>\<open>strtoul\<close> (which stops at \<^verbatim>\<open>ULONG_MAX\<close>)
  converted to \<^verbatim>\<open>unsigned int\<close> or \<^verbatim>\<open>unsigned char\<close>.
\<close>

fun scan_digits :: "nat \<Rightarrow> string \<Rightarrow> nat \<times> string" where
  "scan_digits v [] = (v, [])"
| "scan_digits v (c # cs) =
     (case xdigit c of None \<Rightarrow> (v, c # cs) | Some x \<Rightarrow> scan_digits (16 * v + x) cs)"

definition scan_sign :: "string \<Rightarrow> bool \<times> string" where
  "scan_sign s = (case s of [] \<Rightarrow> (False, []) | c # cs \<Rightarrow>
     if c = CHR ''-'' then (True, cs) else if c = CHR ''+'' then (False, cs) else (False, s))"

definition scan_prefix :: "string \<Rightarrow> string" where
  "scan_prefix s = (case s of
      z # x # cs \<Rightarrow> if z = CHR ''0'' \<and> (x = CHR ''x'' \<or> x = CHR ''X'') then cs else s
    | _ \<Rightarrow> s)"

definition ULONG_MAX :: nat where "ULONG_MAX = 2 ^ 64 - 1"

definition scan_ulong :: "string \<Rightarrow> (u64 \<times> string) option" where
  "scan_ulong s =
     (let (neg, s) = scan_sign (dropWhile isspace s); s = scan_prefix s in
      case s of [] \<Rightarrow> None
      | c # _ \<Rightarrow> if xdigit c = None then None
          else let (v, rest) = scan_digits 0 s;
                   w = (if ULONG_MAX < v then of_nat ULONG_MAX
                        else if neg then - (of_nat v) else (of_nat v :: u64))
               in Some (w, rest))"

definition scan_hhx :: "string \<Rightarrow> (u8 \<times> string) option" where
  "scan_hhx s = map_option (\<lambda>(w, rest). (ucast w, rest)) (scan_ulong s)"

definition scan_x :: "string \<Rightarrow> (u32 \<times> string) option" where
  "scan_x s = map_option (\<lambda>(w, rest). (ucast w, rest)) (scan_ulong s)"

lemma length_strncpy [simp]: "length (strncpy n s) = n"
  by (simp add: strncpy_def)

section \<open>Printed MAC addresses\<close>

text \<open>The \<^verbatim>\<open>"%02x:%02x:%02x:%02x:%02x:%02x"\<close> of \<^verbatim>\<open>net_init\<close>.\<close>

definition hex_digit :: "nat \<Rightarrow> char" where
  "hex_digit n = char_of (if n < 10 then 48 + n else 87 + n)"

definition hex2 :: "u8 \<Rightarrow> string" where
  "hex2 b = [hex_digit (unat b div 16), hex_digit (unat b mod 16)]"

fun print_mac :: "ether_addr \<Rightarrow> string" where
  "print_mac [] = []"
| "print_mac [b] = hex2 b"
| "print_mac (b # c # bs) = hex2 b @ CHR '':'' # print_mac (c # bs)"

lemma xdigit_hex_digit: "n < 16 \<Longrightarrow> xdigit (hex_digit n) = Some n"
  by (simp add: xdigit_def hex_digit_def Let_def)

lemma of_char_hex_digit: "n < 16 \<Longrightarrow> (of_char (hex_digit n) :: nat) = (if n < 10 then 48 + n else 87 + n)"
  by (simp add: hex_digit_def)

lemma hex_digit_not_special:
  assumes "n < 16"
  shows "\<not> isspace (hex_digit n)" "hex_digit n \<noteq> CHR ''-''" "hex_digit n \<noteq> CHR ''+''"
    "hex_digit n \<noteq> CHR ''x''" "hex_digit n \<noteq> CHR ''X''" "hex_digit n \<noteq> CHR '':''"
proof -
  note n = of_char_hex_digit [OF assms]
  show "\<not> isspace (hex_digit n)" using n by (simp add: isspace_def)
  have *: "hex_digit n \<noteq> c" if "(of_char c :: nat) \<notin> {48..57} \<union> {97..102}" for c
    using n that assms by (auto split: if_splits)
  show "hex_digit n \<noteq> CHR ''-''" "hex_digit n \<noteq> CHR ''+''"
    "hex_digit n \<noteq> CHR ''x''" "hex_digit n \<noteq> CHR ''X''" "hex_digit n \<noteq> CHR '':''"
    by (rule *, simp)+
qed

lemma scan_ulong_hex2:
  assumes "rest = [] \<or> (\<exists>cs. rest = CHR '':'' # cs)"
  shows "scan_ulong (hex2 b @ rest) = Some (ucast b, rest)"
proof -
  have b: "unat b < 256" using unsigned_less [of b] by simp
  have d: "unat b div 16 < 16" "unat b mod 16 < 16" using b by (simp_all add: less_mult_imp_div_less)
  have v: "unat b div 16 * 16 + unat b mod 16 = unat b" by simp
  have w: "of_nat (unat b) = (ucast b :: u64)" by simp
  have nl: "\<not> 18446744073709551615 < unat b" using b by linarith
  have stop: "scan_digits v rest = (v, rest)" for v
    using assms by (auto simp: xdigit_def)
  show ?thesis
    using d hex_digit_not_special [OF d(1)] hex_digit_not_special [OF d(2)] b
    by (simp add: scan_ulong_def hex2_def scan_sign_def scan_prefix_def xdigit_hex_digit stop Let_def
        ULONG_MAX_def v mult.commute [of 16] w nl)
qed

lemma scan_hhx_hex2:
  assumes "rest = [] \<or> (\<exists>cs. rest = CHR '':'' # cs)"
  shows "scan_hhx (hex2 b @ rest) = Some (b, rest)"
proof -
  have w: "ucast (ucast b :: u64) = b" by (rule bit_word_eqI) (simp add: bit_simps)
  show ?thesis using scan_ulong_hex2 [OF assms] by (simp add: scan_hhx_def w)
qed

section \<open>Tables of strings\<close>

text \<open>The C string at entry \<open>i\<close> of a table of character arrays: it runs on into the next entries
  when the array holds no NUL.\<close>

definition c_string_at :: "string list \<Rightarrow> nat \<Rightarrow> string option" where
  "c_string_at tab i =
     (let cs = concat (drop i tab)
      in if CHR 0x00 \<in> set cs then Some (takeWhile (\<lambda>c. c \<noteq> CHR 0x00) cs) else None)"

definition terminated :: "string list \<Rightarrow> bool" where
  "terminated tab \<longleftrightarrow> (\<forall>s\<in>set tab. CHR 0x00 \<in> set s)"

lemma c_string_at_terminated:
  assumes "terminated tab" "i < length tab"
  shows "c_string_at tab i = Some (takeWhile (\<lambda>c. c \<noteq> CHR 0x00) (tab ! i))"
proof -
  have z: "CHR 0x00 \<in> set (tab ! i)" using assms by (simp add: terminated_def)
  moreover have "drop i tab = tab ! i # drop (Suc i) tab" using assms(2) by (simp add: Cons_nth_drop_Suc)
  ultimately show ?thesis
    by (simp add: c_string_at_def takeWhile_append1 [of "CHR 0x00"])
qed

section \<open>JSON\<close>

record 'j jansson =
  json_load_file :: "string \<Rightarrow> 'j option"
  json_object_get :: "'j option \<Rightarrow> string \<Rightarrow> 'j option"
  json_integer_value :: "'j option \<Rightarrow> int"
  json_string_value :: "'j option \<Rightarrow> string option"
  json_is_true :: "'j option \<Rightarrow> bool"

text \<open>The type tests, for the loader that makes them.\<close>

record 'j jansson_types = "'j jansson" +
  json_is_integer :: "'j option \<Rightarrow> bool"
  json_is_object :: "'j option \<Rightarrow> bool"
  json_is_string :: "'j option \<Rightarrow> bool"

end
