(* ===== verification/RaftConfig.thy ===== *)
theory RaftConfig
  imports CLib
begin

text \<open>
  The configuration of a Raft node, \<^verbatim>\<open>app/raft/config.c\<close> and \<^verbatim>\<open>include/config.h\<close>, and the wire
  packet of \<^verbatim>\<open>include/packet.h\<close>. A read through a null pointer is the result \<open>None\<close>.
\<close>

section \<open>Packets\<close>

definition RAFT_PORT :: u16 where "RAFT_PORT = 9999"
definition MSG_VOTE_REQUEST :: u8 where "MSG_VOTE_REQUEST = 1"
definition MSG_VOTE_RESPONSE :: u8 where "MSG_VOTE_RESPONSE = 2"
definition MSG_HEARTBEAT :: u8 where "MSG_HEARTBEAT = 3"

lemmas msg_defs = MSG_VOTE_REQUEST_def MSG_VOTE_RESPONSE_def MSG_HEARTBEAT_def

record raft_packet =
  msg_type :: u8
  packet_term :: u32
  packet_node_id :: u32

section \<open>Configuration\<close>

definition MAX_NODES :: nat where "MAX_NODES = 16"

record raft_config =
  node_num :: u32
  node_id :: u32
  port_id :: u32
  ip_map :: "string list"
  mac_map :: "ether_addr list"
  election_timeout_min_ms :: u32
  election_timeout_max_ms :: u32
  heartbeat_interval_ms :: u32
  test_auto_fail_timeout_ms :: u32
  test_auto_fail_duration_ms :: u32
  test_auto_fail :: bool

section \<open>config.c\<close>

text \<open>
  \<^verbatim>\<open>parse_mac\<close>: six conversions separated by colons, each stored as soon as it is read; the
  result says whether all six were. On a failure the first bytes are already overwritten.
\<close>

fun parse_mac_from :: "nat \<Rightarrow> nat \<Rightarrow> string \<Rightarrow> ether_addr \<Rightarrow> bool \<times> ether_addr" where
  "parse_mac_from 0 i s mac = (True, mac)"
| "parse_mac_from (Suc n) i s mac =
     (case (if i = 0 then Some s else case s of c # cs \<Rightarrow> if c = CHR '':'' then Some cs else None | [] \<Rightarrow> None) of
        None \<Rightarrow> (False, mac)
      | Some s \<Rightarrow> (case scan_hhx s of
            None \<Rightarrow> (False, mac)
          | Some (b, rest) \<Rightarrow> parse_mac_from n (Suc i) rest (mac[i := b])))"

definition parse_mac :: "string \<Rightarrow> ether_addr \<Rightarrow> bool \<times> ether_addr" where
  "parse_mac s mac = parse_mac_from 6 0 s mac"

text \<open>One round of the loop over the node numbers; \<open>None\<close> is \<^verbatim>\<open>strncpy\<close> or \<^verbatim>\<open>sscanf\<close> on a
  JSON value that is not a string.\<close>

definition load_node ::
  "'j jansson \<Rightarrow> 'j option \<Rightarrow> 'j option \<Rightarrow> nat \<Rightarrow> raft_config \<Rightarrow> raft_config option" where
  "load_node J ips macs i cfg =
     (let ip = json_object_get J ips (dec_string i); mac = json_object_get J macs (dec_string i) in
      if ip = None \<or> mac = None then Some cfg
      else case (json_string_value J ip, json_string_value J mac) of
        (Some s, Some m) \<Rightarrow> Some (cfg\<lparr>ip_map := (ip_map cfg)[i := strncpy 16 s],
            mac_map := (mac_map cfg)[i := snd (parse_mac m (mac_map cfg ! i))]\<rparr>)
      | _ \<Rightarrow> None)"

fun load_nodes ::
  "'j jansson \<Rightarrow> 'j option \<Rightarrow> 'j option \<Rightarrow> nat list \<Rightarrow> raft_config \<Rightarrow> raft_config option" where
  "load_nodes J ips macs [] cfg = Some cfg"
| "load_nodes J ips macs (i # is) cfg =
     (case load_node J ips macs i cfg of None \<Rightarrow> None | Some cfg \<Rightarrow> load_nodes J ips macs is cfg)"

definition load_config :: "'j jansson \<Rightarrow> string \<Rightarrow> raft_config \<Rightarrow> (int \<times> raft_config) option" where
  "load_config J filename cfg =
     (case json_load_file J filename of
        None \<Rightarrow> Some (- 1, cfg)
      | Some root \<Rightarrow>
          let get = (\<lambda>k. json_object_get J (Some root) k);
              num = (\<lambda>k. word_of_int (json_integer_value J (get k)) :: u32);
              cfg = cfg\<lparr>node_num := num ''node_num'', node_id := num ''node_id'', port_id := num ''port_id'',
                election_timeout_min_ms := num ''election_timeout_min_ms'',
                election_timeout_max_ms := num ''election_timeout_max_ms'',
                heartbeat_interval_ms := num ''heartbeat_interval_ms'',
                test_auto_fail_timeout_ms := num ''test_auto_fail_timeout_ms'',
                test_auto_fail_duration_ms := num ''test_auto_fail_duration_ms'',
                test_auto_fail := json_is_true J (get ''test_auto_fail'')\<rparr>
          in map_option (\<lambda>cfg. (0, cfg))
               (load_nodes J (get ''ip_map'') (get ''mac_map'') [1..<MAX_NODES + 1] cfg))"

section \<open>What the loader does\<close>

definition config_ok :: "raft_config \<Rightarrow> bool" where
  "config_ok cfg \<longleftrightarrow> length (ip_map cfg) = MAX_NODES + 1 \<and> length (mac_map cfg) = MAX_NODES + 1 \<and>
     (\<forall>s\<in>set (ip_map cfg). length s = 16) \<and> (\<forall>m\<in>set (mac_map cfg). length m = 6)"

lemma parse_mac_from_length: "parse_mac_from n i s mac = (ok, mac') \<Longrightarrow> length mac' = length mac"
  by (induction n arbitrary: i s mac) (auto split: option.splits if_splits list.splits)

lemma parse_mac_length [simp]: "length (snd (parse_mac s mac)) = length mac"
  using parse_mac_from_length [of 6 0 s mac] by (cases "parse_mac_from 6 0 s mac") (simp add: parse_mac_def)

lemma load_node_ok:
  assumes "load_node J ips macs i cfg = Some cfg'" "config_ok cfg" "i \<le> MAX_NODES"
  shows "config_ok cfg'"
proof -
  have m: "length (mac_map cfg ! i) = 6"
    using assms(2,3) by (simp add: config_ok_def)
  show ?thesis
    using assms m unfolding load_node_def Let_def config_ok_def
    by (auto split: if_splits option.splits dest!: subsetD [OF set_update_subset_insert])
qed

lemma load_nodes_ok:
  assumes "load_nodes J ips macs is cfg = Some cfg'" "config_ok cfg" "\<forall>i\<in>set is. i \<le> MAX_NODES"
  shows "config_ok cfg'"
  using assms by (induction "is" arbitrary: cfg) (auto split: option.splits intro: load_node_ok)

lemma load_config_ok:
  assumes "load_config J file cfg = Some (rc, cfg')" "config_ok cfg"
  shows "config_ok cfg'"
proof (cases "json_load_file J file")
  case (Some root)
  have bnd: "\<forall>i\<in>set [1..<MAX_NODES + 1]. i \<le> MAX_NODES" by auto
  from assms(1) Some obtain c ips macs where c: "load_nodes J ips macs [1..<MAX_NODES + 1] c = Some cfg'"
    "ip_map c = ip_map cfg" "mac_map c = mac_map cfg"
    unfolding load_config_def Let_def by (fastforce simp del: upt_Suc)
  show ?thesis
    using load_nodes_ok [OF c(1) _ bnd] assms(2) c(2,3) by (simp add: config_ok_def)
qed (use assms in \<open>simp add: load_config_def\<close>)

section \<open>MAC addresses are read back\<close>

lemma parse_mac_print_mac:
  assumes "length mac = 6" "length old = 6"
  shows "parse_mac (print_mac mac) old = (True, mac)"
proof -
  obtain a b c d e f where mac: "mac = [a, b, c, d, e, f]"
    using assms(1) by (auto simp: length_Suc_conv numeral_eq_Suc)
  obtain a' b' c' d' e' f' where old: "old = [a', b', c', d', e', f']"
    using assms(2) by (auto simp: length_Suc_conv numeral_eq_Suc)
  show ?thesis
    by (simp add: mac old parse_mac_def numeral_eq_Suc scan_hhx_hex2 scan_hhx_hex2 [where rest = "[]", simplified])
qed

section \<open>Properties\<close>

text \<open>The loader keeps the shape of the address tables: 17 entries of 16 characters and of 6
  bytes, whatever the JSON says; a file that cannot be read changes nothing.\<close>

theorem load_config_keeps_tables:
  assumes "config_ok cfg" "load_config J file cfg = Some (rc, cfg')"
  shows "config_ok cfg' \<and> (rc = 0 \<or> (rc = - 1 \<and> cfg' = cfg \<and> json_load_file J file = None))"
  using assms load_config_ok [OF assms(2,1)]
  by (auto simp: load_config_def Let_def split: option.splits)

definition empty_config :: raft_config where
  "empty_config = \<lparr>node_num = 0, node_id = 0, port_id = 0, ip_map = replicate 17 (replicate 16 (CHR 0x00)),
     mac_map = replicate 17 (replicate 6 0), election_timeout_min_ms = 0, election_timeout_max_ms = 0,
     heartbeat_interval_ms = 0, test_auto_fail_timeout_ms = 0, test_auto_fail_duration_ms = 0, test_auto_fail = False\<rparr>"

definition no_json :: "unit jansson" where
  "no_json = \<lparr>json_load_file = (\<lambda>_. None), json_object_get = (\<lambda>_ _. None), json_integer_value = (\<lambda>_. 0),
     json_string_value = (\<lambda>_. None), json_is_true = (\<lambda>_. False)\<rparr>"

lemma load_config_keeps_tables_witness:
  "config_ok empty_config \<and> load_config no_json ''config.json'' empty_config = Some (- 1, empty_config)"
proof -
  have l: "load_config no_json ''config.json'' empty_config = Some (- 1, empty_config)"
    by (simp add: load_config_def no_json_def)
  have "config_ok empty_config" by (simp add: config_ok_def empty_config_def MAX_NODES_def)
  with load_config_keeps_tables [OF this l] l show ?thesis by simp
qed

text \<open>\<^verbatim>\<open>parse_mac\<close> reads back the six bytes of a MAC address that \<^verbatim>\<open>net_init\<close> prints, whatever the
  address table held before.\<close>

theorem parse_mac_reads_printed:
  assumes "length mac = 6" "length old = 6"
  shows "parse_mac (print_mac mac) old = (True, mac)"
  by (rule parse_mac_print_mac [OF assms])

lemma parse_mac_reads_printed_witness:
  "parse_mac (print_mac [0x1c, 0x34, 0xda, 0x72, 0xfa, 0xd6]) [0, 0, 0, 0, 0, 0] =
     (True, [0x1c, 0x34, 0xda, 0x72, 0xfa, 0xd6])"
  by (rule parse_mac_reads_printed) simp_all

end
