(* ===== verification/RaftTimeout.thy ===== *)
theory RaftTimeout
  imports RteTimerManage RaftConfig
begin

text \<open>
  The randomised election timeout, \<^verbatim>\<open>app/raft/timeout.c\<close>, on the timer library. The static
  variables \<^verbatim>\<open>g_min_ms\<close> and \<^verbatim>\<open>g_max_ms\<close> are a pair. \<open>None\<close> is the trap of a division by zero.
\<close>

definition timeout_init :: "u32 \<Rightarrow> u32 \<Rightarrow> u32 \<times> u32" where
  "timeout_init min_ms max_ms = (min_ms, max_ms)"

definition rand_in_range :: "nat \<Rightarrow> u32 \<Rightarrow> u32 \<Rightarrow> rte_rand_state list \<Rightarrow> (u32 \<times> rte_rand_state list) option" where
  "rand_in_range lcore mn mx rs =
     (let (r, rs) = rte_rand lcore rs
      in if mx - mn + 1 = 0 then None else Some (mn + (ucast r :: u32) mod (mx - mn + 1), rs))"

definition ms_to_cycles :: "eal \<Rightarrow> u64 \<Rightarrow> u64" where
  "ms_to_cycles e ms = ms * timer_hz e div 1000"

definition timeout_start_election ::
  "eal \<Rightarrow> u32 \<times> u32 \<Rightarrow> nat \<Rightarrow> 'cb \<Rightarrow> 'cb timer_data \<Rightarrow> 'cb timer_data option" where
  "timeout_start_election e g t cb d =
     do { (ms, rs) \<leftarrow> rand_in_range (lcore_id e) (fst g) (snd g) (rands d);
          let d = d\<lparr>rands := rs\<rparr>;
          let d = snd (rte_timer_stop e t d);
          let d = rte_timer_init t d;
          Some (snd (rte_timer_reset e t (ms_to_cycles e (ucast ms)) SINGLE (main_lcore e) cb d)) }"

definition timeout_stop :: "eal \<Rightarrow> nat \<Rightarrow> 'cb timer_data \<Rightarrow> 'cb timer_data" where
  "timeout_stop e t d = snd (rte_timer_stop e t d)"

section \<open>The random range\<close>

lemma rand_in_range_total:
  "mn \<le> mx \<Longrightarrow> (mn, mx) \<noteq> (0, - 1) \<Longrightarrow> rand_in_range l mn mx rs \<noteq> None"
proof
  have m1: "unat (- 1 :: u32) = 4294967295" by (simp add: unsigned_minus_1_eq_mask mask_eq_exp_minus_1)
  assume le: "mn \<le> mx" and ne: "(mn, mx) \<noteq> (0, - 1)" and n: "rand_in_range l mn mx rs = None"
  then have "mx - mn = - 1"
    by (simp add: rand_in_range_def split_beta eq_neg_iff_add_eq_0 split: if_splits)
  then have "unat (mx - mn) = unat (- 1 :: u32)" by (rule arg_cong)
  then have "unat mx - unat mn = 4294967295" using le by (simp add: unat_sub m1)
  then have "unat mx = 4294967295" "unat mn = 0"
    using unat_less_32 [of mx] by linarith+
  then show False using ne by (simp add: word_unat_eq_iff m1)
qed

lemma rand_in_range_bounds:
  assumes "rand_in_range l mn mx rs = Some (v, rs')" "mn \<le> mx"
  shows "mn \<le> v" "v \<le> mx"
proof -
  let ?r = "ucast (fst (rte_rand l rs)) :: u32"
  have v: "v = mn + ?r mod (mx - mn + 1)" "mx - mn + 1 \<noteq> 0"
    using assms(1) by (auto simp: rand_in_range_def split_beta split: if_splits)
  have "unat (?r mod (mx - mn + 1)) < unat (mx - mn + 1)"
    using v(2) by (simp add: unat_mod unat_gt_0)
  moreover have "unat (mx - mn + 1) = unat mx - unat mn + 1"
    using unat_Suc_no_wrap [of "mx - mn"] v(2) assms(2) by (simp add: unat_sub eq_neg_iff_add_eq_0)
  ultimately have k: "unat (?r mod (mx - mn + 1)) \<le> unat mx - unat mn" by simp
  have "unat mn + unat (?r mod (mx - mn + 1)) \<le> unat mx"
    using k assms(2) by (simp add: word_le_nat_alt)
  moreover have "unat v = unat mn + unat (?r mod (mx - mn + 1))"
    unfolding v(1)
    by (rule unat_add_no_wrap, rule order.strict_trans1 [OF calculation(1)]) (rule unsigned_less)
  ultimately show "mn \<le> v" "v \<le> mx" by (simp_all add: word_le_nat_alt)
qed

section \<open>Properties\<close>

text \<open>For a configured range whose minimum does not exceed its maximum and that is not the whole
  32-bit range, the election timeout is drawn without a trap and lies within the range.\<close>

theorem rand_in_range_in_range:
  assumes "mn \<le> mx" "(mn, mx) \<noteq> (0, - 1)"
  shows "\<exists>v rs'. rand_in_range l mn mx rs = Some (v, rs') \<and> mn \<le> v \<and> v \<le> mx"
  using rand_in_range_total [OF assms, of l rs] rand_in_range_bounds [OF _ assms(1), of l rs] by fastforce

lemma rand_in_range_in_range_witness:
  "\<exists>v rs'. rand_in_range 0 150 300 (rte_srand 1) = Some (v, rs') \<and> 150 \<le> v \<and> v \<le> 300"
  by (rule rand_in_range_in_range) simp_all

text \<open>Configured with a maximum one below its minimum, the range traps: the divisor wraps to 0.\<close>

theorem rand_in_range_traps: "rand_in_range l mn (mn - 1) rs = None"
  by (simp add: rand_in_range_def split_beta)

end
