(* ===== verification/RaftElection.thy ===== *)
theory RaftElection
  imports RaftTimeout
begin

text \<open>
  The election module of a Raft node, \<^verbatim>\<open>app/raft/election.c\<close> (the same file is used by
  \<^verbatim>\<open>app/raft-netelect\<close>). The static variables of the file and of \<^verbatim>\<open>timeout.c\<close> are the record
  \<open>raft_app\<close>; the three static timers are the handles 1, 2 and 3 of the timer library. The
  record also keeps what the node handed to \<^verbatim>\<open>send_raft_packet\<close>, oldest first, and the lines it
  appended to \<^verbatim>\<open>failover_stats.csv\<close>. A handler returns \<open>None\<close> when it traps: a division by zero
  in the random range, in the auto-fail delay, or by the timer frequency.

  A handler runs on one lcore and reads the cycle counter once: the two readings of
  \<^verbatim>\<open>monotonic_us\<close> in a handler are the same \<open>eal\<close> record.
\<close>

section \<open>State\<close>

datatype raft_state = STATE_FOLLOWER | STATE_CANDIDATE | STATE_LEADER

record raft_node =
  self_id :: u32
  current_term :: u32
  voted_for :: u32
  vote_granted :: u32
  current_state :: raft_state
  last_heard_us :: u64

datatype raft_cb = Election_timeout_cb | Fail_enable_cb | Fail_disable_cb

datatype stats_line = Detect u32 u64 u64 | Elect u32 u64 u64

record raft_app =
  raft_node :: raft_node
  test_auto_fail_enabled :: bool
  election_start_time :: u64
  timeout_range :: "u32 \<times> u32"
  tx :: "(u16 \<times> raft_packet) list"
  failover_stats :: "stats_line list"

type_synonym raft_sys = "raft_app \<times> raft_cb timer_data"

definition election_timer :: nat where "election_timer = 1"
definition fail_timer :: nat where "fail_timer = 2"
definition recover_timer :: nat where "recover_timer = 3"

lemmas timer_handles = election_timer_def fail_timer_def recover_timer_def

abbreviation upd_node :: "(raft_node \<Rightarrow> raft_node) \<Rightarrow> raft_app \<Rightarrow> raft_app" where
  "upd_node g \<equiv> raft_node_update g"

section \<open>Operations\<close>

definition monotonic_us :: "eal \<Rightarrow> u64 option" where
  "monotonic_us e = (if timer_hz e = 0 then None else Some (timer_cycles e * 1000000 div timer_hz e))"

text \<open>
  \<^verbatim>\<open>send_raft_packet\<close> takes the peer as a \<^verbatim>\<open>uint16_t\<close>. The broadcast loop is written for a
  \<^verbatim>\<open>node_num\<close> below \<^verbatim>\<open>UINT32_MAX\<close> (at that value its counter wraps and it does not end).
\<close>

definition send_to :: "raft_packet \<Rightarrow> u32 \<Rightarrow> raft_app \<Rightarrow> raft_app" where
  "send_to pkt dst a = a\<lparr>tx := tx a @ [(ucast dst, pkt)]\<rparr>"

definition peers :: "u32 \<Rightarrow> u32 \<Rightarrow> u32 list" where
  "peers num self = filter (\<lambda>p. p \<noteq> self) (map of_nat [1..<unat num + 1])"

definition broadcast_raft_packet :: "raft_config \<Rightarrow> raft_packet \<Rightarrow> raft_app \<Rightarrow> raft_app" where
  "broadcast_raft_packet cfg pkt a = fold (send_to pkt) (peers (node_num cfg) (self_id (raft_node a))) a"

definition start_timeout :: "eal \<Rightarrow> raft_sys \<Rightarrow> raft_sys option" where
  "start_timeout e s = do {
     d \<leftarrow> timeout_start_election e (timeout_range (fst s)) election_timer Election_timeout_cb (snd s);
     Some (fst s, d) }"

definition raft_init :: "raft_config \<Rightarrow> eal \<Rightarrow> u32 \<Rightarrow> raft_sys \<Rightarrow> raft_sys option" where
  "raft_init cfg e nid s =
     start_timeout e ((fst s)\<lparr>raft_node := \<lparr>self_id = nid, current_term = 0, voted_for = 0,
         vote_granted = 0, current_state = STATE_FOLLOWER, last_heard_us = 0\<rparr>,
       timeout_range := timeout_init (election_timeout_min_ms cfg) (election_timeout_max_ms cfg)\<rparr>, snd s)"

definition test_auto_fail_enable :: "bool \<Rightarrow> raft_app \<Rightarrow> raft_app" where
  "test_auto_fail_enable b a = a\<lparr>test_auto_fail_enabled := b\<rparr>"

definition fail_disable_cb :: "raft_sys \<Rightarrow> raft_sys" where
  "fail_disable_cb s = (test_auto_fail_enable False (fst s), snd s)"

definition fail_enable_cb :: "raft_config \<Rightarrow> eal \<Rightarrow> raft_sys \<Rightarrow> raft_sys" where
  "fail_enable_cb cfg e s =
     (let a = test_auto_fail_enable True (fst s);
          cycles = ms_to_cycles e (ucast (test_auto_fail_duration_ms cfg));
          d = rte_timer_init recover_timer (snd s)
      in (a, snd (rte_timer_reset e recover_timer cycles SINGLE (lcore_id e) Fail_disable_cb d)))"

definition start_election :: "raft_config \<Rightarrow> eal \<Rightarrow> raft_sys \<Rightarrow> raft_sys option" where
  "start_election cfg e s = do {
     now \<leftarrow> monotonic_us e;
     let a = upd_node (\<lambda>n. n\<lparr>current_state := STATE_CANDIDATE, current_term := current_term n + 1,
       voted_for := self_id n, vote_granted := 1, last_heard_us := now\<rparr>) (fst s);
     let pkt = \<lparr>msg_type = MSG_VOTE_REQUEST, packet_term = current_term (raft_node a),
       packet_node_id = self_id (raft_node a)\<rparr>;
     start_timeout e (broadcast_raft_packet cfg pkt a, snd s) }"

definition raft_send_heartbeat :: "raft_config \<Rightarrow> raft_app \<Rightarrow> raft_app" where
  "raft_send_heartbeat cfg a =
     (if current_state (raft_node a) \<noteq> STATE_LEADER \<or> test_auto_fail_enabled a then a
      else broadcast_raft_packet cfg \<lparr>msg_type = MSG_HEARTBEAT,
        packet_term = current_term (raft_node a), packet_node_id = self_id (raft_node a)\<rparr> a)"

definition election_timeout_cb :: "raft_config \<Rightarrow> eal \<Rightarrow> raft_sys \<Rightarrow> raft_sys option" where
  "election_timeout_cb cfg e s = do {
     detect_time \<leftarrow> monotonic_us e;
     let n = raft_node (fst s);
     if current_state n = STATE_LEADER then Some s
     else do {
       let a = (fst s)\<lparr>election_start_time := detect_time\<rparr>;
       let a = (if last_heard_us n = 0 then a
         else a\<lparr>failover_stats := failover_stats a @
           [Detect (self_id n) detect_time (detect_time - last_heard_us n)]\<rparr>);
       start_election cfg e (a, snd s) } }"

text \<open>The auto-fail timer that a new leader starts.\<close>

definition arm_fail_timer :: "raft_config \<Rightarrow> eal \<Rightarrow> raft_sys \<Rightarrow> raft_sys option" where
  "arm_fail_timer cfg e s =
     (let (r, rs) = rte_rand (lcore_id e) (rands (snd s));
          lim = test_auto_fail_timeout_ms cfg + 1 in
      if lim = 0 then None
      else let delay = ucast (test_auto_fail_timeout_ms cfg) + r mod ucast lim;
               d = rte_timer_init fail_timer ((snd s)\<lparr>rands := rs\<rparr>)
           in Some (fst s, snd (rte_timer_reset e fail_timer (ms_to_cycles e delay) SINGLE
                (lcore_id e) Fail_enable_cb d)))"

definition become_leader :: "raft_config \<Rightarrow> eal \<Rightarrow> raft_sys \<Rightarrow> raft_sys option" where
  "become_leader cfg e s = do {
     elect_time \<leftarrow> monotonic_us e;
     let a = upd_node (\<lambda>n. n\<lparr>current_state := STATE_LEADER\<rparr>) (fst s);
     let a = a\<lparr>failover_stats := failover_stats a @
       [Elect (self_id (raft_node a)) elect_time (elect_time - election_start_time a)]\<rparr>;
     let a = raft_send_heartbeat cfg a;
     let a = upd_node (\<lambda>n. if vote_granted n > node_num cfg then n\<lparr>vote_granted := node_num cfg\<rparr> else n) a;
     let s = (a, timeout_stop e election_timer (snd s));
     if test_auto_fail cfg then arm_fail_timer cfg e s else Some s }"

text \<open>A packet of a later term makes any node a follower of that term.\<close>

definition adopt_term :: "eal \<Rightarrow> raft_packet \<Rightarrow> raft_sys \<Rightarrow> raft_sys option" where
  "adopt_term e pkt s =
     (if packet_term pkt > current_term (raft_node (fst s)) then
        start_timeout e (upd_node (\<lambda>n. n\<lparr>current_term := packet_term pkt,
          current_state := STATE_FOLLOWER, voted_for := 0\<rparr>) (fst s), snd s)
      else Some s)"

definition handle_vote_request :: "eal \<Rightarrow> u64 \<Rightarrow> raft_packet \<Rightarrow> raft_sys \<Rightarrow> raft_sys option" where
  "handle_vote_request e now pkt s =
     (let n = raft_node (fst s) in
      if current_state n = STATE_FOLLOWER \<and> (voted_for n = 0 \<or> voted_for n = packet_node_id pkt) then do {
        s \<leftarrow> start_timeout e (upd_node (\<lambda>n. n\<lparr>voted_for := packet_node_id pkt, last_heard_us := now\<rparr>) (fst s), snd s);
        let resp = \<lparr>msg_type = MSG_VOTE_RESPONSE, packet_term = current_term n, packet_node_id = self_id n\<rparr>;
        Some (send_to resp (packet_node_id pkt) (fst s), snd s) }
      else Some s)"

definition handle_vote_response :: "raft_config \<Rightarrow> eal \<Rightarrow> raft_packet \<Rightarrow> raft_sys \<Rightarrow> raft_sys option" where
  "handle_vote_response cfg e pkt s =
     (let n = raft_node (fst s) in
      if current_state n = STATE_CANDIDATE \<and> packet_term pkt = current_term n then
        (let a = upd_node (\<lambda>n. n\<lparr>vote_granted := vote_granted n + 1\<rparr>) (fst s) in
         if vote_granted (raft_node a) > node_num cfg div 2 then become_leader cfg e (a, snd s)
         else Some (a, snd s))
      else Some s)"

definition handle_heartbeat :: "eal \<Rightarrow> u64 \<Rightarrow> raft_packet \<Rightarrow> raft_sys \<Rightarrow> raft_sys option" where
  "handle_heartbeat e now pkt s =
     (if packet_term pkt \<ge> current_term (raft_node (fst s)) then
        start_timeout e (upd_node (\<lambda>n. n\<lparr>current_state := STATE_FOLLOWER,
          current_term := packet_term pkt, last_heard_us := now\<rparr>) (fst s), snd s)
      else Some s)"

definition raft_handle_packet :: "raft_config \<Rightarrow> eal \<Rightarrow> raft_packet \<Rightarrow> raft_sys \<Rightarrow> raft_sys option" where
  "raft_handle_packet cfg e pkt s =
     (if test_auto_fail_enabled (fst s) then Some s
      else do {
        now \<leftarrow> monotonic_us e;
        s \<leftarrow> adopt_term e pkt s;
        if msg_type pkt = MSG_VOTE_REQUEST then handle_vote_request e now pkt s
        else if msg_type pkt = MSG_VOTE_RESPONSE then handle_vote_response cfg e pkt s
        else if msg_type pkt = MSG_HEARTBEAT then handle_heartbeat e now pkt s
        else Some s })"

definition raft_get_node_id :: "raft_app \<Rightarrow> u32" where "raft_get_node_id a = self_id (raft_node a)"
definition raft_get_term :: "raft_app \<Rightarrow> u32" where "raft_get_term a = current_term (raft_node a)"
definition raft_get_state :: "raft_app \<Rightarrow> raft_state" where "raft_get_state a = current_state (raft_node a)"

section \<open>The main loop\<close>

text \<open>
  What \<^verbatim>\<open>rte_timer_manage\<close> calls. A trap in a callback leaves no application state (\<open>None\<close>), and
  the callbacks after it do nothing.
\<close>

definition raft_callback :: "raft_config \<Rightarrow> eal \<Rightarrow> raft_cb \<Rightarrow> raft_sys \<Rightarrow> raft_sys option" where
  "raft_callback cfg e cb s = (case cb of
      Election_timeout_cb \<Rightarrow> election_timeout_cb cfg e s
    | Fail_enable_cb \<Rightarrow> Some (fail_enable_cb cfg e s)
    | Fail_disable_cb \<Rightarrow> Some (fail_disable_cb s))"

definition raft_call :: "raft_config \<Rightarrow> eal \<Rightarrow> raft_cb \<Rightarrow>
    raft_app option \<times> raft_cb timer_data \<Rightarrow> raft_app option \<times> raft_cb timer_data" where
  "raft_call cfg e cb ad =
     (case fst ad of None \<Rightarrow> ad
      | Some a \<Rightarrow> (case raft_callback cfg e cb (a, snd ad) of
            None \<Rightarrow> (None, snd ad) | Some s \<Rightarrow> (Some (fst s), snd s)))"

definition lcore_heartbeat :: "raft_config \<Rightarrow> eal \<Rightarrow> u64 \<Rightarrow> raft_app \<Rightarrow> (u64 \<times> raft_app) option" where
  "lcore_heartbeat cfg e last_heartbeat a =
     (if raft_get_state a = STATE_LEADER then do {
        now \<leftarrow> monotonic_us e;
        if now - last_heartbeat \<ge> ucast (heartbeat_interval_ms cfg) * 1000
        then Some (now, raft_send_heartbeat cfg a)
        else Some (last_heartbeat, a) }
      else Some (last_heartbeat, a))"

fun handle_packets :: "raft_config \<Rightarrow> eal \<Rightarrow> raft_packet list \<Rightarrow> raft_sys \<Rightarrow> raft_sys option" where
  "handle_packets cfg e [] s = Some s"
| "handle_packets cfg e (p # ps) s = do { s \<leftarrow> raft_handle_packet cfg e p s; handle_packets cfg e ps s }"

text \<open>One round of \<^verbatim>\<open>lcore_main\<close>: the burst of packets, the timers, the heartbeat.\<close>

definition lcore_main_round ::
  "raft_config \<Rightarrow> eal \<Rightarrow> raft_packet list \<Rightarrow> u64 \<times> raft_sys \<Rightarrow> (u64 \<times> raft_sys) option" where
  "lcore_main_round cfg e rx ls = do {
     s \<leftarrow> handle_packets cfg e rx (snd ls);
     let (_, a, d) = rte_timer_manage e (raft_call cfg e) (Some (fst s), snd s);
     a \<leftarrow> a;
     (hb, a) \<leftarrow> lcore_heartbeat cfg e (fst ls) a;
     Some (hb, a, d) }"

end
