(* ===== verification/RaftNet.thy ===== *)
theory RaftNet
  imports NetHeaders RaftElection
begin

text \<open>
  The wire format of a Raft node, \<^verbatim>\<open>app/raft/networking.c\<close>. A frame is 51 bytes: Ethernet header at
  0 (destination 0, source 6, type 12), IPv4 header at 14, UDP header at 34, \<^verbatim>\<open>struct raft_packet\<close> at
  42. \<open>send_raft_packet\<close> writes the fields one after the other, as the code does, over whatever the
  buffer held; what \<^verbatim>\<open>rte_pktmbuf_alloc\<close> and \<^verbatim>\<open>rte_pktmbuf_append\<close> hand out is the argument \<open>room\<close>
  (the stale bytes, or nothing), and \<^verbatim>\<open>inet_addr\<close> is the parameter \<open>inet\<close>.
\<close>

section \<open>Sending\<close>

text \<open>\<open>Bad_index\<close>: a read outside of the address tables.\<close>

datatype send_result = No_mbuf | Bad_index | Sent "u8 list"

definition fill_ether :: "ether_addr \<Rightarrow> ether_addr \<Rightarrow> u8 list \<Rightarrow> u8 list" where
  "fill_ether src dst m =
     st16 12 (bswap16 RTE_ETHER_TYPE_IPV4) (st_bytes 0 dst (st_bytes 6 src m))"

definition fill_ipv4 :: "u32 \<Rightarrow> u32 \<Rightarrow> u8 list \<Rightarrow> u8 list" where
  "fill_ipv4 src dst m =
     (let m = st8 14 0x45 m;
          m = st8 15 0 m;
          m = st16 16 (bswap16 (20 + 8 + 9)) m;
          m = st16 18 (bswap16 0) m;
          m = st16 20 (bswap16 0) m;
          m = st8 22 64 m;
          m = st8 23 IPPROTO_UDP m;
          m = st32 26 src m
      in st32 30 dst m)"

definition fill_udp :: "u8 list \<Rightarrow> u8 list" where
  "fill_udp m =
     (let m = st16 34 (bswap16 RAFT_PORT) m;
          m = st16 36 (bswap16 RAFT_PORT) m
      in st16 38 (bswap16 (9 + 8)) m)"

definition fill_raft :: "raft_packet \<Rightarrow> u8 list \<Rightarrow> u8 list" where
  "fill_raft pkt m = st32 47 (packet_node_id pkt) (st32 43 (packet_term pkt) (st8 42 (msg_type pkt) m))"

definition fill_cksums :: "u8 list \<Rightarrow> u8 list" where
  "fill_cksums m =
     (let m = st16 24 (rte_ipv4_cksum (drop 14 m)) m
      in st16 40 (rte_ipv4_udptcp_cksum (drop 14 m) (drop 34 m)) m)"

definition send_raft_packet ::
  "(string \<Rightarrow> u32) \<Rightarrow> raft_config \<Rightarrow> u32 \<Rightarrow> u8 list option \<Rightarrow> raft_packet \<Rightarrow> u16 \<Rightarrow> send_result" where
  "send_raft_packet inet cfg self room pkt dst_id =
     (case room of
        None \<Rightarrow> No_mbuf
      | Some m \<Rightarrow>
          if unat self \<ge> length (mac_map cfg) \<or> unat dst_id \<ge> length (mac_map cfg) then Bad_index
          else case (c_string_at (ip_map cfg) (unat self), c_string_at (ip_map cfg) (unat dst_id)) of
              (Some src_ip, Some dst_ip) \<Rightarrow>
                let m = fill_ether (mac_map cfg ! unat self) (mac_map cfg ! unat dst_id) m;
                    m = fill_ipv4 (inet src_ip) (inet dst_ip) m;
                    m = fill_udp m;
                    m = fill_raft pkt m
                in Sent (fill_cksums m)
            | _ \<Rightarrow> Bad_index)"

section \<open>Receiving\<close>

text \<open>
  A received frame is the memory of its buffer from the data pointer on: the code looks at neither
  the length of the frame nor the length field of the IPv4 header, so a short frame is read with the
  bytes that follow it.
\<close>

definition raft_payload :: "u8 list \<Rightarrow> raft_packet option" where
  "raft_payload m =
     (if ld16 m 12 \<noteq> bswap16 RTE_ETHER_TYPE_IPV4 then None
      else if ld8 m 23 \<noteq> IPPROTO_UDP then None
      else if ld16 m 36 \<noteq> bswap16 RAFT_PORT then None
      else Some \<lparr>msg_type = ld8 m 42, packet_term = ld32 m 43, packet_node_id = ld32 m 47\<rparr>)"

text \<open>\<^verbatim>\<open>process_packets\<close> over the burst it received; the number counts the buffers freed.\<close>

fun process_packets ::
  "raft_config \<Rightarrow> eal \<Rightarrow> u8 list list \<Rightarrow> raft_sys \<times> nat \<Rightarrow> (raft_sys \<times> nat) option" where
  "process_packets cfg e [] sn = Some sn"
| "process_packets cfg e (m # rx_bufs) (s, freed) =
     (case raft_payload m of
        None \<Rightarrow> process_packets cfg e rx_bufs (s, freed + 1)
      | Some pkt \<Rightarrow> do {
          s \<leftarrow> raft_handle_packet cfg e pkt s;
          process_packets cfg e rx_bufs (s, freed + 1) })"

section \<open>Reading back what was written\<close>

lemma length_fills [simp]:
  "length m = 51 \<Longrightarrow> length s = 6 \<Longrightarrow> length d = 6 \<Longrightarrow> length (fill_ether s d m) = 51"
  "length (fill_ipv4 a b m) = length m" "length (fill_udp m) = length m"
  "length (fill_raft p m) = length m" "length (fill_cksums m) = length m"
  by (simp_all add: fill_ether_def fill_ipv4_def fill_udp_def fill_raft_def fill_cksums_def Let_def)

lemma nth_fill_ether:
  assumes "length m = 51" "length s = 6" "length d = 6" "i < 51"
  shows "fill_ether s d m ! i = (if i < 6 then d ! i else if i < 12 then s ! (i - 6)
     else if i = 12 then 8 else if i = 13 then 0 else m ! i)"
  using assms by (auto simp: fill_ether_def RTE_ETHER_TYPE_IPV4_def)

lemma nth_fill_ipv4:
  assumes "length m = 51" "i < 51" "i < 26 \<or> 34 \<le> i"
  shows "fill_ipv4 a b m ! i = (if i = 14 then 0x45 else if i = 15 then 0 else if i = 16 then 0
     else if i = 17 then 37 else if i = 18 \<or> i = 19 \<or> i = 20 \<or> i = 21 then 0 else if i = 22 then 64
     else if i = 23 then 17 else m ! i)"
  using assms by (auto simp add: fill_ipv4_def Let_def IPPROTO_UDP_def)

lemma nth_fill_udp:
  assumes "length m = 51"
  shows "fill_udp m ! i = (if i = 34 \<or> i = 36 then 0x27 else if i = 35 \<or> i = 37 then 0x0f
     else if i = 38 then 0 else if i = 39 then 17 else m ! i)"
  using assms by (simp add: fill_udp_def Let_def RAFT_PORT_def)

lemma nth_fill_raft:
  assumes "length m = 51"
  shows "i < 42 \<Longrightarrow> fill_raft p m ! i = m ! i" "fill_raft p m ! 42 = msg_type p"
    "ld32 (fill_raft p m) 43 = packet_term p" "ld32 (fill_raft p m) 47 = packet_node_id p"
  using assms by (simp_all add: fill_raft_def ld32_bytes)

lemma nth_fill_cksums:
  assumes "length m = 51" "i \<noteq> 24" "i \<noteq> 25" "i \<noteq> 40" "i \<noteq> 41"
  shows "fill_cksums m ! i = m ! i"
  using assms by (simp add: fill_cksums_def Let_def)

definition room_ok :: "u8 list \<Rightarrow> bool" where
  "room_ok m \<longleftrightarrow> length m = 51"

text \<open>The frame before the checksums are stored.\<close>

definition blank_frame :: "ether_addr \<Rightarrow> ether_addr \<Rightarrow> u32 \<Rightarrow> u32 \<Rightarrow> raft_packet \<Rightarrow> u8 list \<Rightarrow> u8 list" where
  "blank_frame s d a b p m = fill_raft p (fill_udp (fill_ipv4 a b (fill_ether s d m)))"

lemma blank_frame:
  assumes "length m = 51" "length s = 6" "length d = 6"
  shows "length (blank_frame s d a b p m) = 51"
    and "i < 6 \<Longrightarrow> blank_frame s d a b p m ! i = d ! i"
    and "i < 6 \<Longrightarrow> blank_frame s d a b p m ! (6 + i) = s ! i"
    and "blank_frame s d a b p m ! 12 = 8" "blank_frame s d a b p m ! 13 = 0"
    and "blank_frame s d a b p m ! 14 = 0x45" "blank_frame s d a b p m ! 16 = 0" "blank_frame s d a b p m ! 17 = 37"
    and "blank_frame s d a b p m ! 23 = 17"
    and "blank_frame s d a b p m ! 24 = m ! 24" "blank_frame s d a b p m ! 25 = m ! 25"
    and "blank_frame s d a b p m ! 36 = 0x27" "blank_frame s d a b p m ! 37 = 0x0f"
    and "blank_frame s d a b p m ! 40 = m ! 40" "blank_frame s d a b p m ! 41 = m ! 41"
    and "blank_frame s d a b p m ! 42 = msg_type p" "ld32 (blank_frame s d a b p m) 43 = packet_term p"
    and "ld32 (blank_frame s d a b p m) 47 = packet_node_id p"
  using assms by (simp_all add: blank_frame_def nth_fill_raft nth_fill_udp nth_fill_ipv4 nth_fill_ether)

lemma send_raft_packet_Sent:
  assumes "send_raft_packet inet cfg self (Some m) pkt dst = Sent frm"
  obtains a b where "frm = fill_cksums (blank_frame (mac_map cfg ! unat self) (mac_map cfg ! unat dst) a b pkt m)"
    "unat self < length (mac_map cfg)" "unat dst < length (mac_map cfg)"
  using assms by (auto simp: send_raft_packet_def blank_frame_def Let_def split: if_splits option.splits)

lemma raft_payload_frame:
  assumes "length m = 51" "length s = 6" "length d = 6"
  shows "raft_payload (fill_cksums (blank_frame s d a b p m)) = Some p"
proof -
  let ?b = "blank_frame s d a b p m" and ?f = "fill_cksums (blank_frame s d a b p m)"
  note B = blank_frame [OF assms, where a = a and b = b and p = p]
  have same: "?f ! i = ?b ! i" if "i \<noteq> 24" "i \<noteq> 25" "i \<noteq> 40" "i \<noteq> 41" for i
    using nth_fill_cksums [OF B(1) that] .
  have "ld16 ?f 12 = 8" by (rule ld16_eqI) (simp_all add: B same)
  moreover have "ld16 ?f 36 = 0x0f27" by (rule ld16_eqI) (simp_all add: B same)
  moreover have "ld32 ?f 43 = packet_term p" "ld32 ?f 47 = packet_node_id p"
    unfolding B(17,18) [symmetric] by (rule ld32_cong; simp add: same)+
  ultimately show ?thesis
    by (simp add: raft_payload_def RTE_ETHER_TYPE_IPV4_def RAFT_PORT_def IPPROTO_UDP_def ld8_def same B)
qed

section \<open>The checksums of a sent frame\<close>

lemma udptcp_raw_cong:
  assumes "take 20 ip = take 20 ip'" "20 \<le> length ip" "20 \<le> length ip'"
  shows "rte_ipv4_udptcp_cksum_raw ip l4 = rte_ipv4_udptcp_cksum_raw ip' l4"
proof -
  have n: "ip ! i = ip' ! i" if "i < 20" for i
    using arg_cong [OF assms(1), of "\<lambda>xs. xs ! i"] that by simp
  have "take 8 (drop 12 ip) = take 8 (drop 12 ip')"
    using arg_cong [OF assms(1), of "drop 12"] by (simp add: drop_take)
  then have ph: "rte_ipv4_phdr_cksum ip False = rte_ipv4_phdr_cksum ip' False"
    by (simp add: rte_ipv4_phdr_cksum_def rte_ipv4_hdr_len_def ld8_def ld16_def n)
  show ?thesis
    unfolding rte_ipv4_udptcp_cksum_raw_def ph by (simp add: rte_ipv4_hdr_len_def ld8_def ld16_def n)
qed

lemma take_drop_st16:
  assumes "length m = 51"
  shows "take 20 (drop 14 (st16 40 v m)) = take 20 (drop 14 m)"
  using assms by (simp add: drop_st16 take_st16)

lemma frame_checksums:
  assumes m: "length m = 51" "m ! 14 = 0x45" "ld16 m 16 = 0x2500" "m ! 23 = 17"
  shows "rte_raw_cksum (take 20 (drop 14 (fill_cksums m))) = 0xffff \<longleftrightarrow> cksum_blank (ld16 m 24)"
    and "rte_ipv4_udptcp_cksum_verify (drop 14 (fill_cksums m)) (drop 34 (fill_cksums m)) = 0 \<longleftrightarrow> cksum_blank (ld16 m 40)"
proof -
  let ?ip = "drop 14 m"
  let ?m1 = "st16 24 (rte_ipv4_cksum ?ip) m"
  let ?ip1 = "drop 14 ?m1" and ?l4 = "drop 34 ?m1"
  let ?c = "rte_ipv4_udptcp_cksum ?ip1 ?l4"
  have f: "fill_cksums m = st16 40 ?c ?m1" by (simp add: fill_cksums_def Let_def)
  have ip1: "?ip1 = st16 10 (rte_ipv4_cksum ?ip) ?ip" by (simp add: drop_st16)
  have "take 20 (drop 14 (fill_cksums m)) = take 20 (st16 10 (rte_ipv4_cksum ?ip) ?ip)"
    unfolding f ip1 [symmetric] by (rule take_drop_st16) (simp add: m)
  moreover have "ld16 ?ip 10 = ld16 m 24" by (simp add: ld16_def m)
  ultimately show "rte_raw_cksum (take 20 (drop 14 (fill_cksums m))) = 0xffff \<longleftrightarrow> cksum_blank (ld16 m 24)"
    using ipv4_cksum_verifies_iff [of ?ip] m by (simp add: ld8_def)
  have hl: "rte_ipv4_hdr_len ?ip1 = 20" using m by (simp add: rte_ipv4_hdr_len_def ld8_def)
  have tl: "unat (bswap16 (ld16 ?ip1 2)) = 20 + length ?l4"
  proof -
    have "ld16 ?ip1 2 = ld16 m 16" using m(1) by (simp add: ld16_def)
    then show ?thesis by (simp add: m)
  qed
  have l4: "drop 34 (fill_cksums m) = st16 6 ?c ?l4" by (simp add: f drop_st16)
  have "ld16 ?l4 6 = ld16 m 40" using m(1) by (simp add: ld16_def)
  moreover have "rte_ipv4_udptcp_cksum_verify ?ip1 (st16 6 ?c ?l4) = 0 \<longleftrightarrow> cksum_blank (ld16 ?l4 6)"
    by (rule udptcp_cksum_verifies_iff [OF hl tl]) (simp_all add: m ld8_def IPPROTO_UDP_def)
  moreover have "rte_ipv4_udptcp_cksum_raw (drop 14 (fill_cksums m)) l = rte_ipv4_udptcp_cksum_raw ?ip1 l" for l
    by (rule udptcp_raw_cong) (simp_all add: f take_drop_st16 m)
  ultimately show "rte_ipv4_udptcp_cksum_verify (drop 14 (fill_cksums m)) (drop 34 (fill_cksums m)) = 0 \<longleftrightarrow> cksum_blank (ld16 m 40)"
    by (simp only: l4 rte_ipv4_udptcp_cksum_verify_def)
qed

section \<open>Properties\<close>

lemma process_packets_eq:
  "process_packets cfg e ms (s, n) =
     map_option (\<lambda>s. (s, n + length ms)) (handle_packets cfg e (List.map_filter raft_payload ms) s)"
proof (induction ms arbitrary: s n)
  case (Cons m ms)
  then show ?case
    by (cases "raft_payload m"; cases "raft_handle_packet cfg e (the (raft_payload m)) s")
      (simp_all add: map_filter_simps)
qed (simp add: map_filter_simps)

lemma send_raft_packet_frame:
  assumes cfg: "config_ok cfg" "terminated (ip_map cfg)" and ids: "unat self \<le> MAX_NODES" "unat dst \<le> MAX_NODES"
  shows "\<exists>a b. send_raft_packet inet cfg self (Some m) pkt dst =
     Sent (fill_cksums (blank_frame (mac_map cfg ! unat self) (mac_map cfg ! unat dst) a b pkt m))"
  using cfg ids
  by (simp add: send_raft_packet_def config_ok_def c_string_at_terminated blank_frame_def Let_def) blast

text \<open>C27: A frame that \<^verbatim>\<open>send_raft_packet\<close> builds, whatever bytes the buffer held before, carries the
  peer's and the node's own MAC address, and \<^verbatim>\<open>process_packets\<close> of the peer hands exactly the packet
  that was sent to \<^verbatim>\<open>raft_handle_packet\<close>.\<close>

theorem sent_frame_is_received:
  assumes cfg: "config_ok cfg" "terminated (ip_map cfg)" and ids: "unat self \<le> MAX_NODES" "unat dst \<le> MAX_NODES"
    and m: "length m = 51"
  shows "\<exists>frm. send_raft_packet inet cfg self (Some m) pkt dst = Sent frm \<and> length frm = 51 \<and>
     take 6 frm = mac_map cfg ! unat dst \<and> take 6 (drop 6 frm) = mac_map cfg ! unat self \<and>
     process_packets cfg' e [frm] (s, n) = map_option (\<lambda>s. (s, n + 1)) (raft_handle_packet cfg' e pkt s)"
proof -
  let ?s = "mac_map cfg ! unat self" and ?d = "mac_map cfg ! unat dst"
  obtain a b where sent: "send_raft_packet inet cfg self (Some m) pkt dst = Sent (fill_cksums (blank_frame ?s ?d a b pkt m))"
    using send_raft_packet_frame [OF cfg ids] by blast
  let ?f = "fill_cksums (blank_frame ?s ?d a b pkt m)"
  have l: "length ?s = 6" "length ?d = 6" using cfg(1) ids by (simp_all add: config_ok_def)
  note B = blank_frame [OF m l, where a = a and b = b and p = pkt]
  have "take 6 ?f = ?d" by (rule nth_equalityI) (use m l in \<open>simp_all add: B nth_fill_cksums\<close>)
  moreover have "take 6 (drop 6 ?f) = ?s" by (rule nth_equalityI) (use m l in \<open>simp_all add: B nth_fill_cksums\<close>)
  moreover have "process_packets cfg' e [?f] (s, n) = map_option (\<lambda>s. (s, n + 1)) (raft_handle_packet cfg' e pkt s)"
    by (cases "raft_handle_packet cfg' e pkt s") (simp_all add: process_packets_eq map_filter_simps raft_payload_frame [OF m l])
  ultimately show ?thesis using sent B(1) by simp
qed

lemma demo_wire: "config_ok empty_config" "terminated (ip_map empty_config)"
  by (simp_all add: config_ok_def terminated_def empty_config_def MAX_NODES_def)

lemma sent_frame_is_received_witness:
  "\<exists>frm. send_raft_packet (\<lambda>_. 0x0100007f) empty_config 1 (Some (replicate 51 0xff))
       \<lparr>msg_type = MSG_HEARTBEAT, packet_term = 258, packet_node_id = 1\<rparr> 2 = Sent frm \<and>
     length frm = 51 \<and> take 6 frm = replicate 6 0"
proof -
  have "unat (1 :: u32) \<le> MAX_NODES" "unat (2 :: u16) \<le> MAX_NODES" "length (replicate 51 (0xff :: u8)) = 51"
    "mac_map empty_config ! unat (2 :: u16) = replicate 6 0"
    by (simp_all add: MAX_NODES_def empty_config_def)
  then show ?thesis
    using sent_frame_is_received [OF demo_wire, of 1 2 "replicate 51 0xff" "\<lambda>_. 0x0100007f"
        "\<lparr>msg_type = MSG_HEARTBEAT, packet_term = 258, packet_node_id = 1\<rparr>"] by metis
qed

text \<open>The checksums of a sent frame are right exactly when the buffer happened to hold zero (or all
  ones) at the checksum fields: the code does not clear them before it sums the headers.\<close>

theorem sent_checksums_need_blank_fields:
  assumes cfg: "config_ok cfg" and m: "length m = 51"
    and sent: "send_raft_packet inet cfg self (Some m) pkt dst = Sent frm"
  shows "(rte_raw_cksum (take 20 (drop 14 frm)) = 0xffff \<longleftrightarrow> cksum_blank (ld16 m 24)) \<and>
     (rte_ipv4_udptcp_cksum_verify (drop 14 frm) (drop 34 frm) = 0 \<longleftrightarrow> cksum_blank (ld16 m 40))"
proof -
  let ?s = "mac_map cfg ! unat self" and ?d = "mac_map cfg ! unat dst"
  obtain a b where f: "frm = fill_cksums (blank_frame ?s ?d a b pkt m)"
      and u: "unat self < length (mac_map cfg)" "unat dst < length (mac_map cfg)"
    using send_raft_packet_Sent [OF sent] by blast
  have l: "length ?s = 6" "length ?d = 6" using cfg u by (simp_all add: config_ok_def)
  let ?b = "blank_frame ?s ?d a b pkt m"
  note B = blank_frame [OF m l, where a = a and b = b and p = pkt]
  have "ld16 ?b 16 = 0x2500" by (rule ld16_eqI) (simp_all add: B)
  moreover have "ld16 ?b 24 = ld16 m 24" "ld16 ?b 40 = ld16 m 40" by (simp_all add: ld16_def B)
  ultimately show ?thesis unfolding f using frame_checksums [OF B(1)] by (simp add: B)
qed

lemma sent_checksums_need_blank_fields_witness:
  "\<exists>frm. send_raft_packet (\<lambda>_. 0x0100007f) empty_config 1 (Some (replicate 51 0xaa))
       \<lparr>msg_type = MSG_HEARTBEAT, packet_term = 1, packet_node_id = 1\<rparr> 2 = Sent frm \<and>
     rte_raw_cksum (take 20 (drop 14 frm)) \<noteq> 0xffff"
proof -
  let ?p = "\<lparr>msg_type = MSG_HEARTBEAT, packet_term = 1, packet_node_id = 1\<rparr>"
  obtain frm where sent: "send_raft_packet (\<lambda>_. 0x0100007f) empty_config 1 (Some (replicate 51 0xaa)) ?p 2 = Sent frm"
    using send_raft_packet_frame [OF demo_wire, of 1 2] by (fastforce simp: MAX_NODES_def)
  have "\<not> cksum_blank (ld16 (replicate 51 0xaa) 24)" by (simp add: ld16_def cksum_blank_def)
  then show ?thesis
    using sent sent_checksums_need_blank_fields [OF demo_wire(1) _ sent] by simp
qed

text \<open>\<^verbatim>\<open>process_packets\<close> handles exactly the frames that are IPv4, UDP and for the Raft port, in
  their order, and frees every buffer of the burst.\<close>

theorem process_packets_filters:
  "process_packets cfg e ms (s, n) =
     map_option (\<lambda>s. (s, n + length ms)) (handle_packets cfg e (List.map_filter raft_payload ms) s)"
  by (rule process_packets_eq)

end
