(* ===== verification/RaftSpec.thy ===== *)
theory RaftSpec
  imports RaftElection
begin

text \<open>
  The abstract specification of a Raft node without timers, clocks and statistics, and the
  refinement: what the handlers of \<^verbatim>\<open>election.c\<close> do to the term, the vote, the role and the
  packets sent is exactly what the specification says.
\<close>

section \<open>Specification\<close>

record core =
  c_id :: u32
  c_term :: u32
  c_vote :: u32
  c_granted :: u32
  c_state :: raft_state

definition core_of :: "raft_app \<Rightarrow> core" where
  "core_of a = \<lparr>c_id = self_id (raft_node a), c_term = current_term (raft_node a),
     c_vote = voted_for (raft_node a), c_granted = vote_granted (raft_node a),
     c_state = current_state (raft_node a)\<rparr>"

type_synonym msgs = "(u16 \<times> raft_packet) list"

definition spec_broadcast :: "u32 \<Rightarrow> u8 \<Rightarrow> core \<Rightarrow> msgs" where
  "spec_broadcast num ty c = map (\<lambda>p. (ucast p, \<lparr>msg_type = ty, packet_term = c_term c, packet_node_id = c_id c\<rparr>))
     (peers num (c_id c))"

definition spec_timeout :: "u32 \<Rightarrow> core \<Rightarrow> core \<times> msgs" where
  "spec_timeout num c =
     (if c_state c = STATE_LEADER then (c, [])
      else let c = c\<lparr>c_state := STATE_CANDIDATE, c_term := c_term c + 1, c_vote := c_id c, c_granted := 1\<rparr>
           in (c, spec_broadcast num MSG_VOTE_REQUEST c))"

definition spec_adopt :: "raft_packet \<Rightarrow> core \<Rightarrow> core" where
  "spec_adopt pkt c =
     (if c_term c < packet_term pkt
      then c\<lparr>c_term := packet_term pkt, c_state := STATE_FOLLOWER, c_vote := 0\<rparr> else c)"

definition spec_grants :: "raft_packet \<Rightarrow> core \<Rightarrow> bool" where
  "spec_grants pkt c \<longleftrightarrow> c_state c = STATE_FOLLOWER \<and> c_vote c \<in> {0, packet_node_id pkt}"

definition spec_react :: "u32 \<Rightarrow> raft_packet \<Rightarrow> core \<Rightarrow> core \<times> msgs" where
  "spec_react num pkt c =
     (if msg_type pkt = MSG_VOTE_REQUEST \<and> spec_grants pkt c then
        (c\<lparr>c_vote := packet_node_id pkt\<rparr>, [(ucast (packet_node_id pkt),
           \<lparr>msg_type = MSG_VOTE_RESPONSE, packet_term = c_term c, packet_node_id = c_id c\<rparr>)])
      else if msg_type pkt = MSG_VOTE_RESPONSE \<and> c_state c = STATE_CANDIDATE \<and> packet_term pkt = c_term c then
        (if c_granted c + 1 > num div 2
         then (c\<lparr>c_state := STATE_LEADER, c_granted := min (c_granted c + 1) (num)\<rparr>,
               spec_broadcast num MSG_HEARTBEAT c)
         else (c\<lparr>c_granted := c_granted c + 1\<rparr>, []))
      else if msg_type pkt = MSG_HEARTBEAT \<and> c_term c \<le> packet_term pkt then
        (c\<lparr>c_state := STATE_FOLLOWER, c_term := packet_term pkt\<rparr>, [])
      else (c, []))"

definition spec_handle :: "u32 \<Rightarrow> raft_packet \<Rightarrow> core \<Rightarrow> core \<times> msgs" where
  "spec_handle num pkt c = spec_react num pkt (spec_adopt pkt c)"

section \<open>Refinement\<close>

lemma core_of_simps [simp]:
  "c_id (core_of a) = self_id (raft_node a)" "c_term (core_of a) = current_term (raft_node a)"
  "c_vote (core_of a) = voted_for (raft_node a)" "c_granted (core_of a) = vote_granted (raft_node a)"
  "c_state (core_of a) = current_state (raft_node a)"
  by (simp_all add: core_of_def)

lemma core_of_cong: "raft_node a = raft_node b \<Longrightarrow> core_of a = core_of b"
  by (simp add: core_of_def)

lemma fold_send_to: "fold (send_to pkt) ps a = a\<lparr>tx := tx a @ map (\<lambda>p. (ucast p, pkt)) ps\<rparr>"
  by (induction ps arbitrary: a) (simp_all add: send_to_def)

lemma broadcast_eq:
  "broadcast_raft_packet cfg pkt a =
     a\<lparr>tx := tx a @ map (\<lambda>p. (ucast p, pkt)) (peers (node_num cfg) (self_id (raft_node a)))\<rparr>"
  by (simp add: broadcast_raft_packet_def fold_send_to)

lemma start_timeout_fst: "start_timeout e s = Some s' \<Longrightarrow> fst s' = fst s"
  by (auto simp: start_timeout_def bind_eq_Some_conv)

lemma start_election_refines:
  assumes "start_election cfg e (a, d) = Some (a', d')"
  defines "c \<equiv> (core_of a)\<lparr>c_state := STATE_CANDIDATE, c_term := c_term (core_of a) + 1,
    c_vote := c_id (core_of a), c_granted := 1\<rparr>"
  shows "core_of a' = c \<and> tx a' = tx a @ spec_broadcast (node_num cfg) MSG_VOTE_REQUEST c \<and>
    test_auto_fail_enabled a' = test_auto_fail_enabled a \<and> timeout_range a' = timeout_range a"
proof -
  obtain now where "start_timeout e (broadcast_raft_packet cfg
      \<lparr>msg_type = MSG_VOTE_REQUEST, packet_term = current_term (raft_node a) + 1,
        packet_node_id = self_id (raft_node a)\<rparr>
      (upd_node (\<lambda>n. n\<lparr>current_state := STATE_CANDIDATE, current_term := current_term n + 1,
         voted_for := self_id n, vote_granted := 1, last_heard_us := now\<rparr>) a), d) = Some (a', d')"
    using assms(1) by (auto simp: start_election_def bind_eq_Some_conv)
  from start_timeout_fst [OF this] show ?thesis
    by (simp add: c_def broadcast_eq spec_broadcast_def core_of_def)
qed

lemma election_timeout_cb_refines:
  assumes "election_timeout_cb cfg e (a, d) = Some (a', d')"
  shows "spec_timeout (node_num cfg) (core_of a) = (core_of a', drop (length (tx a)) (tx a')) \<and>
    take (length (tx a)) (tx a') = tx a \<and>
    test_auto_fail_enabled a' = test_auto_fail_enabled a \<and> timeout_range a' = timeout_range a"
proof (cases "current_state (raft_node a) = STATE_LEADER")
  case True
  then show ?thesis
    using assms by (auto simp: election_timeout_cb_def bind_eq_Some_conv spec_timeout_def)
next
  case False
  obtain b where b: "start_election cfg e (b, d) = Some (a', d')" "core_of b = core_of a" "tx b = tx a"
    "test_auto_fail_enabled b = test_auto_fail_enabled a" "timeout_range b = timeout_range a"
  proof -
    obtain t where t: "start_election cfg e ((let b = a\<lparr>election_start_time := t\<rparr> in
        if last_heard_us (raft_node a) = 0 then b else b\<lparr>failover_stats := failover_stats b @
           [Detect (self_id (raft_node a)) t (t - last_heard_us (raft_node a))]\<rparr>), d) = Some (a', d')"
      using assms False by (auto simp: election_timeout_cb_def bind_eq_Some_conv Let_def)
    show ?thesis by (rule that [OF t]) (simp_all add: Let_def core_of_def)
  qed
  show ?thesis
    using start_election_refines [OF b(1)] b(2-5) False by (simp add: spec_timeout_def Let_def)
qed

lemma adopt_term_refines:
  assumes "adopt_term e pkt (a, d) = Some (a', d')"
  shows "core_of a' = spec_adopt pkt (core_of a) \<and> tx a' = tx a \<and>
     test_auto_fail_enabled a' = test_auto_fail_enabled a \<and> timeout_range a' = timeout_range a"
  using assms
  by (auto simp: adopt_term_def spec_adopt_def core_of_def split: if_splits dest!: start_timeout_fst)

lemma arm_fail_timer_fst: "arm_fail_timer cfg e s = Some s' \<Longrightarrow> fst s' = fst s"
  by (auto simp: arm_fail_timer_def Let_def split_beta split: if_splits)

lemma become_leader_refines:
  assumes "become_leader cfg e (a, d) = Some (a', d')" "\<not> test_auto_fail_enabled a"
  shows "core_of a' = (core_of a)\<lparr>c_state := STATE_LEADER, c_granted := min (c_granted (core_of a)) (node_num cfg)\<rparr>"
    and "tx a' = tx a @ spec_broadcast (node_num cfg) MSG_HEARTBEAT (core_of a)"
    and "\<not> test_auto_fail_enabled a'" "timeout_range a' = timeout_range a"
  using assms
  by (auto simp: become_leader_def bind_eq_Some_conv Let_def raft_send_heartbeat_def broadcast_eq
      spec_broadcast_def core_of_def min_def dest!: arm_fail_timer_fst split: if_splits)

lemma raft_handle_packet_refines:
  assumes "raft_handle_packet cfg e pkt (a, d) = Some (a', d')"
  shows "test_auto_fail_enabled a \<longrightarrow> (a', d') = (a, d)"
    and "\<not> test_auto_fail_enabled a \<longrightarrow>
      spec_handle (node_num cfg) pkt (core_of a) = (core_of a', drop (length (tx a)) (tx a'))"
    and "take (length (tx a)) (tx a') = tx a"
    and "test_auto_fail_enabled a' = test_auto_fail_enabled a"
    and "timeout_range a' = timeout_range a"
proof -
  show "test_auto_fail_enabled a \<longrightarrow> (a', d') = (a, d)"
    using assms by (auto simp: raft_handle_packet_def)
  have main: "spec_handle (node_num cfg) pkt (core_of a) = (core_of a', drop (length (tx a)) (tx a')) \<and>
      take (length (tx a)) (tx a') = tx a \<and> test_auto_fail_enabled a' = test_auto_fail_enabled a \<and>
      timeout_range a' = timeout_range a"
    if on: "\<not> test_auto_fail_enabled a"
  proof -
    obtain now a1 d1 where ad: "adopt_term e pkt (a, d) = Some (a1, d1)" and
      rest: "(if msg_type pkt = MSG_VOTE_REQUEST then handle_vote_request e now pkt (a1, d1)
        else if msg_type pkt = MSG_VOTE_RESPONSE then handle_vote_response cfg e pkt (a1, d1)
        else if msg_type pkt = MSG_HEARTBEAT then handle_heartbeat e now pkt (a1, d1)
        else Some (a1, d1)) = Some (a', d')"
      using assms on by (auto simp: raft_handle_packet_def bind_eq_Some_conv)
    note A = adopt_term_refines [OF ad]
    have "spec_react (node_num cfg) pkt (core_of a1) = (core_of a', drop (length (tx a1)) (tx a')) \<and>
      take (length (tx a1)) (tx a') = tx a1 \<and> test_auto_fail_enabled a' = test_auto_fail_enabled a1 \<and>
      timeout_range a' = timeout_range a1"
    proof (cases "msg_type pkt = MSG_VOTE_RESPONSE")
      case True
      then have ne: "msg_type pkt \<noteq> MSG_VOTE_REQUEST" by (simp add: msg_defs)
      have off: "\<not> test_auto_fail_enabled a1" using A on by simp
      define a2 where "a2 = upd_node (\<lambda>n. n\<lparr>vote_granted := vote_granted n + 1\<rparr>) a1"
      have a2: "core_of a2 = (core_of a1)\<lparr>c_granted := c_granted (core_of a1) + 1\<rparr>" "tx a2 = tx a1"
        "\<not> test_auto_fail_enabled a2" "timeout_range a2 = timeout_range a1"
        "vote_granted (raft_node a2) = vote_granted (raft_node a1) + 1"
        using off by (simp_all add: a2_def core_of_def)
      have "become_leader cfg e (a2, d1) = Some (a', d') \<Longrightarrow> ?thesis"
        if "current_state (raft_node a1) = STATE_CANDIDATE" "packet_term pkt = current_term (raft_node a1)"
          "vote_granted (raft_node a1) + 1 > node_num cfg div 2"
        using become_leader_refines [of cfg e a2 d1 a' d'] a2 that off True ne
        by (simp add: spec_react_def spec_broadcast_def)
      then show ?thesis
        using rest True ne a2 off
        by (auto simp: handle_vote_response_def a2_def [symmetric] Let_def spec_react_def msg_defs
            split: if_splits)
    next
      case False
      then show ?thesis
        using rest
        by (auto simp: handle_vote_request_def handle_heartbeat_def spec_react_def spec_grants_def send_to_def
            bind_eq_Some_conv Let_def core_of_def msg_defs split: if_splits dest!: start_timeout_fst)
    qed
    then show ?thesis using A by (simp add: spec_handle_def)
  qed
  show "\<not> test_auto_fail_enabled a \<longrightarrow>
      spec_handle (node_num cfg) pkt (core_of a) = (core_of a', drop (length (tx a)) (tx a'))"
    using main by blast
  show "take (length (tx a)) (tx a') = tx a" "test_auto_fail_enabled a' = test_auto_fail_enabled a"
    "timeout_range a' = timeout_range a"
    using main assms by (cases "test_auto_fail_enabled a"; simp add: raft_handle_packet_def)+
qed

lemma raft_send_heartbeat_refines:
  "core_of (raft_send_heartbeat cfg a) = core_of a"
  "tx (raft_send_heartbeat cfg a) = tx a @
     (if current_state (raft_node a) = STATE_LEADER \<and> \<not> test_auto_fail_enabled a
      then spec_broadcast (node_num cfg) MSG_HEARTBEAT (core_of a) else [])"
  by (simp_all add: raft_send_heartbeat_def broadcast_eq spec_broadcast_def core_of_def)

section \<open>Properties\<close>

text \<open>C2: \<^verbatim>\<open>raft_handle_packet\<close> implements the abstract node: on a node that is not auto-failed, the
  term, the vote, the tally and the role after the packet, and exactly the packets sent while
  handling it, are those of the specification; an auto-failed node ignores the packet.\<close>

theorem raft_handle_packet_implements_spec:
  assumes "raft_handle_packet cfg e pkt (a, d) = Some (a', d')"
  shows "if test_auto_fail_enabled a then a' = a \<and> d' = d
    else core_of a' = fst (spec_handle (node_num cfg) pkt (core_of a)) \<and>
      tx a' = tx a @ snd (spec_handle (node_num cfg) pkt (core_of a))"
proof (cases "test_auto_fail_enabled a")
  case False
  note R = raft_handle_packet_refines [OF assms]
  then have "spec_handle (node_num cfg) pkt (core_of a) = (core_of a', drop (length (tx a)) (tx a'))" using False by blast
  moreover have "tx a' = tx a @ drop (length (tx a)) (tx a')" using R(3) by (metis append_take_drop_id)
  ultimately show ?thesis using False by simp
qed (use raft_handle_packet_refines(1) [OF assms] in auto)

definition quiet_app :: raft_app where
  "quiet_app = \<lparr>raft_node = \<lparr>self_id = 2, current_term = 5, voted_for = 0, vote_granted = 0,
      current_state = STATE_FOLLOWER, last_heard_us = 0\<rparr>,
    test_auto_fail_enabled = False, election_start_time = 0, timeout_range = (150, 300), tx = [], failover_stats = []\<rparr>"

lemma raft_handle_packet_implements_spec_witness:
  "raft_handle_packet empty_config \<lparr>lcore_id = 0, main_lcore = 0, lcore_enabled = (\<lambda>_. True), timer_hz = 1000,
      timer_cycles = 5\<rparr> \<lparr>msg_type = MSG_HEARTBEAT, packet_term = 4, packet_node_id = 1\<rparr> (quiet_app, boot_timers) =
    Some (quiet_app, boot_timers) \<and>
   core_of quiet_app = fst (spec_handle 0 \<lparr>msg_type = MSG_HEARTBEAT, packet_term = 4, packet_node_id = 1\<rparr> (core_of quiet_app))"
proof -
  have "raft_handle_packet empty_config \<lparr>lcore_id = 0, main_lcore = 0, lcore_enabled = (\<lambda>_. True), timer_hz = 1000,
      timer_cycles = 5\<rparr> \<lparr>msg_type = MSG_HEARTBEAT, packet_term = 4, packet_node_id = 1\<rparr> (quiet_app, boot_timers) =
    Some (quiet_app, boot_timers)"
    by (simp add: raft_handle_packet_def quiet_app_def monotonic_us_def adopt_term_def msg_defs handle_heartbeat_def)
  with raft_handle_packet_implements_spec [OF this] show ?thesis
    by (simp add: quiet_app_def empty_config_def)
qed

text \<open>A node grants at most one vote in a term: handling a packet never lowers the term, and a vote
  held in a term is kept as long as the term does not change.\<close>

theorem vote_is_kept_in_its_term:
  assumes "raft_handle_packet cfg e pkt (a, d) = Some (a', d')"
  shows "current_term (raft_node a) \<le> current_term (raft_node a') \<and>
    (current_term (raft_node a') \<noteq> current_term (raft_node a) \<or> voted_for (raft_node a) = 0 \<or>
     voted_for (raft_node a') = voted_for (raft_node a))"
proof (cases "test_auto_fail_enabled a")
  case True
  then show ?thesis using raft_handle_packet_refines(1) [OF assms] by simp
next
  case False
  have spec: "c_term k \<le> c_term (fst (spec_handle n pkt k)) \<and>
    (c_term (fst (spec_handle n pkt k)) \<noteq> c_term k \<or> c_vote k = 0 \<or> c_vote (fst (spec_handle n pkt k)) = c_vote k)" for n k
    by (auto simp: spec_handle_def spec_react_def spec_adopt_def spec_grants_def)
  have "core_of a' = fst (spec_handle (node_num cfg) pkt (core_of a))"
    using raft_handle_packet_refines(2) [OF assms] False by simp
  with spec [of "core_of a" "node_num cfg"] show ?thesis by (metis core_of_simps(2,3))
qed

lemma vote_is_kept_in_its_term_witness:
  "current_term (raft_node quiet_app) \<le> current_term (raft_node quiet_app)"
proof -
  have "raft_handle_packet empty_config \<lparr>lcore_id = 0, main_lcore = 0, lcore_enabled = (\<lambda>_. True), timer_hz = 1000,
      timer_cycles = 5\<rparr> \<lparr>msg_type = 9, packet_term = 4, packet_node_id = 1\<rparr> (quiet_app, boot_timers) =
    Some (quiet_app, boot_timers)"
    by (simp add: raft_handle_packet_def quiet_app_def monotonic_us_def adopt_term_def msg_defs)
  from vote_is_kept_in_its_term [OF this] show ?thesis by simp
qed

end
