(* ===== verification/RaftCluster.thy ===== *)
theory RaftCluster
  imports RaftSpec
begin

text \<open>
  A cluster of Raft nodes that exchange packets, first over the abstract node of
  \<^verbatim>\<open>RaftSpec\<close>, then over the handlers of \<^verbatim>\<open>election.c\<close>. The network is the set of all packets
  ever sent with their destination: a packet of the set may be delivered never, once or several
  times, in any order, so loss, duplication and reordering are covered. The 32-bit term does not
  wrap as long as fewer than \<open>2 ^ 32\<close> elections have been started.
\<close>

section \<open>The abstract cluster\<close>

record acluster =
  cores :: "u32 \<Rightarrow> core"
  net :: "(u16 \<times> raft_packet) set"

definition members :: "u32 \<Rightarrow> u32 set" where
  "members num = {c. 1 \<le> c \<and> c \<le> num}"

definition init_core :: "u32 \<Rightarrow> core" where
  "init_core c = \<lparr>c_id = c, c_term = 0, c_vote = 0, c_granted = 0, c_state = STATE_FOLLOWER\<rparr>"

definition acluster_upd :: "u32 \<Rightarrow> core \<times> msgs \<Rightarrow> acluster \<Rightarrow> acluster" where
  "acluster_upd c km s = \<lparr>cores = (cores s)(c := fst km), net = net s \<union> set (snd km)\<rparr>"

inductive areach :: "u32 \<Rightarrow> nat \<Rightarrow> acluster \<Rightarrow> bool" for num where
  areach_init: "\<lbrakk>\<forall>c\<in>members num. cores s c = init_core c; net s = {}\<rbrakk> \<Longrightarrow> areach num 0 s"
| areach_timeout: "\<lbrakk>areach num k s; c \<in> members num\<rbrakk>
    \<Longrightarrow> areach num (Suc k) (acluster_upd c (spec_timeout num (cores s c)) s)"
| areach_deliver: "\<lbrakk>areach num k s; c \<in> members num; (ucast c, pkt) \<in> net s\<rbrakk>
    \<Longrightarrow> areach num k (acluster_upd c (spec_handle num pkt (cores s c)) s)"
| areach_beat: "\<lbrakk>areach num k s; c \<in> members num; c_state (cores s c) = STATE_LEADER\<rbrakk>
    \<Longrightarrow> areach num k (acluster_upd c (cores s c, spec_broadcast num MSG_HEARTBEAT (cores s c)) s)"

section \<open>Votes on the network\<close>

definition requested :: "(u16 \<times> raft_packet) set \<Rightarrow> u32 \<Rightarrow> u32 \<Rightarrow> bool" where
  "requested M t c \<longleftrightarrow> (\<exists>d. (d, \<lparr>msg_type = MSG_VOTE_REQUEST, packet_term = t, packet_node_id = c\<rparr>) \<in> M)"

definition granted :: "(u16 \<times> raft_packet) set \<Rightarrow> u32 \<Rightarrow> u32 \<Rightarrow> u32 \<Rightarrow> bool" where
  "granted M t v c \<longleftrightarrow> (ucast c, \<lparr>msg_type = MSG_VOTE_RESPONSE, packet_term = t, packet_node_id = v\<rparr>) \<in> M"

definition voted :: "(u16 \<times> raft_packet) set \<Rightarrow> u32 \<Rightarrow> u32 \<Rightarrow> u32 \<Rightarrow> bool" where
  "voted M t v c \<longleftrightarrow> granted M t v c \<or> (v = c \<and> requested M t c)"

text \<open>What the network shows of a node that won term \<open>t\<close> among at most three.\<close>

definition elected :: "u32 \<Rightarrow> (u16 \<times> raft_packet) set \<Rightarrow> u32 \<Rightarrow> u32 \<Rightarrow> bool" where
  "elected num M t c \<longleftrightarrow> requested M t c \<and> (\<exists>v\<in>members num. v \<noteq> c \<and> granted M t v c)"

definition node_inv :: "u32 \<Rightarrow> (u16 \<times> raft_packet) set \<Rightarrow> u32 \<Rightarrow> core \<Rightarrow> bool" where
  "node_inv num M c k \<longleftrightarrow> c_id k = c \<and>
     (\<forall>t x. x \<in> members num \<longrightarrow> voted M t c x \<longrightarrow> t \<le> c_term k \<and> (c_term k = t \<longrightarrow> c_vote k = x)) \<and>
     (\<forall>t x y. x \<in> members num \<longrightarrow> y \<in> members num \<longrightarrow> voted M t c x \<longrightarrow> voted M t c y \<longrightarrow> x = y) \<and>
     (c_state k \<noteq> STATE_FOLLOWER \<longrightarrow> requested M (c_term k) c) \<and>
     (c_state k = STATE_CANDIDATE \<longrightarrow> c_granted k = 1) \<and>
     (c_state k = STATE_LEADER \<longrightarrow> elected num M (c_term k) c)"

definition packet_inv :: "u32 \<Rightarrow> (u16 \<times> raft_packet) set \<Rightarrow> u16 \<Rightarrow> raft_packet \<Rightarrow> bool" where
  "packet_inv num M d p \<longleftrightarrow> packet_node_id p \<in> members num \<and> d \<noteq> ucast (packet_node_id p) \<and>
     (msg_type p = MSG_HEARTBEAT \<longrightarrow> elected num M (packet_term p) (packet_node_id p))"

definition cluster_inv :: "u32 \<Rightarrow> acluster \<Rightarrow> bool" where
  "cluster_inv num s \<longleftrightarrow> (\<forall>c\<in>members num. node_inv num (net s) c (cores s c)) \<and>
     (\<forall>(d, p)\<in>net s. packet_inv num (net s) d p)"

lemma requested_mono: "requested M t c \<Longrightarrow> M \<subseteq> N \<Longrightarrow> requested N t c"
  by (auto simp: requested_def)

lemma granted_mono: "granted M t v c \<Longrightarrow> M \<subseteq> N \<Longrightarrow> granted N t v c"
  by (auto simp: granted_def)

lemma elected_mono: "elected num M t c \<Longrightarrow> M \<subseteq> N \<Longrightarrow> elected num N t c"
  by (auto simp: elected_def intro: requested_mono granted_mono)

lemma packet_inv_mono: "packet_inv num M d p \<Longrightarrow> M \<subseteq> N \<Longrightarrow> packet_inv num N d p"
  by (auto simp: packet_inv_def intro: elected_mono)

lemma members_nonzero: "c \<in> members num \<Longrightarrow> c \<noteq> 0"
  by (auto simp: members_def)

lemma ucast_member_inj:
  assumes "num < 65536" "a \<in> members num" "b \<in> members num" "(ucast a :: u16) = ucast b"
  shows "a = b"
proof -
  have "unat a < 65536" "unat b < 65536"
    using assms(1-3) by (auto simp: members_def word_le_nat_alt word_less_nat_alt)
  moreover have "unat (ucast a :: u16) = unat (ucast b :: u16)" using assms(4) by simp
  ultimately show ?thesis by (simp add: unsigned_ucast_eq take_bit_eq_mod word_unat_eq_iff)
qed

section \<open>Steps keep the invariant\<close>

text \<open>
  The obligations of one node's step from \<open>k\<close> to \<open>k'\<close> that sends \<open>ms\<close>: a vote is only forgotten
  with its term, every vote sent is the vote held in the current term, and the roles have the
  evidence on the network.
\<close>

definition node_step_ok :: "u32 \<Rightarrow> (u16 \<times> raft_packet) set \<Rightarrow> u32 \<Rightarrow> core \<Rightarrow> core \<times> msgs \<Rightarrow> bool" where
  "node_step_ok num M c k km \<longleftrightarrow> (let k' = fst km; ms = snd km; N = M \<union> set ms in
     c_id k' = c \<and> c_term k \<le> c_term k' \<and>
     (c_term k' = c_term k \<longrightarrow> c_vote k \<noteq> 0 \<longrightarrow> c_vote k' = c_vote k) \<and>
     (\<forall>(d, p)\<in>set ms. packet_node_id p = c \<and> packet_term p = c_term k' \<and> d \<noteq> ucast c \<and>
        (msg_type p = MSG_VOTE_RESPONSE \<longrightarrow> c_vote k' \<in> members num \<and> d = ucast (c_vote k')) \<and>
        (msg_type p = MSG_VOTE_REQUEST \<longrightarrow> c_vote k' = c) \<and>
        (msg_type p = MSG_HEARTBEAT \<longrightarrow> elected num N (packet_term p) c)) \<and>
     (c_state k' \<noteq> STATE_FOLLOWER \<longrightarrow> requested N (c_term k') c) \<and>
     (c_state k' = STATE_CANDIDATE \<longrightarrow> c_granted k' = 1) \<and>
     (c_state k' = STATE_LEADER \<longrightarrow> elected num N (c_term k') c))"

lemma voted_split:
  assumes "node_step_ok num M c k (k', ms)" "num < 65536" "x \<in> members num" "v \<in> members num"
    "voted (M \<union> set ms) t v x"
  shows "voted M t v x \<or> (v = c \<and> t = c_term k' \<and> x = c_vote k')"
proof -
  from assms(1) have ms: "\<And>d p. (d, p) \<in> set ms \<Longrightarrow> packet_node_id p = c \<and> packet_term p = c_term k' \<and>
      (msg_type p = MSG_VOTE_RESPONSE \<longrightarrow> c_vote k' \<in> members num \<and> d = ucast (c_vote k')) \<and>
      (msg_type p = MSG_VOTE_REQUEST \<longrightarrow> c_vote k' = c)"
    by (auto simp: node_step_ok_def Let_def)
  from assms(5) consider (old) "voted M t v x"
    | (resp) "(ucast x, \<lparr>msg_type = MSG_VOTE_RESPONSE, packet_term = t, packet_node_id = v\<rparr>) \<in> set ms"
    | (req) d where "v = x" "(d, \<lparr>msg_type = MSG_VOTE_REQUEST, packet_term = t, packet_node_id = x\<rparr>) \<in> set ms"
    by (auto simp: voted_def granted_def requested_def)
  then show ?thesis
  proof cases
    case resp
    from ms [OF this] ucast_member_inj [OF assms(2,3)] show ?thesis by simp
  next
    case req
    from ms [OF this(2)] req(1) show ?thesis by simp
  qed simp
qed

lemma node_step_preserves:
  assumes inv: "cluster_inv num s" and c: "c \<in> members num" and num: "num < 65536"
    and ok: "node_step_ok num (net s) c (cores s c) (k', ms)"
  shows "cluster_inv num (acluster_upd c (k', ms) s)"
proof -
  let ?k = "cores s c" and ?N = "net s \<union> set ms"
  note sp = voted_split [OF ok num]
  have N: "node_inv num (net s) v (cores s v)" if "v \<in> members num" for v
    using inv that by (simp add: cluster_inv_def)
  have P: "packet_inv num (net s) d p" if "(d, p) \<in> net s" for d p
    using inv that by (auto simp: cluster_inv_def)
  note Nc = N [OF c, unfolded node_inv_def]
  from ok have o: "c_id k' = c" "c_term ?k \<le> c_term k'"
    "c_term k' = c_term ?k \<Longrightarrow> c_vote ?k \<noteq> 0 \<Longrightarrow> c_vote k' = c_vote ?k"
    "c_state k' \<noteq> STATE_FOLLOWER \<longrightarrow> requested ?N (c_term k') c"
    "c_state k' = STATE_CANDIDATE \<longrightarrow> c_granted k' = 1"
    "c_state k' = STATE_LEADER \<longrightarrow> elected num ?N (c_term k') c"
    "\<And>d p. (d, p) \<in> set ms \<Longrightarrow> packet_node_id p = c \<and> d \<noteq> ucast c \<and>
       (msg_type p = MSG_HEARTBEAT \<longrightarrow> elected num ?N (packet_term p) c)"
    by (auto simp: node_step_ok_def Let_def)
  have old: "t \<le> c_term k' \<and> (c_term k' = t \<longrightarrow> c_vote k' = x)"
    if "x \<in> members num" "voted (net s) t c x" for t x
  proof -
    have h: "t \<le> c_term ?k" "c_term ?k = t \<Longrightarrow> c_vote ?k = x" using Nc that by auto
    show ?thesis
    proof (cases "c_term k' = t")
      case True
      then have "c_term ?k = t" using h(1) o(2) by simp
      then show ?thesis using True o(3) h(2) members_nonzero [OF that(1)] by simp
    qed (use h(1) o(2) in auto)
  qed
  have "node_inv num ?N v (((cores s)(c := k')) v)" if v: "v \<in> members num" for v
  proof (cases "v = c")
    case False
    then have same: "voted ?N t v x \<longleftrightarrow> voted (net s) t v x" if "x \<in> members num" for t x
      using sp [OF that v] by (auto simp: voted_def intro: requested_mono granted_mono)
    show ?thesis
      using N [OF v] False same requested_mono [of "net s"] elected_mono [of num "net s"]
      unfolding node_inv_def by (simp add: le_supI1 cong: conj_cong)
  next
    case True
    have a: "t \<le> c_term k' \<and> (c_term k' = t \<longrightarrow> c_vote k' = x)"
      if "x \<in> members num" "voted ?N t c x" for t x
      using sp [OF that(1) c that(2)] old [OF that(1)] by auto
    have b: "x = y" if "x \<in> members num" "y \<in> members num" "voted ?N t c x" "voted ?N t c y" for t x y
      using sp [OF that(1) c that(3)] sp [OF that(2) c that(4)] old that(1,2) Nc by metis
    show ?thesis
      using a b o(1,4,5,6) True unfolding node_inv_def by simp
  qed
  moreover have "packet_inv num ?N d p" if "(d, p) \<in> ?N" for d p
    using that
  proof
    assume "(d, p) \<in> net s"
    then show ?thesis by (intro packet_inv_mono [OF P]) auto
  next
    assume "(d, p) \<in> set ms"
    then show ?thesis using o(7) c by (auto simp: packet_inv_def)
  qed
  ultimately show ?thesis
    by (auto simp: cluster_inv_def acluster_upd_def)
qed

lemma set_peers: "set (peers num c) = members num - {c}"
proof -
  have eq: "of_nat ` {1..<unat num + 1} = members num"
  proof (intro equalityI subsetI)
    fix x assume "x \<in> members num"
    then have "unat x \<in> {1..<unat num + 1}" "x = of_nat (unat x)"
      by (auto simp: members_def word_le_nat_alt)
    then show "x \<in> of_nat ` {1..<unat num + 1}" by blast
  next
    fix x :: u32 assume "x \<in> of_nat ` {1..<unat num + 1}"
    then obtain i where i: "x = of_nat i" "1 \<le> i" "i \<le> unat num" by auto
    moreover have "unat x = i"
      using i(1) le_less_trans [OF i(3) unat_less_32] by (simp add: unat_of_nat)
    ultimately show "x \<in> members num" by (simp add: members_def word_le_nat_alt)
  qed
  show ?thesis unfolding peers_def set_filter set_map set_upt eq by auto
qed

lemma spec_broadcast_in:
  "(d, p) \<in> set (spec_broadcast num ty k) \<longleftrightarrow>
     p = \<lparr>msg_type = ty, packet_term = c_term k, packet_node_id = c_id k\<rparr> \<and>
     (\<exists>x\<in>members num. x \<noteq> c_id k \<and> d = ucast x)"
  by (auto simp: spec_broadcast_def set_peers image_iff)

lemma other_member:
  assumes "2 \<le> num" "c \<in> members num"
  obtains x where "x \<in> members num" "x \<noteq> c"
proof (cases "c = 1")
  case True
  show ?thesis by (rule that [of 2]) (use True assms(1) in \<open>simp_all add: members_def word_le_nat_alt\<close>)
next
  case False
  show ?thesis by (rule that [of 1]) (use False assms in \<open>auto simp: members_def word_le_nat_alt\<close>)
qed

lemma broadcast_requested:
  assumes "2 \<le> num" "c \<in> members num" "c_id k = c"
  shows "requested (M \<union> set (spec_broadcast num MSG_VOTE_REQUEST k)) (c_term k) c"
proof -
  obtain x where "x \<in> members num" "x \<noteq> c" using other_member [OF assms(1,2)] .
  then have "(ucast x, \<lparr>msg_type = MSG_VOTE_REQUEST, packet_term = c_term k, packet_node_id = c\<rparr>)
      \<in> set (spec_broadcast num MSG_VOTE_REQUEST k)"
    using assms(3) by (auto simp: spec_broadcast_in)
  then show ?thesis unfolding requested_def by blast
qed

lemma broadcast_msgs:
  assumes "num < 65536" "c \<in> members num" "c_id k = c" "(d, p) \<in> set (spec_broadcast num ty k)"
  shows "packet_node_id p = c \<and> packet_term p = c_term k \<and> msg_type p = ty \<and> d \<noteq> ucast c"
  using assms(3,4) ucast_member_inj [OF assms(1) _ assms(2)] by (auto simp: spec_broadcast_in)

lemma timeout_step_ok:
  assumes N: "node_inv num M c k" and c: "c \<in> members num" and num: "2 \<le> num" "num < 65536"
    and t: "c_term k \<noteq> - 1"
  shows "node_step_ok num M c k (spec_timeout num k)"
proof (cases "c_state k = STATE_LEADER")
  case True
  then show ?thesis
    using N by (simp add: spec_timeout_def node_step_ok_def node_inv_def)
next
  case False
  define k' where "k' = k\<lparr>c_state := STATE_CANDIDATE, c_term := c_term k + 1, c_vote := c_id k, c_granted := 1\<rparr>"
  have k': "c_id k' = c" "c_vote k' = c" "c_state k' = STATE_CANDIDATE" "c_granted k' = 1"
    "c_term k' = c_term k + 1"
    using N by (simp_all add: k'_def node_inv_def)
  have "unat (c_term k + 1) = Suc (unat (c_term k))" using t by (rule unat_Suc_no_wrap)
  then have tm: "c_term k \<le> c_term k'" "c_term k' \<noteq> c_term k" by (simp_all add: k' word_le_nat_alt)
  have r: "requested (M \<union> set (spec_broadcast num MSG_VOTE_REQUEST k')) (c_term k') c"
    using broadcast_requested [OF num(1) c k'(1)] .
  note d = broadcast_msgs [OF num(2) c k'(1)]
  have "spec_timeout num k = (k', spec_broadcast num MSG_VOTE_REQUEST k')"
    using False by (simp add: spec_timeout_def k'_def Let_def)
  then show ?thesis
    using tm r k' c by (auto simp: node_step_ok_def Let_def msg_defs dest!: d)
qed

lemma beat_step_ok:
  assumes N: "node_inv num M c k" and c: "c \<in> members num" and num: "num < 65536"
    and l: "c_state k = STATE_LEADER"
  shows "node_step_ok num M c k (k, spec_broadcast num MSG_HEARTBEAT k)"
proof -
  have id: "c_id k = c" and el: "elected num M (c_term k) c" using N l by (simp_all add: node_inv_def)
  let ?N = "M \<union> set (spec_broadcast num MSG_HEARTBEAT k)"
  have "elected num ?N (c_term k) c" by (rule elected_mono [OF el]) simp
  moreover from this have "requested ?N (c_term k) c" by (simp add: elected_def)
  ultimately show ?thesis
    using id l by (auto simp: node_step_ok_def Let_def msg_defs dest!: broadcast_msgs [OF num c id])
qed

lemma adopt_node_inv:
  assumes "node_inv num M c k"
  shows "node_inv num M c (spec_adopt p k)"
proof (cases "c_term k < packet_term p")
  case True
  have "t \<noteq> packet_term p" if "x \<in> members num" "voted M t c x" for t x
    using assms that True unfolding node_inv_def by (metis not_le)
  moreover have "t \<le> packet_term p" if "x \<in> members num" "voted M t c x" for t x
    using assms that True unfolding node_inv_def by (metis less_imp_le order.trans)
  ultimately show ?thesis
    using assms True by (simp add: node_inv_def spec_adopt_def) blast
qed (use assms in \<open>simp add: spec_adopt_def\<close>)

lemma adopt_term_vote:
  "c_term k \<le> c_term (spec_adopt p k)" "packet_term p \<le> c_term (spec_adopt p k)"
  "c_term (spec_adopt p k) = c_term k \<Longrightarrow> c_vote (spec_adopt p k) = c_vote k"
  by (auto simp: spec_adopt_def)

lemma node_step_ok_trans:
  assumes "node_step_ok num M c k1 km" "c_term k \<le> c_term k1" "c_term k1 = c_term k \<Longrightarrow> c_vote k1 = c_vote k"
  shows "node_step_ok num M c k km"
proof -
  let ?k' = "fst km"
  have h: "c_term k1 \<le> c_term ?k'" "c_term ?k' = c_term k1 \<Longrightarrow> c_vote k1 \<noteq> 0 \<Longrightarrow> c_vote ?k' = c_vote k1"
    using assms(1) by (auto simp: node_step_ok_def Let_def)
  have "c_vote ?k' = c_vote k" if "c_term ?k' = c_term k" "c_vote k \<noteq> 0"
  proof -
    have "c_term k1 = c_term k" using that(1) h(1) assms(2) by simp
    then show ?thesis using h(2) that assms(3) by simp
  qed
  moreover have "c_term k \<le> c_term ?k'" using h(1) assms(2) by simp
  ultimately show ?thesis using assms(1) by (simp add: node_step_ok_def Let_def)
qed

lemma react_step_ok:
  assumes N: "node_inv num M c k" and c: "c \<in> members num" and num: "num = 2 \<or> num = 3"
    and P: "packet_inv num M (ucast c) p" "(ucast c, p) \<in> M" and t: "packet_term p \<le> c_term k"
  shows "node_step_ok num M c k (spec_react num p k)"
proof -
  have num': "num < 65536" "num div 2 = 1" using num by (elim disjE; simp)+
  have id: "c_id k = c" using N by (simp add: node_inv_def)
  have src: "packet_node_id p \<in> members num" "packet_node_id p \<noteq> c"
    using P(1) by (auto simp: packet_inv_def)
  have idle: "node_step_ok num M c k (k, [])"
    using N by (auto simp: node_step_ok_def node_inv_def Let_def)
  consider (grant) "msg_type p = MSG_VOTE_REQUEST" "spec_grants p k"
    | (win) "msg_type p = MSG_VOTE_RESPONSE" "c_state k = STATE_CANDIDATE" "packet_term p = c_term k"
    | (beat) "msg_type p = MSG_HEARTBEAT" "c_term k \<le> packet_term p"
    | (none) "spec_react num p k = (k, [])"
  proof -
    have "spec_react num p k = (k, [])"
      if "\<not> (msg_type p = MSG_VOTE_REQUEST \<and> spec_grants p k)"
        "\<not> (msg_type p = MSG_VOTE_RESPONSE \<and> c_state k = STATE_CANDIDATE \<and> packet_term p = c_term k)"
        "\<not> (msg_type p = MSG_HEARTBEAT \<and> c_term k \<le> packet_term p)"
      using that unfolding spec_react_def by (simp only: if_False)
    then show ?thesis using that by blast
  qed
  then show ?thesis
  proof cases
    case grant
    have "c_state k = STATE_FOLLOWER" "c_vote k \<in> {0, packet_node_id p}"
      using grant(2) by (simp_all add: spec_grants_def)
    moreover have "(ucast (packet_node_id p) :: u16) \<noteq> ucast c"
      using ucast_member_inj [OF num'(1) src(1) c] src(2) by auto
    ultimately show ?thesis
      using grant id src by (auto simp: spec_react_def node_step_ok_def Let_def msg_defs)
  next
    case win
    have g: "c_granted k = 1" and r: "requested M (c_term k) c" using N win(2) by (simp_all add: node_inv_def)
    have "granted M (c_term k) (packet_node_id p) c"
      using P(2) win by (cases p) (simp add: granted_def)
    then have el: "elected num M (c_term k) c" using r src by (auto simp: elected_def)
    define k' where "k' = k\<lparr>c_state := STATE_LEADER, c_granted := min (c_granted k + 1) num\<rparr>"
    have re: "spec_react num p k = (k', spec_broadcast num MSG_HEARTBEAT k)"
      using win g num' by (simp add: spec_react_def k'_def msg_defs)
    have el': "elected num (M \<union> set (spec_broadcast num MSG_HEARTBEAT k)) (c_term k) c"
      by (rule elected_mono [OF el]) simp
    then have "requested (M \<union> set (spec_broadcast num MSG_HEARTBEAT k)) (c_term k) c"
      by (simp add: elected_def)
    then show ?thesis
      using id el'
      by (auto simp: re k'_def node_step_ok_def Let_def msg_defs dest!: broadcast_msgs [OF num'(1) c id])
  next
    case beat
    then show ?thesis
      using idle t by (auto simp: spec_react_def node_step_ok_def Let_def msg_defs)
  next
    case none
    then show ?thesis using idle by simp
  qed
qed

section \<open>Terms are bounded by the elections started\<close>

lemma spec_timeout_term:
  "unat (c_term (fst (spec_timeout num k))) \<le> Suc (unat (c_term k))"
  "(d, p) \<in> set (snd (spec_timeout num k)) \<Longrightarrow> packet_term p = c_term (fst (spec_timeout num k))"
proof -
  have "unat (t + 1) \<le> Suc (unat t)" for t :: u32
    by (cases "t = - 1") (simp_all add: unat_Suc_no_wrap)
  then show "unat (c_term (fst (spec_timeout num k))) \<le> Suc (unat (c_term k))"
    by (simp add: spec_timeout_def Let_def)
qed (auto simp: spec_timeout_def Let_def spec_broadcast_in split: if_splits)

lemma spec_handle_term:
  "c_term (fst (spec_handle num pkt k)) \<le> max (c_term k) (packet_term pkt)"
  "(d, p) \<in> set (snd (spec_handle num pkt k)) \<Longrightarrow> packet_term p \<le> max (c_term k) (packet_term pkt)"
  by (auto simp: spec_handle_def spec_react_def spec_adopt_def spec_broadcast_in max_def split: if_splits)

lemma areach_terms:
  assumes "areach num k s"
  shows "(\<forall>c\<in>members num. unat (c_term (cores s c)) \<le> k) \<and> (\<forall>(d, p)\<in>net s. unat (packet_term p) \<le> k)"
  using assms
proof induction
  case (areach_init s)
  then show ?case by (simp add: init_core_def)
next
  case (areach_timeout k s c)
  let ?r = "spec_timeout num (cores s c)"
  have "unat (c_term (fst ?r)) \<le> Suc k" "\<And>d p. (d, p) \<in> set (snd ?r) \<Longrightarrow> unat (packet_term p) \<le> Suc k"
    using areach_timeout spec_timeout_term(1) [of num "cores s c"] spec_timeout_term(2) [where num = num and k = "cores s c"]
    by fastforce+
  then show ?case using areach_timeout.IH by (auto simp: acluster_upd_def intro: le_SucI)
next
  case (areach_deliver k s c pkt)
  let ?r = "spec_handle num pkt (cores s c)"
  have "unat (max (c_term (cores s c)) (packet_term pkt)) \<le> k"
    using areach_deliver by (auto simp: max_def)
  then have "unat t \<le> k" if "t \<le> max (c_term (cores s c)) (packet_term pkt)" for t
    using that by (simp add: word_le_nat_alt)
  then have "unat (c_term (fst ?r)) \<le> k" "\<And>d p. (d, p) \<in> set (snd ?r) \<Longrightarrow> unat (packet_term p) \<le> k"
    using spec_handle_term(1) [of num pkt "cores s c"]
      spec_handle_term(2) [where num = num and pkt = pkt and k = "cores s c"] by blast+
  then show ?case using areach_deliver.IH by (auto simp: acluster_upd_def)
next
  case (areach_beat k s c)
  then show ?case by (auto simp: acluster_upd_def spec_broadcast_in)
qed

section \<open>At most one leader per term\<close>

lemma areach_inv:
  assumes "areach num k s" "num = 2 \<or> num = 3" "k < 2 ^ 32"
  shows "cluster_inv num s"
  using assms(1,3)
proof induction
  case (areach_init s)
  then show ?case
    by (auto simp: cluster_inv_def node_inv_def init_core_def voted_def requested_def granted_def)
next
  case (areach_timeout k s c)
  have num: "2 \<le> num" "num < 65536" using assms(2) by auto
  have inv: "cluster_inv num s" using areach_timeout by simp
  have "unat (c_term (cores s c)) \<le> k" using areach_terms [OF areach_timeout.hyps(1)] areach_timeout.hyps(2) by blast
  moreover have "unat (- 1 :: u32) = 2 ^ 32 - 1" by (simp add: unsigned_minus_1_eq_mask mask_eq_exp_minus_1)
  ultimately have "c_term (cores s c) \<noteq> - 1" using areach_timeout.prems by force
  then have "node_step_ok num (net s) c (cores s c) (spec_timeout num (cores s c))"
    using timeout_step_ok [OF _ areach_timeout.hyps(2) num] inv areach_timeout.hyps(2)
    by (simp add: cluster_inv_def)
  then show ?case
    using node_step_preserves [OF inv areach_timeout.hyps(2) num(2)] by (cases "spec_timeout num (cores s c)") simp
next
  case (areach_deliver k s c pkt)
  have num: "num < 65536" using assms(2) by auto
  have inv: "cluster_inv num s" using areach_deliver by simp
  let ?k = "spec_adopt pkt (cores s c)"
  have N: "node_inv num (net s) c (cores s c)" using inv areach_deliver.hyps(2) by (simp add: cluster_inv_def)
  have P: "packet_inv num (net s) (ucast c) pkt"
    using inv areach_deliver.hyps(3) by (auto simp: cluster_inv_def)
  have "node_step_ok num (net s) c ?k (spec_react num pkt ?k)"
    by (rule react_step_ok [OF adopt_node_inv [OF N] areach_deliver.hyps(2) assms(2) P areach_deliver.hyps(3)
        adopt_term_vote(2)])
  then have "node_step_ok num (net s) c (cores s c) (spec_handle num pkt (cores s c))"
    unfolding spec_handle_def by (rule node_step_ok_trans) (rule adopt_term_vote, erule adopt_term_vote)
  then show ?case
    using node_step_preserves [OF inv areach_deliver.hyps(2) num] by (cases "spec_handle num pkt (cores s c)") simp
next
  case (areach_beat k s c)
  have num: "num < 65536" using assms(2) by auto
  have inv: "cluster_inv num s" using areach_beat by simp
  have "node_step_ok num (net s) c (cores s c) (cores s c, spec_broadcast num MSG_HEARTBEAT (cores s c))"
    using beat_step_ok [OF _ areach_beat.hyps(2) num areach_beat.hyps(3)] inv areach_beat.hyps(2)
    by (simp add: cluster_inv_def)
  then show ?case using node_step_preserves [OF inv areach_beat.hyps(2) num] by simp
qed

lemma card_members: "card (members num) \<le> unat num"
proof -
  have "members num = of_nat ` {1..<unat num + 1}"
  proof (intro equalityI subsetI)
    fix x assume "x \<in> members num"
    then have "unat x \<in> {1..<unat num + 1}" "x = of_nat (unat x)"
      by (auto simp: members_def word_le_nat_alt)
    then show "x \<in> of_nat ` {1..<unat num + 1}" by blast
  next
    fix x :: u32 assume "x \<in> of_nat ` {1..<unat num + 1}"
    then obtain i where i: "x = of_nat i" "1 \<le> i" "i \<le> unat num" by auto
    moreover have "unat x = i"
      using i(1) le_less_trans [OF i(3) unat_less_32] by (simp add: unat_of_nat)
    ultimately show "x \<in> members num" by (simp add: members_def word_le_nat_alt)
  qed
  then show ?thesis using card_image_le [of "{1..<unat num + 1}" of_nat] by simp
qed

lemma elected_unique:
  assumes inv: "cluster_inv num s" and num: "num = 2 \<or> num = 3"
    and c: "c \<in> members num" "elected num (net s) t c" and c': "c' \<in> members num" "elected num (net s) t c'"
  shows "c = c'"
proof (rule ccontr)
  assume ne: "c \<noteq> c'"
  obtain v where v: "v \<in> members num" "v \<noteq> c" "voted (net s) t v c"
    using c(2) by (auto simp: elected_def voted_def)
  obtain v' where v': "v' \<in> members num" "v' \<noteq> c'" "voted (net s) t v' c'"
    using c'(2) by (auto simp: elected_def voted_def)
  have self: "voted (net s) t c c" "voted (net s) t c' c'"
    using c(2) c'(2) by (auto simp: elected_def voted_def)
  have uniq: "\<not> (voted (net s) t w c \<and> voted (net s) t w c')" if "w \<in> members num" for w
    using inv that c(1) c'(1) ne by (auto simp: cluster_inv_def node_inv_def)
  have "v \<noteq> c'" "v' \<noteq> c" "v \<noteq> v'" using uniq v v' self by metis+
  then have "card {c, c', v, v'} = 4" using ne v(2) v'(2) by simp
  moreover have "card {c, c', v, v'} \<le> card (members num)"
    using c(1) c'(1) v(1) v'(1) finite [of "members num"] by (intro card_mono) auto
  moreover have "unat num \<le> 3" using num by auto
  ultimately show False using card_members [of num] by simp
qed

end
