(* ===== verification/RaftImpl.thy ===== *)
theory RaftImpl
  imports RaftCluster
begin

text \<open>
  What a program must provide to be a Raft node: the locale \<open>raft_impl\<close> names the steps of a node
  (a packet delivered, an election timeout, anything else), its core and the packets it has sent,
  and asks that each step is a step of the specification. A cluster of such nodes is then a run of
  the abstract cluster, and inherits election safety. \<open>RaftSystem\<close> and \<open>NeCluster\<close> interpret it on
  the handlers of the two programs.
\<close>

section \<open>A cluster of concrete nodes\<close>

definition impl_cluster :: "u32 \<Rightarrow> ('s \<Rightarrow> core) \<Rightarrow> ('s \<Rightarrow> msgs) \<Rightarrow> (u32 \<Rightarrow> 's) \<Rightarrow> acluster" where
  "impl_cluster num core out \<sigma> = \<lparr>cores = (\<lambda>c. core (\<sigma> c)), net = (\<Union>c\<in>members num. set (out (\<sigma> c)))\<rparr>"

definition leads_in :: "u32 \<Rightarrow> acluster \<Rightarrow> u32 \<Rightarrow> u32 \<Rightarrow> bool" where
  "leads_in num s t c \<longleftrightarrow> c \<in> members num \<and>
     ((c_state (cores s c) = STATE_LEADER \<and> c_term (cores s c) = t) \<or>
      (\<exists>d. (d, \<lparr>msg_type = MSG_HEARTBEAT, packet_term = t, packet_node_id = c\<rparr>) \<in> net s))"

lemma leads_elected:
  assumes "cluster_inv num s" "leads_in num s t c"
  shows "elected num (net s) t c"
  using assms(2) unfolding leads_in_def
proof (elim conjE disjE exE)
  assume c: "c \<in> members num" "c_state (cores s c) = STATE_LEADER" "c_term (cores s c) = t"
  have "node_inv num (net s) c (cores s c)" using assms(1) c(1) by (simp add: cluster_inv_def)
  then show ?thesis using c(2,3) by (simp add: node_inv_def)
next
  fix d assume "(d, \<lparr>msg_type = MSG_HEARTBEAT, packet_term = t, packet_node_id = c\<rparr>) \<in> net s"
  then have "packet_inv num (net s) d \<lparr>msg_type = MSG_HEARTBEAT, packet_term = t, packet_node_id = c\<rparr>"
    using assms(1) by (auto simp: cluster_inv_def)
  then show ?thesis by (simp add: packet_inv_def)
qed

text \<open>Election safety of the abstract cluster.\<close>

lemma areach_one_leader:
  assumes "areach num k s" "num \<le> 3" "k < 2 ^ 32" "leads_in num s t c" "leads_in num s t c'"
  shows "c = c'"
proof (cases "num = 2 \<or> num = 3")
  case True
  have inv: "cluster_inv num s" by (rule areach_inv [OF assms(1) True assms(3)])
  show ?thesis
    using elected_unique [OF inv True] leads_elected [OF inv] assms(4,5) unfolding leads_in_def by blast
next
  case False
  have "unat num \<le> 3" using assms(2) by (simp add: word_le_nat_alt)
  moreover have "unat num \<noteq> 2" "unat num \<noteq> 3" using False by (auto simp: word_unat_eq_iff)
  ultimately have "unat num \<le> 1" by linarith
  moreover have "1 \<le> unat c" "unat c \<le> unat num" "1 \<le> unat c'" "unat c' \<le> unat num"
    using assms(4,5) by (auto simp: leads_in_def members_def word_le_nat_alt)
  ultimately have "unat c = unat c'" by linarith
  then show ?thesis by (simp add: word_unat_eq_iff)
qed

lemma impl_cluster_upd:
  assumes "c \<in> members num" "core s' = k" "out s' = out (\<sigma> c) @ ms"
  shows "impl_cluster num core out (\<sigma>(c := s')) = acluster_upd c (k, ms) (impl_cluster num core out \<sigma>)"
proof -
  have m: "members num = insert c (members num - {c})" using assms(1) by (rule insert_Diff [symmetric])
  have split: "(\<Union>x\<in>members num. set (out (g x))) =
      set (out (g c)) \<union> (\<Union>x\<in>members num - {c}. set (out (g x)))" for g
    by (subst m) (rule UN_insert)
  have "(\<Union>x\<in>members num - {c}. set (out ((\<sigma>(c := s')) x))) = (\<Union>x\<in>members num - {c}. set (out (\<sigma> x)))"
    by (rule SUP_cong) auto
  then have "(\<Union>x\<in>members num. set (out ((\<sigma>(c := s')) x))) = (\<Union>x\<in>members num. set (out (\<sigma> x))) \<union> set ms"
    using assms(3) by (simp only: split fun_upd_same set_append Un_assoc Un_left_commute Un_commute)
  then show ?thesis
    using assms(2) by (auto simp: impl_cluster_def acluster_upd_def)
qed

section \<open>The contract of a node\<close>

locale raft_impl =
  fixes num :: u32
    and core :: "'s \<Rightarrow> core"
    and out :: "'s \<Rightarrow> msgs"
    and deliver :: "raft_packet \<Rightarrow> 's \<Rightarrow> 's \<Rightarrow> bool"
    and timeout :: "'s \<Rightarrow> 's \<Rightarrow> bool"
    and other :: "'s \<Rightarrow> 's \<Rightarrow> bool"
  assumes deliver_refines: "deliver pkt s s' \<Longrightarrow> (core s' = core s \<and> out s' = out s) \<or>
      (core s' = fst (spec_handle num pkt (core s)) \<and> out s' = out s @ snd (spec_handle num pkt (core s)))"
    and timeout_refines: "timeout s s' \<Longrightarrow>
      core s' = fst (spec_timeout num (core s)) \<and> out s' = out s @ snd (spec_timeout num (core s))"
    and other_refines: "other s s' \<Longrightarrow> core s' = core s \<and> (out s' = out s \<or>
      c_state (core s) = STATE_LEADER \<and> out s' = out s @ spec_broadcast num MSG_HEARTBEAT (core s))"
begin

lemma unchanged:
  assumes "areach num k (impl_cluster num core out \<sigma>)" "c \<in> members num"
    and "core s' = core (\<sigma> c)" "out s' = out (\<sigma> c)"
  shows "areach num k (impl_cluster num core out (\<sigma>(c := s')))"
proof -
  have "impl_cluster num core out (\<sigma>(c := s')) = acluster_upd c (core (\<sigma> c), []) (impl_cluster num core out \<sigma>)"
    by (rule impl_cluster_upd [OF assms(2)]) (simp_all add: assms)
  also have "\<dots> = impl_cluster num core out \<sigma>"
    by (simp add: acluster_upd_def impl_cluster_def fun_upd_idem)
  finally show ?thesis using assms(1) by (simp only:)
qed

lemma deliver_step:
  assumes "areach num k (impl_cluster num core out \<sigma>)" "c \<in> members num"
    and "(ucast c, pkt) \<in> net (impl_cluster num core out \<sigma>)" "deliver pkt (\<sigma> c) s'"
  shows "areach num k (impl_cluster num core out (\<sigma>(c := s')))"
  using deliver_refines [OF assms(4)]
proof
  assume "core s' = core (\<sigma> c) \<and> out s' = out (\<sigma> c)"
  then show ?thesis using unchanged [OF assms(1,2)] by simp
next
  let ?r = "spec_handle num pkt (core (\<sigma> c))"
  assume "core s' = fst ?r \<and> out s' = out (\<sigma> c) @ snd ?r"
  then have "impl_cluster num core out (\<sigma>(c := s')) = acluster_upd c ?r (impl_cluster num core out \<sigma>)"
    using impl_cluster_upd [OF assms(2), where \<sigma> = \<sigma> and s' = s' and ms = "snd ?r"] by simp
  then show ?thesis
    using areach_deliver [OF assms(1-3)] by (simp add: impl_cluster_def)
qed

lemma timeout_step:
  assumes "areach num k (impl_cluster num core out \<sigma>)" "c \<in> members num" "timeout (\<sigma> c) s'"
  shows "areach num (Suc k) (impl_cluster num core out (\<sigma>(c := s')))"
proof -
  let ?r = "spec_timeout num (core (\<sigma> c))"
  have "impl_cluster num core out (\<sigma>(c := s')) = acluster_upd c ?r (impl_cluster num core out \<sigma>)"
    using impl_cluster_upd [OF assms(2), where \<sigma> = \<sigma> and s' = s' and ms = "snd ?r"]
      timeout_refines [OF assms(3)] by simp
  then show ?thesis
    using areach_timeout [OF assms(1,2)] by (simp add: impl_cluster_def)
qed

lemma other_step:
  assumes "areach num k (impl_cluster num core out \<sigma>)" "c \<in> members num" "other (\<sigma> c) s'"
  shows "areach num k (impl_cluster num core out (\<sigma>(c := s')))"
proof (cases "out s' = out (\<sigma> c)")
  case True
  then show ?thesis using unchanged [OF assms(1,2)] other_refines [OF assms(3)] by simp
next
  case False
  then have "c_state (core (\<sigma> c)) = STATE_LEADER"
    and "impl_cluster num core out (\<sigma>(c := s')) =
      acluster_upd c (core (\<sigma> c), spec_broadcast num MSG_HEARTBEAT (core (\<sigma> c))) (impl_cluster num core out \<sigma>)"
    using impl_cluster_upd [OF assms(2), where \<sigma> = \<sigma> and s' = s'] other_refines [OF assms(3)] by auto
  then show ?thesis
    using areach_beat [OF assms(1,2)] by (simp add: impl_cluster_def)
qed

lemma boot_state:
  assumes "\<forall>c\<in>members num. core (\<sigma> c) = init_core c \<and> out (\<sigma> c) = []"
  shows "areach num 0 (impl_cluster num core out \<sigma>)"
  by (rule areach_init) (use assms in \<open>simp_all add: impl_cluster_def\<close>)

end

end
