(* ===== verification/RaftSystem.thy ===== *)
theory RaftSystem
  imports RaftImpl
begin

text \<open>
  The cluster over the handlers of \<^verbatim>\<open>election.c\<close>. Every node runs with its own configuration and
  its own lcore, clock and random stream; a step is a packet handled, a timer callback, a
  heartbeat round, or a change of the node's timer library alone. One round of \<^verbatim>\<open>lcore_main\<close> is a
  sequence of such steps, and every step is one of the abstract cluster.
\<close>

section \<open>Steps and reachable states\<close>

definition sent :: "u32 \<Rightarrow> (u32 \<Rightarrow> raft_sys) \<Rightarrow> (u16 \<times> raft_packet) set" where
  "sent num \<sigma> = (\<Union>c\<in>members num. set (tx (fst (\<sigma> c))))"

inductive reach :: "u32 \<Rightarrow> (u32 \<Rightarrow> raft_config) \<Rightarrow> nat \<Rightarrow> (u32 \<Rightarrow> raft_sys) \<Rightarrow> bool" for num cfgs where
  reach_init: "\<lbrakk>\<forall>c\<in>members num. node_num (cfgs c) = num \<and> tx (fst (boot c)) = [] \<and>
      raft_init (cfgs c) (es c) c (boot c) = Some (\<sigma> c)\<rbrakk> \<Longrightarrow> reach num cfgs 0 \<sigma>"
| reach_packet: "\<lbrakk>reach num cfgs k \<sigma>; c \<in> members num; (ucast c, pkt) \<in> sent num \<sigma>;
      raft_handle_packet (cfgs c) e pkt (\<sigma> c) = Some s\<rbrakk> \<Longrightarrow> reach num cfgs k (\<sigma>(c := s))"
| reach_callback: "\<lbrakk>reach num cfgs k \<sigma>; c \<in> members num; raft_callback (cfgs c) e cb (\<sigma> c) = Some s\<rbrakk>
      \<Longrightarrow> reach num cfgs (if cb = Election_timeout_cb then Suc k else k) (\<sigma>(c := s))"
| reach_heartbeat: "\<lbrakk>reach num cfgs k \<sigma>; c \<in> members num\<rbrakk>
      \<Longrightarrow> reach num cfgs k (\<sigma>(c := (raft_send_heartbeat (cfgs c) (fst (\<sigma> c)), snd (\<sigma> c))))"
| reach_timers: "\<lbrakk>reach num cfgs k \<sigma>; c \<in> members num\<rbrakk> \<Longrightarrow> reach num cfgs k (\<sigma>(c := (fst (\<sigma> c), d)))"

definition abs_cluster :: "u32 \<Rightarrow> (u32 \<Rightarrow> raft_sys) \<Rightarrow> acluster" where
  "abs_cluster num \<sigma> = \<lparr>cores = (\<lambda>c. core_of (fst (\<sigma> c))), net = sent num \<sigma>\<rparr>"

lemma abs_cluster_impl: "abs_cluster num = impl_cluster num (\<lambda>s. core_of (fst s)) (\<lambda>s. tx (fst s))"
  by (simp add: abs_cluster_def impl_cluster_def sent_def fun_eq_iff)

lemma split_at_prefix: "take (length xs) ys = xs \<Longrightarrow> ys = xs @ drop (length xs) ys"
  by (metis append_take_drop_id)

lemma sent_upd:
  assumes "c \<in> members num" "take (length (tx (fst (\<sigma> c)))) (tx (fst s)) = tx (fst (\<sigma> c))"
  shows "sent num (\<sigma>(c := s)) = sent num \<sigma> \<union> set (drop (length (tx (fst (\<sigma> c)))) (tx (fst s)))"
proof -
  let ?ms = "drop (length (tx (fst (\<sigma> c)))) (tx (fst s))"
  have "abs_cluster num (\<sigma>(c := s)) = acluster_upd c (core_of (fst s), ?ms) (abs_cluster num \<sigma>)"
    unfolding abs_cluster_impl by (rule impl_cluster_upd [OF assms(1) refl]) (rule split_at_prefix [OF assms(2)])
  then show ?thesis by (simp add: abs_cluster_def acluster_upd_def del: fun_upd_apply)
qed

lemma raft_init_core:
  assumes "raft_init cfg e c s = Some s'"
  shows "core_of (fst s') = init_core c" "tx (fst s') = tx (fst s)"
    "test_auto_fail_enabled (fst s') = test_auto_fail_enabled (fst s)"
    "timeout_range (fst s') = (election_timeout_min_ms cfg, election_timeout_max_ms cfg)"
proof -
  have "fst s' = (fst s)\<lparr>raft_node := \<lparr>self_id = c, current_term = 0, voted_for = 0,
      vote_granted = 0, current_state = STATE_FOLLOWER, last_heard_us = 0\<rparr>,
      timeout_range := (election_timeout_min_ms cfg, election_timeout_max_ms cfg)\<rparr>"
    using start_timeout_fst [OF assms [unfolded raft_init_def]] by (simp only: timeout_init_def fst_conv)
  then show "core_of (fst s') = init_core c" "tx (fst s') = tx (fst s)"
    "test_auto_fail_enabled (fst s') = test_auto_fail_enabled (fst s)"
    "timeout_range (fst s') = (election_timeout_min_ms cfg, election_timeout_max_ms cfg)"
    by (simp_all add: core_of_def init_core_def)
qed

lemma reach_cfgs: "reach num cfgs k \<sigma> \<Longrightarrow> c \<in> members num \<Longrightarrow> node_num (cfgs c) = num"
  by (induction rule: reach.induct) auto

lemma fail_cb_core:
  "core_of (fst (fail_enable_cb cfg e s)) = core_of (fst s)" "tx (fst (fail_enable_cb cfg e s)) = tx (fst s)"
  "core_of (fst (fail_disable_cb s)) = core_of (fst s)" "tx (fst (fail_disable_cb s)) = tx (fst s)"
  by (simp_all add: fail_enable_cb_def fail_disable_cb_def Let_def test_auto_fail_enable_def core_of_def)

section \<open>Every concrete step is an abstract one\<close>

interpretation raft: raft_impl num "\<lambda>s :: raft_sys. core_of (fst s)" "\<lambda>s. tx (fst s)"
    "\<lambda>pkt s s'. \<exists>cfg e. node_num cfg = num \<and> raft_handle_packet cfg e pkt s = Some s'"
    "\<lambda>s s'. \<exists>cfg e. node_num cfg = num \<and> election_timeout_cb cfg e s = Some s'"
    "\<lambda>s s'. (\<exists>cfg. node_num cfg = num \<and> s' = (raft_send_heartbeat cfg (fst s), snd s)) \<or>
       (\<exists>cfg e. s' = fail_enable_cb cfg e s) \<or> s' = fail_disable_cb s \<or> fst s' = fst s"
  for num
proof unfold_locales
  fix pkt and s s' :: raft_sys
  assume "\<exists>cfg e. node_num cfg = num \<and> raft_handle_packet cfg e pkt s = Some s'"
  then obtain cfg e where "node_num cfg = num" "raft_handle_packet cfg e pkt (fst s, snd s) = Some (fst s', snd s')"
    by auto
  with raft_handle_packet_refines [OF this(2)]
  show "(core_of (fst s') = core_of (fst s) \<and> tx (fst s') = tx (fst s)) \<or>
    (core_of (fst s') = fst (spec_handle num pkt (core_of (fst s))) \<and>
     tx (fst s') = tx (fst s) @ snd (spec_handle num pkt (core_of (fst s))))"
    using split_at_prefix [of "tx (fst s)" "tx (fst s')"] by (cases "test_auto_fail_enabled (fst s)") auto
next
  fix s s' :: raft_sys
  assume "\<exists>cfg e. node_num cfg = num \<and> election_timeout_cb cfg e s = Some s'"
  then obtain cfg e where "node_num cfg = num" "election_timeout_cb cfg e (fst s, snd s) = Some (fst s', snd s')"
    by auto
  with election_timeout_cb_refines [OF this(2)]
  show "core_of (fst s') = fst (spec_timeout num (core_of (fst s))) \<and>
    tx (fst s') = tx (fst s) @ snd (spec_timeout num (core_of (fst s)))"
    using split_at_prefix [of "tx (fst s)" "tx (fst s')"] by auto
next
  fix s s' :: raft_sys
  assume "(\<exists>cfg. node_num cfg = num \<and> s' = (raft_send_heartbeat cfg (fst s), snd s)) \<or>
    (\<exists>cfg e. s' = fail_enable_cb cfg e s) \<or> s' = fail_disable_cb s \<or> fst s' = fst s"
  then show "core_of (fst s') = core_of (fst s) \<and> (tx (fst s') = tx (fst s) \<or>
      c_state (core_of (fst s)) = STATE_LEADER \<and>
      tx (fst s') = tx (fst s) @ spec_broadcast num MSG_HEARTBEAT (core_of (fst s)))"
    by (auto simp: raft_send_heartbeat_refines fail_cb_core split: if_splits)
qed

lemma reach_abs: "reach num cfgs k \<sigma> \<Longrightarrow> areach num k (abs_cluster num \<sigma>)"
  unfolding abs_cluster_impl
proof (induction rule: reach.induct)
  case (reach_init boot es \<sigma>)
  then have "core_of (fst (\<sigma> c)) = init_core c \<and> tx (fst (\<sigma> c)) = []" if "c \<in> members num" for c
    using that raft_init_core [of "cfgs c" "es c" c "boot c" "\<sigma> c"] by simp
  then show ?case by (intro raft.boot_state) simp
next
  case (reach_packet k \<sigma> c pkt e s)
  show ?case
    by (rule raft.deliver_step [OF reach_packet.IH reach_packet.hyps(2)])
      (use reach_packet.hyps reach_cfgs [OF reach_packet.hyps(1,2)] in \<open>auto simp: impl_cluster_def sent_def\<close>)
next
  case (reach_callback k \<sigma> c e cb s)
  show ?case
  proof (cases "cb = Election_timeout_cb")
    case True
    have "areach num (Suc k) (impl_cluster num (\<lambda>s. core_of (fst s)) (\<lambda>s. tx (fst s)) (\<sigma>(c := s)))"
      by (rule raft.timeout_step [OF reach_callback.IH reach_callback.hyps(2)])
        (use reach_callback.hyps reach_cfgs [OF reach_callback.hyps(1,2)] True in \<open>auto simp: raft_callback_def\<close>)
    then show ?thesis using True by (simp del: fun_upd_apply)
  next
    case False
    have "areach num k (impl_cluster num (\<lambda>s. core_of (fst s)) (\<lambda>s. tx (fst s)) (\<sigma>(c := s)))"
      by (rule raft.other_step [OF reach_callback.IH reach_callback.hyps(2)])
        (use reach_callback.hyps(3) False in \<open>cases cb; auto simp: raft_callback_def\<close>)
    then show ?thesis using False by (simp del: fun_upd_apply)
  qed
next
  case (reach_heartbeat k \<sigma> c)
  show ?case
    by (rule raft.other_step [OF reach_heartbeat.IH reach_heartbeat.hyps(2)])
      (use reach_cfgs [OF reach_heartbeat.hyps] in auto)
next
  case (reach_timers k \<sigma> c d)
  show ?case by (rule raft.other_step [OF reach_timers.IH reach_timers.hyps(2)]) simp
qed

section \<open>Leaders of a term\<close>

definition claims_leader :: "(u32 \<Rightarrow> raft_sys) \<Rightarrow> u32 \<Rightarrow> u32 \<Rightarrow> u32 \<Rightarrow> bool" where
  "claims_leader \<sigma> num t c \<longleftrightarrow> c \<in> members num \<and>
     ((raft_get_state (fst (\<sigma> c)) = STATE_LEADER \<and> raft_get_term (fst (\<sigma> c)) = t) \<or>
      (\<exists>d. (d, \<lparr>msg_type = MSG_HEARTBEAT, packet_term = t, packet_node_id = c\<rparr>) \<in> sent num \<sigma>))"

lemma claims_leads: "claims_leader \<sigma> num t c \<longleftrightarrow> leads_in num (abs_cluster num \<sigma>) t c"
  by (simp add: claims_leader_def leads_in_def abs_cluster_def raft_get_state_def raft_get_term_def)

text \<open>C1: Election safety: in a cluster of at most three nodes, in every state reachable under loss,
  duplication and reordering of packets and arbitrary timer behaviour, with fewer than \<open>2 ^ 32\<close>
  elections started, two nodes that lead in a term, or ever sent a heartbeat of that term, are
  the same node.\<close>

theorem one_leader_per_term:
  assumes "reach num cfgs k \<sigma>" "num \<le> 3" "k < 2 ^ 32"
    and "claims_leader \<sigma> num t c" "claims_leader \<sigma> num t c'"
  shows "c = c'"
  by (rule areach_one_leader [OF reach_abs [OF assms(1)] assms(2,3)
        assms(4,5) [unfolded claims_leads]])

end
