(* ===== verification/CDouble.thy ===== *)
theory CDouble
  imports Complex_Main Prelude
begin

text \<open>
  The C types \<^verbatim>\<open>double\<close> and \<^verbatim>\<open>float\<close> of the hosts (IEEE 754 binary64 and binary32, rounding to
  nearest, ties to even), as far as the programs use them: a finite value is the rational it stands
  for, so the two zeros are one value. \<open>to_fp p emin emax\<close> rounds a rational to \<open>p\<close> bits of precision
  with exponents from \<open>emin\<close>, and overflows to an infinity at \<open>2 ^ emax\<close>.
\<close>

datatype fp = Fin rat | PInf | NInf | NaN

section \<open>Rounding\<close>

fun ilog2 :: "nat \<Rightarrow> nat" where
  "ilog2 n = (if n < 2 then 0 else Suc (ilog2 (n div 2)))"

declare ilog2.simps [simp del]

text \<open>The exponent of a positive rational: \<open>2 powi e \<le> q < 2 powi (e + 1)\<close>.\<close>

definition ilog2_rat :: "rat \<Rightarrow> int" where
  "ilog2_rat q =
     (let (n, d) = quotient_of q; e = int (ilog2 (nat n)) - int (ilog2 (nat d))
      in if 2 powi e \<le> q then e else e - 1)"

text \<open>Round to the nearest integer, ties to even.\<close>

definition rne :: "rat \<Rightarrow> int" where
  "rne q = (let f = \<lfloor>q\<rfloor>; r = q - of_int f
            in if r < 1/2 then f else if 1/2 < r then f + 1 else if even f then f else f + 1)"

definition rnd_exp :: "nat \<Rightarrow> int \<Rightarrow> rat \<Rightarrow> int" where
  "rnd_exp p emin q = max (ilog2_rat \<bar>q\<bar> - (int p - 1)) emin"

definition rnd :: "nat \<Rightarrow> int \<Rightarrow> rat \<Rightarrow> rat" where
  "rnd p emin q =
     (if q = 0 then 0
      else let e = rnd_exp p emin q in of_int (rne (q / 2 powi e)) * 2 powi e)"

definition to_fp :: "nat \<Rightarrow> int \<Rightarrow> nat \<Rightarrow> rat \<Rightarrow> fp" where
  "to_fp p emin emax q =
     (let r = rnd p emin q in if \<bar>r\<bar> < 2 ^ emax then Fin r else if 0 < r then PInf else NInf)"

definition dbl :: "rat \<Rightarrow> fp" where "dbl = to_fp 53 (- 1074) 1024"
definition flt :: "rat \<Rightarrow> fp" where "flt = to_fp 24 (- 149) 128"

section \<open>Operations\<close>

fun fneg :: "fp \<Rightarrow> fp" where
  "fneg (Fin a) = Fin (- a)" | "fneg PInf = NInf" | "fneg NInf = PInf" | "fneg NaN = NaN"

fun fadd :: "fp \<Rightarrow> fp \<Rightarrow> fp" where
  "fadd (Fin a) (Fin b) = dbl (a + b)"
| "fadd NaN y = NaN" | "fadd x NaN = NaN"
| "fadd PInf y = (if y = NInf then NaN else PInf)"
| "fadd NInf y = (if y = PInf then NaN else NInf)"
| "fadd x y = y"

definition fsub :: "fp \<Rightarrow> fp \<Rightarrow> fp" where
  "fsub x y = fadd x (fneg y)"

definition inf_of :: "bool \<Rightarrow> fp" where
  "inf_of neg = (if neg then NInf else PInf)"

fun fneg_p :: "fp \<Rightarrow> bool" where
  "fneg_p (Fin a) = (a < 0)" | "fneg_p PInf = False" | "fneg_p NInf = True" | "fneg_p NaN = False"

fun fmul :: "fp \<Rightarrow> fp \<Rightarrow> fp" where
  "fmul (Fin a) (Fin b) = dbl (a * b)"
| "fmul x y = (if x = NaN \<or> y = NaN \<or> x = Fin 0 \<or> y = Fin 0 then NaN else inf_of (fneg_p x \<noteq> fneg_p y))"

fun fdiv :: "fp \<Rightarrow> fp \<Rightarrow> fp" where
  "fdiv (Fin a) (Fin b) = (if b \<noteq> 0 then dbl (a / b) else if a = 0 then NaN else inf_of (a < 0))"
| "fdiv NaN y = NaN" | "fdiv x NaN = NaN"
| "fdiv (Fin a) y = Fin 0"
| "fdiv x (Fin b) = inf_of (fneg_p x \<noteq> (b < 0))"
| "fdiv x y = NaN"

fun fabs :: "fp \<Rightarrow> fp" where
  "fabs (Fin a) = Fin \<bar>a\<bar>" | "fabs NaN = NaN" | "fabs x = PInf"

fun fceil :: "fp \<Rightarrow> fp" where
  "fceil (Fin a) = Fin (of_int \<lceil>a\<rceil>)" | "fceil x = x"

text \<open>Comparisons are false on NaN.\<close>

fun fle :: "fp \<Rightarrow> fp \<Rightarrow> bool" where
  "fle NaN y = False" | "fle x NaN = False"
| "fle NInf y = True" | "fle x PInf = True"
| "fle (Fin a) (Fin b) = (a \<le> b)" | "fle x y = False"

definition flt_p :: "fp \<Rightarrow> fp \<Rightarrow> bool" where
  "flt_p x y \<longleftrightarrow> fle x y \<and> \<not> fle y x"

text \<open>Conversions: from an unsigned integer, to \<^verbatim>\<open>float\<close>, and to \<^verbatim>\<open>uint64_t\<close>, which is undefined
  (\<open>None\<close>) outside of the range.\<close>

definition fp_of_nat :: "nat \<Rightarrow> fp" where
  "fp_of_nat n = dbl (of_nat n)"

fun to_float :: "fp \<Rightarrow> fp" where
  "to_float (Fin a) = flt a" | "to_float x = x"

fun to_u64 :: "fp \<Rightarrow> u64 option" where
  "to_u64 (Fin a) = (if - 1 < a \<and> a < 2 ^ 64 then Some (of_int (if a < 0 then 0 else \<lfloor>a\<rfloor>)) else None)"
| "to_u64 x = None"

text \<open>The bits of a \<^verbatim>\<open>float\<close> (of zero those of the positive zero, of NaN those of the default one).\<close>

fun f32_bits :: "fp \<Rightarrow> u32" where
  "f32_bits (Fin q) =
     (if q = 0 then 0
      else let e = max (ilog2_rat \<bar>q\<bar>) (- 126); m = \<lfloor>\<bar>q\<bar> / 2 powi (e - 23)\<rfloor>;
               k = (if m < 2 ^ 23 then m else m - 2 ^ 23 + (e + 127) * 2 ^ 23)
           in (if q < 0 then 0x80000000 else 0) OR of_int k)"
| "f32_bits PInf = 0x7f800000" | "f32_bits NInf = 0xff800000" | "f32_bits NaN = 0x7fc00000"

section \<open>Rounding error\<close>

lemma powi2_less_iff [simp]: "(2 :: rat) powi m < 2 powi n \<longleftrightarrow> m < n"
  using power_int_strict_increasing [of m n "2 :: rat"] power_int_increasing [of n m "2 :: rat"]
  by (meson linorder_not_less one_le_numeral one_less_numeral_iff semiring_norm(76))

lemma powi2_le_iff [simp]: "(2 :: rat) powi m \<le> 2 powi n \<longleftrightarrow> m \<le> n"
  using powi2_less_iff [of n m] by linarith

lemma ilog2_bounds: "0 < n \<Longrightarrow> 2 ^ ilog2 n \<le> n \<and> n < 2 * 2 ^ ilog2 n"
proof (induction n rule: ilog2.induct)
  case (1 n)
  show ?case
  proof (cases "n < 2")
    case True
    then show ?thesis using 1(2) by (subst (1 2) ilog2.simps) simp
  next
    case False
    then have "2 ^ ilog2 (n div 2) \<le> n div 2 \<and> n div 2 < 2 * 2 ^ ilog2 (n div 2)" using 1(1) by simp
    then show ?thesis using False by (subst (1 2) ilog2.simps) (simp, linarith)
  qed
qed

lemma ilog2_rat_bounds:
  assumes "0 < q"
  shows "2 powi (ilog2_rat q) \<le> q" "q < 2 powi (ilog2_rat q + 1)"
proof -
  obtain n d where nd: "quotient_of q = (n, d)" by fastforce
  have d: "0 < d" using quotient_of_denom_pos [OF nd] .
  have q: "q = of_int n / of_int d" using quotient_of_div [OF nd] .
  have n: "0 < n" using assms q d by (simp add: zero_less_divide_iff)
  let ?a = "ilog2 (nat n)" and ?b = "ilog2 (nat d)"
  let ?e = "int ?a - int ?b"
  have N: "2 ^ ?a \<le> (of_nat (nat n) :: rat)" "(of_nat (nat n) :: rat) < 2 * 2 ^ ?a"
    using ilog2_bounds [of "nat n"] n by (metis of_nat_le_iff of_nat_numeral of_nat_power zero_less_nat_eq)
      (metis ilog2_bounds n of_nat_less_iff of_nat_mult of_nat_numeral of_nat_power zero_less_nat_eq)
  have D: "2 ^ ?b \<le> (of_nat (nat d) :: rat)" "(of_nat (nat d) :: rat) < 2 * 2 ^ ?b"
    using ilog2_bounds [of "nat d"] d by (metis of_nat_le_iff of_nat_numeral of_nat_power zero_less_nat_eq)
      (metis ilog2_bounds d of_nat_less_iff of_nat_mult of_nat_numeral of_nat_power zero_less_nat_eq)
  have nn: "(of_nat (nat n) :: rat) = of_int n" "(of_nat (nat d) :: rat) = of_int d" using n d by simp_all
  have e: "(2 :: rat) powi ?e = 2 ^ ?a / 2 ^ ?b" by (simp add: power_int_diff)
  have up: "q < 2 powi (?e + 1)"
  proof -
    have "q * 2 ^ ?b \<le> q * of_int d" using D(1) nn assms by simp
    also have "\<dots> = of_int n" using q d by simp
    also have "\<dots> < 2 * 2 ^ ?a" using N nn by simp
    finally have "q < 2 ^ ?a / 2 ^ ?b * 2" by (simp add: field_simps)
    then show ?thesis by (simp add: power_int_add_1 e)
  qed
  have lo: "2 powi (?e - 1) \<le> q"
  proof -
    have "2 ^ ?a \<le> q * of_int d" using N nn q d by simp
    also have "\<dots> \<le> q * (2 * 2 ^ ?b)" using D(2) nn assms by (intro mult_left_mono) simp_all
    finally have "2 ^ ?a / 2 ^ ?b / 2 \<le> q" by (simp add: field_simps)
    moreover have "(2 :: rat) powi (?e - 1) = 2 powi ?e / 2" by (subst power_int_diff) simp_all
    ultimately show ?thesis by (simp only: e)
  qed
  show "2 powi (ilog2_rat q) \<le> q" "q < 2 powi (ilog2_rat q + 1)"
    using up lo by (auto simp: ilog2_rat_def nd Let_def)
qed

lemma rne_close: "\<bar>of_int (rne q) - q\<bar> \<le> 1/2"
proof -
  have "of_int \<lfloor>q\<rfloor> \<le> q" "q < of_int \<lfloor>q\<rfloor> + 1" by linarith+
  then show ?thesis unfolding rne_def Let_def by (auto simp: abs_le_iff)
qed

lemma rne_int [simp]: "rne (of_int k) = k"
  by (simp add: rne_def)

lemma rne_nonneg: "0 \<le> q \<Longrightarrow> 0 \<le> rne q"
  by (auto simp: rne_def Let_def)

lemma rnd_0 [simp]: "rnd p emin 0 = 0"
  by (simp add: rnd_def)

lemma rnd_nonneg: "0 \<le> q \<Longrightarrow> 0 \<le> rnd p emin q"
  by (simp add: rnd_def Let_def rne_nonneg)

lemma rnd_err:
  assumes "q \<noteq> 0"
  shows "\<bar>rnd p emin q - q\<bar> \<le> 2 powi (rnd_exp p emin q) / 2"
proof -
  let ?s = "(2 :: rat) powi (rnd_exp p emin q)"
  have s: "0 < ?s" by simp
  have "rnd p emin q - q = (of_int (rne (q / ?s)) - q / ?s) * ?s"
    using s assms by (simp add: rnd_def Let_def field_simps)
  then have "\<bar>rnd p emin q - q\<bar> = \<bar>of_int (rne (q / ?s)) - q / ?s\<bar> * ?s"
    using s by (simp add: abs_mult)
  also have "\<dots> \<le> 1/2 * ?s" by (rule mult_right_mono [OF rne_close]) simp
  finally show ?thesis by simp
qed

text \<open>In the normal range the relative error is at most half a unit in the last place.\<close>

lemma rnd_rel_err:
  assumes "2 powi (emin + int p - 1) \<le> \<bar>q\<bar>" "0 < p"
  shows "\<bar>rnd p emin q - q\<bar> \<le> \<bar>q\<bar> / 2 ^ p"
proof -
  have "(0 :: rat) < 2 powi (emin + int p - 1)" by simp
  then have "0 < \<bar>q\<bar>" using assms(1) by linarith
  then have q: "q \<noteq> 0" by simp
  have l: "2 powi (ilog2_rat \<bar>q\<bar>) \<le> \<bar>q\<bar>" "\<bar>q\<bar> < 2 powi (ilog2_rat \<bar>q\<bar> + 1)"
    using ilog2_rat_bounds [of "\<bar>q\<bar>"] q by simp_all
  have "(2 :: rat) powi (emin + int p - 1) < 2 powi (ilog2_rat \<bar>q\<bar> + 1)" using assms(1) l(2) by linarith
  then have "emin + int p - 1 < ilog2_rat \<bar>q\<bar> + 1" by (simp only: powi2_less_iff)
  then have e: "rnd_exp p emin q = ilog2_rat \<bar>q\<bar> - (int p - 1)" by (simp add: rnd_exp_def)
  have "\<bar>rnd p emin q - q\<bar> \<le> 2 powi (ilog2_rat \<bar>q\<bar> - (int p - 1)) / 2"
    using rnd_err [OF q, of p emin] by (simp only: e)
  also have "\<dots> = 2 powi (ilog2_rat \<bar>q\<bar>) / 2 ^ p"
    using assms(2) by (simp add: power_int_diff power_int_add)
  also have "\<dots> \<le> \<bar>q\<bar> / 2 ^ p" using l(1) by (simp add: divide_right_mono)
  finally show ?thesis .
qed

lemma rnd_int_exact:
  assumes "\<bar>k\<bar> \<le> 2 ^ p" "emin \<le> 0" "0 < p"
  shows "rnd p emin (of_int k) = of_int k"
proof (cases "k = 0")
  case False
  let ?q = "of_int k :: rat"
  have q: "0 < \<bar>?q\<bar>" using False by simp
  show ?thesis
  proof (cases "rnd_exp p emin ?q \<le> 0")
    case True
    then have r: "?q / 2 powi (rnd_exp p emin ?q) = of_int (k * 2 ^ nat (- rnd_exp p emin ?q))"
      by (simp add: power_int_def field_simps)
    have "rnd p emin ?q = of_int (rne (?q / 2 powi (rnd_exp p emin ?q))) * 2 powi (rnd_exp p emin ?q)"
      using False by (simp add: rnd_def Let_def)
    also have "\<dots> = ?q / 2 powi (rnd_exp p emin ?q) * 2 powi (rnd_exp p emin ?q)" by (simp only: r rne_int)
    finally show ?thesis by simp
  next
    case F: False
    then have e: "rnd_exp p emin ?q = ilog2_rat \<bar>?q\<bar> - (int p - 1)" "ilog2_rat \<bar>?q\<bar> \<ge> int p"
      using assms(2) by (auto simp: rnd_exp_def max_def split: if_splits)
    have "(2 :: rat) ^ p = 2 powi int p" by simp
    also have "\<dots> \<le> 2 powi (ilog2_rat \<bar>?q\<bar>)" using e(2) by (intro power_int_increasing) simp_all
    finally have ge: "2 ^ p \<le> \<bar>?q\<bar>" using ilog2_rat_bounds(1) [OF q] by linarith
    have "\<bar>?q\<bar> \<le> 2 ^ p" using assms(1) by (metis of_int_abs of_int_le_iff of_int_numeral of_int_power)
    with ge have a: "\<bar>?q\<bar> = 2 ^ p" by simp
    have "2 powi (ilog2_rat \<bar>?q\<bar>) \<le> (2 :: rat) powi int p" using ilog2_rat_bounds(1) [OF q] a by simp
    then have "ilog2_rat \<bar>?q\<bar> = int p" using e(2) by (simp only: powi2_le_iff)
    then have e1: "rnd_exp p emin ?q = 1" using e(1) by simp
    have "\<bar>k\<bar> = 2 ^ p" using a by (metis of_int_abs of_int_eq_iff of_int_numeral of_int_power)
    then have "even k" using assms(3) by (metis dvd_abs_iff dvd_power even_numeral)
    then obtain j where "k = 2 * j" by (elim evenE)
    then have j: "?q / 2 = of_int j" by simp
    have "rnd p emin ?q = of_int (rne (?q / 2 powi 1)) * 2 powi 1"
      using False by (simp only: rnd_def Let_def e1) simp
    then show ?thesis by (simp add: j) (simp add: j [symmetric])
  qed
qed simp

lemma fp_of_nat_exact: "n \<le> 2 ^ 53 \<Longrightarrow> fp_of_nat n = Fin (of_nat n)"
proof -
  assume n: "n \<le> 2 ^ 53"
  have "\<bar>int n\<bar> \<le> 2 ^ 53" using n by (metis abs_of_nat of_nat_le_iff of_nat_numeral of_nat_power)
  from rnd_int_exact [OF this, of "- 1074"] have r: "rnd 53 (- 1074) (of_nat n) = of_nat n" by simp
  have "(of_nat n :: rat) \<le> of_nat (2 ^ 53)" using n by (simp only: of_nat_le_iff)
  also have "\<dots> < 2 ^ 1024" by simp
  finally show ?thesis by (simp add: fp_of_nat_def dbl_def to_fp_def Let_def r)
qed

text \<open>Values well inside of the normal range of \<^verbatim>\<open>double\<close>.\<close>

lemma dbl_normal:
  assumes lo: "1 / 2 ^ 64 \<le> q" and hi: "q \<le> 2 ^ 128"
  obtains q' where "dbl q = Fin q'" "q * (1 - 1 / 2 ^ 53) \<le> q'" "q' \<le> q * (1 + 1 / 2 ^ 53)"
proof -
  have q: "0 < q" using lo by (rule less_le_trans [rotated]) simp
  have "(2 :: rat) powi (- 1074 + int 53 - 1) \<le> 2 powi (- 64)" unfolding powi2_le_iff by simp
  also have "\<dots> = 1 / 2 ^ 64" unfolding power_int_minus power_int_numeral by (rule inverse_eq_divide)
  also have "\<dots> \<le> \<bar>q\<bar>" using lo q by simp
  finally have "\<bar>rnd 53 (- 1074) q - q\<bar> \<le> \<bar>q\<bar> / 2 ^ 53" by (rule rnd_rel_err) simp
  then have b: "q - q / 2 ^ 53 \<le> rnd 53 (- 1074) q" "rnd 53 (- 1074) q \<le> q + q / 2 ^ 53"
    using q by linarith+
  have "q / 2 ^ 53 \<le> q" "0 \<le> q / 2 ^ 53" using q by (simp_all add: field_simps)
  then have "rnd 53 (- 1074) q \<le> 2 * 2 ^ 128" "0 \<le> rnd 53 (- 1074) q" using b hi by linarith+
  moreover have "(2 :: rat) * 2 ^ 128 < 2 ^ 1024" by simp
  ultimately have "\<bar>rnd 53 (- 1074) q\<bar> < 2 ^ 1024" by linarith
  then have "dbl q = Fin (rnd 53 (- 1074) q)" by (simp add: dbl_def to_fp_def Let_def)
  then show ?thesis using that b by (simp add: right_diff_distrib distrib_left)
qed

lemma to_u64_floor:
  assumes "0 \<le> q" "q < 2 ^ 64"
  obtains w where "to_u64 (Fin q) = Some w" "unat w = nat \<lfloor>q\<rfloor>"
proof -
  have f: "0 \<le> \<lfloor>q\<rfloor>" using assms(1) by simp
  have "\<lfloor>q\<rfloor> < 2 ^ 64" using assms(2) by (metis floor_less_iff of_int_numeral of_int_power)
  then have n: "nat \<lfloor>q\<rfloor> < 2 ^ 64" using f by (simp add: nat_less_iff)
  have "to_u64 (Fin q) = Some (of_int \<lfloor>q\<rfloor>)" using assms by simp
  also have "(of_int \<lfloor>q\<rfloor> :: u64) = of_nat (nat \<lfloor>q\<rfloor>)" using f by (metis int_nat_eq of_int_of_nat_eq)
  finally show ?thesis using that [of "of_nat (nat \<lfloor>q\<rfloor>)"] n by (simp add: unat_of_nat)
qed

end
