(* ===== verification/NeElection.thy ===== *)
theory NeElection
  imports RaftSystem CDouble
begin

text \<open>
  The NetElect node, \<^verbatim>\<open>app/raft-netelect-backup\<close>: the round-trip estimators of \<^verbatim>\<open>timeout.c\<close>, the
  handlers of \<^verbatim>\<open>election.c\<close> and the loop of \<^verbatim>\<open>main.c\<close>. The cluster has three nodes, and every node
  measures its peers with periodic PS packets and broadcasts the mean as its penalty. The random
  election timeout has the same code as \<^verbatim>\<open>app/raft/timeout.c\<close> and is used from \<open>RaftTimeout\<close>. Every
  \<^verbatim>\<open>double\<close> operation rounds its result (no fused multiply-add). \<open>None\<close> is a trap: a division by
  zero, or a store outside of a table. A handler reads each cycle counter once; \<open>tsc\<close> is what
  \<^verbatim>\<open>rte_get_tsc_cycles\<close> answers.
\<close>

section \<open>Packets\<close>

definition NUM_NODES :: u32 where "NUM_NODES = 3"
definition MSG_PS_BROADCAST :: u8 where "MSG_PS_BROADCAST = 4"

record ne_packet = raft_packet + rtt_ms :: u32

record ps_packet =
  ps_msg_type :: u8
  ps_term :: u32
  ps_node_id :: u32
  ps_penalty :: fp
  ps_tx_ts :: u64
  ps_remote_hz :: u32

datatype ne_msg = Raft_msg ne_packet | Ps_msg ps_packet

section \<open>Round-trip estimators\<close>

text \<open>The static tables of \<^verbatim>\<open>timeout.c\<close>, indexed by the node number.\<close>

record ne_rtt =
  mu :: "fp list"
  sigma :: "fp list"
  last_ps_rx_ts :: "u64 list"

definition ne_rtt_boot :: ne_rtt where
  "ne_rtt_boot = \<lparr>mu = replicate 4 (Fin 0), sigma = replicate 4 (Fin 0), last_ps_rx_ts = replicate 4 0\<rparr>"

definition ALPHA :: fp where "ALPHA = Fin (1/8)"
definition BETA :: fp where "BETA = Fin (1/4)"

definition sense_update :: "u32 \<Rightarrow> fp \<Rightarrow> ne_rtt \<Rightarrow> ne_rtt option" where
  "sense_update peer sample_ms r =
     (let p = unat peer in
      if p \<ge> length (mu r) then None
      else if mu r ! p = Fin 0 then
        Some (r\<lparr>mu := (mu r)[p := sample_ms], sigma := (sigma r)[p := fdiv sample_ms (Fin 2)]\<rparr>)
      else let err = fsub sample_ms (mu r ! p) in
        Some (r\<lparr>mu := (mu r)[p := fadd (mu r ! p) (fmul ALPHA err)],
          sigma := (sigma r)[p := fadd (fmul (fsub (Fin 1) BETA) (sigma r ! p)) (fmul BETA (fabs err))]\<rparr>))"

definition get_rto :: "u32 \<Rightarrow> ne_rtt \<Rightarrow> fp" where
  "get_rto peer r = fadd (mu r ! unat peer) (fmul (Fin 4) (sigma r ! unat peer))"

text \<open>The loop of \<^verbatim>\<open>compute_penalty\<close> over the nodes, with the sum and the number of means summed.\<close>

fun penalty_sum :: "u32 \<Rightarrow> ne_rtt \<Rightarrow> u32 list \<Rightarrow> fp \<times> nat \<Rightarrow> fp \<times> nat" where
  "penalty_sum self r [] acc = acc"
| "penalty_sum self r (p # ps) acc =
     penalty_sum self r ps
       (if p = self then acc
        else if flt_p (Fin 0) (mu r ! unat p) then (fadd (fst acc) (mu r ! unat p), Suc (snd acc))
        else acc)"

definition compute_penalty :: "u32 \<Rightarrow> ne_rtt \<Rightarrow> fp" where
  "compute_penalty self r =
     (let (s, cnt) = penalty_sum self r [1, 2, 3] (Fin 0, 0)
      in if cnt = 0 then Fin 0 else fdiv s (fp_of_nat cnt))"

definition record_ps_rx :: "u32 \<Rightarrow> u64 \<Rightarrow> ne_rtt \<Rightarrow> ne_rtt option" where
  "record_ps_rx peer tsc r =
     (if unat peer \<ge> length (last_ps_rx_ts r) then None
      else Some (r\<lparr>last_ps_rx_ts := (last_ps_rx_ts r)[unat peer := tsc]\<rparr>))"

section \<open>State\<close>

record ne_node =
  ne_self_id :: u32
  ne_current_term :: u32
  ne_voted_for :: u32
  ne_vote_granted :: u32
  ne_current_state :: raft_state
  ne_last_heard_ms :: u64
  ne_penalty :: fp
  ne_last_ps_tx_ts :: u64

record ne_app =
  ne_node :: ne_node
  ne_range :: "u32 \<times> u32"
  ne_rtt :: ne_rtt
  ne_tx :: "(u16 \<times> ne_msg) list"

text \<open>The timers: the election timer of \<^verbatim>\<open>election.c\<close>, the statistics and PS timers of \<^verbatim>\<open>main.c\<close>.\<close>

datatype ne_cb = Ne_election_cb | Ne_stats_cb | Ne_ps_cb

type_synonym ne_sys = "ne_app \<times> ne_cb timer_data"

definition ne_election_timer :: nat where "ne_election_timer = 1"
definition ne_stats_timer :: nat where "ne_stats_timer = 2"
definition ne_ps_timer :: nat where "ne_ps_timer = 3"

abbreviation upd_ne :: "(ne_node \<Rightarrow> ne_node) \<Rightarrow> ne_app \<Rightarrow> ne_app" where
  "upd_ne g \<equiv> ne_node_update g"

section \<open>Handlers\<close>

definition get_time_ms :: "eal \<Rightarrow> u64 option" where
  "get_time_ms e = (if timer_hz e = 0 then None else Some (timer_cycles e * 1000 div timer_hz e))"

definition ne_send :: "ne_msg \<Rightarrow> u32 \<Rightarrow> ne_app \<Rightarrow> ne_app" where
  "ne_send m dst a = a\<lparr>ne_tx := ne_tx a @ [(ucast dst, m)]\<rparr>"

definition ne_peers :: "u32 \<Rightarrow> u32 list" where
  "ne_peers self = filter (\<lambda>p. p \<noteq> self) (map of_nat [1..<unat NUM_NODES + 1])"

definition ne_broadcast_raft_packet :: "ne_packet \<Rightarrow> ne_app \<Rightarrow> ne_app" where
  "ne_broadcast_raft_packet pkt a = fold (ne_send (Raft_msg pkt)) (ne_peers (ne_self_id (ne_node a))) a"

definition broadcast_ps_packet :: "ps_packet \<Rightarrow> ne_app \<Rightarrow> ne_app" where
  "broadcast_ps_packet pkt a = fold (ne_send (Ps_msg pkt)) (ne_peers (ne_self_id (ne_node a))) a"

definition ne_start_timeout :: "eal \<Rightarrow> ne_sys \<Rightarrow> ne_sys option" where
  "ne_start_timeout e s = do {
     d \<leftarrow> timeout_start_election e (ne_range (fst s)) ne_election_timer Ne_election_cb (snd s);
     Some (fst s, d) }"

text \<open>\<open>mn\<close> and \<open>mx\<close> are the two timeouts of the configuration.\<close>

definition ne_raft_init :: "u32 \<Rightarrow> u32 \<Rightarrow> eal \<Rightarrow> u32 \<Rightarrow> ne_sys \<Rightarrow> ne_sys option" where
  "ne_raft_init mn mx e nid s =
     ne_start_timeout e ((fst s)\<lparr>ne_node := \<lparr>ne_self_id = nid, ne_current_term = 0, ne_voted_for = 0,
         ne_vote_granted = 0, ne_current_state = STATE_FOLLOWER, ne_last_heard_ms = 0, ne_penalty = Fin 0,
         ne_last_ps_tx_ts = 0\<rparr>, ne_range := timeout_init mn mx\<rparr>, snd s)"

definition ne_start_election :: "eal \<Rightarrow> u64 \<Rightarrow> ne_sys \<Rightarrow> ne_sys option" where
  "ne_start_election e now_ms s =
     (let a = upd_ne (\<lambda>n. n\<lparr>ne_current_state := STATE_CANDIDATE, ne_current_term := ne_current_term n + 1,
        ne_voted_for := ne_self_id n, ne_vote_granted := 1, ne_last_heard_ms := now_ms\<rparr>) (fst s);
      pkt = \<lparr>msg_type = MSG_VOTE_REQUEST, packet_term = ne_current_term (ne_node a),
        packet_node_id = ne_self_id (ne_node a), rtt_ms = 0\<rparr>
      in ne_start_timeout e (ne_broadcast_raft_packet pkt a, snd s))"

definition ne_send_heartbeat :: "ne_app \<Rightarrow> ne_app" where
  "ne_send_heartbeat a =
     (if ne_current_state (ne_node a) \<noteq> STATE_LEADER then a
      else ne_broadcast_raft_packet \<lparr>msg_type = MSG_HEARTBEAT, packet_term = ne_current_term (ne_node a),
        packet_node_id = ne_self_id (ne_node a), rtt_ms = 0\<rparr> a)"

definition ne_adopt_term :: "eal \<Rightarrow> ne_packet \<Rightarrow> ne_sys \<Rightarrow> ne_sys option" where
  "ne_adopt_term e pkt s =
     (if packet_term pkt > ne_current_term (ne_node (fst s)) then
        ne_start_timeout e (upd_ne (\<lambda>n. n\<lparr>ne_current_term := packet_term pkt,
          ne_current_state := STATE_FOLLOWER, ne_voted_for := 0\<rparr>) (fst s), snd s)
      else Some s)"

definition ne_handle_vote_request :: "eal \<Rightarrow> u64 \<Rightarrow> ne_packet \<Rightarrow> ne_sys \<Rightarrow> ne_sys option" where
  "ne_handle_vote_request e now_ms pkt s =
     (let n = ne_node (fst s) in
      if ne_current_state n = STATE_FOLLOWER \<and> (ne_voted_for n = 0 \<or> ne_voted_for n = packet_node_id pkt) then do {
        s \<leftarrow> ne_start_timeout e (upd_ne (\<lambda>n. n\<lparr>ne_voted_for := packet_node_id pkt,
          ne_last_heard_ms := now_ms\<rparr>) (fst s), snd s);
        let resp = \<lparr>msg_type = MSG_VOTE_RESPONSE, packet_term = ne_current_term n,
          packet_node_id = ne_self_id n, rtt_ms = 0\<rparr>;
        Some (ne_send (Raft_msg resp) (packet_node_id pkt) (fst s), snd s) }
      else Some s)"

text \<open>The heartbeat of the new leader leaves before its tally is cut and its timer stopped.\<close>

definition ne_become_leader :: "eal \<Rightarrow> ne_sys \<Rightarrow> ne_sys" where
  "ne_become_leader e s =
     (let a = upd_ne (\<lambda>n. n\<lparr>ne_current_state := STATE_LEADER\<rparr>) (fst s);
          a = ne_send_heartbeat a;
          a = upd_ne (\<lambda>n. if ne_vote_granted n > NUM_NODES then n\<lparr>ne_vote_granted := NUM_NODES\<rparr> else n) a
      in (a, timeout_stop e ne_election_timer (snd s)))"

definition ne_handle_vote_response :: "eal \<Rightarrow> ne_packet \<Rightarrow> ne_sys \<Rightarrow> ne_sys" where
  "ne_handle_vote_response e pkt s =
     (let n = ne_node (fst s) in
      if ne_current_state n = STATE_CANDIDATE \<and> packet_term pkt = ne_current_term n then
        (let a = upd_ne (\<lambda>n. n\<lparr>ne_vote_granted := ne_vote_granted n + 1\<rparr>) (fst s) in
         if ne_vote_granted (ne_node a) > NUM_NODES div 2 then ne_become_leader e (a, snd s)
         else (a, snd s))
      else s)"

definition ne_handle_heartbeat :: "eal \<Rightarrow> u64 \<Rightarrow> ne_packet \<Rightarrow> ne_sys \<Rightarrow> ne_sys option" where
  "ne_handle_heartbeat e now_ms pkt s =
     (if packet_term pkt \<ge> ne_current_term (ne_node (fst s)) then
        ne_start_timeout e (upd_ne (\<lambda>n. n\<lparr>ne_current_state := STATE_FOLLOWER,
          ne_current_term := packet_term pkt, ne_last_heard_ms := now_ms\<rparr>) (fst s), snd s)
      else Some s)"

definition ne_handle_packet :: "eal \<Rightarrow> ne_packet \<Rightarrow> ne_sys \<Rightarrow> ne_sys option" where
  "ne_handle_packet e pkt s = do {
     now_ms \<leftarrow> get_time_ms e;
     s \<leftarrow> ne_adopt_term e pkt s;
     if msg_type pkt = MSG_VOTE_REQUEST then ne_handle_vote_request e now_ms pkt s
     else if msg_type pkt = MSG_VOTE_RESPONSE then Some (ne_handle_vote_response e pkt s)
     else if msg_type pkt = MSG_HEARTBEAT then ne_handle_heartbeat e now_ms pkt s
     else Some s }"

text \<open>The frequency field is left to the sender, \<^verbatim>\<open>send_ps_packet\<close>; the penalty is a \<^verbatim>\<open>float\<close>.\<close>

definition ps_broadcast_send :: "u64 \<Rightarrow> ne_app \<Rightarrow> ne_app" where
  "ps_broadcast_send tsc a =
     (let a = upd_ne (\<lambda>n. n\<lparr>ne_penalty := to_float (compute_penalty (ne_self_id n) (ne_rtt a))\<rparr>) a;
          pkt = \<lparr>ps_msg_type = MSG_PS_BROADCAST, ps_term = ne_current_term (ne_node a),
            ps_node_id = ne_self_id (ne_node a), ps_penalty = ne_penalty (ne_node a), ps_tx_ts = tsc,
            ps_remote_hz = 0\<rparr>;
          a = upd_ne (\<lambda>n. n\<lparr>ne_last_ps_tx_ts := tsc\<rparr>) a
      in broadcast_ps_packet pkt a)"

definition ne_election_timeout_cb :: "eal \<Rightarrow> ne_sys \<Rightarrow> ne_sys option" where
  "ne_election_timeout_cb e s = do {
     now_ms \<leftarrow> get_time_ms e;
     if ne_current_state (ne_node (fst s)) \<noteq> STATE_LEADER then ne_start_election e now_ms s
     else Some s }"

definition ne_get_node_id :: "ne_app \<Rightarrow> u32" where "ne_get_node_id a = ne_self_id (ne_node a)"
definition ne_get_term :: "ne_app \<Rightarrow> u32" where "ne_get_term a = ne_current_term (ne_node a)"
definition ne_get_state :: "ne_app \<Rightarrow> raft_state" where "ne_get_state a = ne_current_state (ne_node a)"

section \<open>The main loop\<close>

text \<open>The timers that \<^verbatim>\<open>lcore_main\<close> starts: statistics every ten seconds, PS packets every five
  milliseconds. The statistics are printed and change nothing of the model.\<close>

definition ne_lcore_start :: "eal \<Rightarrow> ne_sys \<Rightarrow> ne_sys" where
  "ne_lcore_start e s =
     (let hz = timer_hz e;
          d = rte_timer_init ne_stats_timer (snd s);
          d = snd (rte_timer_reset e ne_stats_timer (hz * 10) PERIODICAL (lcore_id e) Ne_stats_cb d);
          d = rte_timer_init ne_ps_timer d;
          d = snd (rte_timer_reset e ne_ps_timer (hz div 200) PERIODICAL (lcore_id e) Ne_ps_cb d)
      in (fst s, d))"

definition ne_callback :: "eal \<Rightarrow> u64 \<Rightarrow> ne_cb \<Rightarrow> ne_sys \<Rightarrow> ne_sys option" where
  "ne_callback e tsc cb s = (case cb of
      Ne_election_cb \<Rightarrow> ne_election_timeout_cb e s
    | Ne_stats_cb \<Rightarrow> Some s
    | Ne_ps_cb \<Rightarrow> Some (ps_broadcast_send tsc (fst s), snd s))"

definition ne_call :: "eal \<Rightarrow> u64 \<Rightarrow> ne_cb \<Rightarrow>
    ne_app option \<times> ne_cb timer_data \<Rightarrow> ne_app option \<times> ne_cb timer_data" where
  "ne_call e tsc cb ad =
     (case fst ad of None \<Rightarrow> ad
      | Some a \<Rightarrow> (case ne_callback e tsc cb (a, snd ad) of
            None \<Rightarrow> (None, snd ad) | Some s \<Rightarrow> (Some (fst s), snd s)))"

text \<open>A leader sends a heartbeat when 500 milliseconds have passed.\<close>

definition ne_lcore_heartbeat :: "eal \<Rightarrow> u64 \<Rightarrow> ne_app \<Rightarrow> (u64 \<times> ne_app) option" where
  "ne_lcore_heartbeat e last_heartbeat a =
     (if ne_get_state a = STATE_LEADER then do {
        now \<leftarrow> get_time_ms e;
        if now - last_heartbeat \<ge> 500 then Some (now, ne_send_heartbeat a) else Some (last_heartbeat, a) }
      else Some (last_heartbeat, a))"

end
