(* ===== verification/RaftTimers.thy ===== *)
theory RaftTimers
  imports RaftSystem
begin

text \<open>
  The election module on the timer library: the handlers do not trap, keep the library's
  invariant and keep the election timer armed exactly while the node is not the leader. The
  callback contract of the manage loop is discharged for the callbacks of \<^verbatim>\<open>election.c\<close>.
\<close>

section \<open>Starting the election timeout\<close>

definition eal_ok :: "eal \<Rightarrow> bool" where
  "eal_ok e \<longleftrightarrow> timer_hz e \<noteq> 0 \<and> lcore_id e < RTE_MAX_LCORE \<and> main_lcore e = lcore_id e \<and>
     0 < timer_cycles e \<and> timer_cycles e < 2 ^ 63"

definition range_ok :: "u32 \<times> u32 \<Rightarrow> bool" where
  "range_ok g \<longleftrightarrow> fst g \<le> snd g \<and> g \<noteq> (0, - 1)"

lemma unat_ms_to_cycles: "unat (ms_to_cycles e ms) < 2 ^ 63"
proof -
  have "unat (ms_to_cycles e ms) = unat (ms * timer_hz e) div 1000"
    by (simp add: ms_to_cycles_def unat_div)
  also have "\<dots> \<le> 18446744073709551616 div 1000"
    by (intro div_le_mono order.strict_implies_order [OF unat_less_64])
  finally show ?thesis by simp
qed

lemma expire_nonzero:
  assumes "eal_ok e"
  shows "timer_cycles e + ms_to_cycles e ms \<noteq> 0"
proof -
  have "unat (timer_cycles e) < 2 ^ 63" "0 < unat (timer_cycles e)"
    using assms by (simp_all add: eal_ok_def word_less_nat_alt)
  then have "unat (timer_cycles e + ms_to_cycles e ms) = unat (timer_cycles e) + unat (ms_to_cycles e ms)"
    using unat_ms_to_cycles [of e ms] by (intro unat_add_no_wrap) simp
  then show ?thesis using \<open>0 < unat (timer_cycles e)\<close> by (metis add_is_0 less_numeral_extra(3) unat_0)
qed

lemma monotonic_us_ok: "eal_ok e \<Longrightarrow> \<exists>now. monotonic_us e = Some now"
  by (simp add: monotonic_us_def eal_ok_def)

lemma rands_upd_inv: "timer_inv d \<Longrightarrow> timer_inv (d\<lparr>rands := rs\<rparr>)"
proof -
  have "ex_of (d\<lparr>rands := rs\<rparr>) = ex_of d" by (rule ex_of_cong) simp
  moreover have "first_expire (d\<lparr>rands := rs\<rparr>) = first_expire d"
    by (rule ext) (simp add: first_expire_def split: list.split)
  ultimately show "timer_inv d \<Longrightarrow> timer_inv (d\<lparr>rands := rs\<rparr>)"
    by (simp add: timer_inv_def list_inv_def pending_list_def)
qed

lemma timeout_start_election_spec:
  fixes d :: "'cb timer_data" and m :: nat
  assumes res: "timeout_start_election e g t cb d = Some d'"
    and inv: "timer_inv d" and grab: "timer_grab e t d \<noteq> None" and e: "eal_ok e"
  shows "timer_inv d'"
    "\<exists>ms. tims d' t = \<lparr>expire = timer_cycles e + ms_to_cycles e (ucast ms), state = RTE_TIMER_PENDING,
        owner = int (lcore_id e), period = 0, f = Some cb\<rparr> \<and>
        (fst g \<le> snd g \<longrightarrow> fst g \<le> (ms :: u32) \<and> ms \<le> snd g)"
    "u \<noteq> t \<Longrightarrow> tims d' u = tims d u"
    "updated (priv d' m) \<longleftrightarrow> updated (priv d m) \<or> (m = lcore_id e \<and> state (tims d t) = RTE_TIMER_RUNNING)"
    "running_tim (priv d' m) = running_tim (priv d m)"
proof -
  obtain ms rs where r: "rand_in_range (lcore_id e) (fst g) (snd g) (rands d) = Some (ms, rs)"
    using res by (auto simp: timeout_start_election_def bind_eq_Some_conv)
  define d0 where "d0 = d\<lparr>rands := rs\<rparr>"
  define d1 where "d1 = snd (rte_timer_stop e t d0)"
  define d2 where "d2 = rte_timer_init t d1"
  let ?exp = "timer_cycles e + ms_to_cycles e (ucast ms)"
  have l: "lcore_id e < RTE_MAX_LCORE" "main_lcore e = lcore_id e" "lcore_id e \<noteq> LCORE_ID_ANY"
    using e by (auto simp: eal_ok_def RTE_MAX_LCORE_def LCORE_ID_ANY_def)
  have inv0: "timer_inv d0" unfolding d0_def by (rule rands_upd_inv [OF inv])
  have "timer_grab e t d0 \<noteq> None" using grab by (simp add: timer_grab_None_iff d0_def)
  note S = rte_timer_stop_spec [OF inv0 this, folded d1_def]
  have inv2: "timer_inv d2" unfolding d2_def by (rule rte_timer_init_inv) (simp_all add: S(2,3))
  have t2: "tims d2 t = (tims d1 t)\<lparr>state := RTE_TIMER_STOP, owner := RTE_TIMER_NO_OWNER\<rparr>"
    "priv d2 = priv d1" "u \<noteq> t \<Longrightarrow> tims d2 u = tims d1 u" for u
    by (simp_all add: d2_def rte_timer_init_def)
  have "timer_grab e t d2 \<noteq> None" using t2 by (simp add: timer_grab_None_iff)
  note R = rte_timer_reset_at_spec [OF inv2 this l(3) expire_nonzero [OF e], where per = 0 and cb = cb]
  have d': "d' = snd (rte_timer_reset_at e t ?exp 0 (lcore_id e) cb d2)"
    using res r timer_invD(1) [OF inv2]
    by (simp add: timeout_start_election_def d0_def [symmetric] d1_def [symmetric] d2_def [symmetric]
        rte_timer_reset_eq l(2) Let_def)
  show "timer_inv d'" using R(2) by (simp add: d')
  show "\<exists>ms. tims d' t = \<lparr>expire = timer_cycles e + ms_to_cycles e (ucast ms), state = RTE_TIMER_PENDING,
        owner = int (lcore_id e), period = 0, f = Some cb\<rparr> \<and>
        (fst g \<le> snd g \<longrightarrow> fst g \<le> (ms :: u32) \<and> ms \<le> snd g)"
    using R(5) rand_in_range_bounds [OF r] by (intro exI [of _ ms]) (simp add: d')
  show "u \<noteq> t \<Longrightarrow> tims d' u = tims d u"
    using R(6) S(5) by (simp add: d' t2(3)) (simp add: d0_def)
  show "updated (priv d' m) \<longleftrightarrow> updated (priv d m) \<or> (m = lcore_id e \<and> state (tims d t) = RTE_TIMER_RUNNING)"
    using R(7) S(6) l(1) by (simp add: d' t2 d0_def)
  show "running_tim (priv d' m) = running_tim (priv d m)"
    using R(8) S(7) by (simp add: d' t2 d0_def)
qed

lemma timeout_start_election_total:
  "range_ok g \<Longrightarrow> \<exists>d'. timeout_start_election e g t cb d = Some d'"
  using rand_in_range_total [of "fst g" "snd g" "lcore_id e" "rands d"]
  by (auto simp: timeout_start_election_def range_ok_def split: bind_splits)

section \<open>The callbacks meet the contract of the manage loop\<close>

text \<open>
  The bindings of handles to callbacks for which the contract holds in every state. The auto-fail
  callback is not among them: it initialises the recovery timer without stopping it.
\<close>

definition raft_serves :: "eal \<Rightarrow> nat \<Rightarrow> raft_cb \<Rightarrow> bool" where
  "raft_serves e t cb \<longleftrightarrow> eal_ok e \<and>
     ((t = election_timer \<and> cb = Election_timeout_cb) \<or> (t = recover_timer \<and> cb = Fail_disable_cb))"

lemma election_timeout_cb_timers:
  assumes "election_timeout_cb cfg e (a, d) = Some (a', d')"
  shows "current_state (raft_node a) = STATE_LEADER \<and> a' = a \<and> d' = d \<or>
    timeout_start_election e (timeout_range a) election_timer Election_timeout_cb d = Some d' \<and>
    current_state (raft_node a) \<noteq> STATE_LEADER"
proof (cases "current_state (raft_node a) = STATE_LEADER")
  case True
  then show ?thesis using assms by (auto simp: election_timeout_cb_def bind_eq_Some_conv)
next
  case False
  then obtain t where "start_election cfg e ((let b = a\<lparr>election_start_time := t\<rparr> in
      if last_heard_us (raft_node a) = 0 then b else b\<lparr>failover_stats := failover_stats b @
         [Detect (self_id (raft_node a)) t (t - last_heard_us (raft_node a))]\<rparr>), d) = Some (a', d')"
    using assms by (auto simp: election_timeout_cb_def bind_eq_Some_conv Let_def)
  then show ?thesis
    using False
    by (auto simp: start_election_def start_timeout_def broadcast_eq bind_eq_Some_conv Let_def split: if_splits)
qed

lemma raft_call_election:
  fixes cfg :: raft_config and e :: eal and s :: "raft_app option" and d :: "raft_cb timer_data"
  assumes "timer_inv d" "timer_grab e election_timer d \<noteq> None" "eal_ok e"
  defines "r \<equiv> snd (raft_call cfg e Election_timeout_cb (s, d))"
  shows "timer_inv r" "u \<noteq> election_timer \<Longrightarrow> tims r u = tims d u"
    "r = d \<or> (state (tims d election_timer) = RTE_TIMER_RUNNING \<longrightarrow> updated (priv r (lcore_id e)))"
proof -
  have cases: "r = d \<or> (\<exists>g. timeout_start_election e g election_timer Election_timeout_cb d = Some r)"
  proof (cases s)
    case (Some a)
    show ?thesis
    proof (cases "election_timeout_cb cfg e (a, d)")
      case (Some s')
      obtain a' d' where s': "s' = (a', d')" by fastforce
      have "r = d'" using Some s' \<open>s = Some a\<close> by (simp add: r_def raft_call_def raft_callback_def)
      then show ?thesis
        using election_timeout_cb_timers [of cfg e a d a' d'] Some s' by blast
    qed (simp add: r_def raft_call_def raft_callback_def \<open>s = Some a\<close>)
  qed (simp add: r_def raft_call_def)
  show "timer_inv r" using cases timeout_start_election_spec(1) [OF _ assms(1-3)] assms(1) by auto
  show "u \<noteq> election_timer \<Longrightarrow> tims r u = tims d u"
    using cases timeout_start_election_spec(3) [OF _ assms(1-3)] by auto
  show "r = d \<or> (state (tims d election_timer) = RTE_TIMER_RUNNING \<longrightarrow> updated (priv r (lcore_id e)))"
    using cases timeout_start_election_spec(4) [OF _ assms(1-3)] by auto
qed

lemma raft_call_disable: "snd (raft_call cfg e Fail_disable_cb (s, d)) = d"
  by (cases s) (simp_all add: raft_call_def raft_callback_def fail_disable_cb_def)

interpretation rt: timer_callbacks e "raft_call cfg e" "raft_serves e" for e cfg
proof
  show "lcore_id e < RTE_MAX_LCORE" if "raft_serves e t cb" for e t cb
    using that by (simp add: raft_serves_def eal_ok_def)
next
  fix e cfg and d :: "raft_cb timer_data" and t cb s
  assume A: "timer_inv d" "taken e (raft_serves e) d t" "running_tim (priv d (lcore_id e)) = Some t"
    "\<not> updated (priv d (lcore_id e))" "f (tims d t) = Some cb"
  have sv: "raft_serves e t cb" "state (tims d t) = RTE_TIMER_RUNNING" "owner (tims d t) = int (lcore_id e)"
    using A(2,5) by (auto simp: taken_def)
  then have grab: "timer_grab e t d \<noteq> None" and e: "eal_ok e"
    using A(3) by (simp_all add: timer_grab_None_iff raft_serves_def)
  consider (el) "t = election_timer" "cb = Election_timeout_cb" | (di) "cb = Fail_disable_cb"
    using sv(1) by (auto simp: raft_serves_def)
  then show "timer_inv (snd (raft_call cfg e cb (s, d)))"
    using raft_call_election(1) [OF A(1) _ e] grab A(1) by cases (simp_all add: raft_call_disable)
  show "tims (snd (raft_call cfg e cb (s, d))) t = tims d t"
    if "\<not> updated (priv (snd (raft_call cfg e cb (s, d))) (lcore_id e))"
    using \<open>raft_serves e t cb\<close> that raft_call_election(3) [OF A(1) _ e, of cfg s] grab sv(2)
    by (auto simp: raft_serves_def raft_call_disable)
  show "tims (snd (raft_call cfg e cb (s, d))) u = tims d u" if "u \<noteq> t" "taken e (raft_serves e) d u" for u
    using \<open>raft_serves e t cb\<close> that(1) raft_call_election(2) [OF A(1) _ e, of u cfg s] grab
    by (auto simp: raft_serves_def raft_call_disable)
qed

section \<open>Nodes that never fail on purpose\<close>

text \<open>
  Without the auto-fail test the only live timer of a node is its election timer; it is pending
  exactly while the node is not the leader. (With the test a second win initialises a fail timer
  that may still be pending, and the list loses its shape: \<open>fail_timer_reinit\<close> below.)
\<close>

definition node_ok :: "nat \<Rightarrow> raft_sys \<Rightarrow> bool" where
  "node_ok l s \<longleftrightarrow> (let a = fst s; d = snd s; t = tims d election_timer in
     timer_inv d \<and> range_ok (timeout_range a) \<and> \<not> test_auto_fail_enabled a \<and>
     (\<forall>u. u \<noteq> election_timer \<longrightarrow> state (tims d u) = RTE_TIMER_STOP) \<and>
     (if current_state (raft_node a) = STATE_LEADER then state t = RTE_TIMER_STOP
      else state t = RTE_TIMER_PENDING \<and> owner t = int l \<and> period t = 0 \<and> f t = Some Election_timeout_cb))"

lemma node_ok_grab: "node_ok l s \<Longrightarrow> timer_grab e election_timer (snd s) \<noteq> None"
  by (auto simp: node_ok_def Let_def timer_grab_None_iff split: if_splits)

lemma start_timeout_ok:
  assumes "timer_inv d" "timer_grab e election_timer d \<noteq> None" "eal_ok e" "range_ok (timeout_range a)"
    "\<not> test_auto_fail_enabled a" "\<And>u. u \<noteq> election_timer \<Longrightarrow> state (tims d u) = RTE_TIMER_STOP"
    "current_state (raft_node a) \<noteq> STATE_LEADER"
  obtains d' where "start_timeout e (a, d) = Some (a, d')" "node_ok (lcore_id e) (a, d')"
    "updated (priv d' (lcore_id e)) \<longleftrightarrow>
       updated (priv d (lcore_id e)) \<or> state (tims d election_timer) = RTE_TIMER_RUNNING"
    "running_tim (priv d' (lcore_id e)) = running_tim (priv d (lcore_id e))"
proof -
  obtain d' where d': "timeout_start_election e (timeout_range a) election_timer Election_timeout_cb d = Some d'"
    using timeout_start_election_total [OF assms(4), of e election_timer Election_timeout_cb d] by blast
  note T = timeout_start_election_spec [OF d' assms(1-3)]
  have "node_ok (lcore_id e) (a, d')"
    using T(1) T(2) T(3) assms(4-7) by (auto simp: node_ok_def Let_def)
  then show ?thesis
    using that [of d'] d' T(4,5) by (simp add: start_timeout_def)
qed

lemma adopt_term_ok:
  assumes "node_ok (lcore_id e) s" "eal_ok e"
  obtains s' where "adopt_term e pkt s = Some s'" "node_ok (lcore_id e) s'"
proof (cases "packet_term pkt > current_term (raft_node (fst s))")
  case True
  let ?a = "upd_node (\<lambda>n. n\<lparr>current_term := packet_term pkt, current_state := STATE_FOLLOWER, voted_for := 0\<rparr>) (fst s)"
  obtain d' where "start_timeout e (?a, snd s) = Some (?a, d')" "node_ok (lcore_id e) (?a, d')"
    by (rule start_timeout_ok [of "snd s" e ?a])
      (use assms node_ok_grab [OF assms(1)] in \<open>simp_all add: node_ok_def Let_def\<close>)
  then show ?thesis using that True by (simp add: adopt_term_def)
qed (use that assms in \<open>simp add: adopt_term_def\<close>)

lemma node_ok_same_state:
  assumes "node_ok l (a, d)" "current_state (raft_node a') = current_state (raft_node a)"
    "timeout_range a' = timeout_range a" "test_auto_fail_enabled a' = test_auto_fail_enabled a"
  shows "node_ok l (a', d)"
  using assms by (simp add: node_ok_def Let_def)

lemma handle_vote_request_ok:
  assumes "node_ok (lcore_id e) s" "eal_ok e"
  obtains s' where "handle_vote_request e now pkt s = Some s'" "node_ok (lcore_id e) s'"
proof (cases "current_state (raft_node (fst s)) = STATE_FOLLOWER \<and>
    (voted_for (raft_node (fst s)) = 0 \<or> voted_for (raft_node (fst s)) = packet_node_id pkt)")
  case True
  let ?a = "upd_node (\<lambda>n. n\<lparr>voted_for := packet_node_id pkt, last_heard_us := now\<rparr>) (fst s)"
  obtain d' where d': "start_timeout e (?a, snd s) = Some (?a, d')" "node_ok (lcore_id e) (?a, d')"
    by (rule start_timeout_ok [of "snd s" e ?a])
      (use assms True node_ok_grab [OF assms(1)] in \<open>simp_all add: node_ok_def Let_def\<close>)
  have "node_ok (lcore_id e) (send_to resp dst ?a, d')" for resp dst
    by (rule node_ok_same_state [OF d'(2)]) (simp_all add: send_to_def)
  then show ?thesis using that True d'(1) by (simp add: handle_vote_request_def Let_def)
next
  case False
  then have "handle_vote_request e now pkt s = Some s" by (simp add: handle_vote_request_def Let_def del: de_Morgan_conj)
  then show ?thesis using that assms(1) by blast
qed

lemma handle_heartbeat_ok:
  assumes "node_ok (lcore_id e) s" "eal_ok e"
  obtains s' where "handle_heartbeat e now pkt s = Some s'" "node_ok (lcore_id e) s'"
proof (cases "packet_term pkt \<ge> current_term (raft_node (fst s))")
  case True
  let ?a = "upd_node (\<lambda>n. n\<lparr>current_state := STATE_FOLLOWER, current_term := packet_term pkt, last_heard_us := now\<rparr>) (fst s)"
  obtain d' where "start_timeout e (?a, snd s) = Some (?a, d')" "node_ok (lcore_id e) (?a, d')"
    by (rule start_timeout_ok [of "snd s" e ?a])
      (use assms node_ok_grab [OF assms(1)] in \<open>simp_all add: node_ok_def Let_def\<close>)
  then show ?thesis using that True by (simp add: handle_heartbeat_def)
qed (use that assms in \<open>simp add: handle_heartbeat_def\<close>)

lemma become_leader_ok:
  assumes "node_ok (lcore_id e) (a, d)" "eal_ok e" "\<not> test_auto_fail cfg"
  obtains s' where "become_leader cfg e (a, d) = Some s'" "node_ok (lcore_id e) s'"
proof -
  obtain now where now: "monotonic_us e = Some now" using monotonic_us_ok [OF assms(2)] by blast
  let ?d = "timeout_stop e election_timer d"
  have n: "timer_inv d" "range_ok (timeout_range a)" "\<not> test_auto_fail_enabled a"
    "\<And>u. u \<noteq> election_timer \<Longrightarrow> state (tims d u) = RTE_TIMER_STOP"
    using assms(1) by (simp_all add: node_ok_def Let_def)
  have "timer_grab e election_timer d \<noteq> None" using node_ok_grab [OF assms(1)] by simp
  note S = rte_timer_stop_spec [OF n(1) this, folded timeout_stop_def]
  have "node_ok (lcore_id e) (a', ?d)"
    if "current_state (raft_node a') = STATE_LEADER" "timeout_range a' = timeout_range a"
      "\<not> test_auto_fail_enabled a'" for a'
    using that n S by (simp add: node_ok_def Let_def)
  then show ?thesis
    using that now assms(3) n(3)
    by (simp add: become_leader_def Let_def raft_send_heartbeat_def broadcast_eq)
qed

lemma handle_vote_response_ok:
  assumes "node_ok (lcore_id e) s" "eal_ok e" "\<not> test_auto_fail cfg"
  obtains s' where "handle_vote_response cfg e pkt s = Some s'" "node_ok (lcore_id e) s'"
proof -
  let ?a = "upd_node (\<lambda>n. n\<lparr>vote_granted := vote_granted n + 1\<rparr>) (fst s)"
  have a: "node_ok (lcore_id e) (?a, snd s)"
    by (rule node_ok_same_state [of _ "fst s"]) (use assms(1) in simp_all)
  obtain s' where s': "become_leader cfg e (?a, snd s) = Some s'" "node_ok (lcore_id e) s'"
    using become_leader_ok [OF a assms(2,3)] .
  have "handle_vote_response cfg e pkt s \<in> {Some s, Some s', Some (?a, snd s)}"
    using s'(1) by (simp add: handle_vote_response_def Let_def)
  then show ?thesis using that a s'(2) assms(1) by blast
qed

lemma raft_handle_packet_ok:
  assumes "node_ok (lcore_id e) s" "eal_ok e" "\<not> test_auto_fail cfg"
  obtains s' where "raft_handle_packet cfg e pkt s = Some s'" "node_ok (lcore_id e) s'"
proof -
  obtain now where now: "monotonic_us e = Some now" using monotonic_us_ok [OF assms(2)] by blast
  obtain s1 where s1: "adopt_term e pkt s = Some s1" "node_ok (lcore_id e) s1"
    using adopt_term_ok [OF assms(1,2)] .
  have on: "\<not> test_auto_fail_enabled (fst s)" using assms(1) by (simp add: node_ok_def Let_def)
  obtain s2 where "(if msg_type pkt = MSG_VOTE_REQUEST then handle_vote_request e now pkt s1
        else if msg_type pkt = MSG_VOTE_RESPONSE then handle_vote_response cfg e pkt s1
        else if msg_type pkt = MSG_HEARTBEAT then handle_heartbeat e now pkt s1
        else Some s1) = Some s2" "node_ok (lcore_id e) s2"
    using handle_vote_request_ok [OF s1(2) assms(2), of now pkt] handle_vote_response_ok [OF s1(2) assms(2,3), of pkt]
      handle_heartbeat_ok [OF s1(2) assms(2), of now pkt] s1(2) by metis
  then show ?thesis using that now s1(1) on by (simp add: raft_handle_packet_def)
qed

section \<open>The timer round\<close>

lemma election_timeout_cb_ok:
  assumes "timer_inv d" "timer_grab e election_timer d \<noteq> None" "eal_ok e" "range_ok (timeout_range a)"
    "\<not> test_auto_fail_enabled a" "\<And>u. u \<noteq> election_timer \<Longrightarrow> state (tims d u) = RTE_TIMER_STOP"
    "current_state (raft_node a) \<noteq> STATE_LEADER"
  obtains a' d' where "election_timeout_cb cfg e (a, d) = Some (a', d')" "node_ok (lcore_id e) (a', d')"
    "updated (priv d' (lcore_id e)) \<longleftrightarrow>
       updated (priv d (lcore_id e)) \<or> state (tims d election_timer) = RTE_TIMER_RUNNING"
proof -
  obtain now where now: "monotonic_us e = Some now" using monotonic_us_ok [OF assms(3)] by blast
  define b where "b = (let b = a\<lparr>election_start_time := now\<rparr> in
      if last_heard_us (raft_node a) = 0 then b else b\<lparr>failover_stats := failover_stats b @
         [Detect (self_id (raft_node a)) now (now - last_heard_us (raft_node a))]\<rparr>)"
  define a' where "a' = broadcast_raft_packet cfg
      \<lparr>msg_type = MSG_VOTE_REQUEST, packet_term = current_term (raft_node b) + 1,
        packet_node_id = self_id (raft_node b)\<rparr>
      (upd_node (\<lambda>n. n\<lparr>current_state := STATE_CANDIDATE, current_term := current_term n + 1,
         voted_for := self_id n, vote_granted := 1, last_heard_us := now\<rparr>) b)"
  have a': "timeout_range a' = timeout_range a" "\<not> test_auto_fail_enabled a'"
    "current_state (raft_node a') \<noteq> STATE_LEADER"
    using assms(5) by (simp_all add: a'_def b_def broadcast_eq Let_def)
  have "election_timeout_cb cfg e (a, d) = start_timeout e (a', d)"
    using assms(7) now
    by (simp add: election_timeout_cb_def Let_def b_def [unfolded Let_def, symmetric] start_election_def a'_def)
  moreover obtain d' where "start_timeout e (a', d) = Some (a', d')" "node_ok (lcore_id e) (a', d')"
    "updated (priv d' (lcore_id e)) \<longleftrightarrow>
       updated (priv d (lcore_id e)) \<or> state (tims d election_timer) = RTE_TIMER_RUNNING"
    by (rule start_timeout_ok [of d e a']) (use assms a' in simp_all)
  ultimately show ?thesis using that by simp
qed

lemma expired_list_ok:
  assumes "node_ok l (a, d)"
  shows "expired_list e d = [] \<or>
    (expired_list e d = [election_timer] \<and> current_state (raft_node a) \<noteq> STATE_LEADER \<and> lcore_id e = l)"
proof -
  have inv: "timer_inv d" using assms by (simp add: node_ok_def Let_def)
  have one: "t = election_timer \<and> current_state (raft_node a) \<noteq> STATE_LEADER \<and> lcore_id e = l"
    if "t \<in> set (expired_list e d)" for t
  proof -
    have "state (tims d t) = RTE_TIMER_PENDING \<and> owner (tims d t) = int (lcore_id e)"
      using that set_expired_list timer_invD(4) [OF inv, of t "lcore_id e"] by blast
    then show ?thesis using assms by (cases "t = election_timer") (auto simp: node_ok_def Let_def split: if_splits)
  qed
  have "distinct (expired_list e d)"
    using timer_inv_pending_list(1) [OF inv] by (simp add: expired_list_def distinct_takeWhile)
  then show ?thesis
    using one by (cases "expired_list e d"; cases "tl (expired_list e d)") auto
qed

lemma manage_ok:
  assumes ok: "node_ok (lcore_id e) (a, d)" and e: "eal_ok e"
  obtains rc a' d' where "rte_timer_manage e (raft_call cfg e) (Some a, d) = (rc, Some a', d')"
    "node_ok (lcore_id e) (a', d')"
proof (cases "expired_list e d = []")
  case True
  have inv: "timer_inv d" using ok by (simp add: node_ok_def Let_def)
  show ?thesis
    by (rule that [of 0 a d]) (use rte_timer_manage_eq [OF inv, of e "raft_call cfg e" "Some a"] True ok in simp_all)
next
  case False
  then have el: "expired_list e d = [election_timer]" "current_state (raft_node a) \<noteq> STATE_LEADER"
    using expired_list_ok [OF ok, of e] by auto
  have n: "timer_inv d" "range_ok (timeout_range a)" "\<not> test_auto_fail_enabled a"
    "\<And>u. u \<noteq> election_timer \<Longrightarrow> state (tims d u) = RTE_TIMER_STOP"
    "f (tims d election_timer) = Some Election_timeout_cb"
    using ok el(2) by (simp_all add: node_ok_def Let_def)
  note S = start_expired_spec [OF n(1), where e = e, unfolded el(1)]
  define d1 where "d1 = set_priv (lcore_id e) (\<lambda>p. p\<lparr>updated := False, running_tim := Some election_timer\<rparr>)
    (start_expired e d)"
  have flags: "running_tim (priv d1 (lcore_id e)) = Some election_timer" "tims d1 = tims (start_expired e d)"
    by (simp_all add: d1_def)
  have inv1: "timer_inv d1"
  proof -
    have inv': "timer_inv (start_expired e d)" by (rule S(2))
    have "list_inv d1 m" for m
      by (rule list_inv_priv_flags [OF timer_invD(2) [OF inv', of m]]) (simp_all add: d1_def)
    moreover have "pending_list m d1 = pending_list m (start_expired e d)" "ex_of d1 = ex_of (start_expired e d)" for m
      by (simp_all add: d1_def pending_list_def)
    ultimately show ?thesis
      using timer_invD [OF inv'] unfolding timer_inv_def
      by (intro conjI allI impI ballI) (simp_all add: d1_def)
  qed
  have run: "state (tims d1 election_timer) = RTE_TIMER_RUNNING" "f (tims d1 election_timer) = Some Election_timeout_cb"
    and grab: "timer_grab e election_timer d1 \<noteq> None"
    and rest: "\<And>u. u \<noteq> election_timer \<Longrightarrow> state (tims d1 u) = RTE_TIMER_STOP"
    using S(5) n(4,5) flags by (simp_all add: timer_grab_None_iff)
  obtain a' d' where r: "election_timeout_cb cfg e (a, d1) = Some (a', d')" "node_ok (lcore_id e) (a', d')"
    "updated (priv d' (lcore_id e))"
    using election_timeout_cb_ok [OF inv1 grab e n(2,3) rest el(2)] run(1) by blast
  have f: "f (tims (start_expired e d) election_timer) = Some Election_timeout_cb" using run(2) by (simp add: d1_def)
  have "run_timer e (raft_call cfg e) election_timer (Some a, start_expired e d) = (Some a', d')"
    using r by (simp add: run_timer_def Let_def d1_def [symmetric] f raft_call_def raft_callback_def)
  then have "rte_timer_manage e (raft_call cfg e) (Some a, d) =
      (0, Some a', set_priv (lcore_id e) (\<lambda>p. p\<lparr>running_tim := None\<rparr>) d')"
    using rte_timer_manage_eq [OF n(1), of e "raft_call cfg e" "Some a"] by (simp add: el(1))
  moreover have "node_ok (lcore_id e) (a', set_priv (lcore_id e) (\<lambda>p. p\<lparr>running_tim := None\<rparr>) d')"
    using r(2) by (simp add: node_ok_def Let_def set_running_tim_inv)
  ultimately show ?thesis using that by blast
qed

section \<open>A round of the main loop\<close>

lemma handle_packets_ok:
  assumes "node_ok (lcore_id e) s" "eal_ok e" "\<not> test_auto_fail cfg"
  obtains s' where "handle_packets cfg e ps s = Some s'" "node_ok (lcore_id e) s'"
  using assms(1)
proof (induction ps arbitrary: s thesis)
  case (Cons p ps)
  obtain s1 where "raft_handle_packet cfg e p s = Some s1" "node_ok (lcore_id e) s1"
    using raft_handle_packet_ok [OF Cons.prems(2) assms(2,3)] .
  then show ?case using Cons.IH [of s1] Cons.prems(1) by auto
qed simp

lemma lcore_heartbeat_ok:
  assumes "node_ok l (a, d)" "eal_ok e"
  obtains hb' a' where "lcore_heartbeat cfg e hb a = Some (hb', a')" "node_ok l (a', d)"
proof -
  obtain now where now: "monotonic_us e = Some now" using monotonic_us_ok [OF assms(2)] by blast
  have "node_ok l (raft_send_heartbeat cfg a, d)"
    by (rule node_ok_same_state [OF assms(1)]) (simp_all add: raft_send_heartbeat_def broadcast_eq)
  moreover have "lcore_heartbeat cfg e hb a \<in> {Some (now, raft_send_heartbeat cfg a), Some (hb, a)}"
    using now by (simp add: lcore_heartbeat_def)
  ultimately show ?thesis using that assms(1) by blast
qed

lemma lcore_main_round_ok:
  assumes "node_ok (lcore_id e) s" "eal_ok e" "\<not> test_auto_fail cfg"
  shows "\<exists>hb' s'. lcore_main_round cfg e rx (hb, s) = Some (hb', s') \<and> node_ok (lcore_id e) s'"
proof -
  obtain a1 d1 where s1: "handle_packets cfg e rx s = Some (a1, d1)" "node_ok (lcore_id e) (a1, d1)"
    using handle_packets_ok [OF assms] by (metis prod.collapse)
  obtain rc a2 d2 where s2: "rte_timer_manage e (raft_call cfg e) (Some a1, d1) = (rc, Some a2, d2)"
    "node_ok (lcore_id e) (a2, d2)"
    using manage_ok [OF s1(2) assms(2)] .
  obtain hb' a3 where "lcore_heartbeat cfg e hb a2 = Some (hb', a3)" "node_ok (lcore_id e) (a3, d2)"
    using lcore_heartbeat_ok [OF s2(2) assms(2)] .
  then show ?thesis using s1(1) s2(1) by (simp add: lcore_main_round_def)
qed

lemma raft_init_ok:
  assumes "timer_inv d" "eal_ok e" "\<And>t. state (tims d t) = RTE_TIMER_STOP"
    "election_timeout_min_ms cfg \<le> election_timeout_max_ms cfg"
    "(election_timeout_min_ms cfg, election_timeout_max_ms cfg) \<noteq> (0, - 1)" "\<not> test_auto_fail_enabled a"
  shows "\<exists>s. raft_init cfg e c (a, d) = Some s \<and> node_ok (lcore_id e) s"
proof -
  let ?a = "a\<lparr>raft_node := \<lparr>self_id = c, current_term = 0, voted_for = 0, vote_granted = 0,
      current_state = STATE_FOLLOWER, last_heard_us = 0\<rparr>,
    timeout_range := (election_timeout_min_ms cfg, election_timeout_max_ms cfg)\<rparr>"
  obtain d' where "start_timeout e (?a, d) = Some (?a, d')" "node_ok (lcore_id e) (?a, d')"
    by (rule start_timeout_ok [of d e ?a])
      (use assms in \<open>simp_all add: range_ok_def timer_grab_None_iff\<close>)
  then show ?thesis by (simp add: raft_init_def timeout_init_def)
qed

lemma fail_timer_reinit:
  assumes "timer_inv d" "state (tims d fail_timer) = RTE_TIMER_PENDING"
  shows "\<not> timer_inv (rte_timer_init fail_timer d)"
proof
  assume "timer_inv (rte_timer_init fail_timer d)"
  let ?l = "nat (owner (tims d fail_timer))"
  have "owner (tims d fail_timer) = int ?l" using timer_invD(3) [OF assms] by simp
  then have "fail_timer \<in> set (pending_list ?l d)" using timer_invD(4) [OF assms(1)] assms(2) by simp
  moreover have "pending_list ?l (rte_timer_init fail_timer d) = pending_list ?l d"
    by (simp add: rte_timer_init_def pending_list_def)
  ultimately have "state (tims (rte_timer_init fail_timer d) fail_timer) = RTE_TIMER_PENDING"
    using timer_invD(4) [OF \<open>timer_inv (rte_timer_init fail_timer d)\<close>] by metis
  then show False by (simp add: rte_timer_init_def)
qed

section \<open>Properties\<close>

definition demo_eal :: eal where
  "demo_eal = \<lparr>lcore_id = 0, main_lcore = 0, lcore_enabled = (\<lambda>_. True), timer_hz = 1000, timer_cycles = 5\<rparr>"

definition demo_config :: "u32 \<Rightarrow> u32 \<Rightarrow> raft_config" where
  "demo_config num c = empty_config\<lparr>node_num := num, node_id := c, election_timeout_min_ms := 150,
     election_timeout_max_ms := 300, heartbeat_interval_ms := 50\<rparr>"

lemma demo_ok: "eal_ok demo_eal" "\<not> test_auto_fail (demo_config num c)" "lcore_id demo_eal = 0"
  "election_timeout_min_ms (demo_config num c) = 150" "election_timeout_max_ms (demo_config num c) = 300"
  "node_num (demo_config num c) = num"
  by (simp_all add: eal_ok_def demo_eal_def demo_config_def empty_config_def RTE_MAX_LCORE_def)

lemma demo_boot:
  obtains s where "raft_init (demo_config num c) demo_eal c (quiet_app, boot_timers) = Some s" "node_ok 0 s"
  using raft_init_ok [OF boot_timers_ok(1) demo_ok(1) boot_timers_ok(2), of "demo_config num c" quiet_app c]
  by (auto simp: demo_ok quiet_app_def)

fun run_rounds :: "raft_config \<Rightarrow> (eal \<times> raft_packet list) list \<Rightarrow> u64 \<times> raft_sys \<Rightarrow> (u64 \<times> raft_sys) option" where
  "run_rounds cfg [] ls = Some ls"
| "run_rounds cfg ((e, rx) # rs) ls = do { ls \<leftarrow> lcore_main_round cfg e rx ls; run_rounds cfg rs ls }"



text \<open>C26: The election timeout is armed within the configured range: starting it on a consistent library
  leaves the handle pending on the calling main lcore, one-shot, with the election callback, due
  between the minimum and the maximum number of milliseconds from now.\<close>

theorem election_timeout_armed_in_range:
  assumes "timer_inv d" "timer_grab e t d \<noteq> None" "eal_ok e" "fst g \<le> snd g" "g \<noteq> (0, - 1)"
  shows "\<exists>d' ms. timeout_start_election e g t cb d = Some d' \<and> timer_inv d' \<and> fst g \<le> ms \<and> ms \<le> snd g \<and>
    tims d' t = \<lparr>expire = timer_cycles e + ucast (ms :: u32) * timer_hz e div 1000,
      state = RTE_TIMER_PENDING, owner = int (main_lcore e), period = 0, f = Some cb\<rparr>"
proof -
  obtain d' where d': "timeout_start_election e g t cb d = Some d'"
    using timeout_start_election_total [of g e t cb d] assms(4,5) by (auto simp: range_ok_def)
  note T = timeout_start_election_spec(1,2) [OF d' assms(1-3)]
  have "main_lcore e = lcore_id e" using assms(3) by (simp add: eal_ok_def)
  then show ?thesis using d' T assms(4) by (auto simp: ms_to_cycles_def)
qed

lemma election_timeout_armed_in_range_witness:
  "\<exists>d' ms. timeout_start_election demo_eal (150, 300) election_timer Election_timeout_cb boot_timers = Some d' \<and>
    timer_inv d' \<and> 150 \<le> ms \<and> ms \<le> 300 \<and>
    tims d' election_timer = \<lparr>expire = timer_cycles demo_eal + ucast (ms :: u32) * timer_hz demo_eal div 1000,
      state = RTE_TIMER_PENDING, owner = int (main_lcore demo_eal), period = 0, f = Some Election_timeout_cb\<rparr>"
  using election_timeout_armed_in_range [OF boot_timers_ok(1) boot_timers_grab demo_ok(1),
      where g = "(150, 300)" and t = election_timer and cb = Election_timeout_cb] by simp

text \<open>The callbacks of \<^verbatim>\<open>election.c\<close> meet the contract of the manage loop: a round of
  \<^verbatim>\<open>rte_timer_manage\<close> on a consistent library, in which the expired timers are the election timer
  or the recovery timer, leaves the library consistent, whatever state the node is in.\<close>

theorem raft_manage_keeps_timers:
  assumes "timer_inv d" "eal_ok e"
    and "\<forall>t\<in>set (expired_list e d). period (tims d t) = 0 \<and>
      ((t = election_timer \<and> f (tims d t) = Some Election_timeout_cb) \<or>
       (t = recover_timer \<and> f (tims d t) = Some Fail_disable_cb))"
  shows "timer_inv (snd (snd (rte_timer_manage e (raft_call cfg e) (s, d))))"
  by (rule rt.rte_timer_manage_inv [OF assms(1)]) (use assms(2,3) in \<open>auto simp: raft_serves_def\<close>)

lemma raft_manage_keeps_timers_witness:
  "timer_inv (snd (snd (rte_timer_manage demo_eal (raft_call (demo_config 3 1) demo_eal) (Some quiet_app, boot_timers))))"
  by (rule raft_manage_keeps_timers [OF boot_timers_ok(1) demo_ok(1)])
    (simp add: expired_list_def boot_timers_list)

text \<open>\<^verbatim>\<open>election.c\<close> initialises its fail timer without stopping it. When the timer is still pending
  from an earlier win, that breaks the timer library: the handle stays linked although it is no
  longer marked as pending.\<close>

theorem fail_timer_reinit_corrupts:
  assumes "timer_inv d" "state (tims d fail_timer) = RTE_TIMER_PENDING"
  shows "\<not> timer_inv (rte_timer_init fail_timer d)"
  by (rule fail_timer_reinit [OF assms])

lemma fail_timer_reinit_corrupts_witness:
  "\<not> timer_inv (rte_timer_init fail_timer
     (snd (rte_timer_reset demo_eal fail_timer 10 SINGLE 0 Fail_enable_cb boot_timers)))"
proof (rule fail_timer_reinit_corrupts)
  note R = rte_timer_reset_at_spec [OF boot_timers_ok(1) boot_timers_grab, where e = demo_eal and l = 0
      and t = fail_timer and exp = 15 and per = 0 and cb = Fail_enable_cb]
  have r: "rte_timer_reset demo_eal fail_timer 10 SINGLE 0 Fail_enable_cb boot_timers =
      rte_timer_reset_at demo_eal fail_timer 15 0 0 Fail_enable_cb boot_timers"
    by (subst rte_timer_reset_eq [OF timer_invD(1) [OF boot_timers_ok(1)]]) (simp add: demo_eal_def)
  show "timer_inv (snd (rte_timer_reset demo_eal fail_timer 10 SINGLE 0 Fail_enable_cb boot_timers))"
    using R(2) by (simp add: r LCORE_ID_ANY_def)
  show "state (tims (snd (rte_timer_reset demo_eal fail_timer 10 SINGLE 0 Fail_enable_cb boot_timers)) fail_timer) =
      RTE_TIMER_PENDING"
    using R(5) by (simp add: r LCORE_ID_ANY_def)
qed

end
