(* ===== verification/NeCluster.thy ===== *)
theory NeCluster
  imports NeElection RaftTimers
begin

text \<open>
  The handlers of the NetElect node refine the abstract Raft node of \<open>RaftSpec\<close> for a cluster of
  three: the locale \<open>raft_impl\<close> is interpreted on them, and election safety follows. What the
  estimators and the PS packets add leaves the election alone.
\<close>

section \<open>Refinement\<close>

definition ne_core :: "ne_app \<Rightarrow> core" where
  "ne_core a = \<lparr>c_id = ne_self_id (ne_node a), c_term = ne_current_term (ne_node a),
     c_vote = ne_voted_for (ne_node a), c_granted = ne_vote_granted (ne_node a),
     c_state = ne_current_state (ne_node a)\<rparr>"

lemma ne_core_simps [simp]:
  "c_id (ne_core a) = ne_self_id (ne_node a)" "c_term (ne_core a) = ne_current_term (ne_node a)"
  "c_vote (ne_core a) = ne_voted_for (ne_node a)" "c_granted (ne_core a) = ne_vote_granted (ne_node a)"
  "c_state (ne_core a) = ne_current_state (ne_node a)"
  by (simp_all add: ne_core_def)

text \<open>The Raft packets among what a node sent, without the round-trip field.\<close>

fun raft_part :: "u16 \<times> ne_msg \<Rightarrow> msgs" where
  "raft_part (d, Raft_msg p) = [(d, raft_packet.truncate p)]"
| "raft_part (d, Ps_msg p) = []"

definition raft_out :: "(u16 \<times> ne_msg) list \<Rightarrow> msgs" where
  "raft_out ms = concat (map raft_part ms)"

lemma raft_out_append [simp]: "raft_out (xs @ ys) = raft_out xs @ raft_out ys"
  by (simp add: raft_out_def)

lemma raft_out_map [simp]:
  "raft_out (map (\<lambda>p. (g p, Raft_msg pkt)) ps) = map (\<lambda>p. (g p, raft_packet.truncate pkt)) ps"
  "raft_out (map (\<lambda>p. (g p, Ps_msg q)) ps) = []"
  by (induction ps) (simp_all add: raft_out_def)

lemma raft_out_single [simp]: "raft_out [] = []" "raft_out [(d, Raft_msg p)] = [(d, raft_packet.truncate p)]"
  by (simp_all add: raft_out_def)

lemma fold_ne_send: "fold (ne_send m) ps a = a\<lparr>ne_tx := ne_tx a @ map (\<lambda>p. (ucast p, m)) ps\<rparr>"
  by (induction ps arbitrary: a) (simp_all add: ne_send_def)

lemma ne_peers_eq: "ne_peers self = peers 3 self"
  by (simp add: ne_peers_def peers_def NUM_NODES_def)

lemma ne_start_timeout_fst: "ne_start_timeout e s = Some s' \<Longrightarrow> fst s' = fst s"
  by (auto simp: ne_start_timeout_def bind_eq_Some_conv)

text \<open>A step with the effect \<open>km\<close> of the specification that leaves the estimators alone.\<close>

definition ne_step :: "core \<times> msgs \<Rightarrow> ne_app \<Rightarrow> ne_app \<Rightarrow> bool" where
  "ne_step km a a' \<longleftrightarrow> ne_core a' = fst km \<and> (\<exists>ms. ne_tx a' = ne_tx a @ ms \<and> raft_out ms = snd km) \<and>
     ne_rtt a' = ne_rtt a \<and> ne_range a' = ne_range a"

lemmas ne_bcast = ne_broadcast_raft_packet_def fold_ne_send ne_peers_eq spec_broadcast_def raft_packet.truncate_def

lemma ne_start_election_step:
  assumes "ne_start_election e now (a, d) = Some (a', d')"
  defines "c \<equiv> (ne_core a)\<lparr>c_state := STATE_CANDIDATE, c_term := c_term (ne_core a) + 1,
    c_vote := c_id (ne_core a), c_granted := 1\<rparr>"
  shows "ne_step (c, spec_broadcast 3 MSG_VOTE_REQUEST c) a a'"
  using ne_start_timeout_fst [OF assms(1) [unfolded ne_start_election_def Let_def]]
  by (simp add: c_def ne_step_def ne_bcast ne_core_def)

lemma ne_election_timeout_cb_step:
  assumes "ne_election_timeout_cb e (a, d) = Some (a', d')"
  shows "ne_step (spec_timeout 3 (ne_core a)) a a'"
proof (cases "ne_current_state (ne_node a) = STATE_LEADER")
  case True
  then show ?thesis
    using assms by (auto simp: ne_election_timeout_cb_def bind_eq_Some_conv spec_timeout_def ne_step_def)
next
  case False
  then obtain now where "ne_start_election e now (a, d) = Some (a', d')"
    using assms by (auto simp: ne_election_timeout_cb_def bind_eq_Some_conv)
  from ne_start_election_step [OF this] False show ?thesis by (simp add: spec_timeout_def Let_def)
qed

lemma ne_send_heartbeat_step:
  "ne_step (ne_core a, if ne_current_state (ne_node a) = STATE_LEADER
     then spec_broadcast 3 MSG_HEARTBEAT (ne_core a) else []) a (ne_send_heartbeat a)"
  by (simp add: ne_step_def ne_send_heartbeat_def ne_bcast ne_core_def)

lemma ne_adopt_term_step:
  assumes "ne_adopt_term e pkt (a, d) = Some (a', d')"
  shows "ne_core a' = spec_adopt (raft_packet.truncate pkt) (ne_core a)" "ne_tx a' = ne_tx a"
    "ne_rtt a' = ne_rtt a" "ne_range a' = ne_range a"
  using assms
  by (auto simp: ne_adopt_term_def spec_adopt_def ne_core_def raft_packet.truncate_def
      split: if_splits dest!: ne_start_timeout_fst)

lemma ne_vote_response_step:
  assumes "msg_type pkt = MSG_VOTE_RESPONSE" "ne_handle_vote_response e pkt (a, d) = (a', d')"
  shows "ne_step (spec_react 3 (raft_packet.truncate pkt) (ne_core a)) a a'"
proof -
  have half: "(3 :: u32) div 2 = 1" by simp
  show ?thesis
    using assms
    by (auto simp: ne_handle_vote_response_def ne_become_leader_def ne_send_heartbeat_def ne_step_def ne_bcast
        ne_core_def spec_react_def NUM_NODES_def msg_defs Let_def min_def half split: if_splits)
qed

lemma ne_handle_packet_step:
  assumes "ne_handle_packet e pkt (a, d) = Some (a', d')"
  shows "ne_step (spec_handle 3 (raft_packet.truncate pkt) (ne_core a)) a a'"
proof -
  obtain now a1 d1 where ad: "ne_adopt_term e pkt (a, d) = Some (a1, d1)" and
    rest: "(if msg_type pkt = MSG_VOTE_REQUEST then ne_handle_vote_request e now pkt (a1, d1)
      else if msg_type pkt = MSG_VOTE_RESPONSE then Some (ne_handle_vote_response e pkt (a1, d1))
      else if msg_type pkt = MSG_HEARTBEAT then ne_handle_heartbeat e now pkt (a1, d1)
      else Some (a1, d1)) = Some (a', d')"
    using assms by (auto simp: ne_handle_packet_def bind_eq_Some_conv)
  note A = ne_adopt_term_step [OF ad]
  have "ne_step (spec_react 3 (raft_packet.truncate pkt) (ne_core a1)) a1 a'"
  proof (cases "msg_type pkt = MSG_VOTE_RESPONSE")
    case True
    then have "msg_type pkt \<noteq> MSG_VOTE_REQUEST" by (simp add: msg_defs)
    then show ?thesis using ne_vote_response_step [OF True] rest True by simp
  next
    case False
    then show ?thesis
      using rest
      by (auto simp: ne_handle_vote_request_def ne_handle_heartbeat_def ne_step_def spec_react_def spec_grants_def
          ne_send_def bind_eq_Some_conv Let_def ne_core_def raft_packet.truncate_def msg_defs
          split: if_splits dest!: ne_start_timeout_fst)
  qed
  then show ?thesis using A by (simp add: ne_step_def spec_handle_def)
qed

section \<open>The cluster\<close>

definition ne_sent :: "(u32 \<Rightarrow> ne_sys) \<Rightarrow> (u16 \<times> ne_msg) set" where
  "ne_sent \<sigma> = (\<Union>c\<in>members NUM_NODES. set (ne_tx (fst (\<sigma> c))))"

text \<open>The count is that of the election timeouts. A PS packet changes the estimators of its receiver, and
  nothing is assumed of what they become.\<close>

inductive ne_reach :: "nat \<Rightarrow> (u32 \<Rightarrow> ne_sys) \<Rightarrow> bool" where
  ne_reach_init: "\<lbrakk>\<forall>c\<in>members NUM_NODES. ne_tx (fst (boot c)) = [] \<and>
      ne_raft_init (mn c) (mx c) (es c) c (boot c) = Some (\<sigma> c)\<rbrakk> \<Longrightarrow> ne_reach 0 \<sigma>"
| ne_reach_packet: "\<lbrakk>ne_reach k \<sigma>; c \<in> members NUM_NODES; (ucast c, Raft_msg pkt) \<in> ne_sent \<sigma>;
      ne_handle_packet e pkt (\<sigma> c) = Some s\<rbrakk> \<Longrightarrow> ne_reach k (\<sigma>(c := s))"
| ne_reach_callback: "\<lbrakk>ne_reach k \<sigma>; c \<in> members NUM_NODES; ne_callback e tsc cb (\<sigma> c) = Some s\<rbrakk>
      \<Longrightarrow> ne_reach (if cb = Ne_election_cb then Suc k else k) (\<sigma>(c := s))"
| ne_reach_heartbeat: "\<lbrakk>ne_reach k \<sigma>; c \<in> members NUM_NODES\<rbrakk>
      \<Longrightarrow> ne_reach k (\<sigma>(c := (ne_send_heartbeat (fst (\<sigma> c)), snd (\<sigma> c))))"
| ne_reach_estimate: "\<lbrakk>ne_reach k \<sigma>; c \<in> members NUM_NODES\<rbrakk>
      \<Longrightarrow> ne_reach k (\<sigma>(c := ((fst (\<sigma> c))\<lparr>ne_rtt := r\<rparr>, snd (\<sigma> c))))"
| ne_reach_timers: "\<lbrakk>ne_reach k \<sigma>; c \<in> members NUM_NODES\<rbrakk> \<Longrightarrow> ne_reach k (\<sigma>(c := (fst (\<sigma> c), d)))"

lemma ps_broadcast_send_core [simp]:
  "ne_core (ps_broadcast_send tsc a) = ne_core a" "raft_out (ne_tx (ps_broadcast_send tsc a)) = raft_out (ne_tx a)"
  by (simp_all add: ps_broadcast_send_def broadcast_ps_packet_def fold_ne_send Let_def ne_core_def)

lemma ne_core_rtt [simp]: "ne_core (a\<lparr>ne_rtt := r\<rparr>) = ne_core a"
  by (simp add: ne_core_def)

abbreviation (input) "ncore \<equiv> \<lambda>s :: ne_sys. ne_core (fst s)"
abbreviation (input) "nout \<equiv> \<lambda>s :: ne_sys. raft_out (ne_tx (fst s))"

interpretation ne: raft_impl 3 ncore nout
    "\<lambda>pkt s s'. \<exists>p e. pkt = raft_packet.truncate p \<and> ne_handle_packet e p s = Some s'"
    "\<lambda>s s'. \<exists>e. ne_election_timeout_cb e s = Some s'"
    "\<lambda>s s'. fst s' = ne_send_heartbeat (fst s) \<or> (\<exists>tsc. fst s' = ps_broadcast_send tsc (fst s)) \<or>
       (\<exists>r. fst s' = (fst s)\<lparr>ne_rtt := r\<rparr>) \<or> fst s' = fst s"
proof unfold_locales
  fix pkt and s s' :: ne_sys
  assume "\<exists>p e. pkt = raft_packet.truncate p \<and> ne_handle_packet e p s = Some s'"
  then obtain p e where "pkt = raft_packet.truncate p" "ne_handle_packet e p (fst s, snd s) = Some (fst s', snd s')"
    by auto
  with ne_handle_packet_step [OF this(2)]
  show "(ncore s' = ncore s \<and> nout s' = nout s) \<or>
    (ncore s' = fst (spec_handle 3 pkt (ncore s)) \<and> nout s' = nout s @ snd (spec_handle 3 pkt (ncore s)))"
    by (auto simp: ne_step_def)
next
  fix s s' :: ne_sys
  assume "\<exists>e. ne_election_timeout_cb e s = Some s'"
  then obtain e where "ne_election_timeout_cb e (fst s, snd s) = Some (fst s', snd s')" by auto
  from ne_election_timeout_cb_step [OF this]
  show "ncore s' = fst (spec_timeout 3 (ncore s)) \<and> nout s' = nout s @ snd (spec_timeout 3 (ncore s))"
    by (auto simp: ne_step_def)
next
  fix s s' :: ne_sys
  assume "fst s' = ne_send_heartbeat (fst s) \<or> (\<exists>tsc. fst s' = ps_broadcast_send tsc (fst s)) \<or>
    (\<exists>r. fst s' = (fst s)\<lparr>ne_rtt := r\<rparr>) \<or> fst s' = fst s"
  then show "ncore s' = ncore s \<and> (nout s' = nout s \<or>
      c_state (ncore s) = STATE_LEADER \<and> nout s' = nout s @ spec_broadcast 3 MSG_HEARTBEAT (ncore s))"
    using ne_send_heartbeat_step [of "fst s"] by (auto simp: ne_step_def split: if_splits)
qed

lemma ne_net: "(d, Raft_msg p) \<in> ne_sent \<sigma> \<Longrightarrow>
    (d, raft_packet.truncate p) \<in> net (impl_cluster 3 ncore nout \<sigma>)"
  by (force simp: ne_sent_def impl_cluster_def NUM_NODES_def raft_out_def)

lemma ne_raft_init_core:
  assumes "ne_raft_init mn mx e c s = Some s'"
  shows "ne_core (fst s') = init_core c" "ne_tx (fst s') = ne_tx (fst s)"
  using ne_start_timeout_fst [OF assms [unfolded ne_raft_init_def]] by (simp_all add: ne_core_def init_core_def)

lemma ne_reach_abs: "ne_reach k \<sigma> \<Longrightarrow> areach 3 k (impl_cluster 3 ncore nout \<sigma>)"
proof (induction rule: ne_reach.induct)
  case (ne_reach_init boot mn mx es \<sigma>)
  have "ncore (\<sigma> c) = init_core c \<and> nout (\<sigma> c) = []" if "c \<in> members 3" for c
    using that ne_reach_init ne_raft_init_core [of "mn c" "mx c" "es c" c "boot c" "\<sigma> c"] by (simp add: NUM_NODES_def)
  then show ?case by (intro ne.boot_state) simp
next
  case (ne_reach_packet k \<sigma> c pkt e s)
  show ?case
    by (rule ne.deliver_step [OF ne_reach_packet.IH _ ne_net [OF ne_reach_packet.hyps(3)]])
      (use ne_reach_packet.hyps(2,4) in \<open>auto simp: NUM_NODES_def\<close>)
next
  case (ne_reach_callback k \<sigma> c e tsc cb s)
  have c: "c \<in> members 3" using ne_reach_callback.hyps(2) by (simp add: NUM_NODES_def)
  show ?case
  proof (cases "cb = Ne_election_cb")
    case True
    have "areach 3 (Suc k) (impl_cluster 3 ncore nout (\<sigma>(c := s)))"
      by (rule ne.timeout_step [OF ne_reach_callback.IH c])
        (use ne_reach_callback.hyps(3) True in \<open>auto simp: ne_callback_def\<close>)
    then show ?thesis using True by (simp del: fun_upd_apply)
  next
    case False
    have "areach 3 k (impl_cluster 3 ncore nout (\<sigma>(c := s)))"
      by (rule ne.other_step [OF ne_reach_callback.IH c])
        (use ne_reach_callback.hyps(3) False in \<open>cases cb; auto simp: ne_callback_def\<close>)
    then show ?thesis using False by (simp del: fun_upd_apply)
  qed
next
  case (ne_reach_heartbeat k \<sigma> c)
  show ?case
    by (rule ne.other_step [OF ne_reach_heartbeat.IH])
      (use ne_reach_heartbeat.hyps(2) in \<open>auto simp: NUM_NODES_def\<close>)
next
  case (ne_reach_estimate k \<sigma> c r)
  show ?case
    by (rule ne.other_step [OF ne_reach_estimate.IH])
      (use ne_reach_estimate.hyps(2) in \<open>auto simp: NUM_NODES_def\<close>)
next
  case (ne_reach_timers k \<sigma> c d)
  show ?case
    by (rule ne.other_step [OF ne_reach_timers.IH])
      (use ne_reach_timers.hyps(2) in \<open>auto simp: NUM_NODES_def\<close>)
qed

section \<open>Properties\<close>

definition ne_claims_leader :: "(u32 \<Rightarrow> ne_sys) \<Rightarrow> u32 \<Rightarrow> u32 \<Rightarrow> bool" where
  "ne_claims_leader \<sigma> t c \<longleftrightarrow> c \<in> members NUM_NODES \<and>
     ((ne_get_state (fst (\<sigma> c)) = STATE_LEADER \<and> ne_get_term (fst (\<sigma> c)) = t) \<or>
      (\<exists>d x. (d, Raft_msg \<lparr>msg_type = MSG_HEARTBEAT, packet_term = t, packet_node_id = c, rtt_ms = x\<rparr>) \<in> ne_sent \<sigma>))"

lemma ne_claims_leads:
  assumes "ne_claims_leader \<sigma> t c" shows "leads_in 3 (impl_cluster 3 ncore nout \<sigma>) t c"
proof -
  have "(d, \<lparr>msg_type = MSG_HEARTBEAT, packet_term = t, packet_node_id = c\<rparr>) \<in> net (impl_cluster 3 ncore nout \<sigma>)"
    if "(d, Raft_msg \<lparr>msg_type = MSG_HEARTBEAT, packet_term = t, packet_node_id = c, rtt_ms = x\<rparr>) \<in> ne_sent \<sigma>" for d x
    using ne_net [OF that] by (simp add: raft_packet.truncate_def)
  then show ?thesis
    using assms
    by (auto simp: ne_claims_leader_def leads_in_def NUM_NODES_def impl_cluster_def ne_get_state_def ne_get_term_def)
qed

text \<open>C25: \<^verbatim>\<open>raft_handle_packet\<close> of the NetElect node implements the abstract node of a cluster of three: term,
  vote, tally and role afterwards, and exactly the packets sent while handling the packet, are those of
  the specification, and the estimators do not change.\<close>

theorem ne_handle_packet_implements_spec:
  assumes "ne_handle_packet e pkt (a, d) = Some (a', d')"
  shows "\<exists>ms. ne_core a' = fst (spec_handle 3 (raft_packet.truncate pkt) (ne_core a)) \<and>
    ne_tx a' = ne_tx a @ ms \<and> raft_out ms = snd (spec_handle 3 (raft_packet.truncate pkt) (ne_core a)) \<and>
    ne_rtt a' = ne_rtt a"
  using ne_handle_packet_step [OF assms] unfolding ne_step_def by blast

text \<open>C16: Election safety of NetElect: in every state that three nodes reach under loss, duplication and
  reordering of packets, arbitrary timers and arbitrary estimates, with fewer than \<open>2 ^ 32\<close> elections
  started, two nodes that lead in a term, or ever sent a heartbeat of that term, are the same node.\<close>

theorem ne_one_leader_per_term:
  assumes "ne_reach k \<sigma>" "k < 2 ^ 32" "ne_claims_leader \<sigma> t c" "ne_claims_leader \<sigma> t c'"
  shows "c = c'"
  by (rule areach_one_leader [OF ne_reach_abs [OF assms(1)] _ assms(2)
        ne_claims_leads [OF assms(3)] ne_claims_leads [OF assms(4)]]) simp

section \<open>The handlers return\<close>

lemma ne_start_timeout_total:
  "range_ok (ne_range a) \<Longrightarrow> \<exists>d'. ne_start_timeout e (a, d) = Some (a, d')"
  using timeout_start_election_total [of "ne_range a" e ne_election_timer Ne_election_cb d]
  by (auto simp: ne_start_timeout_def)

lemma ne_start_timeout_returns:
  "range_ok (ne_range a) \<Longrightarrow> \<exists>s'. ne_start_timeout e (a, d) = Some s'"
  using ne_start_timeout_total [of a e d] by blast

lemma ne_handle_packet_total:
  assumes "range_ok (ne_range (fst s))" "timer_hz e \<noteq> 0"
  shows "\<exists>s'. ne_handle_packet e pkt s = Some s'"
proof -
  obtain now where now: "get_time_ms e = Some now" using assms(2) by (simp add: get_time_ms_def)
  have "\<exists>s1. ne_adopt_term e pkt s = Some s1"
    unfolding ne_adopt_term_def by (cases "packet_term pkt > ne_current_term (ne_node (fst s))")
      (simp_all only: if_True if_False option.inject ex_simps, rule ne_start_timeout_returns, use assms(1) in auto)
  then obtain s1 where s1: "ne_adopt_term e pkt s = Some s1" by blast
  have r: "range_ok (ne_range (fst s1))"
    using ne_adopt_term_step(4) [of e pkt "fst s" "snd s" "fst s1" "snd s1"] s1 assms(1) by simp
  have "\<exists>s'. ne_handle_vote_request e now pkt s1 = Some s'"
    using r ne_start_timeout_returns [of "upd_ne (\<lambda>n. n\<lparr>ne_voted_for := packet_node_id pkt,
      ne_last_heard_ms := now\<rparr>) (fst s1)" e "snd s1"]
    by (auto simp: ne_handle_vote_request_def Let_def)
  moreover have "\<exists>s'. ne_handle_heartbeat e now pkt s1 = Some s'"
    unfolding ne_handle_heartbeat_def by (cases "packet_term pkt \<ge> ne_current_term (ne_node (fst s1))")
      (simp_all only: if_True if_False option.inject ex_simps, rule ne_start_timeout_returns, use r in auto)
  ultimately show ?thesis by (simp add: ne_handle_packet_def now s1 del: split_paired_Ex)
qed

lemma ne_election_timeout_cb_total:
  assumes "range_ok (ne_range (fst s))" "timer_hz e \<noteq> 0"
  shows "\<exists>s'. ne_election_timeout_cb e s = Some s'"
proof -
  obtain now where now: "get_time_ms e = Some now" using assms(2) by (simp add: get_time_ms_def)
  have "\<exists>s'. ne_start_election e now s = Some s'"
    unfolding ne_start_election_def Let_def
    by (rule ne_start_timeout_returns) (use assms(1) in \<open>simp add: ne_bcast\<close>)
  then show ?thesis by (simp add: ne_election_timeout_cb_def now del: split_paired_Ex)
qed

end
