(* ===== verification/RaftRuns.thy ===== *)
theory RaftRuns
  imports RaftTimers
begin

text \<open>
  The main loop as steps of the cluster, and the converse of the refinement: every run of the
  abstract cluster is a run of the handlers. A run that elects two leaders in one term among
  five nodes, and one that elects a leader among three.
\<close>

section \<open>A round of the main loop is a sequence of cluster steps\<close>

lemma reach_raft_call:
  assumes "\<And>d. \<exists>k. reach num cfgs k (\<sigma>(c := (a, d)))" "c \<in> members num"
    and "fst (raft_call (cfgs c) e cb (Some a, d)) = Some a'"
  shows "\<exists>k. reach num cfgs k (\<sigma>(c := (a', d')))"
proof -
  obtain d1 where s: "raft_callback (cfgs c) e cb (a, d) = Some (a', d1)"
    using assms(3) by (auto simp: raft_call_def split: option.splits)
  obtain k where "reach num cfgs k (\<sigma>(c := (a, d)))" using assms(1) by blast
  from reach_callback [OF this assms(2), of e cb "(a', d1)"] s
  obtain k' where "reach num cfgs k' (\<sigma>(c := (a', d1)))" by auto
  from reach_timers [OF this assms(2), of d'] show ?thesis by auto
qed

lemma reach_packets:
  assumes "reach num cfgs k \<sigma>" "c \<in> members num" "\<forall>p\<in>set ps. (ucast c, p) \<in> sent num \<sigma>"
    and "handle_packets (cfgs c) e ps (\<sigma> c) = Some s"
  shows "reach num cfgs k (\<sigma>(c := s))"
  using assms
proof (induction ps arbitrary: \<sigma>)
  case (Cons p ps)
  obtain s1 where s1: "raft_handle_packet (cfgs c) e p (\<sigma> c) = Some s1" "handle_packets (cfgs c) e ps s1 = Some s"
    using Cons.prems(4) by (auto simp: bind_eq_Some_conv)
  have r: "reach num cfgs k (\<sigma>(c := s1))"
    using reach_packet [OF Cons.prems(1,2) _ s1(1)] Cons.prems(3) by simp
  have "take (length (tx (fst (\<sigma> c)))) (tx (fst s1)) = tx (fst (\<sigma> c))"
    using raft_handle_packet_refines(3) [of "cfgs c" e p "fst (\<sigma> c)" "snd (\<sigma> c)" "fst s1" "snd s1"] s1(1) by simp
  from sent_upd [where \<sigma> = \<sigma> and s = s1, OF Cons.prems(2) this] have "sent num \<sigma> \<subseteq> sent num (\<sigma>(c := s1))" by blast
  then have "\<forall>p\<in>set ps. (ucast c, p) \<in> sent num (\<sigma>(c := s1))" using Cons.prems(3) by auto
  from Cons.IH [OF r Cons.prems(2) this] show ?case using s1(2) by (simp only: fun_upd_same fun_upd_upd)
qed (simp add: fun_upd_idem)

lemma reach_round:
  assumes r: "reach num cfgs k \<sigma>" and c: "c \<in> members num"
    and rx: "\<forall>p\<in>set rx. (ucast c, p) \<in> sent num \<sigma>"
    and round: "lcore_main_round (cfgs c) e rx (hb, \<sigma> c) = Some (hb', s')"
  shows "\<exists>k'. reach num cfgs k' (\<sigma>(c := s'))"
proof -
  obtain s1 rc a2 d2 a3 where
    s1: "handle_packets (cfgs c) e rx (\<sigma> c) = Some s1" and
    m: "rte_timer_manage e (raft_call (cfgs c) e) (Some (fst s1), snd s1) = (rc, Some a2, d2)" and
    h: "lcore_heartbeat (cfgs c) e hb a2 = Some (hb', a3)" and s': "s' = (a3, d2)"
  proof -
    obtain s1 where s1: "handle_packets (cfgs c) e rx (\<sigma> c) = Some s1"
      using round by (auto simp: lcore_main_round_def bind_eq_Some_conv)
    obtain rc oa d2 where m: "rte_timer_manage e (raft_call (cfgs c) e) (Some (fst s1), snd s1) = (rc, oa, d2)"
      by (metis prod.collapse)
    show ?thesis
      using round that [OF s1] m by (auto simp: lcore_main_round_def bind_eq_Some_conv s1)
  qed
  have r1: "reach num cfgs k (\<sigma>(c := s1))" by (rule reach_packets [OF r c rx s1])
  define P where "P = (\<lambda>oa. case oa of None \<Rightarrow> True | Some a \<Rightarrow> \<forall>d. \<exists>k. reach num cfgs k (\<sigma>(c := (a, d))))"
  have start: "P (Some (fst s1))"
    using reach_timers [OF r1 c] by (auto simp: P_def)
  have step: "P (fst (raft_call (cfgs c) e cb (oa, d)))" if "P oa" for cb oa d
  proof (cases "fst (raft_call (cfgs c) e cb (oa, d))")
    case (Some a')
    then obtain a where oa: "oa = Some a" by (cases oa) (auto simp: raft_call_def)
    show ?thesis
      using reach_raft_call [where \<sigma> = \<sigma> and a = a and cfgs = cfgs and num = num and a' = a', OF _ c Some [unfolded oa]] that
      by (simp add: P_def oa Some [unfolded oa])
  qed (simp add: P_def)
  have "P (fst (snd (rte_timer_manage e (raft_call (cfgs c) e) (Some (fst s1), snd s1))))"
    by (rule rte_timer_manage_app [where P = P]) (use step start in auto)
  then obtain k2 where r2: "reach num cfgs k2 (\<sigma>(c := (a2, d2)))" by (auto simp: m P_def)
  have "a3 = a2 \<or> a3 = raft_send_heartbeat (cfgs c) a2"
    using h by (auto simp: lcore_heartbeat_def bind_eq_Some_conv split: if_splits)
  then show ?thesis
    using reach_heartbeat [OF r2 c] r2 by (auto simp: s')
qed

section \<open>Every abstract run is a run of the handlers\<close>

definition cluster_config :: "u32 \<Rightarrow> (u32 \<Rightarrow> raft_config) \<Rightarrow> bool" where
  "cluster_config num cfgs \<longleftrightarrow> (\<forall>c\<in>members num. node_num (cfgs c) = num \<and> \<not> test_auto_fail (cfgs c) \<and>
     range_ok (election_timeout_min_ms (cfgs c), election_timeout_max_ms (cfgs c)))"

definition represents ::
  "u32 \<Rightarrow> (u32 \<Rightarrow> raft_config) \<Rightarrow> eal \<Rightarrow> nat \<Rightarrow> acluster \<Rightarrow> (u32 \<Rightarrow> raft_sys) \<Rightarrow> bool" where
  "represents num cfgs e k s \<sigma> \<longleftrightarrow> reach num cfgs k \<sigma> \<and> sent num \<sigma> = net s \<and>
    (\<forall>c\<in>members num. core_of (fst (\<sigma> c)) = cores s c \<and> node_ok (lcore_id e) (\<sigma> c))"

lemma represents_upd:
  assumes "represents num cfgs e k s \<sigma>" "reach num cfgs k' (\<sigma>(c := x))"
    "sent num (\<sigma>(c := x)) = net (acluster_upd c km s)" "core_of (fst x) = fst km" "node_ok (lcore_id e) x"
  shows "represents num cfgs e k' (acluster_upd c km s) (\<sigma>(c := x))"
  using assms(2,3) unfolding represents_def
  by (intro conjI) (use assms(1,4,5) in \<open>simp_all add: represents_def acluster_upd_def\<close>)

lemma areach_represents:
  assumes "areach num k s" "cluster_config num cfgs" "eal_ok e"
  shows "\<exists>\<sigma>. represents num cfgs e k s \<sigma>"
  using assms(1)
proof induction
  case (areach_init s)
  have ex: "\<exists>s'. raft_init (cfgs c) e c (quiet_app, boot_timers) = Some s' \<and> node_ok (lcore_id e) s'"
    if "c \<in> members num" for c
    by (rule raft_init_ok)
      (use assms(2,3) that boot_timers_ok in \<open>auto simp: cluster_config_def range_ok_def quiet_app_def\<close>)
  define \<sigma> where "\<sigma> c = the (raft_init (cfgs c) e c (quiet_app, boot_timers))" for c
  have \<sigma>: "raft_init (cfgs c) e c (quiet_app, boot_timers) = Some (\<sigma> c)" "node_ok (lcore_id e) (\<sigma> c)"
    if "c \<in> members num" for c
    using ex [OF that] by (auto simp: \<sigma>_def)
  note I = raft_init_core [OF \<sigma>(1)]
  have "reach num cfgs 0 \<sigma>"
    using reach.reach_init [where boot = "\<lambda>_. (quiet_app, boot_timers)" and es = "\<lambda>_. e" and cfgs = cfgs
      and num = num and \<sigma> = \<sigma>] assms(2) \<sigma>(1) by (simp add: cluster_config_def quiet_app_def)
  moreover have "sent num \<sigma> = net s" using areach_init I(2) by (auto simp: sent_def quiet_app_def)
  moreover have "\<forall>c\<in>members num. core_of (fst (\<sigma> c)) = cores s c \<and> node_ok (lcore_id e) (\<sigma> c)"
    using areach_init I(1) \<sigma>(2) by simp
  ultimately show ?case unfolding represents_def by blast
next
  case (areach_timeout k s c)
  then obtain \<sigma> where rep: "represents num cfgs e k s \<sigma>" by blast
  then have \<sigma>: "reach num cfgs k \<sigma>" "sent num \<sigma> = net s"
    "\<forall>c\<in>members num. core_of (fst (\<sigma> c)) = cores s c \<and> node_ok (lcore_id e) (\<sigma> c)"
    by (simp_all add: represents_def)
  have ok: "node_ok (lcore_id e) (fst (\<sigma> c), snd (\<sigma> c))" using \<sigma>(3) areach_timeout.hyps(2) by simp
  obtain a' d' where r: "election_timeout_cb (cfgs c) e (fst (\<sigma> c), snd (\<sigma> c)) = Some (a', d')" "node_ok (lcore_id e) (a', d')"
  proof (cases "current_state (raft_node (fst (\<sigma> c))) = STATE_LEADER")
    case True
    obtain now where "monotonic_us e = Some now" using monotonic_us_ok [OF assms(3)] by blast
    then show ?thesis using that [of "fst (\<sigma> c)" "snd (\<sigma> c)"] ok True by (simp add: election_timeout_cb_def)
  next
    case False
    show ?thesis
      by (rule election_timeout_cb_ok [of "snd (\<sigma> c)" e "fst (\<sigma> c)" "cfgs c"])
        (use ok node_ok_grab [OF ok] False assms(3) that in \<open>auto simp: node_ok_def Let_def\<close>)
  qed
  note R = election_timeout_cb_refines [OF r(1)]
  have n: "node_num (cfgs c) = num" using assms(2) areach_timeout.hyps(2) by (simp add: cluster_config_def)
  have "reach num cfgs (Suc k) (\<sigma>(c := (a', d')))"
    using reach_callback [OF \<sigma>(1) areach_timeout.hyps(2), of e Election_timeout_cb "(a', d')"] r(1)
    by (simp add: raft_callback_def)
  moreover have "sent num (\<sigma>(c := (a', d'))) = net (acluster_upd c (spec_timeout num (cores s c)) s)"
    using sent_upd [OF areach_timeout.hyps(2), of \<sigma> "(a', d')"] R \<sigma>(2,3) areach_timeout.hyps(2) n
    by (simp add: acluster_upd_def)
  moreover have "core_of a' = fst (spec_timeout num (cores s c))"
    using R \<sigma>(3) areach_timeout.hyps(2) n by simp
  ultimately show ?case
    using represents_upd [OF rep, where c = c and x = "(a', d')"] r(2) by (metis (no_types, lifting) fst_conv)
next
  case (areach_deliver k s c pkt)
  then obtain \<sigma> where rep: "represents num cfgs e k s \<sigma>" by blast
  then have \<sigma>: "reach num cfgs k \<sigma>" "sent num \<sigma> = net s"
    "\<forall>c\<in>members num. core_of (fst (\<sigma> c)) = cores s c \<and> node_ok (lcore_id e) (\<sigma> c)"
    by (simp_all add: represents_def)
  have ok: "node_ok (lcore_id e) (fst (\<sigma> c), snd (\<sigma> c))" using \<sigma>(3) areach_deliver.hyps(2) by simp
  have cf: "node_num (cfgs c) = num" "\<not> test_auto_fail (cfgs c)"
    using assms(2) areach_deliver.hyps(2) by (simp_all add: cluster_config_def)
  obtain a' d' where r: "raft_handle_packet (cfgs c) e pkt (fst (\<sigma> c), snd (\<sigma> c)) = Some (a', d')"
    "node_ok (lcore_id e) (a', d')"
    using raft_handle_packet_ok [OF ok assms(3) cf(2), of pkt] by (metis prod.collapse)
  note R = raft_handle_packet_refines [OF r(1)]
  have on: "\<not> test_auto_fail_enabled (fst (\<sigma> c))" using ok by (simp add: node_ok_def Let_def)
  have sp: "spec_handle num pkt (cores s c) = (core_of a', drop (length (tx (fst (\<sigma> c)))) (tx a'))"
    using R(2) on \<sigma>(3) areach_deliver.hyps(2) cf(1) by simp
  have "reach num cfgs k (\<sigma>(c := (a', d')))"
    using reach_packet [OF \<sigma>(1) areach_deliver.hyps(2), of pkt e "(a', d')"] r(1) \<sigma>(2) areach_deliver.hyps(3) by simp
  moreover have "sent num (\<sigma>(c := (a', d'))) = net (acluster_upd c (spec_handle num pkt (cores s c)) s)"
    using sent_upd [OF areach_deliver.hyps(2), of \<sigma> "(a', d')"] R(3) \<sigma>(2) sp by (simp add: acluster_upd_def)
  ultimately show ?case
    using represents_upd [OF rep, where c = c and x = "(a', d')"] r(2) sp by (metis (no_types, lifting) fst_conv)
next
  case (areach_beat k s c)
  then obtain \<sigma> where rep: "represents num cfgs e k s \<sigma>" by blast
  then have \<sigma>: "reach num cfgs k \<sigma>" "sent num \<sigma> = net s"
    "\<forall>c\<in>members num. core_of (fst (\<sigma> c)) = cores s c \<and> node_ok (lcore_id e) (\<sigma> c)"
    by (simp_all add: represents_def)
  let ?a = "raft_send_heartbeat (cfgs c) (fst (\<sigma> c))"
  have ok: "node_ok (lcore_id e) (fst (\<sigma> c), snd (\<sigma> c))" using \<sigma>(3) areach_beat.hyps(2) by simp
  have n: "node_num (cfgs c) = num" using assms(2) areach_beat.hyps(2) by (simp add: cluster_config_def)
  note R = raft_send_heartbeat_refines [of "cfgs c" "fst (\<sigma> c)"]
  have "current_state (raft_node (fst (\<sigma> c))) = STATE_LEADER \<and> \<not> test_auto_fail_enabled (fst (\<sigma> c))"
    using areach_beat.hyps \<sigma>(3) ok by (metis core_of_simps(5) node_ok_def)
  then have t: "tx ?a = tx (fst (\<sigma> c)) @ spec_broadcast num MSG_HEARTBEAT (cores s c)"
    using R(2) n \<sigma>(3) areach_beat.hyps(2) by simp
  have "reach num cfgs k (\<sigma>(c := (?a, snd (\<sigma> c))))" by (rule reach_heartbeat [OF \<sigma>(1) areach_beat.hyps(2)])
  moreover have "sent num (\<sigma>(c := (?a, snd (\<sigma> c)))) =
      net (acluster_upd c (cores s c, spec_broadcast num MSG_HEARTBEAT (cores s c)) s)"
    using sent_upd [OF areach_beat.hyps(2), of \<sigma> "(?a, snd (\<sigma> c))"] t \<sigma>(2) by (simp add: acluster_upd_def)
  moreover have "node_ok (lcore_id e) (?a, snd (\<sigma> c))"
    by (rule node_ok_same_state [OF ok]) (simp_all add: raft_send_heartbeat_def broadcast_eq)
  ultimately show ?case
    using represents_upd [OF rep, where c = c and x = "(?a, snd (\<sigma> c))"] R(1) \<sigma>(3) areach_beat.hyps(2) by (metis (no_types, lifting) fst_conv)
qed

section \<open>Executable runs\<close>

datatype event = Timeout u32 | Deliver u32 raft_packet

fun arun :: "u32 \<Rightarrow> event list \<Rightarrow> acluster \<Rightarrow> acluster option" where
  "arun num [] s = Some s"
| "arun num (Timeout c # es) s =
     (if 1 \<le> c \<and> c \<le> num then arun num es (acluster_upd c (spec_timeout num (cores s c)) s) else None)"
| "arun num (Deliver c p # es) s =
     (if 1 \<le> c \<and> c \<le> num \<and> (ucast c, p) \<in> net s
      then arun num es (acluster_upd c (spec_handle num p (cores s c)) s) else None)"

fun elections :: "event list \<Rightarrow> nat" where
  "elections [] = 0"
| "elections (Timeout c # es) = Suc (elections es)"
| "elections (Deliver c p # es) = elections es"

definition start_cluster :: acluster where
  "start_cluster = \<lparr>cores = init_core, net = {}\<rparr>"

lemma areach_start: "areach num 0 start_cluster"
  by (rule areach.areach_init) (simp_all add: start_cluster_def)

lemma arun_areach: "arun num es s = Some s' \<Longrightarrow> areach num k s \<Longrightarrow> areach num (k + elections es) s'"
proof (induction es arbitrary: s k rule: elections.induct)
  case (2 c es)
  then show ?case
    using areach_timeout [of num k s c] by (fastforce simp: members_def split: if_splits)
next
  case (3 c p es)
  then show ?case
    using areach_deliver [of num k s c p] by (fastforce simp: members_def split: if_splits)
qed simp

abbreviation (input) "vote_request t c \<equiv> \<lparr>msg_type = MSG_VOTE_REQUEST, packet_term = t, packet_node_id = c\<rparr>"
abbreviation (input) "vote_response t v \<equiv> \<lparr>msg_type = MSG_VOTE_RESPONSE, packet_term = t, packet_node_id = v\<rparr>"

text \<open>
  Node 3 gets node 1's request of term 2 and then its delayed request of term 1, and answers both
  with a vote of term 2; node 1 counts both.
\<close>

definition double_vote_run :: "event list" where
  "double_vote_run =
     [Timeout 1, Timeout 1, Timeout 2, Timeout 2,
      Deliver 3 (vote_request 2 1), Deliver 3 (vote_request 1 1),
      Deliver 1 (vote_response 2 3), Deliver 1 (vote_response 2 3),
      Deliver 4 (vote_request 2 2), Deliver 5 (vote_request 2 2),
      Deliver 2 (vote_response 2 4), Deliver 2 (vote_response 2 5)]"

definition two_leaders :: "acluster \<Rightarrow> bool" where
  "two_leaders s \<longleftrightarrow> c_state (cores s 1) = STATE_LEADER \<and> c_state (cores s 2) = STATE_LEADER \<and>
     c_term (cores s 1) = 2 \<and> c_term (cores s 2) = 2"

lemma double_vote_run_ok: "map_option two_leaders (arun 5 double_vote_run start_cluster) = Some True"
  by code_simp

section \<open>A node ahead of the others can always win\<close>

lemma spec_handle_newer_request:
  assumes "c_term k < t" "x \<noteq> 0"
  shows "spec_handle num (vote_request t x) k =
    (k\<lparr>c_term := t, c_state := STATE_FOLLOWER, c_vote := x\<rparr>, [(ucast x, vote_response t (c_id k))])"
  using assms by (simp add: spec_handle_def spec_adopt_def spec_react_def spec_grants_def)

lemma spec_handle_first_response:
  assumes "num = 2 \<or> num = 3" "c_state k = STATE_CANDIDATE" "c_granted k = 1" "c_term k = t"
  shows "fst (spec_handle num (vote_response t v) k) = k\<lparr>c_state := STATE_LEADER, c_granted := 2\<rparr>"
proof -
  have h: "num div 2 = 1" "(2 :: u32) \<le> num" using assms(1) by auto
  show ?thesis
    using assms(2-4) h by (simp add: spec_handle_def spec_adopt_def spec_react_def msg_defs min_def)
qed

lemma win_election:
  assumes r: "areach num k s" and num: "num = 2 \<or> num = 3" and k: "Suc k < 2 ^ 32"
    and c: "c \<in> members num" "c_state (cores s c) \<noteq> STATE_LEADER"
    and top: "\<forall>v\<in>members num. c_term (cores s v) \<le> c_term (cores s c)"
  shows "\<exists>s'. areach num (Suc k) s' \<and> c_state (cores s' c) = STATE_LEADER \<and>
    c_term (cores s' c) = c_term (cores s c) + 1"
proof -
  let ?t = "c_term (cores s c) + 1"
  have n2: "2 \<le> num" using num by auto
  obtain v where v: "v \<in> members num" "v \<noteq> c" using other_member [OF n2 c(1)] .
  have ids: "c_id (cores s x) = x" if "x \<in> members num" for x
    using areach_inv [OF r num] k that by (simp add: cluster_inv_def node_inv_def)
  define k1 where "k1 = (cores s c)\<lparr>c_state := STATE_CANDIDATE, c_term := ?t, c_vote := c, c_granted := 1\<rparr>"
  have t1: "spec_timeout num (cores s c) = (k1, spec_broadcast num MSG_VOTE_REQUEST k1)"
    using c ids [OF c(1)] by (simp add: spec_timeout_def k1_def Let_def)
  define s1 where "s1 = acluster_upd c (spec_timeout num (cores s c)) s"
  have r1: "areach num (Suc k) s1" unfolding s1_def by (rule areach_timeout [OF r c(1)])
  have "(ucast v, vote_request ?t c) \<in> set (spec_broadcast num MSG_VOTE_REQUEST k1)"
    using v ids [OF c(1)] by (auto simp: spec_broadcast_in k1_def)
  then have q: "(ucast v, vote_request ?t c) \<in> net s1" by (simp add: s1_def t1 acluster_upd_def)
  have "unat (c_term (cores s c)) \<le> k" using areach_terms [OF r] c(1) by blast
  moreover have "unat (- 1 :: u32) = 2 ^ 32 - 1" by (simp add: unsigned_minus_1_eq_mask mask_eq_exp_minus_1)
  ultimately have "c_term (cores s c) \<noteq> - 1" using k by force
  then have "unat ?t = Suc (unat (c_term (cores s c)))" by (rule unat_Suc_no_wrap)
  moreover have "unat (c_term (cores s v)) \<le> unat (c_term (cores s c))"
    using top v(1) by (simp add: word_le_nat_alt)
  ultimately have lt: "c_term (cores s1 v) < ?t" using v(2) by (simp add: s1_def acluster_upd_def word_less_nat_alt)
  define s2 where "s2 = acluster_upd v (spec_handle num (vote_request ?t c) (cores s1 v)) s1"
  have r2: "areach num (Suc k) s2" unfolding s2_def by (rule areach_deliver [OF r1 v(1) q])
  have a: "(ucast c, vote_response ?t v) \<in> net s2" "cores s2 c = k1"
  proof -
    have "c_id (cores s1 v) = v" "cores s1 c = k1"
      using v(2) ids [OF v(1)] by (simp_all add: s1_def acluster_upd_def t1)
    moreover note spec_handle_newer_request [OF lt members_nonzero [OF c(1)], of num]
    ultimately show "(ucast c, vote_response ?t v) \<in> net s2" "cores s2 c = k1"
      using v(2) unfolding s2_def by (simp_all add: acluster_upd_def)
  qed
  have r3: "areach num (Suc k) (acluster_upd c (spec_handle num (vote_response ?t v) (cores s2 c)) s2)"
    by (rule areach_deliver [OF r2 c(1) a(1)])
  have "fst (spec_handle num (vote_response ?t v) (cores s2 c)) = k1\<lparr>c_state := STATE_LEADER, c_granted := 2\<rparr>"
    using spec_handle_first_response [OF num, of k1 ?t v] by (simp add: a(2) k1_def)
  then show ?thesis
    by (intro exI [of _ "acluster_upd c (spec_handle num (vote_response ?t v) (cores s2 c)) s2"] conjI r3)
      (simp_all add: acluster_upd_def k1_def)
qed

section \<open>Properties\<close>

lemma demo_cluster: "cluster_config num (demo_config num)"
  by (simp add: cluster_config_def demo_ok range_ok_def)



text \<open>C13: The abstract cluster has no run that the code does not have: for every reachable abstract state,
  a cluster of nodes booted with valid timeouts reaches a state with the same terms, votes,
  tallies and roles and the same packets sent, in which every node's timers are in order.\<close>

theorem abstract_runs_are_code_runs:
  assumes "areach num k s" "cluster_config num cfgs" "eal_ok e"
  shows "\<exists>\<sigma>. reach num cfgs k \<sigma> \<and> sent num \<sigma> = net s \<and>
    (\<forall>c. c \<notin> members num \<or> (core_of (fst (\<sigma> c)) = cores s c \<and> node_ok (lcore_id e) (\<sigma> c)))"
  using areach_represents [OF assms] unfolding represents_def by blast

lemma abstract_runs_are_code_runs_witness:
  "\<exists>\<sigma>. reach 3 (demo_config 3) 0 \<sigma> \<and> sent 3 \<sigma> = net start_cluster"
  using abstract_runs_are_code_runs [OF areach_start demo_cluster demo_ok(1), of 3] by blast

text \<open>C12: Every state the handlers reach is, on terms, votes, tallies, roles and packets sent, a
  reachable state of the abstract cluster, after as many elections.\<close>

theorem code_runs_are_abstract_runs:
  assumes "reach num cfgs k \<sigma>"
  shows "areach num k \<lparr>cores = (\<lambda>c. core_of (fst (\<sigma> c))), net = sent num \<sigma>\<rparr>"
  using reach_abs [OF assms] by (simp add: abs_cluster_def)

lemma code_runs_are_abstract_runs_witness:
  "\<exists>\<sigma>. reach 3 (demo_config 3) 0 \<sigma> \<and> areach 3 0 \<lparr>cores = (\<lambda>c. core_of (fst (\<sigma> c))), net = sent 3 \<sigma>\<rparr>"
proof -
  obtain \<sigma> where "represents 3 (demo_config 3) demo_eal 0 start_cluster \<sigma>"
    using areach_represents [OF areach_start demo_cluster demo_ok(1)] by blast
  then have r: "reach 3 (demo_config 3) 0 \<sigma>" by (simp add: represents_def)
  show ?thesis using r code_runs_are_abstract_runs [OF r] by blast
qed

definition win_run :: "event list" where
  "win_run = [Timeout 1, Deliver 2 (vote_request 1 1), Deliver 1 (vote_response 1 2)]"

lemma win_run_ok:
  "map_option (\<lambda>s. c_state (cores s 1) = STATE_LEADER \<and> c_term (cores s 1) = 1) (arun 3 win_run start_cluster) = Some True"
  by code_simp

lemma one_leader_per_term_witness:
  "\<exists>\<sigma>. reach 3 (demo_config 3) 1 \<sigma> \<and> claims_leader \<sigma> 3 1 1 \<and> {c. claims_leader \<sigma> 3 1 c} = {1}"
proof -
  obtain s where s: "arun 3 win_run start_cluster = Some s" "c_state (cores s 1) = STATE_LEADER" "c_term (cores s 1) = 1"
    using win_run_ok by auto
  have "areach 3 1 s" using arun_areach [OF s(1) areach_start] by (simp add: win_run_def)
  then obtain \<sigma> where \<sigma>: "represents 3 (demo_config 3) demo_eal 1 s \<sigma>"
    using areach_represents [OF _ demo_cluster demo_ok(1)] by blast
  have m: "1 \<in> members 3" by (simp add: members_def)
  have r: "reach 3 (demo_config 3) 1 \<sigma>" and c: "core_of (fst (\<sigma> 1)) = cores s 1"
    using \<sigma> m by (simp_all add: represents_def)
  have l: "claims_leader \<sigma> 3 1 1"
    using s(2,3) m unfolding c [symmetric] by (simp add: claims_leader_def raft_get_state_def raft_get_term_def)
  have "c = 1" if "claims_leader \<sigma> 3 1 c" for c
    by (rule one_leader_per_term [OF r _ _ that l]) simp_all
  then show ?thesis using r l by blast
qed

text \<open>C11: With five nodes election safety fails: the handlers reach a state in which nodes 1 and 2 are
  both leaders of term 2. Votes are tallied without looking at the sender, and a voter answers a
  delayed request of an earlier term with a second vote of its current term.\<close>

theorem two_leaders_among_five:
  "\<exists>\<sigma>. reach 5 (demo_config 5) 4 \<sigma> \<and> claims_leader \<sigma> 5 2 1 \<and> claims_leader \<sigma> 5 2 2"
proof -
  obtain s where s: "arun 5 double_vote_run start_cluster = Some s" "two_leaders s"
    using double_vote_run_ok by auto
  have "areach 5 4 s" using arun_areach [OF s(1) areach_start] by (simp add: double_vote_run_def eval_nat_numeral)
  then obtain \<sigma> where \<sigma>: "represents 5 (demo_config 5) demo_eal 4 s \<sigma>"
    using areach_represents [OF _ demo_cluster demo_ok(1)] by blast
  have m: "1 \<in> members 5" "2 \<in> members 5" by (simp_all add: members_def)
  have r: "reach 5 (demo_config 5) 4 \<sigma>" and c: "core_of (fst (\<sigma> 1)) = cores s 1" "core_of (fst (\<sigma> 2)) = cores s 2"
    using \<sigma> m by (simp_all add: represents_def)
  show ?thesis
    using r m s(2) unfolding two_leaders_def c [symmetric]
    by (auto simp: claims_leader_def raft_get_state_def raft_get_term_def)
qed



end
