(* ===== verification/NeRuns.thy ===== *)
theory NeRuns
  imports NeCluster RaftRuns
begin

text \<open>
  The converse of the refinement for the NetElect cluster: every run of the abstract cluster of three
  is a run of its handlers, so a leader can be elected and the safety theorem is about states that
  do have leaders.
\<close>

lemma raft_out_in: "(d, q) \<in> set (raft_out ms) \<Longrightarrow> \<exists>p. (d, Raft_msg p) \<in> set ms \<and> raft_packet.truncate p = q"
proof -
  have "(d, q) \<in> set (raft_part (x, m)) \<Longrightarrow> \<exists>p. (x, m) = (d, Raft_msg p) \<and> raft_packet.truncate p = q" for x m
    by (cases m) auto
  then show "(d, q) \<in> set (raft_out ms) \<Longrightarrow> ?thesis" by (fastforce simp: raft_out_def)
qed

lemma demo_hz: "timer_hz demo_eal \<noteq> 0"
  by (simp add: demo_eal_def)

lemma ne_net_in:
  assumes "(d, q) \<in> net (impl_cluster 3 ncore nout \<sigma>)"
  obtains p where "(d, Raft_msg p) \<in> ne_sent \<sigma>" "raft_packet.truncate p = q"
  using assms raft_out_in [of d q] by (fastforce simp: impl_cluster_def ne_sent_def NUM_NODES_def)

definition ne_represents :: "nat \<Rightarrow> acluster \<Rightarrow> (u32 \<Rightarrow> ne_sys) \<Rightarrow> bool" where
  "ne_represents k s \<sigma> \<longleftrightarrow> ne_reach k \<sigma> \<and> net (impl_cluster 3 ncore nout \<sigma>) = net s \<and>
    (\<forall>c\<in>members 3. ncore (\<sigma> c) = cores s c \<and> range_ok (ne_range (fst (\<sigma> c))))"

text \<open>A node that makes the step of the specification keeps the correspondence.\<close>

lemma ne_represents_upd:
  assumes "ne_represents k s \<sigma>" "ne_reach k' (\<sigma>(c := x))" "c \<in> members 3"
    and "ne_step km (fst (\<sigma> c)) (fst x)"
  shows "ne_represents k' (acluster_upd c km s) (\<sigma>(c := x))"
proof -
  obtain ms where "raft_out (ne_tx (fst x)) = raft_out (ne_tx (fst (\<sigma> c))) @ snd km" "ncore x = fst km"
    "ne_range (fst x) = ne_range (fst (\<sigma> c))"
    using assms(4) by (auto simp: ne_step_def)
  moreover from this have "impl_cluster 3 ncore nout (\<sigma>(c := x)) = acluster_upd c (fst km, snd km) (impl_cluster 3 ncore nout \<sigma>)"
    by (intro impl_cluster_upd [OF assms(3)])
  ultimately show ?thesis
    using assms(1,2,3) unfolding ne_represents_def by (simp add: acluster_upd_def)
qed

definition ne_demo_app :: ne_app where
  "ne_demo_app = \<lparr>ne_node = \<lparr>ne_self_id = 0, ne_current_term = 0, ne_voted_for = 0, ne_vote_granted = 0,
      ne_current_state = STATE_FOLLOWER, ne_last_heard_ms = 0, ne_penalty = Fin 0, ne_last_ps_tx_ts = 0\<rparr>,
    ne_range = (150, 300), ne_rtt = ne_rtt_boot, ne_tx = []\<rparr>"

lemma ne_demo: "ne_tx ne_demo_app = []" "range_ok (ne_range ne_demo_app)"
  by (simp_all add: ne_demo_app_def range_ok_def)

lemma ne_areach_represents: "areach 3 k s \<Longrightarrow> \<exists>\<sigma>. ne_represents k s \<sigma>"
proof (induction rule: areach.induct)
  case (areach_init s)
  have "\<exists>s'. ne_raft_init 150 300 demo_eal c (ne_demo_app, boot_timers) = Some s'" for c
    unfolding ne_raft_init_def by (rule ne_start_timeout_returns) (simp add: timeout_init_def range_ok_def)
  then obtain \<sigma> where \<sigma>: "\<And>c. ne_raft_init 150 300 demo_eal c (ne_demo_app, boot_timers) = Some (\<sigma> c)" by metis
  have "ne_reach 0 \<sigma>"
    by (rule ne_reach_init [where boot = "\<lambda>_. (ne_demo_app, boot_timers)" and es = "\<lambda>_. demo_eal"
        and mn = "\<lambda>_. 150" and mx = "\<lambda>_. 300"]) (simp add: \<sigma> ne_demo)
  moreover have "range_ok (ne_range (fst (\<sigma> c)))" for c
    using ne_start_timeout_fst [OF \<sigma> [of c, unfolded ne_raft_init_def]] by (simp add: timeout_init_def range_ok_def)
  ultimately show ?case
    using areach_init ne_raft_init_core [OF \<sigma>]
    by (intro exI [of _ \<sigma>]) (simp add: ne_represents_def impl_cluster_def ne_demo)
next
  case (areach_timeout k s c)
  then obtain \<sigma> where rep: "ne_represents k s \<sigma>" by blast
  then have \<sigma>: "ne_reach k \<sigma>" "ncore (\<sigma> c) = cores s c" "range_ok (ne_range (fst (\<sigma> c)))"
    using areach_timeout.hyps(2) by (auto simp: ne_represents_def)
  obtain x where x: "ne_election_timeout_cb demo_eal (\<sigma> c) = Some x"
    using ne_election_timeout_cb_total [OF \<sigma>(3) demo_hz] by blast
  have "ne_step (spec_timeout 3 (cores s c)) (fst (\<sigma> c)) (fst x)"
    using ne_election_timeout_cb_step [of demo_eal "fst (\<sigma> c)" "snd (\<sigma> c)" "fst x" "snd x"] x \<sigma>(2) by simp
  moreover have "ne_reach (Suc k) (\<sigma>(c := x))"
    using ne_reach_callback [OF \<sigma>(1), of c demo_eal 0 Ne_election_cb x] areach_timeout.hyps(2) x
    by (simp add: ne_callback_def NUM_NODES_def)
  ultimately show ?case using ne_represents_upd [OF rep _ areach_timeout.hyps(2)] by blast
next
  case (areach_deliver k s c pkt)
  then obtain \<sigma> where rep: "ne_represents k s \<sigma>" by blast
  then have \<sigma>: "ne_reach k \<sigma>" "ncore (\<sigma> c) = cores s c" "range_ok (ne_range (fst (\<sigma> c)))"
    using areach_deliver.hyps(2) by (auto simp: ne_represents_def)
  obtain p where p: "(ucast c, Raft_msg p) \<in> ne_sent \<sigma>" "raft_packet.truncate p = pkt"
    using ne_net_in [of "ucast c" pkt \<sigma>] rep areach_deliver.hyps(3) by (auto simp: ne_represents_def)
  obtain x where x: "ne_handle_packet demo_eal p (\<sigma> c) = Some x"
    using ne_handle_packet_total [OF \<sigma>(3) demo_hz] by blast
  have "ne_step (spec_handle 3 pkt (cores s c)) (fst (\<sigma> c)) (fst x)"
    using ne_handle_packet_step [of demo_eal p "fst (\<sigma> c)" "snd (\<sigma> c)" "fst x" "snd x"] x \<sigma>(2) p(2) by simp
  moreover have "ne_reach k (\<sigma>(c := x))"
    by (rule ne_reach_packet [OF \<sigma>(1) _ p(1) x]) (use areach_deliver.hyps(2) in \<open>simp add: NUM_NODES_def\<close>)
  ultimately show ?case using ne_represents_upd [OF rep _ areach_deliver.hyps(2)] by blast
next
  case (areach_beat k s c)
  then obtain \<sigma> where rep: "ne_represents k s \<sigma>" by blast
  then have \<sigma>: "ne_reach k \<sigma>" "ncore (\<sigma> c) = cores s c"
    using areach_beat.hyps(2) by (auto simp: ne_represents_def)
  let ?x = "(ne_send_heartbeat (fst (\<sigma> c)), snd (\<sigma> c))"
  have "ne_current_state (ne_node (fst (\<sigma> c))) = STATE_LEADER"
    using areach_beat.hyps(3) \<sigma>(2) by (metis ne_core_simps(5))
  then have "ne_step (cores s c, spec_broadcast 3 MSG_HEARTBEAT (cores s c)) (fst (\<sigma> c)) (fst ?x)"
    using ne_send_heartbeat_step [of "fst (\<sigma> c)"] \<sigma>(2) by simp
  moreover have "ne_reach k (\<sigma>(c := ?x))"
    by (rule ne_reach_heartbeat [OF \<sigma>(1)]) (use areach_beat.hyps(2) in \<open>simp add: NUM_NODES_def\<close>)
  ultimately show ?case using ne_represents_upd [OF rep _ areach_beat.hyps(2)] by blast
qed

lemma ne_one_leader_per_term_witness:
  "\<exists>\<sigma>. ne_reach 1 \<sigma> \<and> ne_claims_leader \<sigma> 1 1 \<and> {c. ne_claims_leader \<sigma> 1 c} = {1}"
proof -
  obtain s where s: "arun 3 win_run start_cluster = Some s" "c_state (cores s 1) = STATE_LEADER" "c_term (cores s 1) = 1"
    using win_run_ok by auto
  have "areach 3 1 s" using arun_areach [OF s(1) areach_start] by (simp add: win_run_def)
  then obtain \<sigma> where \<sigma>: "ne_represents 1 s \<sigma>" using ne_areach_represents by blast
  have m: "1 \<in> members 3" by (simp add: members_def)
  have r: "ne_reach 1 \<sigma>" and c: "ncore (\<sigma> 1) = cores s 1" using \<sigma> m by (simp_all add: ne_represents_def)
  have l: "ne_claims_leader \<sigma> 1 1"
    using s(2,3) m unfolding c [symmetric]
    by (simp add: ne_claims_leader_def ne_get_state_def ne_get_term_def NUM_NODES_def)
  have "c = 1" if "ne_claims_leader \<sigma> 1 c" for c
    by (rule ne_one_leader_per_term [OF r _ that l]) simp
  then show ?thesis using r l by blast
qed

lemma ne_handle_packet_implements_spec_witness:
  "\<exists>a d. ne_handle_packet demo_eal \<lparr>msg_type = MSG_VOTE_REQUEST, packet_term = 1, packet_node_id = 2, rtt_ms = 0\<rparr>
      (ne_demo_app, boot_timers) = Some (a, d) \<and> ne_voted_for (ne_node a) = 2 \<and>
    raft_out (ne_tx a) = [(2, \<lparr>msg_type = MSG_VOTE_RESPONSE, packet_term = 1, packet_node_id = 0\<rparr>)]"
proof -
  let ?p = "\<lparr>msg_type = MSG_VOTE_REQUEST, packet_term = 1, packet_node_id = 2, rtt_ms = 0\<rparr>"
  obtain a d where h: "ne_handle_packet demo_eal ?p (ne_demo_app, boot_timers) = Some (a, d)"
    using ne_handle_packet_total [where s = "(ne_demo_app, boot_timers)" and pkt = ?p, OF _ demo_hz] ne_demo(2) by auto
  have k: "ne_core ne_demo_app = init_core 0" "ne_tx ne_demo_app = []"
    by (simp_all add: ne_core_def init_core_def ne_demo_app_def)
  have "spec_handle 3 (raft_packet.truncate ?p) (ne_core ne_demo_app) =
      ((init_core 0)\<lparr>c_term := 1, c_state := STATE_FOLLOWER, c_vote := 2\<rparr>,
       [(2, \<lparr>msg_type = MSG_VOTE_RESPONSE, packet_term = 1, packet_node_id = 0\<rparr>)])"
    using spec_handle_newer_request [of "init_core 0" 1 2 3] by (simp add: k init_core_def raft_packet.truncate_def)
  with ne_handle_packet_implements_spec [OF h]
  have "ne_core a = (init_core 0)\<lparr>c_term := 1, c_state := STATE_FOLLOWER, c_vote := 2\<rparr> \<and>
     raft_out (ne_tx a) = [(2, \<lparr>msg_type = MSG_VOTE_RESPONSE, packet_term = 1, packet_node_id = 0\<rparr>)]"
    by (auto simp: k)
  then show ?thesis using h by (metis core.select_convs(3) core.surjective core.update_convs(3) ne_core_simps(3))
qed

end
