(* ===== verification/CDoubleOrder.thy ===== *)
theory CDoubleOrder
  imports CDouble
begin

text \<open>
  Rounding keeps the order and the sign, and leaves the values that are already rounded alone. With
  these, a bound that is itself a \<^verbatim>\<open>double\<close> survives any number of rounded operations.
\<close>

section \<open>Rounding to an integer\<close>

lemma rne_mono: "a \<le> b \<Longrightarrow> rne a \<le> rne b"
proof (rule ccontr)
  assume le: "a \<le> b" and "\<not> rne a \<le> rne b"
  then have lt: "(of_int (rne b) :: rat) + 1 \<le> of_int (rne a)" by linarith
  have "of_int (rne a) \<le> a + 1/2" "b - 1/2 \<le> of_int (rne b)"
    using rne_close [of a] rne_close [of b] by linarith+
  with le lt have "a = b" by linarith
  with lt show False by simp
qed

lemma rne_minus: "rne (- q) = - rne q"
proof (cases "q = of_int \<lfloor>q\<rfloor>")
  case True
  then have "rne q = \<lfloor>q\<rfloor>" "rne (- q) = - \<lfloor>q\<rfloor>" by (metis rne_int, metis of_int_minus rne_int)
  then show ?thesis by simp
next
  case False
  have fl: "of_int \<lfloor>q\<rfloor> \<le> q" "q < of_int \<lfloor>q\<rfloor> + 1" by linarith+
  with False have lt: "of_int \<lfloor>q\<rfloor> < q" by linarith
  have m: "\<lfloor>- q\<rfloor> = - \<lfloor>q\<rfloor> - 1" using lt fl by (intro floor_unique) simp_all
  show ?thesis unfolding rne_def Let_def m using fl by auto
qed

lemma rne_le_double: "0 \<le> q \<Longrightarrow> of_int (rne q) \<le> 2 * q"
proof (cases "q \<le> 1/2")
  case True
  moreover assume "0 \<le> q"
  moreover have "\<lfloor>1/2 :: rat\<rfloor> = 0" by (rule floor_unique) simp_all
  then have "rne (1/2) = 0" by (simp add: rne_def Let_def)
  ultimately have "rne q = 0" using rne_mono [of q "1/2"] rne_nonneg [of q] by simp
  then show ?thesis using \<open>0 \<le> q\<close> by simp
next
  case False
  then show ?thesis using rne_close [of q] by linarith
qed

section \<open>Rounding to a grid\<close>

lemma rnd_eq: "q \<noteq> 0 \<Longrightarrow> rnd p emin q = of_int (rne (q / 2 powi (rnd_exp p emin q))) * 2 powi (rnd_exp p emin q)"
  by (simp add: rnd_def Let_def)

lemma rnd_minus [simp]: "rnd p emin (- q) = - rnd p emin q"
  by (simp add: rnd_def Let_def rnd_exp_def rne_minus)

lemma rnd_le_double: "0 \<le> q \<Longrightarrow> rnd p emin q \<le> 2 * q"
proof (cases "q = 0")
  case False
  assume q: "0 \<le> q"
  let ?s = "(2 :: rat) powi (rnd_exp p emin q)"
  have "of_int (rne (q / ?s)) * ?s \<le> 2 * (q / ?s) * ?s"
    using q by (intro mult_right_mono rne_le_double) simp_all
  then show ?thesis using False by (simp add: rnd_eq)
qed simp

lemma rnd_le_grid:
  assumes "q \<noteq> 0" "q \<le> of_int n * 2 powi (rnd_exp p emin q)"
  shows "rnd p emin q \<le> of_int n * 2 powi (rnd_exp p emin q)"
proof -
  have "rne (q / 2 powi (rnd_exp p emin q)) \<le> rne (of_int n)"
    using assms(2) by (intro rne_mono) (simp add: divide_le_eq)
  then show ?thesis using assms(1) by (simp add: rnd_eq)
qed

lemma rnd_ge_grid:
  assumes "q \<noteq> 0" "of_int n * 2 powi (rnd_exp p emin q) \<le> q"
  shows "of_int n * 2 powi (rnd_exp p emin q) \<le> rnd p emin q"
proof -
  have "rne (of_int n) \<le> rne (q / 2 powi (rnd_exp p emin q))"
    using assms(2) by (intro rne_mono) (simp add: le_divide_eq)
  then show ?thesis using assms(1) by (simp add: rnd_eq)
qed

lemma ilog2_rat_less:
  assumes "0 < q" "q < 2 powi n"
  shows "ilog2_rat q < n"
proof -
  have "(2 :: rat) powi ilog2_rat q < 2 powi n" using ilog2_rat_bounds(1) [OF assms(1)] assms(2) by linarith
  then show ?thesis by (simp only: powi2_less_iff)
qed

lemma ilog2_rat_mono:
  assumes "0 < a" "a \<le> b"
  shows "ilog2_rat a \<le> ilog2_rat b"
  using ilog2_rat_less [of a "ilog2_rat b + 1"] ilog2_rat_bounds(2) [of b] assms by linarith

lemma powi2_split: "e \<le> n \<Longrightarrow> (2 :: rat) powi n = of_int (2 ^ nat (n - e)) * 2 powi e"
proof -
  assume "e \<le> n"
  then have "(2 :: rat) powi n = 2 powi (int (nat (n - e)) + e)" by simp
  also have "\<dots> = 2 powi (int (nat (n - e))) * 2 powi e" by (rule power_int_add) simp
  also have "(2 :: rat) powi (int (nat (n - e))) = of_int (2 ^ nat (n - e))"
    by (simp only: power_int_of_nat of_int_power of_int_numeral)
  finally show ?thesis .
qed

lemma rnd_mono_pos:
  assumes "0 < a" "a \<le> b" "0 < p"
  shows "rnd p emin a \<le> rnd p emin b"
proof -
  let ?ea = "rnd_exp p emin a" and ?eb = "rnd_exp p emin b" and ?n = "ilog2_rat b"
  have ne: "a \<noteq> 0" "b \<noteq> 0" "0 < b" using assms by auto
  have mono: "ilog2_rat a \<le> ?n" by (rule ilog2_rat_mono [OF assms(1,2)])
  then have le: "?ea \<le> ?eb" using assms by (simp add: rnd_exp_def)
  show ?thesis
  proof (cases "?ea = ?eb")
    case True
    have "rne (a / 2 powi ?ea) \<le> rne (b / 2 powi ?ea)" using assms(2) by (intro rne_mono) (simp add: divide_right_mono)
    then show ?thesis using ne True by (simp add: rnd_eq)
  next
    case False
    with le have lt: "?ea < ?eb" by simp
    then have eb: "?eb = ?n - (int p - 1)" "ilog2_rat a - (int p - 1) \<le> ?ea" "emin \<le> ?ea"
      using assms(1,2) by (auto simp: rnd_exp_def)
    with lt have "ilog2_rat a + 1 \<le> ?n" by linarith
    then have "(2 :: rat) powi (ilog2_rat a + 1) \<le> 2 powi ?n" by (simp only: powi2_le_iff)
    then have "a \<le> 2 powi ?n" using ilog2_rat_bounds(2) [OF assms(1)] by linarith
    moreover have "?ea \<le> ?n" using lt eb(1) assms(3) by linarith
    ultimately have "rnd p emin a \<le> 2 powi ?n"
      using rnd_le_grid [where n = "2 ^ nat (?n - ?ea)", OF ne(1)] powi2_split by metis
    moreover have "?eb \<le> ?n" using eb(1) assms(3) by linarith
    then have "2 powi ?n \<le> rnd p emin b"
      using rnd_ge_grid [where n = "2 ^ nat (?n - ?eb)", OF ne(2)] powi2_split ilog2_rat_bounds(1) [OF ne(3)] by metis
    ultimately show ?thesis by linarith
  qed
qed

lemma rnd_mono:
  assumes "a \<le> b" "0 < p"
  shows "rnd p emin a \<le> rnd p emin b"
proof -
  consider "0 < a" | "b < 0" | "a \<le> 0" "0 \<le> b" using assms(1) by linarith
  then show ?thesis
  proof cases
    case 1
    then show ?thesis by (rule rnd_mono_pos [OF _ assms])
  next
    case 2
    then show ?thesis using rnd_mono_pos [of "- b" "- a" p emin] assms by simp
  next
    case 3
    then show ?thesis using rnd_nonneg [of b p emin] rnd_nonneg [of "- a" p emin] by simp
  qed
qed

text \<open>A value of at most \<open>p\<close> bits on a grid no finer than \<open>emin\<close> is not changed.\<close>

lemma rnd_grid_exact:
  assumes "\<bar>k\<bar> \<le> 2 ^ p" "emin \<le> e" "0 < p"
  shows "rnd p emin (of_int k * 2 powi e) = of_int k * 2 powi e"
proof (cases "k = 0")
  case False
  let ?x = "of_int k * 2 powi e :: rat"
  have x0: "?x \<noteq> 0" using False by simp
  then have xp: "0 < \<bar>?x\<bar>" by simp
  obtain j d where j: "?x = of_int j * 2 powi d" "rnd_exp p emin ?x \<le> d"
  proof (cases "\<bar>k\<bar> = 2 ^ p")
    case True
    have "2 ^ p = 2 * (2 :: int) ^ (p - 1)" using assms(3) by (simp add: power_eq_if)
    then have k: "k = 2 * (sgn k * 2 ^ (p - 1))" using True by (metis abs_sgn mult.commute mult.left_commute sgn_mult_abs)
    have "?x = of_int (sgn k * 2 ^ (p - 1)) * 2 powi (e + 1)"
      by (subst k) (simp add: power_int_add_1)
    moreover have "\<bar>?x\<bar> = 2 powi (int p + e)"
      using True by (simp add: abs_mult power_int_add flip: of_int_abs)
    then have "ilog2_rat \<bar>?x\<bar> < int p + e + 1" by (intro ilog2_rat_less xp) simp
    then have "rnd_exp p emin ?x \<le> e + 1" using assms(2) by (simp add: rnd_exp_def)
    ultimately show ?thesis using that by blast
  next
    case False
    then have "\<bar>k\<bar> < 2 ^ p" using assms(1) by simp
    then have "\<bar>of_int k :: rat\<bar> < 2 ^ p" by (metis of_int_abs of_int_less_iff of_int_numeral of_int_power)
    then have "\<bar>?x\<bar> < 2 powi (int p + e)" by (simp add: abs_mult power_int_add)
    then have "ilog2_rat \<bar>?x\<bar> < int p + e" by (intro ilog2_rat_less xp)
    then have "rnd_exp p emin ?x \<le> e" using assms(2) by (simp add: rnd_exp_def)
    then show ?thesis using that [of k e] by simp
  qed
  define r where "r = rnd_exp p emin ?x"
  have "?x / 2 powi r = of_int (j * 2 ^ nat (d - r))"
    unfolding j(1) powi2_split [OF j(2), folded r_def] by simp
  then have "rnd p emin ?x = ?x / 2 powi r * 2 powi r"
    using rnd_eq [OF x0, of p emin, folded r_def] by (simp only: rne_int)
  then show ?thesis by simp
qed simp

lemma rnd_grid:
  assumes "0 < p"
  obtains k e where "rnd p emin q = of_int k * 2 powi e" "\<bar>k\<bar> \<le> 2 ^ p" "emin \<le> e"
proof (cases "q = 0")
  case True
  then show ?thesis using that [of 0 emin] by simp
next
  case False
  let ?e = "rnd_exp p emin q"
  let ?y = "q / 2 powi ?e"
  have "\<bar>q\<bar> < 2 powi (ilog2_rat \<bar>q\<bar> + 1)" using ilog2_rat_bounds(2) [of "\<bar>q\<bar>"] False by simp
  also have "\<dots> \<le> 2 powi (int p + ?e)" unfolding powi2_le_iff by (simp add: rnd_exp_def)
  finally have "\<bar>?y\<bar> < 2 ^ p" by (simp add: power_int_add abs_divide divide_less_eq)
  then have "- (2 ^ p) \<le> ?y" "?y \<le> 2 ^ p" by linarith+
  then have "rne (- of_int (2 ^ p)) \<le> rne ?y" "rne ?y \<le> rne (of_int (2 ^ p))" by (simp_all add: rne_mono)
  then have "\<bar>rne ?y\<bar> \<le> 2 ^ p" by (simp only: rne_minus rne_int)
  moreover have "emin \<le> ?e" by (simp add: rnd_exp_def)
  ultimately show ?thesis using that [of "rne ?y" ?e] False by (simp add: rnd_eq)
qed

section \<open>Doubles\<close>

definition is_double :: "rat \<Rightarrow> bool" where
  "is_double q \<longleftrightarrow> rnd 53 (- 1074) q = q \<and> \<bar>q\<bar> < 2 ^ 1024"

lemma dbl_double: "is_double q \<Longrightarrow> dbl q = Fin q"
  by (simp add: is_double_def dbl_def to_fp_def Let_def)

lemma dbl_is_double: "dbl q = Fin r \<Longrightarrow> is_double r \<and> r = rnd 53 (- 1074) q"
proof -
  assume d: "dbl q = Fin r"
  then have r: "r = rnd 53 (- 1074) q" "\<bar>r\<bar> < 2 ^ 1024" by (auto simp: dbl_def to_fp_def Let_def split: if_splits)
  obtain k e where k: "rnd 53 (- 1074) q = of_int k * 2 powi e" "\<bar>k\<bar> \<le> 2 ^ 53" "- 1074 \<le> e"
    using rnd_grid [of 53 "- 1074" q] by auto
  have "rnd 53 (- 1074) r = r" unfolding r(1) k(1) by (rule rnd_grid_exact [OF k(2,3)]) simp
  then show ?thesis using r by (simp add: is_double_def)
qed

text \<open>Between two doubles rounding stays between them.\<close>

lemma dbl_between:
  assumes "is_double lo" "is_double hi" "lo \<le> q" "q \<le> hi"
  obtains r where "dbl q = Fin r" "lo \<le> r" "r \<le> hi" "is_double r" "r = rnd 53 (- 1074) q"
proof -
  let ?r = "rnd 53 (- 1074) q"
  have b: "lo \<le> ?r" "?r \<le> hi"
    using rnd_mono [OF assms(3), of 53 "- 1074"] rnd_mono [OF assms(4), of 53 "- 1074"] assms(1,2)
    by (simp_all add: is_double_def)
  then have "\<bar>?r\<bar> < 2 ^ 1024" using assms(1,2) unfolding is_double_def by linarith
  then have "dbl q = Fin ?r" by (simp add: dbl_def to_fp_def Let_def)
  then show ?thesis using that b dbl_is_double by blast
qed

lemma is_double_0 [simp]: "is_double 0"
  by (simp add: is_double_def)

lemma is_double_minus: "is_double q \<Longrightarrow> is_double (- q)"
  by (simp add: is_double_def)

lemma is_double_grid:
  assumes "\<bar>k\<bar> \<le> 2 ^ 53" "- 1074 \<le> e" "\<bar>of_int k * 2 powi e :: rat\<bar> < 2 ^ 1024"
  shows "is_double (of_int k * 2 powi e)"
  using rnd_grid_exact [OF assms(1,2)] assms(3) by (simp add: is_double_def)

lemma is_double_twice:
  assumes "is_double q" "\<bar>2 * q\<bar> < 2 ^ 1024"
  shows "is_double (2 * q)"
proof -
  obtain k e where k: "rnd 53 (- 1074) q = of_int k * 2 powi e" "\<bar>k\<bar> \<le> 2 ^ 53" "- 1074 \<le> e"
    using rnd_grid [of 53 "- 1074" q] by auto
  then have q: "2 * q = of_int k * 2 powi (e + 1)" using assms(1) by (simp add: is_double_def power_int_add_1)
  show ?thesis unfolding q by (rule is_double_grid) (use k assms(2) q in simp_all)
qed

end
