(* ===== verification/NeEstimate.thy ===== *)
theory NeEstimate
  imports NeElection CDoubleOrder
begin

text \<open>
  The round-trip estimators of the NetElect node under rounding: the mean of a peer stays among its
  samples, its deviation below a power of two that bounds them, and so does the penalty that the
  node broadcasts.
\<close>

section \<open>One step\<close>

lemma dbl_minus: "dbl q = Fin r \<Longrightarrow> dbl (- q) = Fin (- r)"
  by (auto simp: dbl_def to_fp_def Let_def split: if_splits)

text \<open>An eighth of the rounded difference is, rounded again, at most half of the difference.\<close>

lemma eighth_of_gap:
  assumes "is_double s" "0 \<le> gap" "gap \<le> s"
  obtains d a where "dbl gap = Fin d" "0 \<le> d" "d \<le> s" "is_double d"
    "dbl (d / 8) = Fin a" "0 \<le> a" "2 * a \<le> gap"
proof -
  obtain d where d: "dbl gap = Fin d" "0 \<le> d" "d \<le> s" "is_double d" "d = rnd 53 (- 1074) gap"
    using dbl_between [OF is_double_0 assms(1,2,3)] by blast
  have "0 \<le> d / 8" "d / 8 \<le> d" using d(2) by simp_all
  from dbl_between [OF is_double_0 d(4) this] obtain a
    where a: "dbl (d / 8) = Fin a" "0 \<le> a" "a = rnd 53 (- 1074) (d / 8)" by blast
  have "a \<le> 2 * (d / 8)" unfolding a(3) by (rule rnd_le_double) (use d(2) in simp)
  moreover have "d \<le> 2 * gap" unfolding d(5) by (rule rnd_le_double [OF assms(2)])
  ultimately show ?thesis using that [OF d(1-4) a(1,2)] by simp
qed

text \<open>The mean moves towards the sample and not past it, through three roundings.\<close>

lemma mean_step:
  assumes lo: "is_double lo" and hi: "is_double hi" "hi \<le> 2 ^ 1000" and m: "is_double m" "lo \<le> m" "m \<le> hi"
    and s: "is_double s" "lo \<le> s" "s \<le> hi" and pos: "0 \<le> lo"
  obtains err m' where "fsub (Fin s) (Fin m) = Fin err" "\<bar>err\<bar> \<le> hi"
    "fadd (Fin m) (fmul ALPHA (Fin err)) = Fin m'" "is_double m'" "lo \<le> m'" "m' \<le> hi"
proof (cases "m \<le> s")
  case True
  have g: "0 \<le> s - m" "s - m \<le> s" using True pos m(2) by linarith+
  obtain d a where d: "dbl (s - m) = Fin d" "0 \<le> d" "d \<le> s" and a: "dbl (d / 8) = Fin a" "0 \<le> a" "2 * a \<le> s - m"
    using eighth_of_gap [OF s(1) g] by blast
  have "lo \<le> m + a" "m + a \<le> hi" using a(2,3) m(2) s(3) True by linarith+
  from dbl_between [OF lo hi(1) this] obtain m' where "dbl (m + a) = Fin m'" "lo \<le> m'" "m' \<le> hi" "is_double m'" by blast
  then show ?thesis using that [of d m'] d a s(3) by (simp add: fsub_def ALPHA_def)
next
  case False
  have g: "0 \<le> m - s" "m - s \<le> m" using False pos s(2) by linarith+
  obtain d a where d: "dbl (m - s) = Fin d" "0 \<le> d" "d \<le> m" and a: "dbl (d / 8) = Fin a" "0 \<le> a" "2 * a \<le> m - s"
    using eighth_of_gap [OF m(1) g] by blast
  have "lo \<le> m - a" "m - a \<le> hi" using a(2,3) s(2) m(3) False by linarith+
  from dbl_between [OF lo hi(1) this] obtain m' where "dbl (m - a) = Fin m'" "lo \<le> m'" "m' \<le> hi" "is_double m'" by blast
  then show ?thesis
    using that [of "- d" m'] dbl_minus [OF d(1)] dbl_minus [OF a(1)] d m(3) by (simp add: fsub_def ALPHA_def)
qed

lemma dev_step:
  assumes k: "- 1000 \<le> k" "k \<le> 1000" and "0 \<le> dv" "dv \<le> 2 powi k" "\<bar>err\<bar> \<le> 2 powi k"
  obtains dv' where "fadd (fmul (fsub (Fin 1) BETA) (Fin dv)) (fmul BETA (fabs (Fin err))) = Fin dv'"
    "0 \<le> dv'" "dv' \<le> 2 powi k"
proof -
  have big: "(2 :: rat) powi n < 2 ^ 1024" if "n \<le> 1000" for n
  proof -
    have "(2 :: rat) powi n \<le> 2 powi 1000" unfolding powi2_le_iff by (rule that)
    also have "\<dots> < 2 ^ 1024" by simp
    finally show ?thesis .
  qed
  have D: "is_double (2 powi n)" if "- 1002 \<le> n" "n \<le> 1000" for n
    using is_double_grid [of 1 n] big [OF that(2)] that(1) by simp
  have q: "2 powi (k - 2) = (2 :: rat) powi k / 4" by (subst power_int_diff) simp_all
  have "(3 :: rat) * 2 powi (k - 2) \<le> 2 powi k" by (simp add: q)
  then have "(3 :: rat) * 2 powi (k - 2) < 2 ^ 1024" using big [OF k(2)] by linarith
  then have D3: "is_double (3/4 * 2 powi k)" using is_double_grid [of 3 "k - 2"] k(1) by (simp add: q)
  have D1: "is_double (1/4 * 2 powi k)" using D [of "k - 2"] k by (simp add: q)
  have "is_double (of_int 3 * 2 powi (- 2))" by (rule is_double_grid) simp_all
  then have "is_double (3/4)" by (simp add: power_int_minus)
  then have beta: "fsub (Fin 1) BETA = Fin (3/4)" using dbl_double [of "3/4"] by (simp add: fsub_def BETA_def)
  obtain x where x: "dbl (3/4 * dv) = Fin x" "0 \<le> x" "x \<le> 3/4 * 2 powi k"
    using dbl_between [OF is_double_0 D3, of "3/4 * dv"] assms(3,4) by auto
  obtain y where y: "dbl (1/4 * \<bar>err\<bar>) = Fin y" "0 \<le> y" "y \<le> 1/4 * 2 powi k"
    using dbl_between [OF is_double_0 D1, of "1/4 * \<bar>err\<bar>"] assms(5) by auto
  have "0 \<le> x + y" "x + y \<le> 2 powi k" using x y by linarith+
  from dbl_between [OF is_double_0 D this] k obtain z where "dbl (x + y) = Fin z" "0 \<le> z" "z \<le> 2 powi k" by auto
  then show ?thesis using that x(1) y(1) by (simp add: beta [unfolded BETA_def] BETA_def)
qed

section \<open>Every estimate stays in the range of the samples\<close>

text \<open>A mean in the range, or none yet.\<close>

definition mean_in :: "rat \<Rightarrow> rat \<Rightarrow> fp \<Rightarrow> bool" where
  "mean_in lo hi x \<longleftrightarrow> x = Fin 0 \<or> (\<exists>m. x = Fin m \<and> is_double m \<and> lo \<le> m \<and> m \<le> hi)"

definition dev_in :: "int \<Rightarrow> fp \<Rightarrow> bool" where
  "dev_in k x \<longleftrightarrow> (\<exists>v. x = Fin v \<and> 0 \<le> v \<and> v \<le> 2 powi k)"

definition rtt_in :: "rat \<Rightarrow> rat \<Rightarrow> int \<Rightarrow> ne_rtt \<Rightarrow> bool" where
  "rtt_in lo hi k r \<longleftrightarrow> length (mu r) = 4 \<and> length (sigma r) = 4 \<and>
     (\<forall>p<4. mean_in lo hi (mu r ! p) \<and> dev_in k (sigma r ! p))"

definition sample_in :: "rat \<Rightarrow> rat \<Rightarrow> u32 \<times> fp \<Rightarrow> bool" where
  "sample_in lo hi ps \<longleftrightarrow> fst ps \<le> NUM_NODES \<and> (\<exists>s. snd ps = Fin s \<and> is_double s \<and> lo \<le> s \<and> s \<le> hi)"

fun sense_updates :: "(u32 \<times> fp) list \<Rightarrow> ne_rtt \<Rightarrow> ne_rtt option" where
  "sense_updates [] r = Some r"
| "sense_updates ((p, s) # ss) r = do { r \<leftarrow> sense_update p s r; sense_updates ss r }"

lemma below_2_1000:
  assumes "hi \<le> (2 :: rat) powi k" "k \<le> 1000"
  shows "hi \<le> 2 ^ 1000"
proof -
  have "(2 :: rat) powi k \<le> 2 powi 1000" unfolding powi2_le_iff by (rule assms(2))
  then show ?thesis using assms(1) by simp
qed

lemma sense_update_in:
  assumes r: "rtt_in lo hi k r" and x: "sample_in lo hi (p, x)"
    and lo: "is_double lo" "0 < lo" and hi: "is_double hi" "hi \<le> 2 powi k" and k: "- 1000 \<le> k" "k \<le> 1000"
  obtains r' where "sense_update p x r = Some r'" "rtt_in lo hi k r'" "mu r' ! unat p \<noteq> Fin 0"
    "\<And>q. q \<noteq> unat p \<Longrightarrow> mu r' ! q = mu r ! q"
proof -
  obtain s where s: "x = Fin s" "is_double s" "lo \<le> s" "s \<le> hi" using x by (auto simp: sample_in_def)
  have p: "unat p < 4" using x by (simp add: sample_in_def NUM_NODES_def word_le_nat_alt)
  have h1000: "hi \<le> 2 ^ 1000" by (rule below_2_1000 [OF hi(2) k(2)])
  have len: "length (mu r) = 4" "length (sigma r) = 4" using r by (simp_all add: rtt_in_def)
  obtain m v where m: "mean_in lo hi m" "dev_in k v" "m \<noteq> Fin 0" and
    u: "sense_update p x r = Some (r\<lparr>mu := (mu r)[unat p := m], sigma := (sigma r)[unat p := v]\<rparr>)"
  proof (cases "mu r ! unat p = Fin 0")
    case True
    have "0 \<le> s / 2" "s / 2 \<le> s" using s(3) lo(2) by simp_all
    from dbl_between [OF is_double_0 s(2) this] obtain v where v: "dbl (s / 2) = Fin v" "0 \<le> v" "v \<le> s" by blast
    show ?thesis
      by (rule that [of x "Fin v"]) (use s v lo(2) hi(2) p True len in
        \<open>auto simp: mean_in_def dev_in_def sense_update_def Let_def\<close>)
  next
    case False
    then obtain m where m: "mu r ! unat p = Fin m" "is_double m" "lo \<le> m" "m \<le> hi"
      using r p by (auto simp: rtt_in_def mean_in_def)
    obtain dv where dv: "sigma r ! unat p = Fin dv" "0 \<le> dv" "dv \<le> 2 powi k"
      using r p by (auto simp: rtt_in_def dev_in_def)
    obtain err m' where e: "fsub (Fin s) (Fin m) = Fin err" "\<bar>err\<bar> \<le> hi"
      "fadd (Fin m) (fmul ALPHA (Fin err)) = Fin m'" "is_double m'" "lo \<le> m'" "m' \<le> hi"
      using mean_step [OF lo(1) hi(1) h1000 m(2-4) s(2-4)] lo(2) by auto
    have "\<bar>err\<bar> \<le> 2 powi k" using e(2) hi(2) by linarith
    from dev_step [OF k dv(2,3) this] obtain dv' where
      "fadd (fmul (fsub (Fin 1) BETA) (Fin dv)) (fmul BETA (fabs (Fin err))) = Fin dv'" "0 \<le> dv'" "dv' \<le> 2 powi k" .
    then show ?thesis
      using that [of "Fin m'" "Fin dv'"] e m(1) dv(1) s(1) lo(2) p False len
      by (simp add: mean_in_def dev_in_def sense_update_def Let_def del: fabs.simps)
  qed
  show ?thesis
    by (rule that [OF u]) (use r m p len in \<open>auto simp: rtt_in_def nth_list_update\<close>)
qed

lemma sense_updates_in:
  assumes "is_double lo" "0 < lo" "is_double hi" "hi \<le> 2 powi k" "- 1000 \<le> k" "k \<le> 1000"
  shows "rtt_in lo hi k r \<Longrightarrow> \<forall>ps\<in>set ss. sample_in lo hi ps \<Longrightarrow>
    \<exists>r'. sense_updates ss r = Some r' \<and> rtt_in lo hi k r' \<and>
      (\<forall>q. mu r' ! q \<noteq> Fin 0 \<longleftrightarrow> mu r ! q \<noteq> Fin 0 \<or> q \<in> (unat \<circ> fst) ` set ss)"
proof (induction ss arbitrary: r)
  case (Cons ps ss)
  obtain p x where ps: "ps = (p, x)" by fastforce
  obtain r1 where r1: "sense_update p x r = Some r1" "rtt_in lo hi k r1" "mu r1 ! unat p \<noteq> Fin 0"
    "\<And>q. q \<noteq> unat p \<Longrightarrow> mu r1 ! q = mu r ! q"
    using sense_update_in [OF Cons.prems(1) _ assms] Cons.prems(2) ps by (metis list.set_intros(1))
  obtain r' where r': "sense_updates ss r1 = Some r'" "rtt_in lo hi k r'"
    "\<And>q. mu r' ! q \<noteq> Fin 0 \<longleftrightarrow> mu r1 ! q \<noteq> Fin 0 \<or> q \<in> (unat \<circ> fst) ` set ss"
    using Cons.IH [OF r1(2)] Cons.prems(2) by auto
  have "mu r' ! q \<noteq> Fin 0 \<longleftrightarrow> mu r ! q \<noteq> Fin 0 \<or> q \<in> (unat \<circ> fst) ` set (ps # ss)" for q
    using r'(3) [of q] r1(3,4) ps by (cases "q = unat p") auto
  then show ?case using r1(1) r' ps by (intro exI [of _ r']) simp
qed auto

section \<open>The penalty\<close>

definition pstep :: "fp \<Rightarrow> fp \<times> nat \<Rightarrow> fp \<times> nat" where
  "pstep x acc = (if flt_p (Fin 0) x then (fadd (fst acc) x, Suc (snd acc)) else acc)"

lemma flt_p_0 [simp]: "flt_p (Fin 0) (Fin m) \<longleftrightarrow> 0 < m"
  by (auto simp: flt_p_def)

lemma fp_of_small [simp]: "fp_of_nat (Suc 0) = Fin 1" "fp_of_nat (Suc (Suc 0)) = Fin 2"
proof -
  have "fp_of_nat 1 = Fin 1" "fp_of_nat 2 = Fin 2" using fp_of_nat_exact [of 1] fp_of_nat_exact [of 2] by simp_all
  then show "fp_of_nat (Suc 0) = Fin 1" "fp_of_nat (Suc (Suc 0)) = Fin 2"
    by (simp_all only: One_nat_def numeral_2_eq_2)
qed

lemma penalty_of_two:
  assumes "mean_in lo hi x" "mean_in lo hi y" and lo: "is_double lo" "0 < lo" and hi: "is_double hi" "hi \<le> 2 ^ 1000"
  defines "acc \<equiv> pstep y (pstep x (Fin 0, 0))"
  defines "pen \<equiv> if snd acc = 0 then Fin 0 else fdiv (fst acc) (fp_of_nat (snd acc))"
  shows "mean_in lo hi pen" "pen = Fin 0 \<longleftrightarrow> x = Fin 0 \<and> y = Fin 0"
proof -
  have "lo \<le> 2 ^ 1000 \<or> \<not> lo \<le> hi" using hi(2) by linarith
  have one: "fdiv (Fin m) (Fin 1) = Fin m" "fadd (Fin 0) (Fin m) = Fin m" if "is_double m" for m
    using dbl_double [OF that] by simp_all
  have both: "\<exists>r. fadd (Fin a) (Fin b) = Fin r \<and> (\<exists>q. fdiv (Fin r) (Fin 2) = Fin q \<and> is_double q \<and> lo \<le> q \<and> q \<le> hi)"
    if ab: "is_double a" "lo \<le> a" "a \<le> hi" "is_double b" "lo \<le> b" "b \<le> hi" for a b
  proof -
    have "\<bar>2 * hi\<bar> < 2 ^ 1024" "\<bar>2 * lo\<bar> < 2 ^ 1024" using hi(2) lo(2) ab(2,3) by (simp_all add: abs_if)
    then have D: "is_double (2 * lo)" "is_double (2 * hi)" using is_double_twice lo(1) hi(1) by blast+
    have "2 * lo \<le> a + b" "a + b \<le> 2 * hi" using ab by linarith+
    from dbl_between [OF D this] obtain r where r: "dbl (a + b) = Fin r" "2 * lo \<le> r" "r \<le> 2 * hi" by blast
    then have "lo \<le> r / 2" "r / 2 \<le> hi" by linarith+
    from dbl_between [OF lo(1) hi(1) this] r(1) show ?thesis by auto
  qed
  have "mean_in lo hi pen \<and> (pen = Fin 0 \<longleftrightarrow> x = Fin 0 \<and> y = Fin 0)"
    using assms(1,2) unfolding mean_in_def
  proof (elim disjE exE conjE)
    fix a b assume a: "x = Fin a" "is_double a" "lo \<le> a" "a \<le> hi" and b: "y = Fin b" "is_double b" "lo \<le> b" "b \<le> hi"
    obtain r q where "fadd (Fin a) (Fin b) = Fin r" "fdiv (Fin r) (Fin 2) = Fin q" "is_double q" "lo \<le> q" "q \<le> hi"
      using both [OF a(2-4) b(2-4)] by blast
    then have "pen = Fin q" "0 < q"
      using a b lo(2) one(2) [OF a(2)] by (simp_all add: pen_def acc_def pstep_def del: fadd.simps fdiv.simps)
    then show "(pen = Fin 0 \<or> (\<exists>m. pen = Fin m \<and> is_double m \<and> lo \<le> m \<and> m \<le> hi)) \<and> (pen = Fin 0 \<longleftrightarrow> x = Fin 0 \<and> y = Fin 0)"
      using a(1,3) lo(2) \<open>is_double q\<close> \<open>lo \<le> q\<close> \<open>q \<le> hi\<close> by auto
  qed (use lo(2) one in \<open>auto simp: pen_def acc_def pstep_def simp del: fadd.simps fdiv.simps\<close>)
  then show "mean_in lo hi pen" "pen = Fin 0 \<longleftrightarrow> x = Fin 0 \<and> y = Fin 0" by blast+
qed

lemma penalty_sum_pstep:
  "penalty_sum self r [1, 2, 3] acc = (let st = (\<lambda>p acc. if p = self then acc else pstep (mu r ! unat p) acc)
     in st 3 (st 2 (st (1 :: u32) acc)))"
  by (simp add: Let_def pstep_def)

lemma compute_penalty_in:
  assumes r: "rtt_in lo hi k r" and self: "self \<in> {1, 2, 3}"
    and lo: "is_double lo" "0 < lo" and hi: "is_double hi" "hi \<le> 2 ^ 1000"
  shows "mean_in lo hi (compute_penalty self r)"
    "compute_penalty self r = Fin 0 \<longleftrightarrow> (\<forall>q\<in>{1, 2, 3} - {unat self}. mu r ! q = Fin 0)"
proof -
  have m: "mean_in lo hi (mu r ! 1)" "mean_in lo hi (mu r ! 2)" "mean_in lo hi (mu r ! 3)"
    using r by (simp_all add: rtt_in_def)
  note two = penalty_of_two [OF _ _ lo hi]
  have u: "unat (1 :: u32) = 1" "unat (2 :: u32) = 2" "unat (3 :: u32) = 3" by simp_all
  have eq: "compute_penalty self r = (let acc = pstep y (pstep x (Fin 0, 0)) in
      if snd acc = 0 then Fin 0 else fdiv (fst acc) (fp_of_nat (snd acc)))"
    if "penalty_sum self r [1, 2, 3] (Fin 0, 0) = pstep y (pstep x (Fin 0, 0))" for x y
    by (simp only: compute_penalty_def that Let_def split_beta)
  consider "self = 1" | "self = 2" | "self = 3" using self by blast
  then have "mean_in lo hi (compute_penalty self r) \<and>
    (compute_penalty self r = Fin 0 \<longleftrightarrow> (\<forall>q\<in>{1, 2, 3} - {unat self}. mu r ! q = Fin 0))"
  proof cases
    case 1
    have "penalty_sum self r [1, 2, 3] (Fin 0, 0) = pstep (mu r ! 3) (pstep (mu r ! 2) (Fin 0, 0))"
      by (simp add: penalty_sum_pstep Let_def 1 del: penalty_sum.simps)
    from eq [OF this] two [OF m(2,3)] show ?thesis by (auto simp: Let_def 1)
  next
    case 2
    have "penalty_sum self r [1, 2, 3] (Fin 0, 0) = pstep (mu r ! 3) (pstep (mu r ! 1) (Fin 0, 0))"
      by (simp add: penalty_sum_pstep Let_def 2 del: penalty_sum.simps)
    from eq [OF this] two [OF m(1,3)] show ?thesis by (auto simp: Let_def 2)
  next
    case 3
    have "penalty_sum self r [1, 2, 3] (Fin 0, 0) = pstep (mu r ! 2) (pstep (mu r ! 1) (Fin 0, 0))"
      by (simp add: penalty_sum_pstep Let_def 3 del: penalty_sum.simps)
    from eq [OF this] two [OF m(1,2)] show ?thesis by (auto simp: Let_def 3)
  qed
  then show "mean_in lo hi (compute_penalty self r)"
    "compute_penalty self r = Fin 0 \<longleftrightarrow> (\<forall>q\<in>{1, 2, 3} - {unat self}. mu r ! q = Fin 0)" by blast+
qed

section \<open>Property\<close>

lemma rtt_in_boot: "rtt_in lo hi k ne_rtt_boot"
proof -
  have "mean_in lo hi (Fin 0)" "dev_in k (Fin 0)" by (simp_all add: mean_in_def dev_in_def)
  then show ?thesis by (simp add: rtt_in_def ne_rtt_boot_def)
qed



end
