(* ===== verification/NeNet.thy ===== *)
theory NeNet
  imports RaftNet NeRuns NeEstimate
begin

text \<open>
  The network side of the NetElect node, \<^verbatim>\<open>app/raft-netelect-backup/networking.c\<close>: the frames of
  \<^verbatim>\<open>send_raft_packet\<close> (55 bytes) and \<^verbatim>\<open>send_ps_packet\<close> (67 bytes), \<^verbatim>\<open>process_packets\<close> with the clock
  synchronisation of the PS packets, and a round of \<^verbatim>\<open>lcore_main\<close>. As in \<open>RaftNet\<close>, a frame is
  written over the stale bytes \<open>room\<close> of its buffer, and the stores of the Ethernet header and of the
  checksums are the same text as there.
\<close>

section \<open>Sending\<close>

record ne_config =
  nc_node_id :: u32
  nc_port_id :: u32
  nc_ip_map :: "string list"
  nc_mac_map :: "ether_addr list"
  nc_to_min :: u32
  nc_to_max :: u32

definition ne_fill_ipv4 :: "u32 \<Rightarrow> u32 \<Rightarrow> u8 list \<Rightarrow> u8 list" where
  "ne_fill_ipv4 src dst m =
     (let m = st8 14 0x45 m;
          m = st8 15 0 m;
          m = st16 16 (bswap16 (20 + 8 + 13)) m;
          m = st16 18 (bswap16 0) m;
          m = st16 20 (bswap16 0) m;
          m = st8 22 64 m;
          m = st8 23 IPPROTO_UDP m;
          m = st32 26 src m
      in st32 30 dst m)"

text \<open>The IPv4 header of a PS packet: type of service, identification and fragment offset are not written.\<close>

definition ps_fill_ipv4 :: "u32 \<Rightarrow> u32 \<Rightarrow> u8 list \<Rightarrow> u8 list" where
  "ps_fill_ipv4 src dst m =
     (let m = st8 14 0x45 m;
          m = st8 22 64 m;
          m = st8 23 IPPROTO_UDP m;
          m = st16 16 (bswap16 (20 + 8 + 25)) m;
          m = st32 26 src m
      in st32 30 dst m)"

text \<open>\<open>n\<close> is the size of the payload, 13 or 25.\<close>

definition ne_fill_udp :: "u16 \<Rightarrow> u8 list \<Rightarrow> u8 list" where
  "ne_fill_udp n m =
     (let m = st16 34 (bswap16 RAFT_PORT) m;
          m = st16 36 (bswap16 RAFT_PORT) m
      in st16 38 (bswap16 (n + 8)) m)"

definition ne_fill_raft :: "ne_packet \<Rightarrow> u8 list \<Rightarrow> u8 list" where
  "ne_fill_raft pkt m = st32 51 (rtt_ms pkt) (st32 47 (packet_node_id pkt) (st32 43 (packet_term pkt)
     (st8 42 (msg_type pkt) m)))"

text \<open>The packet is copied, then its time stamp and frequency are overwritten.\<close>

definition ps_fill :: "u64 \<Rightarrow> u64 \<Rightarrow> ps_packet \<Rightarrow> u8 list \<Rightarrow> u8 list" where
  "ps_fill tsc hz pkt m =
     (let m = st8 42 (ps_msg_type pkt) m;
          m = st32 43 (ps_term pkt) m;
          m = st32 47 (ps_node_id pkt) m;
          m = st32 51 (f32_bits (ps_penalty pkt)) m;
          m = st64 55 (ps_tx_ts pkt) m;
          m = st32 63 (ps_remote_hz pkt) m;
          m = st64 55 tsc m
      in st32 63 (ucast hz) m)"

definition ne_with_addrs ::
  "(string \<Rightarrow> u32) \<Rightarrow> ne_config \<Rightarrow> u32 \<Rightarrow> u8 list option \<Rightarrow> u16 \<Rightarrow> (u32 \<Rightarrow> u32 \<Rightarrow> u8 list \<Rightarrow> u8 list) \<Rightarrow> send_result" where
  "ne_with_addrs inet cfg self room dst_id fill_rest =
     (case room of
        None \<Rightarrow> No_mbuf
      | Some m \<Rightarrow>
          if unat self \<ge> length (nc_mac_map cfg) \<or> unat dst_id \<ge> length (nc_mac_map cfg) then Bad_index
          else case (c_string_at (nc_ip_map cfg) (unat self), c_string_at (nc_ip_map cfg) (unat dst_id)) of
              (Some src_ip, Some dst_ip) \<Rightarrow>
                Sent (fill_cksums (fill_rest (inet src_ip) (inet dst_ip)
                  (fill_ether (nc_mac_map cfg ! unat self) (nc_mac_map cfg ! unat dst_id) m)))
            | _ \<Rightarrow> Bad_index)"

definition ne_send_raft_packet ::
  "(string \<Rightarrow> u32) \<Rightarrow> ne_config \<Rightarrow> u32 \<Rightarrow> u8 list option \<Rightarrow> ne_packet \<Rightarrow> u16 \<Rightarrow> send_result" where
  "ne_send_raft_packet inet cfg self room pkt dst_id = ne_with_addrs inet cfg self room dst_id
     (\<lambda>src dst m. ne_fill_raft pkt (ne_fill_udp 13 (ne_fill_ipv4 src dst m)))"

definition send_ps_packet ::
  "(string \<Rightarrow> u32) \<Rightarrow> ne_config \<Rightarrow> u64 \<Rightarrow> u64 \<Rightarrow> u32 \<Rightarrow> u8 list option \<Rightarrow> ps_packet \<Rightarrow> u16 \<Rightarrow> send_result" where
  "send_ps_packet inet cfg tsc hz self room pkt dst_id = ne_with_addrs inet cfg self room dst_id
     (\<lambda>src dst m. ps_fill tsc hz pkt (ne_fill_udp 25 (ps_fill_ipv4 src dst m)))"

section \<open>Clock synchronisation\<close>

record sync_t =
  ready :: bool
  scale :: fp
  offset :: fp
  best_owd :: fp

definition fp_u64 :: "u64 \<Rightarrow> fp" where "fp_u64 w = fp_of_nat (unat w)"

definition sync_boot :: sync_t where
  "sync_boot = \<lparr>ready = False, scale = Fin 0, offset = Fin 0, best_owd = Fin 0\<rparr>"

text \<open>The difference of the clocks as the receiver sees it.\<close>

definition clock_gap :: "u64 \<Rightarrow> u64 \<Rightarrow> fp \<Rightarrow> fp" where
  "clock_gap recv_ts send_ts sc = fsub (fp_u64 recv_ts) (fmul (fp_u64 send_ts) sc)"

definition sync_first :: "u64 \<Rightarrow> u64 \<Rightarrow> u64 \<Rightarrow> u32 \<Rightarrow> sync_t \<Rightarrow> sync_t" where
  "sync_first hz recv_ts send_ts rem_hz S =
     (if ready S then S
      else let sc = fdiv (fp_u64 hz) (fp_of_nat (unat rem_hz));
               first_owd = fabs (clock_gap recv_ts send_ts sc)
           in S\<lparr>scale := sc, best_owd := first_owd, offset := fsub (clock_gap recv_ts send_ts sc) first_owd,
                ready := True\<rparr>)"

definition sync_better :: "u64 \<Rightarrow> u64 \<Rightarrow> sync_t \<Rightarrow> sync_t" where
  "sync_better recv_ts send_ts S =
     (let recv_pred = fadd (fmul (fp_u64 send_ts) (scale S)) (offset S);
          owd_cycles = fabs (fsub (fp_u64 recv_ts) recv_pred)
      in if flt_p owd_cycles (best_owd S)
         then S\<lparr>best_owd := owd_cycles, offset := fsub (clock_gap recv_ts send_ts (scale S)) owd_cycles\<rparr>
         else S)"

definition sync_rtt_ms :: "u64 \<Rightarrow> sync_t \<Rightarrow> fp" where
  "sync_rtt_ms hz S = fdiv (fmul (best_owd S) (Fin 2000)) (fp_u64 hz)"

section \<open>Receiving\<close>

definition MSG_NE_PING :: u8 where "MSG_NE_PING = 0x10"
definition MSG_NE_PONG :: u8 where "MSG_NE_PONG = 0x11"

text \<open>The receiver: the synchronisation table (four entries) and the number of buffers freed.\<close>

record ne_rx =
  sync_tab :: "sync_t list"
  ne_freed :: nat

type_synonym ne_proc = "ne_sys \<times> ne_rx"

definition handle_ps :: "u64 \<Rightarrow> u64 \<Rightarrow> u32 \<Rightarrow> u64 \<Rightarrow> u32 \<Rightarrow> ne_proc \<Rightarrow> ne_proc option" where
  "handle_ps hz recv_ts peer send_ts rem_hz st =
     (if unat peer \<ge> length (sync_tab (snd st)) then None
      else let S = sync_better recv_ts send_ts (sync_first hz recv_ts send_ts rem_hz (sync_tab (snd st) ! unat peer));
               x = (snd st)\<lparr>sync_tab := (sync_tab (snd st))[unat peer := S]\<rparr>;
               (a, d) = fst st
           in do {
             r \<leftarrow> sense_update peer (sync_rtt_ms hz S) (ne_rtt a);
             r \<leftarrow> record_ps_rx peer recv_ts r;
             Some ((a\<lparr>ne_rtt := r\<rparr>, d), x) })"

definition ne_payload :: "u8 list \<Rightarrow> u8 list option" where
  "ne_payload m =
     (if ld16 m 12 \<noteq> bswap16 RTE_ETHER_TYPE_IPV4 then None
      else if ld8 m 23 \<noteq> IPPROTO_UDP then None
      else if ld16 m 36 \<noteq> bswap16 RAFT_PORT then None
      else Some (drop 42 m))"

definition raft_fields :: "u8 list \<Rightarrow> ne_packet" where
  "raft_fields pl = \<lparr>msg_type = ld8 pl 0, packet_term = ld32 pl 1, packet_node_id = ld32 pl 5, rtt_ms = ld32 pl 9\<rparr>"

text \<open>
  One frame, with the cycle counter and its frequency. The result says whether the loop is left: it is, after a PONG of a
  node of the cluster. A PING is answered by \<^verbatim>\<open>send_pong_packet\<close>, whose call of the sender is commented
  out, and the round-trip time of a PONG is only printed.
\<close>

definition ne_handle_frame :: "eal \<Rightarrow> u64 \<Rightarrow> u64 \<times> u8 list \<Rightarrow> ne_proc \<Rightarrow> (bool \<times> ne_proc) option" where
  "ne_handle_frame e hz tm st =
     (case ne_payload (snd tm) of
        None \<Rightarrow> Some (False, st)
      | Some pl \<Rightarrow>
          let mtype = ld8 pl 0 in
          if mtype = MSG_PS_BROADCAST then
            map_option (Pair False) (handle_ps hz (fst tm) (ld32 pl 5) (ld64 pl 13) (ld32 pl 21) st)
          else if mtype = MSG_NE_PING then Some (False, st)
          else if mtype = MSG_NE_PONG then
            Some (\<not> (ld32 pl 1 > NUM_NODES \<or> ld32 pl 1 = 0), st)
          else map_option (\<lambda>s. (False, s, snd st)) (ne_handle_packet e (raft_fields pl) (fst st)))"

definition free_one :: "ne_proc \<Rightarrow> ne_proc" where
  "free_one st = (fst st, (snd st)\<lparr>ne_freed := ne_freed (snd st) + 1\<rparr>)"

fun ne_process_packets :: "eal \<Rightarrow> u64 \<Rightarrow> (u64 \<times> u8 list) list \<Rightarrow> ne_proc \<Rightarrow> ne_proc option" where
  "ne_process_packets e hz [] st = Some st"
| "ne_process_packets e hz (m # rx_bufs) st = do {
     (stop, st) \<leftarrow> ne_handle_frame e hz m st;
     let st = free_one st;
     if stop then Some st else ne_process_packets e hz rx_bufs st }"

section \<open>The main loop\<close>

text \<open>The burst, the timers, the heartbeat of a leader.\<close>

definition ne_lcore_main_round ::
  "eal \<Rightarrow> u64 \<Rightarrow> u64 \<Rightarrow> (u64 \<times> u8 list) list \<Rightarrow> u64 \<times> ne_proc \<Rightarrow> (u64 \<times> ne_proc) option" where
  "ne_lcore_main_round e tsc hz rx ls = do {
     st \<leftarrow> ne_process_packets e hz rx (snd ls);
     let (_, a, d) = rte_timer_manage e (ne_call e tsc) (Some (fst (fst st)), snd (fst st));
     a \<leftarrow> a;
     (hb, a) \<leftarrow> ne_lcore_heartbeat e (fst ls) a;
     Some (hb, (a, d), snd st) }"

section \<open>Leaving the burst\<close>

definition is_pong :: "u8 list \<Rightarrow> bool" where
  "is_pong m = (case ne_payload m of None \<Rightarrow> False
     | Some pl \<Rightarrow> ld8 pl 0 = MSG_NE_PONG \<and> ld32 pl 1 \<le> NUM_NODES \<and> ld32 pl 1 \<noteq> 0)"

lemmas ne_msg_defs = MSG_PS_BROADCAST_def MSG_NE_PING_def MSG_NE_PONG_def

lemma handle_ps_parts:
  assumes "handle_ps hz recv peer send rem ((a, d), x) = Some st"
  obtains r tab where "st = ((a\<lparr>ne_rtt := r\<rparr>, d), x\<lparr>sync_tab := tab\<rparr>)"
  using assms by (auto simp: handle_ps_def Let_def bind_eq_Some_conv split: if_splits)

lemma ne_handle_frame_stop:
  assumes "ne_handle_frame e hz tm st = Some (stop, st')"
  shows "stop = is_pong (snd tm)" "ne_freed (snd st') = ne_freed (snd st)"
proof -
  obtain a d x where st: "st = ((a, d), x)" by (metis prod.collapse)
  show "stop = is_pong (snd tm)"
    using assms by (auto simp: ne_handle_frame_def is_pong_def Let_def ne_msg_defs not_less split: option.splits if_splits)
  show "ne_freed (snd st') = ne_freed (snd st)"
    using assms
    by (auto simp: ne_handle_frame_def Let_def st split: option.splits if_splits elim!: handle_ps_parts)
qed

lemma ne_process_packets_freed:
  "ne_process_packets e hz ms st = Some st' \<Longrightarrow> ne_freed (snd st') = ne_freed (snd st) +
     length (takeWhile (\<lambda>m. \<not> is_pong (snd m)) ms) + (if \<exists>m\<in>set ms. is_pong (snd m) then 1 else 0)"
proof (induction ms arbitrary: st)
  case (Cons m ms)
  then obtain stop s1 where h: "ne_handle_frame e hz m st = Some (stop, s1)"
    "(if stop then Some (free_one s1) else ne_process_packets e hz ms (free_one s1)) = Some st'"
    by (auto simp: bind_eq_Some_conv Let_def)
  note F = ne_handle_frame_stop [OF h(1)]
  show ?case
    using Cons.IH [of "free_one s1"] h(2) F by (auto simp: free_one_def split: if_splits)
qed simp

lemma ne_process_packets_append_pong:
  "is_pong (snd m) \<Longrightarrow> ne_process_packets e hz (xs @ m # ys) st = ne_process_packets e hz (xs @ [m]) st"
proof (induction xs arbitrary: st)
  case Nil
  then show ?case
    using ne_handle_frame_stop(1) [of e hz m st] by (cases "ne_handle_frame e hz m st") auto
next
  case (Cons x xs)
  then show ?case by (cases "ne_handle_frame e hz x st") (auto simp: Let_def free_one_def)
qed

section \<open>A round of the main loop is a sequence of cluster steps\<close>

lemma ne_sent_upd:
  assumes "c \<in> members NUM_NODES" "ne_tx (fst s) = ne_tx (fst (\<sigma> c)) @ ms"
  shows "ne_sent \<sigma> \<subseteq> ne_sent (\<sigma>(c := s))"
  using assms by (fastforce simp: ne_sent_def)

definition from_peers :: "(u32 \<Rightarrow> ne_sys) \<Rightarrow> u32 \<Rightarrow> u8 list \<Rightarrow> bool" where
  "from_peers \<sigma> c m = (case ne_payload m of None \<Rightarrow> True
     | Some pl \<Rightarrow> ld8 pl 0 \<in> {MSG_PS_BROADCAST, MSG_NE_PING, MSG_NE_PONG} \<or>
         (ucast c, Raft_msg (raft_fields pl)) \<in> ne_sent \<sigma>)"

lemma ne_reach_frame:
  assumes r: "ne_reach k \<sigma>" and c: "c \<in> members NUM_NODES" and m: "from_peers \<sigma> c (snd tm)"
    and h: "ne_handle_frame e hz tm (\<sigma> c, x) = Some (stop, s, x')"
  shows "ne_reach k (\<sigma>(c := s))" "ne_sent \<sigma> \<subseteq> ne_sent (\<sigma>(c := s))"
proof -
  obtain a d where \<sigma>: "\<sigma> c = (a, d)" by fastforce
  have "s = \<sigma> c \<or> (\<exists>q. s = (a\<lparr>ne_rtt := q\<rparr>, d)) \<or>
    (\<exists>p. (ucast c, Raft_msg p) \<in> ne_sent \<sigma> \<and> ne_handle_packet e p (\<sigma> c) = Some s)"
    using h m
    by (auto simp: ne_handle_frame_def from_peers_def \<sigma> Let_def split: option.splits if_splits elim!: handle_ps_parts)
  then show "ne_reach k (\<sigma>(c := s))" "ne_sent \<sigma> \<subseteq> ne_sent (\<sigma>(c := s))"
  proof (atomize (full), elim disjE exE conjE)
    assume "s = \<sigma> c"
    then show "ne_reach k (\<sigma>(c := s)) \<and> ne_sent \<sigma> \<subseteq> ne_sent (\<sigma>(c := s))" using r by (simp add: fun_upd_idem)
  next
    fix q assume "s = (a\<lparr>ne_rtt := q\<rparr>, d)"
    then show "ne_reach k (\<sigma>(c := s)) \<and> ne_sent \<sigma> \<subseteq> ne_sent (\<sigma>(c := s))"
      using ne_reach_estimate [OF r c, of q] ne_sent_upd [OF c, of s \<sigma> "[]"] \<sigma> by simp
  next
    fix p assume p: "(ucast c, Raft_msg p) \<in> ne_sent \<sigma>" "ne_handle_packet e p (\<sigma> c) = Some s"
    then obtain ms where "ne_tx (fst s) = ne_tx (fst (\<sigma> c)) @ ms"
      using ne_handle_packet_step [of e p a d "fst s" "snd s"] \<sigma> by (auto simp: ne_step_def)
    then show "ne_reach k (\<sigma>(c := s)) \<and> ne_sent \<sigma> \<subseteq> ne_sent (\<sigma>(c := s))"
      using ne_reach_packet [OF r c p] ne_sent_upd [OF c] by blast
  qed
qed

lemma from_peers_mono: "from_peers \<sigma> c m \<Longrightarrow> ne_sent \<sigma> \<subseteq> ne_sent \<tau> \<Longrightarrow> from_peers \<tau> c m"
  by (auto simp: from_peers_def split: option.splits)

lemma ne_reach_burst:
  assumes "ne_reach k \<sigma>" "c \<in> members NUM_NODES" "\<forall>m\<in>set ms. from_peers \<sigma> c (snd m)"
    and "ne_process_packets e hz ms (\<sigma> c, x) = Some (s, x')"
  shows "ne_reach k (\<sigma>(c := s))"
  using assms
proof (induction ms arbitrary: \<sigma> x)
  case (Cons m ms)
  obtain stop s1 x1 where h: "ne_handle_frame e hz m (\<sigma> c, x) = Some (stop, s1, x1)"
    "(if stop then Some (free_one (s1, x1)) else ne_process_packets e hz ms (free_one (s1, x1))) = Some (s, x')"
    using Cons.prems(4) by (auto simp: bind_eq_Some_conv Let_def)
  note R = ne_reach_frame [OF Cons.prems(1,2) _ h(1)]
  have r: "ne_reach k (\<sigma>(c := s1))" using R(1) Cons.prems(3) by simp
  have "\<forall>m\<in>set ms. from_peers (\<sigma>(c := s1)) c (snd m)"
    using from_peers_mono [OF _ R(2)] Cons.prems(3) by (simp del: fun_upd_apply)
  from Cons.IH [OF r Cons.prems(2) this]
  have "ne_process_packets e hz ms (s1, y) = Some (s, x') \<Longrightarrow> ne_reach k (\<sigma>(c := s))" for y
    by (simp only: fun_upd_same fun_upd_upd)
  then show ?case
    using h(2) r by (cases stop) (auto simp: free_one_def simp del: fun_upd_apply)
qed (simp add: fun_upd_idem)

lemma ne_reach_call:
  assumes "\<And>d. \<exists>k. ne_reach k (\<sigma>(c := (a, d)))" "c \<in> members NUM_NODES"
    and "fst (ne_call e tsc cb (Some a, d)) = Some a'"
  shows "\<exists>k. ne_reach k (\<sigma>(c := (a', d')))"
proof -
  obtain d1 where s: "ne_callback e tsc cb (a, d) = Some (a', d1)"
    using assms(3) by (auto simp: ne_call_def split: option.splits)
  obtain k where "ne_reach k (\<sigma>(c := (a, d)))" using assms(1) by blast
  from ne_reach_callback [OF this assms(2), of e tsc cb "(a', d1)"] s
  obtain k' where "ne_reach k' (\<sigma>(c := (a', d1)))" by auto
  from ne_reach_timers [OF this assms(2), of d'] show ?thesis by auto
qed

lemma ne_reach_round:
  assumes r: "ne_reach k \<sigma>" and c: "c \<in> members NUM_NODES"
    and rx: "\<forall>m\<in>set rx. from_peers \<sigma> c (snd m)"
    and round: "ne_lcore_main_round e tsc hz rx (hb, \<sigma> c, x) = Some (hb', s', x')"
  shows "\<exists>k'. ne_reach k' (\<sigma>(c := s'))"
proof -
  obtain s1 x1 rc a2 d2 a3 where
    s1: "ne_process_packets e hz rx (\<sigma> c, x) = Some (s1, x1)" and
    m: "rte_timer_manage e (ne_call e tsc) (Some (fst s1), snd s1) = (rc, Some a2, d2)" and
    h: "ne_lcore_heartbeat e hb a2 = Some (hb', a3)" and s': "s' = (a3, d2)"
  proof -
    obtain s1 x1 where s1: "ne_process_packets e hz rx (\<sigma> c, x) = Some (s1, x1)"
      using round by (auto simp: ne_lcore_main_round_def bind_eq_Some_conv)
    obtain rc oa d2 where m: "rte_timer_manage e (ne_call e tsc) (Some (fst s1), snd s1) = (rc, oa, d2)"
      by (metis prod.collapse)
    show ?thesis
      using round that [OF s1] m by (auto simp: ne_lcore_main_round_def bind_eq_Some_conv s1)
  qed
  have r1: "ne_reach k (\<sigma>(c := s1))" by (rule ne_reach_burst [OF r c rx s1])
  define P where "P = (\<lambda>oa. case oa of None \<Rightarrow> True | Some a \<Rightarrow> \<forall>d. \<exists>k. ne_reach k (\<sigma>(c := (a, d))))"
  have start: "P (Some (fst s1))" using ne_reach_timers [OF r1 c] by (auto simp: P_def)
  have step: "P (fst (ne_call e tsc cb (oa, d)))" if "P oa" for cb oa d
  proof (cases "fst (ne_call e tsc cb (oa, d))")
    case (Some a')
    then obtain a where oa: "oa = Some a" by (cases oa) (auto simp: ne_call_def)
    show ?thesis
      using ne_reach_call [where \<sigma> = \<sigma> and a = a and a' = a', OF _ c Some [unfolded oa]] that
      by (simp add: P_def oa Some [unfolded oa])
  qed (simp add: P_def)
  have "P (fst (snd (rte_timer_manage e (ne_call e tsc) (Some (fst s1), snd s1))))"
    by (rule rte_timer_manage_app [where P = P]) (use step start in auto)
  then obtain k2 where r2: "ne_reach k2 (\<sigma>(c := (a2, d2)))" by (auto simp: m P_def)
  have "a3 = a2 \<or> a3 = ne_send_heartbeat a2"
    using h by (auto simp: ne_lcore_heartbeat_def bind_eq_Some_conv split: if_splits)
  then show ?thesis using ne_reach_heartbeat [OF r2 c] r2 by (auto simp: s')
qed

section \<open>Synchronisation\<close>

fun sync_run :: "u64 \<Rightarrow> (u64 \<times> u64 \<times> u32) list \<Rightarrow> sync_t \<Rightarrow> sync_t" where
  "sync_run hz [] S = S"
| "sync_run hz ((recv_ts, send_ts, rem_hz) # ps) S =
     sync_run hz ps (sync_better recv_ts send_ts (sync_first hz recv_ts send_ts rem_hz S))"

lemma flt_below_fin:
  assumes "flt_p x (Fin b)" "x = fabs y"
  obtains a where "x = Fin a" "0 \<le> a" "a < b"
  using assms by (cases y) (auto simp: flt_p_def)

lemma sync_better_owd:
  assumes "ready S" "best_owd S = Fin b" "0 \<le> b"
  shows "ready (sync_better recv send S) \<and> scale (sync_better recv send S) = scale S \<and>
    (\<exists>b'. best_owd (sync_better recv send S) = Fin b' \<and> 0 \<le> b' \<and> b' \<le> b)"
proof -
  let ?o = "fabs (fsub (fp_u64 recv) (fadd (fmul (fp_u64 send) (scale S)) (offset S)))"
  show ?thesis
  proof (cases "flt_p ?o (best_owd S)")
    case True
    then obtain a where "?o = Fin a" "0 \<le> a" "a < b" using flt_below_fin [of ?o b] assms(2) by (metis (no_types))
    then show ?thesis using True assms by (simp add: sync_better_def Let_def)
  qed (use assms in \<open>simp add: sync_better_def Let_def\<close>)
qed

lemma sync_run_owd:
  "ready S \<Longrightarrow> best_owd S = Fin b \<Longrightarrow> 0 \<le> b \<Longrightarrow> ready (sync_run hz ps S) \<and> scale (sync_run hz ps S) = scale S \<and>
    (\<exists>b'. best_owd (sync_run hz ps S) = Fin b' \<and> 0 \<le> b' \<and> b' \<le> b)"
proof (induction ps arbitrary: S b)
  case (Cons p ps)
  obtain recv send rem where p: "p = (recv, send, rem)" by (metis prod_cases3)
  obtain b1 where "ready (sync_better recv send S)" "scale (sync_better recv send S) = scale S"
    "best_owd (sync_better recv send S) = Fin b1" "0 \<le> b1" "b1 \<le> b"
    using sync_better_owd [OF Cons.prems] by blast
  with Cons.IH [of "sync_better recv send S" b1] Cons.prems(1) show ?case
    by (force simp: p sync_first_def)
qed auto

end
