(* ===== verification/NeWire.thy ===== *)
theory NeWire
  imports NeNet
begin

text \<open>
  What arrives of what a NetElect node sends: the fields of a Raft or PS frame are read back by
  \<^verbatim>\<open>process_packets\<close>. And what the first PS packet of a peer measures.
\<close>

section \<open>Reading back the headers\<close>

lemma length_wire [simp]:
  "length s = 6 \<Longrightarrow> length d = 6 \<Longrightarrow> 14 \<le> length m \<Longrightarrow> length (fill_ether s d m) = length m"
  "length (ne_fill_ipv4 a b m) = length m" "length (ps_fill_ipv4 a b m) = length m" "length (ne_fill_udp n m) = length m"
  "length (ne_fill_raft p m) = length m" "length (ps_fill t h q m) = length m"
  by (simp_all add: fill_ether_def ne_fill_ipv4_def ps_fill_ipv4_def ne_fill_udp_def ne_fill_raft_def ps_fill_def Let_def)

lemma nth_wire_ether:
  assumes "42 \<le> length m" "length s = 6" "length d = 6" "i < length m"
  shows "fill_ether s d m ! i = (if i < 6 then d ! i else if i < 12 then s ! (i - 6)
     else if i = 12 then 8 else if i = 13 then 0 else m ! i)"
  using assms by (auto simp: fill_ether_def RTE_ETHER_TYPE_IPV4_def)

lemma nth_wire_ipv4:
  assumes "42 \<le> length m" "i < 14 \<or> i = 23 \<or> 34 \<le> i"
  shows "ne_fill_ipv4 a b m ! i = (if i = 23 then 17 else m ! i)"
    "ps_fill_ipv4 a b m ! i = (if i = 23 then 17 else m ! i)"
  using assms by (auto simp: ne_fill_ipv4_def ps_fill_ipv4_def Let_def IPPROTO_UDP_def)

lemma nth_wire_udp:
  assumes "42 \<le> length m" "i < 34 \<or> i = 36 \<or> i = 37 \<or> 42 \<le> i"
  shows "ne_fill_udp n m ! i = (if i = 36 then 0x27 else if i = 37 then 0x0f else m ! i)"
  using assms by (auto simp: ne_fill_udp_def Let_def RAFT_PORT_def)

lemma nth_ne_fill_raft:
  assumes "length m = 55"
  shows "i < 42 \<Longrightarrow> ne_fill_raft p m ! i = m ! i" "ne_fill_raft p m ! 42 = msg_type p"
    "ld32 (ne_fill_raft p m) 43 = packet_term p" "ld32 (ne_fill_raft p m) 47 = packet_node_id p"
    "ld32 (ne_fill_raft p m) 51 = rtt_ms p"
  using assms by (simp_all add: ne_fill_raft_def ld32_bytes)

lemma nth_ps_fill:
  assumes "length m = 67"
  shows "i < 42 \<Longrightarrow> ps_fill t h q m ! i = m ! i" "ps_fill t h q m ! 42 = ps_msg_type q"
    "ld32 (ps_fill t h q m) 47 = ps_node_id q" "ld32 (ps_fill t h q m) 51 = f32_bits (ps_penalty q)"
    "ld64 (ps_fill t h q m) 55 = t" "ld32 (ps_fill t h q m) 63 = ucast h"
  using assms by (simp_all add: ps_fill_def Let_def ld32_bytes ld64_bytes)

lemma nth_wire_cksums:
  assumes "42 \<le> length m" "i \<notin> {24, 25, 40, 41}"
  shows "fill_cksums m ! i = m ! i"
  using assms by (simp add: fill_cksums_def Let_def)

lemma ld_drop:
  "off + 4 \<le> length m - n \<Longrightarrow> n \<le> length m \<Longrightarrow> ld32 (drop n m) off = ld32 m (n + off)"
  "off + 8 \<le> length m - n \<Longrightarrow> n \<le> length m \<Longrightarrow> ld64 (drop n m) off = ld64 m (n + off)"
  by (simp_all add: ld32_def ld16_def ld64_def ac_simps)

text \<open>A frame whose headers are right hands its payload over.\<close>

lemma ne_payload_frame:
  assumes m: "42 < length m" "m ! 12 = 8" "m ! 13 = 0" "m ! 23 = 17" "m ! 36 = 0x27" "m ! 37 = 0x0f"
  shows "ne_payload (fill_cksums m) = Some (drop 42 (fill_cksums m))"
proof -
  have c: "fill_cksums m ! i = m ! i" if "i \<notin> {24, 25, 40, 41}" for i
    using nth_wire_cksums [OF _ that] m(1) by simp
  have l: "length (fill_cksums m) = length m" by simp
  have "ld16 (fill_cksums m) 12 = 8" by (rule ld16_eqI) (use m c l in simp_all)
  moreover have "ld16 (fill_cksums m) 36 = 0x0f27" by (rule ld16_eqI) (use m c l in simp_all)
  ultimately show ?thesis
    by (simp add: ne_payload_def RTE_ETHER_TYPE_IPV4_def RAFT_PORT_def IPPROTO_UDP_def ld8_def c m)
qed

definition nc_ok :: "ne_config \<Rightarrow> bool" where
  "nc_ok cfg \<longleftrightarrow> length (nc_ip_map cfg) = MAX_NODES \<and> length (nc_mac_map cfg) = MAX_NODES \<and>
     (\<forall>m\<in>set (nc_mac_map cfg). length m = 6) \<and> terminated (nc_ip_map cfg)"

lemma ne_with_addrs_Sent:
  assumes "nc_ok cfg" "unat self < MAX_NODES" "unat dst < MAX_NODES"
  obtains a b where "ne_with_addrs inet cfg self (Some m) dst fr = Sent (fill_cksums (fr a b
    (fill_ether (nc_mac_map cfg ! unat self) (nc_mac_map cfg ! unat dst) m)))"
  using assms by (auto simp: ne_with_addrs_def nc_ok_def c_string_at_terminated)

definition raft_wire :: "ether_addr \<Rightarrow> ether_addr \<Rightarrow> u32 \<Rightarrow> u32 \<Rightarrow> ne_packet \<Rightarrow> u8 list \<Rightarrow> u8 list" where
  "raft_wire s d a b p m = ne_fill_raft p (ne_fill_udp 13 (ne_fill_ipv4 a b (fill_ether s d m)))"

definition ps_wire :: "ether_addr \<Rightarrow> ether_addr \<Rightarrow> u32 \<Rightarrow> u32 \<Rightarrow> u64 \<Rightarrow> u64 \<Rightarrow> ps_packet \<Rightarrow> u8 list \<Rightarrow> u8 list" where
  "ps_wire s d a b t h q m = ps_fill t h q (ne_fill_udp 25 (ps_fill_ipv4 a b (fill_ether s d m)))"

lemma raft_wire:
  fixes a b :: u32 and p :: ne_packet and i :: nat
  assumes "length m = 55" "length s = 6" "length d = 6"
  defines "frm \<equiv> fill_cksums (raft_wire s d a b p m)"
  shows "length frm = 55" "i < 6 \<Longrightarrow> frm ! i = d ! i" "i < 6 \<Longrightarrow> frm ! (6 + i) = s ! i"
    "ne_payload frm = Some (drop 42 frm)" "raft_fields (drop 42 frm) = p"
proof -
  let ?r = "raft_wire s d a b p m"
  have l: "length ?r = 55" using assms by (simp add: raft_wire_def)
  have n: "?r ! i = (if i < 6 then d ! i else if i < 12 then s ! (i - 6) else if i = 12 then 8 else if i = 13 then 0
      else if i = 23 then 17 else if i = 36 then 0x27 else 0x0f)" if "i < 14 \<or> i = 23 \<or> i = 36 \<or> i = 37" for i
    using assms(1-3) that by (auto simp: raft_wire_def nth_ne_fill_raft nth_wire_udp nth_wire_ipv4 nth_wire_ether)
  have c: "frm ! i = ?r ! i" if "i \<notin> {24, 25, 40, 41}" for i
    unfolding frm_def by (rule nth_wire_cksums [OF _ that]) (simp add: l)
  show lf: "length frm = 55" by (simp add: frm_def l)
  show "i < 6 \<Longrightarrow> frm ! i = d ! i" "i < 6 \<Longrightarrow> frm ! (6 + i) = s ! i" by (simp_all add: c n)
  show "ne_payload frm = Some (drop 42 frm)" unfolding frm_def by (rule ne_payload_frame) (simp_all add: l n)
  have "ld32 frm k = ld32 ?r k" if "k \<in> {43, 47, 51}" for k
    by (rule ld32_cong) (use that in \<open>auto simp: c\<close>)
  then show "raft_fields (drop 42 frm) = p"
    using assms(1-3) by (simp add: raft_fields_def ld_drop lf ld8_def c raft_wire_def nth_ne_fill_raft)
qed

lemma ps_wire:
  fixes a b :: u32 and t h :: u64 and q :: ps_packet and i :: nat
  assumes "length m = 67" "length s = 6" "length d = 6"
  defines "frm \<equiv> fill_cksums (ps_wire s d a b t h q m)"
  shows "length frm = 67" "i < 6 \<Longrightarrow> frm ! i = d ! i" "i < 6 \<Longrightarrow> frm ! (6 + i) = s ! i"
    "ne_payload frm = Some (drop 42 frm)" "frm ! 42 = ps_msg_type q" "ld32 frm 47 = ps_node_id q"
    "ld32 frm 51 = f32_bits (ps_penalty q)" "ld64 frm 55 = t" "ld32 frm 63 = ucast h"
proof -
  let ?r = "ps_wire s d a b t h q m"
  have l: "length ?r = 67" using assms by (simp add: ps_wire_def)
  have n: "?r ! i = (if i < 6 then d ! i else if i < 12 then s ! (i - 6) else if i = 12 then 8 else if i = 13 then 0
      else if i = 23 then 17 else if i = 36 then 0x27 else 0x0f)" if "i < 14 \<or> i = 23 \<or> i = 36 \<or> i = 37" for i
    using assms(1-3) that by (auto simp: ps_wire_def nth_ps_fill nth_wire_udp nth_wire_ipv4 nth_wire_ether)
  have c: "frm ! i = ?r ! i" if "i \<notin> {24, 25, 40, 41}" for i
    unfolding frm_def by (rule nth_wire_cksums [OF _ that]) (simp add: l)
  show lf: "length frm = 67" by (simp add: frm_def l)
  show "i < 6 \<Longrightarrow> frm ! i = d ! i" "i < 6 \<Longrightarrow> frm ! (6 + i) = s ! i" by (simp_all add: c n)
  show "ne_payload frm = Some (drop 42 frm)" unfolding frm_def by (rule ne_payload_frame) (simp_all add: l n)
  have r: "ld32 frm k = ld32 ?r k" if "k \<in> {47, 51, 63}" for k
    by (rule ld32_cong) (use that in \<open>auto simp: c\<close>)
  have "ld64 frm 55 = ld64 ?r 55" by (simp add: ld64_def ld32_def ld16_def c)
  then show "frm ! 42 = ps_msg_type q" "ld32 frm 47 = ps_node_id q"
    "ld32 frm 51 = f32_bits (ps_penalty q)" "ld64 frm 55 = t" "ld32 frm 63 = ucast h"
    using assms(1-3) by (simp_all add: c r ps_wire_def nth_ps_fill)
qed

section \<open>The first PS packet\<close>

lemma is_double_int: "\<bar>k\<bar> \<le> 2 ^ 53 \<Longrightarrow> is_double (of_int k)"
proof -
  assume k: "\<bar>k\<bar> \<le> 2 ^ 53"
  then have "\<bar>of_int k :: rat\<bar> \<le> 2 ^ 53" by (metis of_int_abs of_int_le_iff of_int_numeral of_int_power)
  also have "\<dots> < 2 ^ 1024" by simp
  finally show ?thesis using is_double_grid [OF k, of 0] by simp
qed

lemma fp_u64_exact: "unat w \<le> 2 ^ 53 \<Longrightarrow> fp_u64 w = Fin (of_int (int (unat w)))"
  by (simp add: fp_u64_def fp_of_nat_exact)

lemma first_sync:
  assumes "unat recv \<le> 2 ^ 53" "unat send \<le> 2 ^ 53" "hz \<noteq> 0" "unat hz < 2 ^ 32" "\<not> ready S"
  defines "g \<equiv> \<bar>int (unat recv) - int (unat send)\<bar>"
  shows "best_owd (sync_better recv send (sync_first hz recv send (ucast hz) S)) = Fin (of_int g)"
proof -
  define R where "R = int (unat recv)"
  define T where "T = int (unat send)"
  have b: "0 \<le> R" "R \<le> 2 ^ 53" "0 \<le> T" "T \<le> 2 ^ 53"
    using of_nat_mono [OF assms(1), where 'a = int] of_nat_mono [OF assms(2), where 'a = int]
    by (simp_all only: R_def T_def of_nat_power of_nat_numeral of_nat_0_le_iff)
  have dI: "dbl (of_int k) = Fin (of_int k)" if "\<bar>k\<bar> \<le> 2 ^ 53" for k
    by (rule dbl_double [OF is_double_int [OF that]])
  have fp: "fp_u64 recv = Fin (of_int R)" "fp_u64 send = Fin (of_int T)"
    using fp_u64_exact assms(1,2) by (simp_all add: R_def T_def)
  have hz: "unat hz \<noteq> 0" "unat hz \<le> 2 ^ 53" using assms(3,4) by (simp_all add: unat_eq_0)
  obtain q where q: "fp_of_nat (unat hz) = Fin q" "q \<noteq> 0"
    using fp_of_nat_exact [OF hz(2)] hz(1) by (metis of_nat_eq_0_iff)
  have "unat (ucast hz :: u32) = unat hz" using assms(4) by (simp add: unsigned_ucast_eq take_bit_eq_mod)
  then have sc: "fdiv (fp_u64 hz) (fp_of_nat (unat (ucast hz :: u32))) = Fin 1"
    unfolding fp_u64_def by (simp only: q(1)) (use q(2) dI [of 1] in simp)
  have mul: "fmul (Fin (of_int T)) (Fin 1) = Fin (of_int T)" using dI [of T] b by simp
  have gap: "clock_gap recv send (Fin 1) = Fin (of_int (R - T))"
    using dI [of "R - T"] b by (simp add: clock_gap_def fp mul fsub_def del: fmul.simps)
  define off where "off = (if T \<le> R then 0 else 2 * (R - T))"
  have off: "fsub (Fin (of_int (R - T))) (Fin \<bar>of_int (R - T)\<bar>) = Fin (of_int off)"
  proof (cases "T \<le> R")
    case True
    then show ?thesis using dI [of 0] by (simp add: fsub_def off_def flip: of_int_diff)
  next
    case False
    have d: "is_double (of_int (R - T))" by (rule is_double_int) (use b in linarith)
    have "\<bar>R - T\<bar> \<le> 2 ^ 53" using b by linarith
    then have "of_int \<bar>R - T\<bar> \<le> (of_int (2 ^ 53) :: rat)" by (simp only: of_int_le_iff)
    then have "\<bar>2 * of_int (R - T) :: rat\<bar> < 2 ^ 1024" by (simp add: abs_mult)
    from dbl_double [OF is_double_twice [OF d this]]
    show ?thesis using False by (simp add: fsub_def off_def)
  qed
  have bnd: "\<bar>T + off\<bar> \<le> 2 ^ 53" "\<bar>R - (T + off)\<bar> = \<bar>R - T\<bar>" "\<bar>R - T\<bar> \<le> 2 ^ 53"
    unfolding off_def using b by (cases "T \<le> R"; simp; linarith)+
  have pred: "fadd (Fin (of_int T)) (Fin (of_int off)) = Fin (of_int (T + off))"
    using dI [OF bnd(1)] by (simp only: fadd.simps of_int_add)
  have "fsub (Fin (of_int R)) (Fin (of_int (T + off))) = Fin (of_int (R - (T + off)))"
    using dI [of "R - (T + off)"] bnd(2,3) by (simp add: fsub_def del: of_int_add)
  then have owd: "fabs (fsub (Fin (of_int R)) (Fin (of_int (T + off)))) = Fin (of_int \<bar>R - T\<bar>)"
    by (simp only: fabs.simps of_int_abs [symmetric] bnd(2))
  let ?S = "sync_first hz recv send (ucast hz) S"
  have S: "scale ?S = Fin 1" "best_owd ?S = Fin \<bar>of_int (R - T)\<bar>" "offset ?S = Fin (of_int off)"
    using assms(5) off by (simp_all add: sync_first_def sc gap Let_def)
  have "\<not> flt_p (Fin (of_int \<bar>R - T\<bar>)) (Fin \<bar>of_int (R - T)\<bar>)" by (simp add: flt_p_def)
  then have "sync_better recv send ?S = ?S"
    by (simp only: sync_better_def Let_def S fp mul pred owd if_False)
  then show ?thesis by (simp add: S g_def R_def T_def)
qed

section \<open>Properties\<close>

text \<open>A PS frame that a node builds over any stale buffer is addressed to the peer, and
  \<^verbatim>\<open>process_packets\<close> of the peer takes exactly the sender's number, time stamp and frequency from it to
  synchronise its clock and its estimates, and frees the buffer.\<close>

theorem ps_frame_is_received:
  assumes cfg: "nc_ok cfg" and ids: "unat self < MAX_NODES" "unat dst < MAX_NODES"
    and m: "length m = 67" and ty: "ps_msg_type pkt = MSG_PS_BROADCAST"
  shows "\<exists>frm. send_ps_packet inet cfg tsc hz self (Some m) pkt dst = Sent frm \<and> length frm = 67 \<and>
     take 6 frm = nc_mac_map cfg ! unat dst \<and> take 6 (drop 6 frm) = nc_mac_map cfg ! unat self \<and>
     ld32 frm 51 = f32_bits (ps_penalty pkt) \<and>
     ne_process_packets e rhz [(recv, frm)] st =
       map_option free_one (handle_ps rhz recv (ps_node_id pkt) tsc (ucast hz) st)"
proof -
  let ?s = "nc_mac_map cfg ! unat self" and ?d = "nc_mac_map cfg ! unat dst"
  obtain a b where sent: "send_ps_packet inet cfg tsc hz self (Some m) pkt dst =
      Sent (fill_cksums (ps_wire ?s ?d a b tsc hz pkt m))"
    unfolding send_ps_packet_def ps_wire_def by (rule ne_with_addrs_Sent [OF cfg ids])
  have l: "length ?s = 6" "length ?d = 6" using cfg ids by (simp_all add: nc_ok_def)
  note W = ps_wire [OF m l, where a = a and b = b and t = tsc and h = hz and q = pkt]
  define frm where "frm = fill_cksums (ps_wire ?s ?d a b tsc hz pkt m)"
  note W = W [folded frm_def]
  have "take 6 frm = ?d" by (rule nth_equalityI) (use l in \<open>simp_all add: W\<close>)
  moreover have "take 6 (drop 6 frm) = ?s" by (rule nth_equalityI) (use l in \<open>simp_all add: W\<close>)
  moreover have "ne_process_packets e rhz [(recv, frm)] st =
      map_option free_one (handle_ps rhz recv (ps_node_id pkt) tsc (ucast hz) st)"
    using ty by (cases "handle_ps rhz recv (ps_node_id pkt) tsc (ucast hz) st")
      (simp_all add: ne_handle_frame_def W(4) ld_drop W(1) ld8_def W(5-9))
  ultimately show ?thesis using sent W(1,7) by (auto simp: frm_def)
qed

definition nc_demo :: ne_config where
  "nc_demo = \<lparr>nc_node_id = 1, nc_port_id = 0, nc_ip_map = replicate 16 (replicate 16 (CHR 0x00)),
     nc_mac_map = replicate 16 (replicate 6 0), nc_to_min = 150, nc_to_max = 300\<rparr>"

lemma nc_demo_ok: "nc_ok nc_demo"
  by (simp add: nc_ok_def nc_demo_def MAX_NODES_def terminated_def)

lemma ps_frame_is_received_witness:
  "\<exists>frm. send_ps_packet (\<lambda>_. 0x0100007f) nc_demo 77 1000 1 (Some (replicate 67 0xaa))
      \<lparr>ps_msg_type = MSG_PS_BROADCAST, ps_term = 1, ps_node_id = 1, ps_penalty = Fin 0, ps_tx_ts = 5, ps_remote_hz = 0\<rparr> 2 =
      Sent frm \<and> length frm = 67 \<and> ld32 frm 51 = 0"
proof -
  let ?p = "\<lparr>ps_msg_type = MSG_PS_BROADCAST, ps_term = 1, ps_node_id = 1, ps_penalty = Fin 0, ps_tx_ts = 5, ps_remote_hz = 0\<rparr>"
  have "unat (1 :: u32) < MAX_NODES" "unat (2 :: u16) < MAX_NODES" "length (replicate 67 (0xaa :: u8)) = 67"
    "ps_msg_type ?p = MSG_PS_BROADCAST" by (simp_all add: MAX_NODES_def)
  from ps_frame_is_received [OF nc_demo_ok this, of "\<lambda>_. 0x0100007f" 77 1000]
  show ?thesis by fastforce
qed

text \<open>What the first PS packet of a peer measures is the distance of the two cycle counters: with equal
  frequencies (and counters of at most \<open>2 ^ 53\<close>) the round-trip sample handed to the estimator is twice the
  difference between the receiver's and the sender's counter, in milliseconds, however long the
  packet was on its way.\<close>

theorem first_rtt_is_clock_distance:
  assumes "unat recv \<le> 2 ^ 53" "unat send \<le> 2 ^ 53" "hz \<noteq> 0" "unat hz < 2 ^ 32"
    and peer: "unat peer < length (sync_tab x)" "\<not> ready (sync_tab x ! unat peer)"
  shows "\<exists>S. handle_ps hz recv peer send (ucast hz) ((a, d), x) =
      map_option (\<lambda>r. ((a\<lparr>ne_rtt := r\<rparr>, d), x\<lparr>sync_tab := (sync_tab x)[unat peer := S]\<rparr>))
        (Option.bind (sense_update peer (fdiv (fmul (Fin (of_int \<bar>int (unat recv) - int (unat send)\<bar>)) (Fin 2000)) (fp_u64 hz))
           (ne_rtt a)) (record_ps_rx peer recv)) \<and>
    best_owd S = Fin (of_int \<bar>int (unat recv) - int (unat send)\<bar>)"
proof -
  let ?S = "sync_better recv send (sync_first hz recv send (ucast hz) (sync_tab x ! unat peer))"
  have o: "best_owd ?S = Fin (of_int \<bar>int (unat recv) - int (unat send)\<bar>)"
    by (rule first_sync [OF assms(1-4) peer(2)])
  have "sync_rtt_ms hz ?S = fdiv (fmul (Fin (of_int \<bar>int (unat recv) - int (unat send)\<bar>)) (Fin 2000)) (fp_u64 hz)"
    by (simp only: sync_rtt_ms_def o)
  then show ?thesis
    using peer(1) o
    by (intro exI [of _ ?S]) (auto simp: handle_ps_def Let_def simp del: fmul.simps split: bind_splits)
qed

lemma first_rtt_is_clock_distance_witness:
  "\<exists>st. handle_ps 1000 1000000 2 7 1000 ((ne_demo_app, boot_timers), \<lparr>sync_tab = replicate 4 sync_boot, ne_freed = 0\<rparr>) = Some st \<and>
     best_owd (sync_tab (snd st) ! 2) = Fin 999993"
proof -
  let ?x = "\<lparr>sync_tab = replicate 4 sync_boot, ne_freed = 0\<rparr>"
  have p: "unat (2 :: u32) < length (sync_tab ?x)" "\<not> ready (sync_tab ?x ! unat (2 :: u32))"
    by (simp_all add: sync_boot_def)
  have c: "(ucast (1000 :: u64) :: u32) = 1000" "unat (2 :: u32) = 2" by simp_all
  have "\<exists>r. sense_update 2 s (ne_rtt ne_demo_app) \<bind> record_ps_rx 2 t = Some r" for s t
    by (simp add: sense_update_def record_ps_rx_def ne_demo_app_def ne_rtt_boot_def Let_def)
  moreover obtain S s where "handle_ps 1000 1000000 2 7 1000 ((ne_demo_app, boot_timers), ?x) =
      map_option (\<lambda>r. ((ne_demo_app\<lparr>ne_rtt := r\<rparr>, boot_timers), ?x\<lparr>sync_tab := (sync_tab ?x)[unat (2 :: u32) := S]\<rparr>))
        (sense_update 2 s (ne_rtt ne_demo_app) \<bind> record_ps_rx 2 1000000)" "best_owd S = Fin 999993"
    using first_rtt_is_clock_distance [of "1000000 :: u64" 7 1000, OF _ _ _ _ p, of ne_demo_app boot_timers]
    by (auto simp: c(1) simp del: fmul.simps fdiv.simps)
  ultimately show ?thesis by (force simp: c(2))
qed

text \<open>Once a peer is synchronised, no sequence of PS packets raises its best one-way delay or changes the
  ratio of the clocks: the delay stays finite, non-negative and at most the first one, so an increase of
  the real delay is never seen.\<close>

theorem best_owd_never_grows:
  assumes "ready S" "best_owd S = Fin b" "0 \<le> b"
  shows "\<exists>b'. best_owd (sync_run hz ps S) = Fin b' \<and> 0 \<le> b' \<and> b' \<le> b \<and> scale (sync_run hz ps S) = scale S"
  using sync_run_owd [OF assms] by blast

lemma best_owd_never_grows_witness:
  "\<exists>b'. best_owd (sync_run 1000 [(900, 100, 1000), (5000, 200, 1000)]
     \<lparr>ready = True, scale = Fin 1, offset = Fin 0, best_owd = Fin 700\<rparr>) = Fin b' \<and> b' \<le> 700"
  using best_owd_never_grows [of "\<lparr>ready = True, scale = Fin 1, offset = Fin 0, best_owd = Fin 700\<rparr>" 700 1000
      "[(900, 100, 1000), (5000, 200, 1000)]"] by auto

text \<open>After a PONG of a node of the cluster the rest of the burst is lost: what follows it has no effect on the
  state, and none of its buffers is freed. Exactly the buffers up to the first such PONG are freed.\<close>

theorem pong_drops_rest_of_burst:
  assumes "ne_process_packets e hz ms st = Some st'" "xs @ m # ys = ms" "is_pong (snd m)"
  shows "ne_process_packets e hz (xs @ [m]) st = Some st' \<and> ne_freed (snd st') \<le> ne_freed (snd st) + length xs + 1 \<and>
    ne_freed (snd st') = ne_freed (snd st) + length (takeWhile (\<lambda>m. \<not> is_pong (snd m)) ms) + 1"
proof -
  have "length (takeWhile (\<lambda>m. \<not> is_pong (snd m)) (xs @ m # ys)) \<le> length xs"
    using assms(3) by (simp add: takeWhile_append length_takeWhile_le)
  then show ?thesis
    using ne_process_packets_append_pong [OF assms(3), of e hz xs ys st] ne_process_packets_freed [OF assms(1)]
      assms by auto
qed

definition pong_frame :: "u8 list" where
  "pong_frame = replicate 12 0 @ [8, 0] @ replicate 9 0 @ [17] @ replicate 12 0 @ [0x27, 0x0f] @ replicate 4 0 @
     [0x11, 2, 0, 0, 0] @ replicate 16 0"

lemma pong_drops_rest_of_burst_witness:
  "ne_freed (snd (the (ne_process_packets demo_eal 1000 [(5, pong_frame), (6, pong_frame), (7, pong_frame)]
     ((ne_demo_app, boot_timers), \<lparr>sync_tab = [], ne_freed = 0\<rparr>)))) = 1"
proof -
  let ?st = "((ne_demo_app, boot_timers :: ne_cb timer_data), \<lparr>sync_tab = [], ne_freed = 0\<rparr>)"
  let ?ms = "[(5, pong_frame), (6, pong_frame), (7, pong_frame)] :: (u64 \<times> u8 list) list"
  have pl: "ne_payload pong_frame = Some (drop 42 pong_frame)"
    by (simp add: ne_payload_def pong_frame_def nth_append ld16_def ld8_def IPPROTO_UDP_def RAFT_PORT_def RTE_ETHER_TYPE_IPV4_def)
  have p: "is_pong pong_frame"
    by (simp add: is_pong_def pl) (simp add: pong_frame_def nth_append ld8_def ld32_def ld16_def MSG_NE_PONG_def NUM_NODES_def)
  have "\<exists>st'. ne_process_packets demo_eal 1000 ?ms ?st = Some st'"
    using p by (auto simp: ne_handle_frame_def is_pong_def Let_def ne_msg_defs split: option.splits simp del: split_paired_Ex)
  then obtain st' where st': "ne_process_packets demo_eal 1000 ?ms ?st = Some st'" by blast
  from pong_drops_rest_of_burst [OF st', of "[]" "(5, pong_frame)" "[(6, pong_frame), (7, pong_frame)]"] p
  have "ne_freed (snd st') = 1" by simp
  then show ?thesis by (simp only: st' option.sel)
qed


lemma manage_nothing: "rte_timer_manage e call (a, boot_timers) = (0, a, boot_timers)"
  by (simp add: rte_timer_manage_def boot_timers_def rte_timer_subsystem_init_def MAX_SKIPLIST_DEPTH_def)


end
