(* ===== verification/NeConfig.thy ===== *)
theory NeConfig
  imports NeWire
begin

text \<open>
  The configuration loader of the NetElect node, \<^verbatim>\<open>app/raft-netelect-backup/config.c\<close>. The address
  tables have \<^verbatim>\<open>MAX_NODES\<close> = 16 entries, but the loop runs up to node 16: a store at entry 16 is the
  trap \<open>None\<close>, like a JSON value that is not a string. \<^verbatim>\<open>parse_mac\<close> has the text of \<open>RaftConfig\<close>.
\<close>

definition ne_load_node ::
  "'j jansson \<Rightarrow> 'j option \<Rightarrow> 'j option \<Rightarrow> nat \<Rightarrow> ne_config \<Rightarrow> ne_config option" where
  "ne_load_node J ips macs i cfg =
     (let ip = json_object_get J ips (dec_string i); mac = json_object_get J macs (dec_string i) in
      if ip = None \<or> mac = None then Some cfg
      else case (json_string_value J ip, json_string_value J mac) of
        (Some s, Some m) \<Rightarrow>
          if i \<ge> length (nc_ip_map cfg) \<or> i \<ge> length (nc_mac_map cfg) then None
          else Some (cfg\<lparr>nc_ip_map := (nc_ip_map cfg)[i := strncpy 16 s],
            nc_mac_map := (nc_mac_map cfg)[i := snd (parse_mac m (nc_mac_map cfg ! i))]\<rparr>)
      | _ \<Rightarrow> None)"

fun ne_load_nodes ::
  "'j jansson \<Rightarrow> 'j option \<Rightarrow> 'j option \<Rightarrow> nat list \<Rightarrow> ne_config \<Rightarrow> ne_config option" where
  "ne_load_nodes J ips macs [] cfg = Some cfg"
| "ne_load_nodes J ips macs (i # is) cfg = do {
     cfg \<leftarrow> ne_load_node J ips macs i cfg;
     ne_load_nodes J ips macs is cfg }"

definition ne_load_config :: "'j jansson \<Rightarrow> string \<Rightarrow> ne_config \<Rightarrow> (int \<times> ne_config) option" where
  "ne_load_config J filename cfg =
     (case json_load_file J filename of
        None \<Rightarrow> Some (- 1, cfg)
      | Some doc \<Rightarrow>
          let get = (\<lambda>k. json_object_get J (Some doc) k);
              num = (\<lambda>k. word_of_int (json_integer_value J (get k)) :: u32);
              cfg = cfg\<lparr>nc_node_id := num ''node_id'', nc_port_id := num ''port_id'',
                nc_to_min := num ''election_timeout_min_ms'', nc_to_max := num ''election_timeout_max_ms''\<rparr>
          in map_option (Pair 0)
               (ne_load_nodes J (get ''ip_map'') (get ''mac_map'') [1..<MAX_NODES + 1] cfg))"

section \<open>Which entries are stored\<close>

text \<open>Node \<open>i\<close> has an address in both maps.\<close>

definition json_has :: "'j jansson \<Rightarrow> 'j option \<Rightarrow> 'j option \<Rightarrow> nat \<Rightarrow> bool" where
  "json_has J ips macs i \<longleftrightarrow>
     json_object_get J ips (dec_string i) \<noteq> None \<and> json_object_get J macs (dec_string i) \<noteq> None"

definition json_strings :: "'j jansson \<Rightarrow> 'j option \<Rightarrow> 'j option \<Rightarrow> nat \<Rightarrow> bool" where
  "json_strings J ips macs i \<longleftrightarrow>
     json_string_value J (json_object_get J ips (dec_string i)) \<noteq> None \<and>
     json_string_value J (json_object_get J macs (dec_string i)) \<noteq> None"

definition ne_tables :: "ne_config \<Rightarrow> bool" where
  "ne_tables cfg \<longleftrightarrow> length (nc_ip_map cfg) = MAX_NODES \<and> length (nc_mac_map cfg) = MAX_NODES \<and>
     (\<forall>s\<in>set (nc_ip_map cfg). length s = 16) \<and> (\<forall>m\<in>set (nc_mac_map cfg). length m = 6)"

lemma ne_load_node_cases:
  assumes "ne_tables cfg"
  shows "ne_load_node J ips macs i cfg = None \<longleftrightarrow>
      json_has J ips macs i \<and> (\<not> json_strings J ips macs i \<or> MAX_NODES \<le> i)"
    and "ne_load_node J ips macs i cfg = Some cfg' \<Longrightarrow> ne_tables cfg'"
proof -
  show "ne_load_node J ips macs i cfg = None \<longleftrightarrow>
      json_has J ips macs i \<and> (\<not> json_strings J ips macs i \<or> MAX_NODES \<le> i)"
    using assms
    by (auto simp: ne_load_node_def json_has_def json_strings_def ne_tables_def Let_def split: option.splits)
  assume l: "ne_load_node J ips macs i cfg = Some cfg'"
  have m: "i < MAX_NODES \<Longrightarrow> length (nc_mac_map cfg ! i) = 6" using assms by (simp add: ne_tables_def)
  show "ne_tables cfg'"
    using l assms m unfolding ne_load_node_def Let_def ne_tables_def
    by (auto split: if_splits option.splits dest!: subsetD [OF set_update_subset_insert])
qed

lemma ne_load_nodes_cases:
  assumes "ne_tables cfg"
  shows "ne_load_nodes J ips macs is cfg = None \<longleftrightarrow>
      (\<exists>i\<in>set is. json_has J ips macs i \<and> (\<not> json_strings J ips macs i \<or> MAX_NODES \<le> i))"
    and "ne_load_nodes J ips macs is cfg = Some cfg' \<Longrightarrow> ne_tables cfg'"
proof -
  have "(ne_load_nodes J ips macs is cfg = None \<longleftrightarrow>
      (\<exists>i\<in>set is. json_has J ips macs i \<and> (\<not> json_strings J ips macs i \<or> MAX_NODES \<le> i))) \<and>
    (ne_load_nodes J ips macs is cfg = Some cfg' \<longrightarrow> ne_tables cfg')"
    using assms
  proof (induction "is" arbitrary: cfg)
    case (Cons i "is")
    show ?case
    proof (cases "ne_load_node J ips macs i cfg")
      case None
      then show ?thesis using ne_load_node_cases(1) [OF Cons.prems] by auto
    next
      case (Some c)
      then have "ne_tables c" "\<not> (json_has J ips macs i \<and> (\<not> json_strings J ips macs i \<or> MAX_NODES \<le> i))"
        using ne_load_node_cases [OF Cons.prems] by (blast, metis option.distinct(1))
      then show ?thesis using Cons.IH [of c] Some by auto
    qed
  qed auto
  then show "ne_load_nodes J ips macs is cfg = None \<longleftrightarrow>
      (\<exists>i\<in>set is. json_has J ips macs i \<and> (\<not> json_strings J ips macs i \<or> MAX_NODES \<le> i))"
    "ne_load_nodes J ips macs is cfg = Some cfg' \<Longrightarrow> ne_tables cfg'" by blast+
qed

text \<open>C19: The loader stores outside of its tables exactly when the file has both addresses of node 16: for a file that
  can be read and in which every address present is a string, loading traps in that case, and
  else returns 0 and keeps the shape of the tables.\<close>

theorem ne_load_config_overruns_iff:
  assumes "ne_tables cfg" "json_load_file J file = Some doc"
    and "ips = json_object_get J (Some doc) ''ip_map''" "macs = json_object_get J (Some doc) ''mac_map''"
    and "\<forall>i\<in>{1..16}. json_has J ips macs i \<longrightarrow> json_strings J ips macs i"
  shows "if json_has J ips macs 16 then ne_load_config J file cfg = None
    else \<exists>cfg'. ne_load_config J file cfg = Some (0, cfg') \<and> ne_tables cfg'"
proof -
  define c where "c = cfg\<lparr>nc_node_id := word_of_int (json_integer_value J (json_object_get J (Some doc) ''node_id'')),
    nc_port_id := word_of_int (json_integer_value J (json_object_get J (Some doc) ''port_id'')),
    nc_to_min := word_of_int (json_integer_value J (json_object_get J (Some doc) ''election_timeout_min_ms'')),
    nc_to_max := word_of_int (json_integer_value J (json_object_get J (Some doc) ''election_timeout_max_ms''))\<rparr>"
  have c: "ne_tables c" using assms(1) by (simp add: c_def ne_tables_def)
  have l: "ne_load_config J file cfg = map_option (Pair 0) (ne_load_nodes J ips macs [1..<MAX_NODES + 1] c)"
    by (simp add: ne_load_config_def assms(2-4) c_def Let_def)
  have s: "set [1..<MAX_NODES + 1] = {1..16}" by (auto simp: MAX_NODES_def)
  have n: "ne_load_nodes J ips macs [1..<MAX_NODES + 1] c = None \<longleftrightarrow> json_has J ips macs 16"
  proof -
    have "(\<exists>i\<in>{1..16}. json_has J ips macs i \<and> (\<not> json_strings J ips macs i \<or> MAX_NODES \<le> i)) \<longleftrightarrow> json_has J ips macs 16"
    proof
      assume "\<exists>i\<in>{1..16}. json_has J ips macs i \<and> (\<not> json_strings J ips macs i \<or> MAX_NODES \<le> i)"
      then obtain i where "i \<in> {1..16}" "json_has J ips macs i" "MAX_NODES \<le> i" using assms(5) by blast
      then have "i = 16" by (simp add: MAX_NODES_def)
      then show "json_has J ips macs 16" using \<open>json_has J ips macs i\<close> by simp
    qed (auto simp: MAX_NODES_def)
    then show ?thesis using ne_load_nodes_cases(1) [OF c, of J ips macs "[1..<MAX_NODES + 1]"] s by (simp del: upt_Suc)
  qed
  show ?thesis
  proof (cases "ne_load_nodes J ips macs [1..<MAX_NODES + 1] c")
    case (Some c')
    then show ?thesis using n l ne_load_nodes_cases(2) [OF c Some] by (simp del: upt_Suc)
  qed (use n l in \<open>simp del: upt_Suc\<close>)
qed

text \<open>A reader for the witness: a file with the addresses of the nodes up to \<open>n\<close>.\<close>

definition nodes_json :: "nat \<Rightarrow> nat jansson" where
  "nodes_json n = \<lparr>json_load_file = (\<lambda>_. Some 0),
     json_object_get = (\<lambda>v k. if v = Some 0 then Some 1 else if v = Some 1 \<and> k \<in> dec_string ` {1..n} then Some 2 else None),
     json_integer_value = (\<lambda>_. 1), json_string_value = (\<lambda>v. if v = Some 2 then Some ''10.0.0.1'' else None),
     json_is_true = (\<lambda>_. False)\<rparr>"

lemma nc_demo_tables: "ne_tables nc_demo"
  by (simp add: ne_tables_def nc_demo_def MAX_NODES_def)

lemma ne_load_config_overruns_iff_witness:
  "ne_load_config (nodes_json 16) ''config.json'' nc_demo = None"
proof -
  let ?J = "nodes_json 16"
  have has: "json_has ?J (Some 1) (Some 1) i" "json_strings ?J (Some 1) (Some 1) i" if "i \<in> {1..16}" for i
    using that by (simp_all add: json_has_def json_strings_def nodes_json_def)
  have r: "json_load_file ?J ''config.json'' = Some 0" "Some 1 = json_object_get ?J (Some 0) ''ip_map''"
    "Some 1 = json_object_get ?J (Some 0) ''mac_map''" by (simp_all add: nodes_json_def)
  show ?thesis
    using ne_load_config_overruns_iff [OF nc_demo_tables r] has by simp
qed

end
