(* ===== verification/RaftLoops.thy ===== *)
theory RaftLoops
  imports RaftCluster "HOL-Library.While_Combinator"
begin

text \<open>
  The broadcast loop of \<^verbatim>\<open>app/raft/election.c\<close> as it is written, counting a \<^verbatim>\<open>uint32_t\<close> up to
  \<^verbatim>\<open>node_num\<close>. The other theories use \<open>broadcast_raft_packet\<close>, a fold over the list of the peers: here
  it is shown to be what the loop computes, and that the loop ends for all but one number of nodes.
\<close>

definition broadcast_loop :: "raft_config \<Rightarrow> raft_packet \<Rightarrow> raft_app \<Rightarrow> raft_app option" where
  "broadcast_loop cfg pkt a =
     map_option snd (while_option (\<lambda>(peer, a). peer \<le> node_num cfg)
       (\<lambda>(peer, a). (peer + 1, if peer = self_id (raft_node a) then a else send_to pkt peer a)) (1, a))"

text \<open>One turn, and the peers from a given one on.\<close>

definition turn :: "raft_packet \<Rightarrow> u32 \<Rightarrow> raft_app \<Rightarrow> raft_app" where
  "turn pkt peer a = (if peer = self_id (raft_node a) then a else send_to pkt peer a)"

lemma send_to_node [simp]: "raft_node (send_to pkt p a) = raft_node a"
  by (simp add: send_to_def)

lemma fold_turn:
  "fold (turn pkt) ps a = fold (send_to pkt) (filter (\<lambda>p. p \<noteq> self_id (raft_node a)) ps) a"
proof (induction ps arbitrary: a)
  case (Cons p ps)
  then show ?case by (simp add: turn_def)
qed simp

lemma broadcast_from:
  assumes "num \<noteq> - 1" "1 \<le> p" "p \<le> unat num + 1"
  shows "while_option (\<lambda>(q, a). q \<le> num) (\<lambda>(q, a). (q + 1, turn pkt q a)) (of_nat p, a) =
    Some (num + 1, fold (turn pkt) (map of_nat [p..<unat num + 1]) a)"
  using assms(2,3)
proof (induction "unat num + 1 - p" arbitrary: p a)
  case 0
  then have p: "p = unat num + 1" by simp
  then have "\<not> (of_nat p :: u32) \<le> num"
    using assms(1) unat_Suc_no_wrap [of num] by (simp add: word_le_nat_alt add.commute)
  then show ?case using p by (subst while_option_unfold) (simp add: add.commute)
next
  case (Suc n)
  then have p: "p \<le> unat num" by simp
  then have u: "unat (of_nat p :: u32) = p" using le_less_trans [OF p unat_less_32] by (simp add: unat_of_nat)
  then have "(of_nat p :: u32) \<le> num" using p by (simp add: word_le_nat_alt)
  moreover have "[p..<unat num + 1] = p # [Suc p..<unat num + 1]" using p by (simp add: upt_conv_Cons)
  ultimately show ?case
    using Suc.hyps(1) [of "Suc p" "turn pkt (of_nat p) a"] Suc.hyps(2) p
    by (subst while_option_unfold) (simp add: add.commute)
qed

lemma while_forever: "while_option (\<lambda>(q, a). True) c s = None"
  by (simp add: while_option_def split_beta)

text \<open>C38: The broadcast loop ends and sends the packet once to every node of the cluster but the sender, in
  the order of their numbers, unless the configuration has \<^verbatim>\<open>UINT32_MAX\<close> nodes: then the counter wraps
  below the bound and the loop never ends.\<close>

theorem broadcast_loop_ends:
  "broadcast_loop cfg pkt a = (if node_num cfg = - 1 then None else Some (broadcast_raft_packet cfg pkt a))"
proof (cases "node_num cfg = - 1")
  case True
  then show ?thesis by (simp add: broadcast_loop_def while_forever)
next
  case False
  then show ?thesis
    using broadcast_from [OF False, of 1 pkt a]
    by (simp add: broadcast_loop_def broadcast_raft_packet_def peers_def fold_turn turn_def)
qed

end
