(* ===== verification/RteRandMax.thy ===== *)
theory RteRandMax
  imports RteRandom CDoubleOrder
begin

text \<open>
  Bounded and floating-point random numbers, \<^verbatim>\<open>rte_rand_max\<close> and \<^verbatim>\<open>rte_drand\<close> of
  \<^verbatim>\<open>lib/eal/common/rte_random.c\<close>. \<^verbatim>\<open>rte_rand_max\<close> draws until the masked value is below the bound, a loop
  with no bound in the code: \<open>draw_below\<close> is a \<open>partial_function\<close>, and that it returns from every state
  is proved. The step of the generator is linear over the integers modulo 2 and has no fixed point but
  zero, so no bit of its output can stay set for ever.
\<close>

section \<open>Drawing below a bound\<close>

definition rte_popcount64 :: "u64 \<Rightarrow> nat" where
  "rte_popcount64 v = length (filter (bit v) [0..<64])"

text \<open>The builtin is undefined on zero, where this is 64; the code only asks for bounds from 2 on.\<close>

definition rte_clz64 :: "u64 \<Rightarrow> nat" where
  "rte_clz64 v = length (takeWhile (\<lambda>i. \<not> bit v (63 - i)) [0..<64])"

partial_function (option) draw_below :: "u64 \<Rightarrow> u64 \<Rightarrow> rte_rand_state \<Rightarrow> (u64 \<times> rte_rand_state) option" where
  "draw_below upper_bound msk st =
     (let (r, st') = rte_rand_lfsr258 st; res = r AND msk
      in if res \<ge> upper_bound then draw_below upper_bound msk st' else Some (res, st'))"

definition rte_rand_max :: "nat \<Rightarrow> u64 \<Rightarrow> rte_rand_state list \<Rightarrow> (u64 \<times> rte_rand_state list) option" where
  "rte_rand_max lcore_id upper_bound rand_states =
     (if upper_bound < 2 then Some (0, rand_states)
      else let i = rte_rand_get_state lcore_id; state = rand_states ! i in
        if rte_popcount64 upper_bound = 1 then
          let (r, st) = rte_rand_lfsr258 state
          in Some (r AND (upper_bound - 1), rand_states[i := st])
        else map_option (\<lambda>(res, st). (res, rand_states[i := st]))
          (draw_below upper_bound (drop_bit (rte_clz64 upper_bound) (- 1)) state))"

section \<open>Floating-point numbers\<close>

definition rte_drand :: "nat \<Rightarrow> rte_rand_state list \<Rightarrow> fp \<times> rte_rand_state list" where
  "rte_drand lcore_id rand_states =
     (let denom = push_bit 53 1 :: u64;
          (rand64, rs) = rte_rand lcore_id rand_states
      in (fdiv (fp_of_nat (unat (rand64 AND (denom - 1)))) (fp_of_nat (unat denom)), rs))"

section \<open>The step of the generator has no fixed point but zero\<close>

text \<open>The bits of a fixed point are periodic in \<open>d\<close>, and each is the sum of two others of the period.\<close>

lemma lfsr258_comp_fixed:
  assumes c: "\<And>i. i < 64 \<Longrightarrow> bit c i \<longleftrightarrow> m \<le> i"
    and k: "b + m + d = 64" "0 < a" "a \<le> b" "m + a \<le> b" "0 < d"
    and z: "rte_rand_lfsr258_comp z a b c d = z"
  defines "u \<equiv> \<lambda>j. bit z (m + j mod d)"
  shows "u j \<longleftrightarrow> u (j + (b - a)) \<noteq> u (j + b)" and "(\<And>j. j < d \<Longrightarrow> \<not> u j) \<Longrightarrow> z = 0"
proof -
  have bits: "bit z n \<longleftrightarrow> (d \<le> n \<and> bit z (n - d) \<and> bit c (n - d)) \<noteq>
     (n + b < 64 \<and> ((a \<le> n + b \<and> bit z (n + b - a)) \<noteq> bit z (n + b)))" if "n < 64" for n
    using lfsr258_comp_bit [OF that, of z a b c d] z by simp
  have per: "bit z (m + i) = u i" if "m + i < 64" for i
    using that
  proof (induction i rule: less_induct)
    case (less i)
    show ?case
    proof (cases "i < d")
      case False
      have "bit z (m + i) = bit z (m + (i - d))"
        using bits [of "m + i"] c [of "m + i - d"] False less.prems k by auto
      then show ?thesis using less.IH [of "i - d"] False less.prems k(5) by (simp add: u_def le_mod_geq)
    qed (simp add: u_def)
  qed
  have low: "bit z n \<longleftrightarrow> u (n + b - a - m) \<noteq> u (n + b - m)" if "n < m + d" for n
  proof -
    have "bit z n \<longleftrightarrow> bit z (n + b - a) \<noteq> bit z (n + b)"
      using bits [of n] c [of "n - d"] that k by auto
    then show ?thesis using per [of "n + b - a - m"] per [of "n + b - m"] that k by simp
  qed
  show "u j \<longleftrightarrow> u (j + (b - a)) \<noteq> u (j + b)"
  proof -
    have "u j \<longleftrightarrow> u (j mod d + (b - a)) \<noteq> u (j mod d + b)"
      using low [of "m + j mod d"] k by (simp add: u_def)
    then show ?thesis by (simp add: u_def mod_add_left_eq)
  qed
  assume "\<And>j. j < d \<Longrightarrow> \<not> u j"
  then have "\<not> u j" for j using mod_less_divisor [OF k(5), of j] by (simp add: u_def)
  then have "\<not> bit z n" if "n < 64" for n
    using low [of n] per [of "n - m"] that k by (cases "n < m") auto
  then show "z = 0" by (intro bit_word_eqI) simp
qed

lemma shifts_mod:
  assumes "\<And>j. u j \<longleftrightarrow> u (j + p) \<noteq> u (j + q)" "\<And>j. u j = u (j mod d)"
  shows "u (i + j) \<longleftrightarrow> u ((i + p) mod d + j) \<noteq> u ((i + q) mod (d :: nat) + j)"
proof -
  have "u (i + j + k) = u ((i + k) mod d + j)" for k by (metis assms(2) mod_add_left_eq add.assoc add.commute)
  then show ?thesis using assms(1) [of "i + j"] by (simp only:)
qed

text \<open>For the shifts of the five components only zero solves these equations.\<close>

definition only_zero :: "nat \<Rightarrow> nat \<Rightarrow> nat \<Rightarrow> bool" where
  "only_zero p q d \<longleftrightarrow> (\<forall>u :: nat \<Rightarrow> bool.
     (\<forall>j. u j \<longleftrightarrow> u (j + p) \<noteq> u (j + q)) \<longrightarrow> (\<forall>j. u j = u (j mod d)) \<longrightarrow> (\<forall>j. \<not> u j))"

lemma only_zeroD:
  "only_zero p q d \<Longrightarrow> (\<And>j. u j \<longleftrightarrow> u (j + p) \<noteq> u (j + q)) \<Longrightarrow> (\<And>j. u j = u (j mod d)) \<Longrightarrow> \<not> u j"
  unfolding only_zero_def by blast

lemma only_zeroI:
  assumes "\<And>u j. (\<And>i. u (i + j) \<longleftrightarrow> u ((i + p) mod d + j) \<noteq> u ((i + q) mod d + j)) \<Longrightarrow> \<not> u (j :: nat)"
  shows "only_zero p q d"
  unfolding only_zero_def by (intro allI impI assms shifts_mod) blast+

lemma only_zero_5: "only_zero 26 50 5"
proof (rule only_zeroI)
  fix u j assume *: "\<And>i. u (i + j) \<longleftrightarrow> u ((i + 26) mod 5 + j) \<noteq> u ((i + 50) mod 5 + j :: nat)"
  show "\<not> u j"
    using * [of 4, simplified] by sat
qed

lemma only_zero_8: "only_zero 30 33 8"
proof (rule only_zeroI)
  fix u j assume *: "\<And>i. u (i + j) \<longleftrightarrow> u ((i + 30) mod 8 + j) \<noteq> u ((i + 33) mod 8 + j :: nat)"
  show "\<not> u j"
    using * [of 0, simplified] * [of 1, simplified] * [of 2, simplified] * [of 3, simplified] * [of 4,
      simplified] * [of 5, simplified] * [of 6, simplified] * [of 7, simplified] by sat
qed

lemma only_zero_10: "only_zero 52 53 10"
proof (rule only_zeroI)
  fix u j assume *: "\<And>i. u (i + j) \<longleftrightarrow> u ((i + 52) mod 10 + j) \<noteq> u ((i + 53) mod 10 + j :: nat)"
  show "\<not> u j"
    using * [of 0, simplified] * [of 1, simplified] * [of 2, simplified] * [of 3, simplified] * [of 4,
      simplified] * [of 5, simplified] * [of 6, simplified] * [of 7, simplified] * [of 8, simplified] * [of 9,
      simplified] by sat
qed

lemma only_zero_23: "only_zero 19 24 23"
proof (rule only_zeroI)
  fix u j assume *: "\<And>i. u (i + j) \<longleftrightarrow> u ((i + 19) mod 23 + j) \<noteq> u ((i + 24) mod 23 + j :: nat)"
  show "\<not> u j"
    using * [of 0, simplified] * [of 1, simplified] * [of 2, simplified] * [of 3, simplified] * [of 4,
      simplified] * [of 5, simplified] * [of 6, simplified] * [of 7, simplified] * [of 8, simplified] * [of 9,
      simplified] * [of 10, simplified] * [of 11, simplified] * [of 12, simplified] * [of 13, simplified] * [of
      14, simplified] * [of 15, simplified] * [of 16, simplified] * [of 17, simplified] * [of 18, simplified] *
      [of 19, simplified] * [of 20, simplified] * [of 21, simplified] * [of 22, simplified] by sat
qed

lemma only_zero_29: "only_zero 20 23 29"
proof (rule only_zeroI)
  fix u j assume *: "\<And>i. u (i + j) \<longleftrightarrow> u ((i + 20) mod 29 + j) \<noteq> u ((i + 23) mod 29 + j :: nat)"
  show "\<not> u j"
    using * [of 0, simplified] * [of 1, simplified] * [of 2, simplified] * [of 3, simplified] * [of 4,
      simplified] * [of 5, simplified] * [of 6, simplified] * [of 7, simplified] * [of 8, simplified] * [of 9,
      simplified] * [of 10, simplified] * [of 11, simplified] * [of 12, simplified] * [of 13, simplified] * [of
      14, simplified] * [of 15, simplified] * [of 16, simplified] * [of 17, simplified] * [of 18, simplified] *
      [of 19, simplified] * [of 20, simplified] * [of 21, simplified] * [of 22, simplified] * [of 23,
      simplified] * [of 24, simplified] * [of 25, simplified] * [of 26, simplified] * [of 27, simplified] * [of
      28, simplified] by sat
qed

lemma lfsr258_comp_zero:
  assumes k: "m < 64" "c = - (2 ^ m)" "b + m + d = 64" "0 < a" "a \<le> b" "m + a \<le> b" "0 < d" "b - a = p"
    and shifts: "only_zero p b d"
    and z: "rte_rand_lfsr258_comp z a b c d = z"
  shows "z = 0"
proof -
  note F = lfsr258_comp_fixed [OF mask_bit_numeral [OF k(1,2)] k(3-7) z]
  let ?u = "\<lambda>j. bit z (m + j mod d)"
  have "\<not> ?u j" for j
  proof (rule only_zeroD [OF shifts, of ?u])
    show "?u j \<longleftrightarrow> ?u (j + p) \<noteq> ?u (j + b)" for j using F(1) [of j] unfolding k(8) .
  qed simp
  then show ?thesis using F(2) by blast
qed

section \<open>The generator is linear\<close>

lemma lfsr258_comp_xor:
  "rte_rand_lfsr258_comp (x XOR y) a b c d = rte_rand_lfsr258_comp x a b c d XOR rte_rand_lfsr258_comp y a b c d"
  by (rule bit_word_eqI) (auto simp: rte_rand_lfsr258_comp_def bit_simps)

definition rand_xor :: "rte_rand_state \<Rightarrow> rte_rand_state \<Rightarrow> rte_rand_state" where
  "rand_xor s t = \<lparr>z1 = z1 s XOR z1 t, z2 = z2 s XOR z2 t, z3 = z3 s XOR z3 t, z4 = z4 s XOR z4 t, z5 = z5 s XOR z5 t\<rparr>"

definition rand_zero :: rte_rand_state where
  "rand_zero = \<lparr>z1 = 0, z2 = 0, z3 = 0, z4 = 0, z5 = 0\<rparr>"

definition rand_out :: "rte_rand_state \<Rightarrow> u64" where
  "rand_out s = z1 s XOR z2 s XOR z3 s XOR z4 s XOR z5 s"

definition rand_step :: "rte_rand_state \<Rightarrow> rte_rand_state" where
  "rand_step s = snd (rte_rand_lfsr258 s)"

lemma rte_rand_lfsr258_step: "rte_rand_lfsr258 s = (rand_out (rand_step s), rand_step s)"
  by (simp add: rte_rand_lfsr258_def rand_out_def rand_step_def Let_def)

lemma rand_step_xor: "rand_step (rand_xor s t) = rand_xor (rand_step s) (rand_step t)"
  by (simp add: rand_step_def rand_xor_def rte_rand_lfsr258_def Let_def lfsr258_comp_xor)

lemma rand_out_xor: "rand_out (rand_xor s t) = rand_out s XOR rand_out t"
  by (simp add: rand_out_def rand_xor_def ac_simps)

lemma rand_steps_xor: "(rand_step ^^ n) (rand_xor s t) = rand_xor ((rand_step ^^ n) s) ((rand_step ^^ n) t)"
  by (induction n) (simp_all add: rand_step_xor)

lemma xor_eq_0_iff: "x XOR y = 0 \<longleftrightarrow> x = (y :: 'a::len word)"
  by (metis xor.assoc xor_self_eq xor.right_neutral xor.left_neutral)

lemma rand_xor_zero: "rand_xor s t = rand_zero \<longleftrightarrow> s = t"
  by (auto simp: rand_xor_def rand_zero_def xor_eq_0_iff)

lemma rand_xor_swap: "rand_xor (rand_xor a b) (rand_xor c d) = rand_xor (rand_xor a c) (rand_xor b d)"
  by (simp add: rand_xor_def ac_simps)

lemma rand_step_fixed:
  assumes "rand_step s = s"
  shows "s = rand_zero"
proof -
  have fx: "rte_rand_lfsr258_comp (z1 s) 1 53 18446744073709551614 10 = z1 s"
    "rte_rand_lfsr258_comp (z2 s) 24 50 18446744073709551104 5 = z2 s"
    "rte_rand_lfsr258_comp (z3 s) 3 23 18446744073709547520 29 = z3 s"
    "rte_rand_lfsr258_comp (z4 s) 5 24 18446744073709420544 23 = z4 s"
    "rte_rand_lfsr258_comp (z5 s) 3 33 18446744073701163008 8 = z5 s"
    using arg_cong [OF assms, of z1] arg_cong [OF assms, of z2] arg_cong [OF assms, of z3]
      arg_cong [OF assms, of z4] arg_cong [OF assms, of z5]
    by (simp_all add: rand_step_def rte_rand_lfsr258_def Let_def)
  have "z1 s = 0" by (rule lfsr258_comp_zero [where m = 1 and p = 52, OF _ _ _ _ _ _ _ _ only_zero_10 fx(1)]) simp_all
  moreover have "z2 s = 0" by (rule lfsr258_comp_zero [where m = 9 and p = 26, OF _ _ _ _ _ _ _ _ only_zero_5 fx(2)]) simp_all
  moreover have "z3 s = 0" by (rule lfsr258_comp_zero [where m = 12 and p = 20, OF _ _ _ _ _ _ _ _ only_zero_29 fx(3)]) simp_all
  moreover have "z4 s = 0" by (rule lfsr258_comp_zero [where m = 17 and p = 19, OF _ _ _ _ _ _ _ _ only_zero_23 fx(4)]) simp_all
  moreover have "z5 s = 0" by (rule lfsr258_comp_zero [where m = 23 and p = 30, OF _ _ _ _ _ _ _ _ only_zero_8 fx(5)]) simp_all
  ultimately show ?thesis by (simp add: rand_zero_def)
qed

lemma finite_rand_states: "finite (UNIV :: rte_rand_state set)"
proof (rule finite_imageD)
  show "finite (range (\<lambda>s :: rte_rand_state. (z1 s, z2 s, z3 s, z4 s, z5 s)))" by (rule finite_subset [OF subset_UNIV]) simp
  show "inj (\<lambda>s :: rte_rand_state. (z1 s, z2 s, z3 s, z4 s, z5 s))" by (rule injI, rule rte_rand_state.equality) simp_all
qed

section \<open>No bit of the output stays set\<close>

text \<open>The difference of a state and its successor determines the state. It maps the states whose output
  never has bit \<open>k\<close> one to one into themselves, so onto; a state whose output always has it would have
  the difference of one of them.\<close>

lemma rand_bit_clears: "\<exists>n. \<not> bit (rand_out ((rand_step ^^ n) s)) k"
proof (rule ccontr)
  assume set: "\<not> ?thesis"
  define U where "U = {s. \<forall>n. \<not> bit (rand_out ((rand_step ^^ n) s)) k}"
  define D where "D = (\<lambda>s. rand_xor (rand_step s) s)"
  have bits: "bit (rand_out ((rand_step ^^ n) (D t))) k \<longleftrightarrow>
      bit (rand_out ((rand_step ^^ Suc n) t)) k \<noteq> bit (rand_out ((rand_step ^^ n) t)) k" for n t
    by (simp add: D_def rand_steps_xor rand_out_xor bit_xor_iff funpow_swap1)
  have inj: "inj D"
  proof (rule injI)
    fix s t assume "D s = D t"
    have "rand_xor (rand_step (rand_xor s t)) (rand_xor s t) = rand_xor (D s) (D t)"
      unfolding D_def rand_step_xor by (rule rand_xor_swap)
    also have "\<dots> = rand_zero" using \<open>D s = D t\<close> by (simp add: rand_xor_zero)
    finally show "s = t" using rand_step_fixed [of "rand_xor s t"] by (simp add: rand_xor_zero)
  qed
  have "D t \<in> U" if "t \<in> U" for t using that bits by (simp add: U_def del: funpow.simps)
  then have "D ` U = U"
    using endo_inj_surj [OF finite_subset [OF subset_UNIV finite_rand_states], of D U] inj by (auto simp: inj_on_def inj_def)
  moreover have "D s \<in> U" using set bits by (simp add: U_def del: funpow.simps)
  ultimately have "s \<in> U" using inj by (metis imageE injD)
  then show False using set by (simp add: U_def)
qed

section \<open>Properties\<close>

lemma draw_below_step:
  "draw_below ub msk st = (let res = rand_out (rand_step st) AND msk
     in if res < ub then Some (res, rand_step st) else draw_below ub msk (rand_step st))"
  by (subst draw_below.simps) (simp add: rte_rand_lfsr258_step Let_def flip: not_less)

lemma draw_below_now:
  "rand_out (rand_step st) AND msk < ub \<Longrightarrow> \<exists>v k. draw_below ub msk st = Some (v, (rand_step ^^ k) st) \<and> v < ub"
  by (subst draw_below_step, intro exI [of _ 1] exI) (simp add: Let_def)

lemma draw_below_returns:
  "rand_out ((rand_step ^^ Suc n) st) AND msk < ub \<Longrightarrow>
    \<exists>v k. draw_below ub msk st = Some (v, (rand_step ^^ k) st) \<and> v < ub"
proof (induction n arbitrary: st)
  case 0
  then show ?case by (intro draw_below_now) simp
next
  case (Suc n)
  show ?case
  proof (cases "rand_out (rand_step st) AND msk < ub")
    case False
    then have "draw_below ub msk st = draw_below ub msk (rand_step st)"
      by (subst draw_below_step) (simp add: Let_def)
    moreover have "\<exists>v k. draw_below ub msk (rand_step st) = Some (v, (rand_step ^^ k) (rand_step st)) \<and> v < ub"
      by (rule Suc.IH) (use Suc.prems in \<open>simp add: funpow_swap1\<close>)
    ultimately show ?thesis by (metis funpow_Suc_right o_apply)
  qed (rule draw_below_now)
qed

lemma rte_clz64_bit:
  assumes "v \<noteq> 0"
  shows "rte_clz64 v < 64 \<and> bit v (63 - rte_clz64 v)"
proof -
  let ?P = "\<lambda>i. \<not> bit v (63 - i)"
  obtain n where "bit v n" using assms bit_eq_iff [of v 0] by auto
  then have n: "63 - n \<in> set [0..<64]" "\<not> ?P (63 - n)" using bit_imp_le_length [of v n] by auto
  have "length (takeWhile ?P [0..<64]) < length [0..<64]"
    using n by (metis (no_types, lifting) length_takeWhile_le nless_le takeWhile_eq_all_conv take_all takeWhile_eq_take)
  then show ?thesis using nth_length_takeWhile [of ?P "[0..<64]"] by (simp add: rte_clz64_def)
qed

lemma clear_top_below:
  assumes "v \<noteq> 0" "\<not> bit r (63 - rte_clz64 v)"
  shows "r AND drop_bit (rte_clz64 v) (- 1) < (v :: u64)"
proof -
  let ?c = "rte_clz64 v"
  have c: "?c < 64" "bit v (63 - ?c)" using rte_clz64_bit [OF assms(1)] by simp_all
  have "\<not> 2 ^ (63 - ?c) \<le> r AND drop_bit ?c (- 1)"
  proof
    assume "2 ^ (63 - ?c) \<le> r AND drop_bit ?c (- 1)"
    then obtain i where i: "63 - ?c \<le> i" "bit (r AND mask (64 - ?c)) i"
      using ge_power2_iff_bit [OF less_imp_diff_less [of 63 64 ?c], of "r AND mask (64 - ?c)"] by auto
    then have "i = 63 - ?c" using c(1) by (auto simp: bit_and_iff bit_mask_iff)
    then show False using i(2) assms(2) by (simp add: bit_and_iff)
  qed
  moreover have "2 ^ (63 - ?c) \<le> v" using ge_power2_iff_bit [of "63 - ?c" v] c by (auto intro!: exI [of _ "63 - ?c"])
  ultimately show ?thesis by simp
qed

text \<open>C20: \<^verbatim>\<open>rte_rand_max\<close> always returns: from every state of the generator and for every bound the
  rejection loop ends, with a number below the bound (zero for a bound below two), and the only effect
  is that the state of the calling lcore is advanced.\<close>

theorem rte_rand_max_returns:
  "\<exists>v n. rte_rand_max l ub rs = Some (v, rs[rte_rand_get_state l := (rand_step ^^ n) (rs ! rte_rand_get_state l)]) \<and>
     v < max ub 1"
proof (cases "ub < 2")
  case True
  then show ?thesis by (intro exI [of _ 0]) (simp add: rte_rand_max_def less_max_iff_disj)
next
  case False
  let ?i = "rte_rand_get_state l"
  have ub: "ub \<noteq> 0" "max ub 1 = ub" using False by (auto simp: word_less_nat_alt word_le_nat_alt max_def)
  then have less: "ub - 1 < ub" using le_minus_one_iff_less [of ub "ub - 1"] by simp
  show ?thesis
  proof (cases "rte_popcount64 ub = 1")
    case True
    have "rand_out (rand_step (rs ! ?i)) AND (ub - 1) < ub"
      using word_and_le1 [of "rand_out (rand_step (rs ! ?i))" "ub - 1"] less by (rule order.strict_trans1)
    then show ?thesis using False True ub(2)
      by (intro exI [of _ "rand_out (rand_step (rs ! ?i)) AND (ub - 1)"] exI [of _ 1])
        (simp add: rte_rand_max_def rte_rand_lfsr258_step Let_def)
  next
    case many: False
    obtain n where "\<not> bit (rand_out ((rand_step ^^ n) (rand_step (rs ! ?i)))) (63 - rte_clz64 ub)"
      using rand_bit_clears by blast
    then have "rand_out ((rand_step ^^ Suc n) (rs ! ?i)) AND drop_bit (rte_clz64 ub) (- 1) < ub"
      using clear_top_below [OF ub(1)] by (simp only: funpow_Suc_right o_apply)
    from draw_below_returns [OF this] show ?thesis
      using False many ub(2) by (auto simp: rte_rand_max_def Let_def)
  qed
qed

text \<open>\<^verbatim>\<open>rte_drand\<close> is exact: it gives a multiple of \<open>2 ^ - 53\<close> from the half-open unit
  interval, neither conversion nor division rounds, so 1 is never returned.\<close>

theorem rte_drand_in_unit_interval:
  "\<exists>n < 2 ^ 53. fst (rte_drand l rs) = Fin (of_nat n / 2 ^ 53)"
proof -
  let ?w = "fst (rte_rand l rs) AND 9007199254740991"
  have "unat ?w \<le> unat (9007199254740991 :: u64)" using word_and_le1 by (simp only: flip: word_le_nat_alt)
  then have n: "unat ?w < 2 ^ 53" by simp
  have grid: "dbl (of_nat k * 2 powi e) = Fin (of_nat k * 2 powi e)" if "k \<le> 2 ^ 53" "- 53 \<le> e" "e \<le> 0" for k e
  proof (rule dbl_double, subst of_int_of_nat_eq [symmetric], rule is_double_grid)
    have "(of_nat k :: rat) * 2 powi e \<le> 2 ^ 53 * 1"
      using that power_int_increasing [of e 0 "2 :: rat"] by (intro mult_mono) (simp_all flip: of_nat_le_iff)
    then show "\<bar>of_int (int k) * 2 powi e :: rat\<bar> < 2 ^ 1024" by simp
  qed (use that in simp_all)
  have "fst (rte_drand l rs) = fdiv (dbl (of_nat (unat ?w))) (dbl (of_nat (2 ^ 53)))"
    by (simp add: rte_drand_def fp_of_nat_def split_beta Let_def)
  also have "\<dots> = dbl (of_nat (unat ?w) / 2 ^ 53)"
    using grid [of "unat ?w" 0] grid [of "2 ^ 53" 0] n by simp
  also have "\<dots> = Fin (of_nat (unat ?w) / 2 ^ 53)"
  proof -
    have "(2 :: rat) powi (- 53) = inverse (2 ^ 53)"
      by (simp only: power_int_minus power_int_numeral)
    then show ?thesis using grid [of "unat ?w" "- 53"] n by (simp only: divide_inverse)
  qed
  finally show ?thesis using n by blast
qed

end
