(* ===== verification/SenseStats.thy ===== *)
theory SenseStats
  imports CDouble "HOL-Library.Monad_Syntax"
begin

text \<open>
  The round-trip statistics of the Sense application, \<^verbatim>\<open>app/sense/stats.c\<close>: a table with counters and a
  moving average per peer, and a ring of the latest samples per peer that is averaged over a time
  window. The static variables of the file are the record \<open>sense_stats\<close>; the shared table is \<open>None\<close>
  before \<^verbatim>\<open>sense_stats_init\<close>. The cycle counter and its frequency are the arguments \<open>now\<close> and \<open>hz\<close>.
\<close>

section \<open>Data\<close>

definition SENSE_MAX_NODES :: nat where "SENSE_MAX_NODES = 16"
definition SENSE_MAX_SAMPLES :: nat where "SENSE_MAX_SAMPLES = 2048"
definition SENSE_EWMA_ALPHA :: fp where "SENSE_EWMA_ALPHA = dbl (1 / 5)"
definition MSG_STATS_REPORT :: u8 where "MSG_STATS_REPORT = 20"

record sense_rtt_entry =
  last_rtt_us :: fp
  ewma_rtt_us :: fp
  last_sample_tsc :: u64
  last_seen_tsc :: u64
  last_ping_tsc :: u64
  ping_sent :: u32
  pong_recv :: u32
  loss_count :: u32

record sense_rtt_table =
  tbl_node_id :: u32
  tbl_node_num :: u32
  tbl_entries :: "sense_rtt_entry list"

record sense_rtt_sample =
  smp_tsc :: u64
  smp_rtt_us :: fp

record sense_rtt_snapshot =
  snp_avg_us :: "fp list"
  snp_last_tsc :: u64

record sense_stats =
  rtt_tbl :: "sense_rtt_table option"
  sample_ring :: "sense_rtt_sample list list"
  ring_head :: "u16 list"
  ring_count :: "u16 list"
  snapshot :: sense_rtt_snapshot
  snapshot_window_ms :: u32

record sense_peer_stats_entry =
  rep_peer_id :: u32
  rep_avg_rtt_us :: fp
  rep_loss_count :: u32

record sense_stats_report_packet =
  rep_msg_type :: u8
  rep_peer_count :: u8
  rep_reserved :: u16
  rep_src_id :: u32
  rep_seq :: u64
  rep_peers :: "sense_peer_stats_entry list"

definition zero_entry :: sense_rtt_entry where
  "zero_entry = \<lparr>last_rtt_us = Fin 0, ewma_rtt_us = Fin 0, last_sample_tsc = 0, last_seen_tsc = 0,
     last_ping_tsc = 0, ping_sent = 0, pong_recv = 0, loss_count = 0\<rparr>"

definition zero_sample :: sense_rtt_sample where
  "zero_sample = \<lparr>smp_tsc = 0, smp_rtt_us = Fin 0\<rparr>"

definition zero_snapshot :: sense_rtt_snapshot where
  "zero_snapshot = \<lparr>snp_avg_us = replicate (SENSE_MAX_NODES + 1) (Fin 0), snp_last_tsc = 0\<rparr>"

text \<open>The statics as they are at program start, before \<^verbatim>\<open>sense_stats_init\<close>.\<close>

definition stats_boot :: sense_stats where
  "stats_boot = \<lparr>rtt_tbl = None,
     sample_ring = replicate (SENSE_MAX_NODES + 1) (replicate SENSE_MAX_SAMPLES zero_sample),
     ring_head = replicate (SENSE_MAX_NODES + 1) 0, ring_count = replicate (SENSE_MAX_NODES + 1) 0,
     snapshot = zero_snapshot, snapshot_window_ms = 1000\<rparr>"

section \<open>Operations\<close>

text \<open>\<open>mz\<close>: the memory zone was reserved, or found.\<close>

definition sense_stats_init :: "bool \<Rightarrow> u32 \<Rightarrow> u32 \<Rightarrow> sense_stats \<Rightarrow> int \<times> sense_stats" where
  "sense_stats_init mz node_id node_num s =
     (if \<not> mz then (- 1, s)
      else (0, s\<lparr>rtt_tbl := Some \<lparr>tbl_node_id = node_id, tbl_node_num = node_num,
            tbl_entries = replicate (SENSE_MAX_NODES + 1) zero_entry\<rparr>,
          sample_ring := replicate (SENSE_MAX_NODES + 1) (replicate SENSE_MAX_SAMPLES zero_sample),
          ring_head := replicate (SENSE_MAX_NODES + 1) 0, ring_count := replicate (SENSE_MAX_NODES + 1) 0,
          snapshot := zero_snapshot\<rparr>))"

definition peer_invalid :: "u32 \<Rightarrow> bool" where
  "peer_invalid peer_id \<longleftrightarrow> peer_id = 0 \<or> unat peer_id > SENSE_MAX_NODES"

definition upd_entry :: "u32 \<Rightarrow> (sense_rtt_entry \<Rightarrow> sense_rtt_entry) \<Rightarrow> sense_stats \<Rightarrow> sense_stats" where
  "upd_entry peer_id g s =
     (case rtt_tbl s of None \<Rightarrow> s
      | Some t \<Rightarrow> s\<lparr>rtt_tbl := Some (t\<lparr>tbl_entries := (tbl_entries t)[unat peer_id := g (tbl_entries t ! unat peer_id)]\<rparr>)\<rparr>)"

text \<open>The two ends of the counters: \<^verbatim>\<open>ping_sent\<close> is raised to \<^verbatim>\<open>pong_recv\<close> when it is below.\<close>

definition ping_entry :: "u64 \<Rightarrow> sense_rtt_entry \<Rightarrow> sense_rtt_entry" where
  "ping_entry now e =
     (let e = e\<lparr>last_ping_tsc := now, ping_sent := ping_sent e + 1\<rparr>;
          e = (if ping_sent e < pong_recv e then e\<lparr>ping_sent := pong_recv e\<rparr> else e)
      in e\<lparr>loss_count := ping_sent e - pong_recv e\<rparr>)"

definition sense_stats_record_ping :: "u64 \<Rightarrow> u32 \<Rightarrow> sense_stats \<Rightarrow> sense_stats" where
  "sense_stats_record_ping now peer_id s =
     (if rtt_tbl s = None \<or> peer_invalid peer_id then s else upd_entry peer_id (ping_entry now) s)"

definition pong_entry :: "u64 \<Rightarrow> fp \<Rightarrow> sense_rtt_entry \<Rightarrow> sense_rtt_entry" where
  "pong_entry now rtt_us e =
     (let e = e\<lparr>last_rtt_us := rtt_us\<rparr>;
          e = (if fle (ewma_rtt_us e) (Fin 0) then e\<lparr>ewma_rtt_us := rtt_us\<rparr>
               else e\<lparr>ewma_rtt_us := fadd (fmul SENSE_EWMA_ALPHA rtt_us)
                      (fmul (fsub (Fin 1) SENSE_EWMA_ALPHA) (ewma_rtt_us e))\<rparr>);
          e = e\<lparr>last_sample_tsc := now, last_seen_tsc := now, pong_recv := pong_recv e + 1\<rparr>;
          e = (if pong_recv e > ping_sent e then e\<lparr>ping_sent := pong_recv e\<rparr> else e)
      in e\<lparr>loss_count := ping_sent e - pong_recv e\<rparr>)"

definition sense_stats_update :: "u64 \<Rightarrow> u32 \<Rightarrow> fp \<Rightarrow> sense_stats \<Rightarrow> sense_stats" where
  "sense_stats_update now peer_id rtt_us s =
     (if rtt_tbl s = None \<or> peer_invalid peer_id then s else upd_entry peer_id (pong_entry now rtt_us) s)"

definition sense_samples_append :: "u64 \<Rightarrow> u32 \<Rightarrow> fp \<Rightarrow> sense_stats \<Rightarrow> sense_stats" where
  "sense_samples_append now peer_id rtt_us s =
     (if peer_invalid peer_id then s
      else let p = unat peer_id; head = ring_head s ! p;
               ring = (sample_ring s ! p)[unat head := \<lparr>smp_tsc = now, smp_rtt_us = to_float rtt_us\<rparr>];
               s = s\<lparr>sample_ring := (sample_ring s)[p := ring],
                     ring_head := (ring_head s)[p := of_nat ((unat head + 1) mod SENSE_MAX_SAMPLES)]\<rparr>
           in if unat (ring_count s ! p) < SENSE_MAX_SAMPLES
              then s\<lparr>ring_count := (ring_count s)[p := ring_count s ! p + 1]\<rparr> else s)"

text \<open>The walk back from the newest sample; \<open>n\<close> samples are left.\<close>

fun window_sum :: "u64 \<Rightarrow> u64 \<Rightarrow> sense_rtt_sample list \<Rightarrow> nat \<Rightarrow> int \<Rightarrow> fp \<Rightarrow> u32 \<Rightarrow> fp \<times> u32" where
  "window_sum now win ring 0 idx acc cnt = (acc, cnt)"
| "window_sum now win ring (Suc n) idx acc cnt =
     (let s = ring ! nat idx in
      if smp_tsc s = 0 then (acc, cnt)
      else if now - smp_tsc s > win then (acc, cnt)
      else let acc = fadd acc (smp_rtt_us s); cnt = cnt + 1; idx = idx - 1;
               idx = (if idx < 0 then int SENSE_MAX_SAMPLES - 1 else idx)
           in window_sum now win ring n idx acc cnt)"

definition avg_in_window :: "u64 \<Rightarrow> u64 \<Rightarrow> u32 \<Rightarrow> u32 \<Rightarrow> sense_stats \<Rightarrow> fp" where
  "avg_in_window now hz peer_id window_ms s =
     (let p = unat peer_id in
      if ring_count s ! p = 0 then Fin (- 1)
      else let window_cycles = ucast window_ms * hz div 1000;
               idx = int (unat (ring_head s ! p)) - 1;
               idx = (if idx < 0 then int SENSE_MAX_SAMPLES - 1 else idx);
               (acc, cnt) = window_sum now window_cycles (sample_ring s ! p) (unat (ring_count s ! p)) idx (Fin 0) 0
           in if cnt = 0 then Fin (- 1) else fdiv acc (fp_of_nat (unat cnt)))"

definition sense_get_rtt_avg :: "u64 \<Rightarrow> u64 \<Rightarrow> u32 \<Rightarrow> u32 \<Rightarrow> sense_stats \<Rightarrow> fp" where
  "sense_get_rtt_avg now hz peer_id window_ms s =
     (if peer_id = 0 \<or> unat peer_id > SENSE_MAX_NODES then Fin (- 1) else avg_in_window now hz peer_id window_ms s)"

definition sense_get_rtt_avg_all :: "u64 \<Rightarrow> u64 \<Rightarrow> u32 \<Rightarrow> sense_stats \<Rightarrow> sense_rtt_snapshot" where
  "sense_get_rtt_avg_all now hz window_ms s =
     \<lparr>snp_avg_us = Fin 0 # map (\<lambda>p. avg_in_window now hz (of_nat p) window_ms s) [1..<SENSE_MAX_NODES + 1],
      snp_last_tsc = now\<rparr>"

definition snapshot_cb :: "u64 \<Rightarrow> u64 \<Rightarrow> sense_stats \<Rightarrow> sense_stats" where
  "snapshot_cb now hz s =
     s\<lparr>snapshot := \<lparr>snp_avg_us = snp_avg_us (snapshot s) ! 0 #
          map (\<lambda>p. avg_in_window now hz (of_nat p) (snapshot_window_ms s) s) [1..<SENSE_MAX_NODES + 1],
        snp_last_tsc = now\<rparr>\<rparr>"

definition sense_snapshot_get :: "sense_stats \<Rightarrow> sense_rtt_snapshot" where
  "sense_snapshot_get s = snapshot s"

text \<open>The entries of the report after the first \<open>peer_count\<close>; the loop ends when either bound is met.\<close>

fun report_peers :: "sense_rtt_table \<Rightarrow> sense_rtt_snapshot \<Rightarrow> u32 \<Rightarrow> nat \<Rightarrow> u32 \<Rightarrow> sense_peer_stats_entry list" where
  "report_peers tbl snp node_num 0 peer = []"
| "report_peers tbl snp node_num (Suc n) peer =
     (if peer \<le> node_num then
        let avg = snp_avg_us snp ! unat peer
        in \<lparr>rep_peer_id = peer, rep_avg_rtt_us = (if fle (Fin 0) avg then to_float avg else Fin (- 1)),
             rep_loss_count = loss_count (tbl_entries tbl ! unat peer)\<rparr>
           # report_peers tbl snp node_num n (peer + 1)
      else [])"

definition sense_stats_build_report ::
  "u32 \<Rightarrow> u32 \<Rightarrow> sense_rtt_snapshot option \<Rightarrow> sense_stats \<Rightarrow> sense_stats_report_packet option" where
  "sense_stats_build_report node_id node_num snp s =
     (case (snp, rtt_tbl s) of
        (Some snp, Some tbl) \<Rightarrow>
          let ps = report_peers tbl snp node_num SENSE_MAX_NODES 1
          in Some \<lparr>rep_msg_type = MSG_STATS_REPORT, rep_peer_count = of_nat (length ps), rep_reserved = 0,
               rep_src_id = node_id, rep_seq = 0, rep_peers = ps\<rparr>
      | _ \<Rightarrow> None)"

section \<open>Shape\<close>

definition stats_ok :: "sense_stats \<Rightarrow> bool" where
  "stats_ok s \<longleftrightarrow> length (sample_ring s) = 17 \<and> length (ring_head s) = 17 \<and> length (ring_count s) = 17 \<and>
     (\<forall>r\<in>set (sample_ring s). length r = 2048) \<and> (\<forall>h\<in>set (ring_head s). unat h < 2048) \<and>
     (\<forall>c\<in>set (ring_count s). unat c \<le> 2048) \<and> pred_option (\<lambda>t. length (tbl_entries t) = 17) (rtt_tbl s) \<and>
     length (snp_avg_us (snapshot s)) = 17"

lemmas sense_sizes = SENSE_MAX_NODES_def SENSE_MAX_SAMPLES_def

section \<open>The ring holds the latest samples\<close>

text \<open>\<open>h\<close> is everything ever recorded for the peer, newest first.\<close>

definition slot :: "nat \<Rightarrow> nat \<Rightarrow> nat" where
  "slot head i = (head + 2047 - i) mod 2048"

definition ring_rep :: "sense_stats \<Rightarrow> nat \<Rightarrow> sense_rtt_sample list \<Rightarrow> bool" where
  "ring_rep s p h \<longleftrightarrow> p < 17 \<and> unat (ring_count s ! p) = min 2048 (length h) \<and>
     (\<forall>i < min 2048 (length h). sample_ring s ! p ! slot (unat (ring_head s ! p)) i = h ! i)"

lemma slot_less [simp]: "slot head i < 2048"
  by (simp add: slot_def)

lemma slot_shift: "head < 2048 \<Longrightarrow> i < 2047 \<Longrightarrow> slot ((head + 1) mod 2048) (Suc i) = slot head i"
  by (cases "head = 2047") (auto simp: slot_def mod_if)

lemma slot_first: "head < 2048 \<Longrightarrow>
    (if int head - 1 < 0 then int SENSE_MAX_SAMPLES - 1 else int head - 1) = int (slot head 0)"
  by (auto simp: slot_def sense_sizes mod_if)

lemma slot_new: "head < 2048 \<Longrightarrow> slot ((head + 1) mod 2048) 0 = head"
  by (cases "head = 2047") (simp_all add: slot_def mod_simps)

lemma slot_old: "head < 2048 \<Longrightarrow> i < 2047 \<Longrightarrow> slot head i \<noteq> head"
  by (auto simp: slot_def mod_if split: if_splits)

lemma slot_prev: "head < 2048 \<Longrightarrow> i < 2047 \<Longrightarrow>
    (if int (slot head i) - 1 < 0 then 2047 else int (slot head i) - 1) = int (slot head (Suc i))"
  by (auto simp: slot_def mod_if split: if_splits)

text \<open>The samples of the window, and their average.\<close>

definition in_window :: "u64 \<Rightarrow> u64 \<Rightarrow> sense_rtt_sample \<Rightarrow> bool" where
  "in_window now win x \<longleftrightarrow> smp_tsc x \<noteq> 0 \<and> now - smp_tsc x \<le> win"

definition window_avg :: "u64 \<Rightarrow> u64 \<Rightarrow> sense_rtt_sample list \<Rightarrow> fp" where
  "window_avg now win h =
     (let w = takeWhile (in_window now win) (take 2048 h)
      in if w = [] then Fin (- 1) else fdiv (foldl fadd (Fin 0) (map smp_rtt_us w)) (fp_of_nat (length w)))"

lemma window_sum_eq:
  assumes "head < 2048" "k + n \<le> 2048"
  shows "window_sum now win ring n (int (slot head k)) acc cnt =
     (let w = takeWhile (in_window now win) (map (\<lambda>i. ring ! slot head i) [k..<k + n])
      in (foldl fadd acc (map smp_rtt_us w), cnt + of_nat (length w)))"
  using assms
proof (induction n arbitrary: k acc cnt)
  case (Suc n)
  have l: "[k..<k + Suc n] = k # [Suc k..<Suc k + n]" by (simp add: upt_conv_Cons)
  show ?case
  proof (cases "in_window now win (ring ! slot head k)")
    case True
    then have t: "smp_tsc (ring ! slot head k) \<noteq> 0" "\<not> now - smp_tsc (ring ! slot head k) > win"
      by (auto simp: in_window_def)
    show ?thesis
    proof (cases n)
      case 0
      then show ?thesis using True t by (simp add: Let_def)
    next
      case (Suc j)
      then have "k < 2047" using Suc.prems by simp
      note sp = slot_prev [OF Suc.prems(1) this]
      have "window_sum now win ring (Suc n) (int (slot head k)) acc cnt =
          window_sum now win ring n (int (slot head (Suc k))) (fadd acc (smp_rtt_us (ring ! slot head k))) (cnt + 1)"
        using t by (simp add: Let_def sense_sizes sp [symmetric])
      also note Suc.IH [of "Suc k"]
      finally show ?thesis using True Suc.prems unfolding l by (simp add: Let_def)
    qed
  next
    case False
    then have f: "smp_tsc (ring ! slot head k) = 0 \<or> now - smp_tsc (ring ! slot head k) > win"
      by (auto simp: in_window_def)
    then show ?thesis using False unfolding l by (auto simp: Let_def)
  qed
qed (simp add: Let_def)

lemma stats_ok_nth:
  assumes "stats_ok s" "p < 17"
  shows "unat (ring_head s ! p) < 2048" "unat (ring_count s ! p) \<le> 2048" "length (sample_ring s ! p) = 2048"
  using assms by (simp_all add: stats_ok_def)

lemma avg_in_window_eq:
  assumes ok: "stats_ok s" and rep: "ring_rep s (unat p) h"
  shows "avg_in_window now hz p window_ms s = window_avg now (ucast window_ms * hz div 1000) h"
proof -
  let ?p = "unat p" and ?win = "ucast window_ms * hz div 1000 :: u64"
  let ?head = "unat (ring_head s ! ?p)" and ?n = "unat (ring_count s ! ?p)"
  have p: "?p < 17" and n: "?n = min 2048 (length h)"
    and r: "\<forall>i < ?n. sample_ring s ! ?p ! slot ?head i = h ! i"
    using rep by (simp_all add: ring_rep_def)
  have hd: "?head < 2048" using stats_ok_nth [OF ok p] by simp
  note idx = slot_first [OF hd]
  have m: "map (\<lambda>i. sample_ring s ! ?p ! slot ?head i) [0..<?n] = take 2048 h"
    using r n by (intro nth_equalityI) auto
  let ?w = "takeWhile (in_window now ?win) (take 2048 h)"
  have "length ?w \<le> 2048" using length_takeWhile_le [of "in_window now ?win" "take 2048 h"] by simp
  then have cw: "unat (of_nat (length ?w) :: u32) = length ?w" by (simp add: unat_of_nat)
  have c0: "(of_nat (length ?w) :: u32) = 0 \<longleftrightarrow> ?w = []"
  proof
    assume "(of_nat (length ?w) :: u32) = 0"
    then have "unat (of_nat (length ?w) :: u32) = 0" by (simp only: unsigned_0)
    then show "?w = []" by (simp only: cw length_0_conv)
  qed simp
  have ws: "window_sum now ?win (sample_ring s ! ?p) ?n (int (slot ?head 0)) (Fin 0) 0 =
      (foldl fadd (Fin 0) (map smp_rtt_us ?w), of_nat (length ?w))"
    using window_sum_eq [OF hd, of 0 ?n now ?win "sample_ring s ! ?p" "Fin 0" 0] stats_ok_nth(2) [OF ok p]
    by (simp only: m Let_def add_0 simp_thms)
  show ?thesis
  proof (cases "ring_count s ! ?p = 0")
    case True
    then have "h = []" using n by (simp add: min_def split: if_splits)
    then show ?thesis using True by (simp add: avg_in_window_def window_avg_def)
  next
    case False
    then show ?thesis
      unfolding avg_in_window_def window_avg_def Let_def idx ws by (simp add: cw c0)
  qed
qed

lemma set_update_dest: "x \<in> set (xs[i := y]) \<Longrightarrow> x = y \<or> x \<in> set xs"
  using set_update_subset_insert [of xs i y] by blast

lemma avg_in_window_upd [simp]:
  "avg_in_window now hz p win (s\<lparr>snapshot_window_ms := w\<rparr>) = avg_in_window now hz p win s"
  by (simp add: avg_in_window_def Let_def)

lemma append_ok:
  assumes "stats_ok s"
  shows "stats_ok (sense_samples_append now p x s)"
proof -
  have "unat (of_nat (k mod 2048) :: u16) < 2048" for k by (simp add: unat_of_nat)
  note h = this
  have c: "unat (c + 1) \<le> 2048" if "unat c < 2048" for c :: u16
    using that by (simp add: unat_add_no_wrap)
  have r: "length (sample_ring s ! unat p) = 2048" if "\<not> peer_invalid p"
    using that stats_ok_nth [OF assms, of "unat p"] by (simp add: peer_invalid_def sense_sizes)
  show ?thesis
  proof (cases "peer_invalid p")
    case False
    then show ?thesis
      using assms h c r by (auto simp: sense_samples_append_def stats_ok_def Let_def sense_sizes dest!: set_update_dest)
  qed (use assms in \<open>simp add: sense_samples_append_def\<close>)
qed

lemma append_rep:
  assumes ok: "stats_ok s" and rep: "ring_rep s q h"
  shows "ring_rep (sense_samples_append now p x s) q
    (if \<not> peer_invalid p \<and> q = unat p then \<lparr>smp_tsc = now, smp_rtt_us = to_float x\<rparr> # h else h)"
proof (cases "\<not> peer_invalid p \<and> q = unat p")
  case True
  have q: "q < 17" using rep by (simp add: ring_rep_def)
  note S = stats_ok_nth [OF ok q]
  let ?head = "unat (ring_head s ! q)"
  let ?x = "\<lparr>smp_tsc = now, smp_rtt_us = to_float x\<rparr>"
  let ?s = "sense_samples_append now p x s"
  have l: "length (sample_ring s) = 17" "length (ring_head s) = 17" "length (ring_count s) = 17"
    using ok by (simp_all add: stats_ok_def)
  have n: "unat (ring_count s ! q) = min 2048 (length h)" using rep by (simp add: ring_rep_def)
  have hd: "unat (ring_head ?s ! q) = (?head + 1) mod 2048"
    using True q l by (auto simp: sense_samples_append_def Let_def sense_sizes unat_of_nat)
  have ring: "sample_ring ?s ! q = (sample_ring s ! q)[?head := ?x]"
    using True q l by (auto simp: sense_samples_append_def Let_def)
  have cnt: "unat (ring_count ?s ! q) = min 2048 (Suc (length h))"
    using True q l n S by (auto simp: sense_samples_append_def Let_def sense_sizes unat_add_no_wrap)
  have "sample_ring ?s ! q ! slot ((?head + 1) mod 2048) i = (?x # h) ! i" if "i < min 2048 (Suc (length h))" for i
  proof (cases i)
    case 0
    then show ?thesis using S by (simp only: ring slot_new) simp
  next
    case (Suc j)
    then have j: "j < 2047" "j < length h" using that by simp_all
    have "sample_ring s ! q ! slot ?head j = h ! j" using rep j by (simp add: ring_rep_def)
    then show ?thesis using Suc slot_old [OF S(1) j(1)] by (simp add: ring slot_shift [OF S(1) j(1), simplified])
  qed
  then show ?thesis using True q cnt hd by (simp add: ring_rep_def)
next
  case False
  then have "peer_invalid p \<or> q \<noteq> unat p" by blast
  then show ?thesis
  proof
    assume "peer_invalid p"
    then show ?thesis using rep by (simp add: sense_samples_append_def)
  next
    assume "q \<noteq> unat p"
    then show ?thesis using rep False by (auto simp: sense_samples_append_def Let_def ring_rep_def)
  qed
qed


section \<open>Runs\<close>

text \<open>What the application does with the statistics: a ping is recorded when it is sent, a pong is
  added to the table and to the ring when it arrives (\<^verbatim>\<open>process_rx\<close>).\<close>

datatype sense_event = Ping u64 u32 | Pong u64 u32 fp

fun sense_step :: "sense_stats \<Rightarrow> sense_event \<Rightarrow> sense_stats" where
  "sense_step s (Ping now p) = sense_stats_record_ping now p s"
| "sense_step s (Pong now p x) = sense_samples_append now p x (sense_stats_update now p x s)"

definition sense_run :: "u32 \<Rightarrow> u32 \<Rightarrow> sense_event list \<Rightarrow> sense_stats" where
  "sense_run node_id node_num evs = foldl sense_step (snd (sense_stats_init True node_id node_num stats_boot)) evs"

text \<open>The samples of a peer, newest first; and the abstract counters.\<close>

fun history :: "u32 \<Rightarrow> sense_event list \<Rightarrow> sense_rtt_sample list \<Rightarrow> sense_rtt_sample list" where
  "history p [] h = h"
| "history p (Pong now q x # evs) h =
     history p evs (if q = p then \<lparr>smp_tsc = now, smp_rtt_us = to_float x\<rparr> # h else h)"
| "history p (Ping now q # evs) h = history p evs h"

definition pings :: "u32 \<Rightarrow> sense_event list \<Rightarrow> nat" where
  "pings p evs = length (filter (\<lambda>e. case e of Ping _ q \<Rightarrow> q = p | _ \<Rightarrow> False) evs)"

definition pongs :: "u32 \<Rightarrow> sense_event list \<Rightarrow> nat" where
  "pongs p evs = length (filter (\<lambda>e. case e of Pong _ q _ \<Rightarrow> q = p | _ \<Rightarrow> False) evs)"

text \<open>No pong arrives that was not asked for.\<close>

definition solicited :: "u32 \<Rightarrow> sense_event list \<Rightarrow> bool" where
  "solicited p evs \<longleftrightarrow> (\<forall>k\<le>length evs. pongs p (take k evs) \<le> pings p (take k evs))"

definition entry_of :: "sense_stats \<Rightarrow> u32 \<Rightarrow> sense_rtt_entry" where
  "entry_of s p = tbl_entries (the (rtt_tbl s)) ! unat p"

lemma upd_entry_ok: "stats_ok s \<Longrightarrow> stats_ok (upd_entry p g s)"
  by (auto simp: upd_entry_def stats_ok_def split: option.splits)

lemma upd_entry_ring [simp]:
  "sample_ring (upd_entry p g s) = sample_ring s" "ring_head (upd_entry p g s) = ring_head s"
  "ring_count (upd_entry p g s) = ring_count s" "snapshot (upd_entry p g s) = snapshot s"
  "rtt_tbl (upd_entry p g s) = None \<longleftrightarrow> rtt_tbl s = None"
  by (simp_all add: upd_entry_def split: option.splits)

lemma append_keeps [simp]: "rtt_tbl (sense_samples_append now p x s) = rtt_tbl s"
  "snapshot (sense_samples_append now p x s) = snapshot s"
  by (simp_all add: sense_samples_append_def Let_def)

lemma ring_rep_upd [simp]: "ring_rep (upd_entry p g s) q h = ring_rep s q h"
  by (simp add: ring_rep_def)

lemma step_ok: "stats_ok s \<Longrightarrow> stats_ok (sense_step s e)"
  by (cases e) (simp_all add: sense_stats_record_ping_def sense_stats_update_def append_ok upd_entry_ok)

lemma step_tbl [simp]: "rtt_tbl (sense_step s e) = None \<longleftrightarrow> rtt_tbl s = None"
  by (cases e) (simp_all add: sense_stats_record_ping_def sense_stats_update_def)

lemma init_ok: "stats_ok (snd (sense_stats_init True node_id node_num stats_boot))"
  by (simp add: sense_stats_init_def stats_ok_def sense_sizes zero_snapshot_def)

lemma run_ok: "stats_ok s \<Longrightarrow> stats_ok (foldl sense_step s evs)"
  by (induction evs arbitrary: s) (simp_all add: step_ok)

lemma run_tbl: "rtt_tbl (foldl sense_step s evs) = None \<longleftrightarrow> rtt_tbl s = None"
  by (induction evs arbitrary: s) simp_all

lemma run_rep:
  assumes "stats_ok s" "ring_rep s (unat p) h" "\<not> peer_invalid p"
  shows "ring_rep (foldl sense_step s evs) (unat p) (history p evs h)"
  using assms(1,2)
proof (induction evs arbitrary: s h)
  case (Cons e evs)
  show ?case
  proof (cases e)
    case (Ping now q)
    then show ?thesis
      using Cons.prems step_ok [OF Cons.prems(1), of e] by (auto intro!: Cons.IH simp: sense_stats_record_ping_def)
  next
    case (Pong now q x)
    let ?s = "sense_stats_update now q x s"
    have "stats_ok ?s" "ring_rep ?s (unat p) h"
      using Cons.prems by (simp_all add: sense_stats_update_def upd_entry_ok)
    from append_rep [OF this, of now q x] append_ok [OF this(1)] assms(3)
    have "ring_rep (sense_step s e) (unat p)
        (if q = p then \<lparr>smp_tsc = now, smp_rtt_us = to_float x\<rparr> # h else h)"
      using Pong word_unat_eq_iff [of p q] by (cases "q = p") auto
    from Cons.IH [OF step_ok [OF Cons.prems(1)] this] show ?thesis using Pong by simp
  qed
qed simp

lemma init_rep: "\<not> peer_invalid p \<Longrightarrow> ring_rep (snd (sense_stats_init True node_id node_num stats_boot)) (unat p) []"
  by (simp add: sense_stats_init_def ring_rep_def peer_invalid_def sense_sizes)

text \<open>C36: The moving average the application reports for a peer is that of the samples it received:
  after any sequence of pings and pongs, \<^verbatim>\<open>sense_get_rtt_avg\<close> of a valid peer is the sum of the latest
  samples that lie in the time window (walking back from the newest, over at most 2048 of them, and stopping at
  the first one outside the window) divided by their number, or -1 when there is none, for the
  full history of the peer.\<close>

theorem rtt_avg_of_history:
  assumes "\<not> peer_invalid p"
  shows "sense_get_rtt_avg now hz p window_ms (sense_run node_id node_num evs) =
    window_avg now (ucast window_ms * hz div 1000) (history p evs [])"
proof -
  have "\<not> (p = 0 \<or> unat p > SENSE_MAX_NODES)" using assms by (simp add: peer_invalid_def)
  then show ?thesis
    unfolding sense_get_rtt_avg_def sense_run_def
    using avg_in_window_eq [OF run_ok [OF init_ok] run_rep [OF init_ok init_rep [OF assms] assms]] by simp
qed

theorem rtt_avg_of_history_witness:
  "sense_get_rtt_avg 5000 1000 2 3000 (sense_run 1 3 [Ping 10 2, Pong 1000 2 (Fin 100), Pong 4000 2 (Fin 7)]) =
   window_avg 5000 3000 [\<lparr>smp_tsc = 4000, smp_rtt_us = to_float (Fin 7)\<rparr>, \<lparr>smp_tsc = 1000, smp_rtt_us = to_float (Fin 100)\<rparr>]"
  using rtt_avg_of_history [of 2 5000 1000 3000 1 3 "[Ping 10 2, Pong 1000 2 (Fin 100), Pong 4000 2 (Fin 7)]"]
  by (simp add: peer_invalid_def sense_sizes)


section \<open>The counters\<close>

lemma entry_of_upd:
  assumes "stats_ok s" "rtt_tbl s \<noteq> None" "\<not> peer_invalid p"
  shows "entry_of (upd_entry q g s) p = (if q = p then g (entry_of s p) else entry_of s p)"
proof -
  have "unat p < 17" using assms(3) by (simp add: peer_invalid_def sense_sizes)
  moreover have "unat q = unat p \<longleftrightarrow> q = p" by (simp add: word_unat_eq_iff)
  ultimately show ?thesis
    using assms by (auto simp: entry_of_def upd_entry_def stats_ok_def nth_list_update)
qed

lemma entry_of_step:
  assumes "stats_ok s" "rtt_tbl s \<noteq> None" "\<not> peer_invalid p"
  shows "entry_of (sense_step s e) p =
    (case e of Ping now q \<Rightarrow> if q = p then ping_entry now (entry_of s p) else entry_of s p
     | Pong now q x \<Rightarrow> if q = p then pong_entry now x (entry_of s p) else entry_of s p)"
proof (cases e)
  case (Ping now q)
  then show ?thesis
    using assms by (auto simp: sense_stats_record_ping_def entry_of_upd)
next
  case (Pong now q x)
  have "entry_of (sense_samples_append now q x t) p = entry_of t p" for t by (simp add: entry_of_def)
  then show ?thesis
    using Pong assms by (auto simp: sense_stats_update_def entry_of_upd)
qed

lemma entry_of_init: "\<not> peer_invalid p \<Longrightarrow>
    entry_of (snd (sense_stats_init True node_id node_num stats_boot)) p = zero_entry"
  by (simp add: entry_of_def sense_stats_init_def peer_invalid_def sense_sizes nth_Cons' del: replicate_Suc)

lemma sense_run_snoc: "sense_run a b (evs @ [e]) = sense_step (sense_run a b evs) e"
  by (simp add: sense_run_def)

lemma sense_run_ok: "stats_ok (sense_run a b evs)" "rtt_tbl (sense_run a b evs) \<noteq> None"
  by (simp_all add: sense_run_def run_ok init_ok run_tbl) (simp add: sense_stats_init_def)

definition counters_ok :: "sense_rtt_entry \<Rightarrow> bool" where
  "counters_ok e \<longleftrightarrow> pong_recv e \<le> ping_sent e \<and> loss_count e = ping_sent e - pong_recv e"

lemma entry_counters: "counters_ok (ping_entry now e)" "counters_ok (pong_entry now x e)"
  by (auto simp: counters_ok_def ping_entry_def pong_entry_def Let_def not_less)

lemma run_counters_ok: "\<not> peer_invalid p \<Longrightarrow> counters_ok (entry_of (sense_run a b evs) p)"
proof (induction evs rule: rev_induct)
  case Nil
  then show ?case by (simp add: sense_run_def entry_of_init) (simp add: counters_ok_def zero_entry_def)
next
  case (snoc e evs)
  then show ?case
    by (simp add: sense_run_snoc entry_of_step [OF sense_run_ok] entry_counters split: sense_event.split)
qed

lemma solicited_snoc: "solicited p (evs @ [e]) \<Longrightarrow> solicited p evs \<and> pongs p (evs @ [e]) \<le> pings p (evs @ [e])"
proof -
  assume "solicited p (evs @ [e])"
  then have *: "k \<le> Suc (length evs) \<Longrightarrow> pongs p (take k (evs @ [e])) \<le> pings p (take k (evs @ [e]))" for k
    by (simp add: solicited_def)
  have "pongs p (take k evs) \<le> pings p (take k evs)" if "k \<le> length evs" for k
    using * [of k] that by simp
  then show ?thesis using * [of "Suc (length evs)"] by (simp add: solicited_def)
qed

lemma counts_snoc:
  "pings p (evs @ [e]) = pings p evs + (case e of Ping _ q \<Rightarrow> if q = p then 1 else 0 | _ \<Rightarrow> 0)"
  "pongs p (evs @ [e]) = pongs p evs + (case e of Pong _ q _ \<Rightarrow> if q = p then 1 else 0 | _ \<Rightarrow> 0)"
  by (simp_all add: pings_def pongs_def split: sense_event.split)

lemma run_counts:
  assumes "\<not> peer_invalid p"
  shows "length evs < 2 ^ 32 \<Longrightarrow> solicited p evs \<Longrightarrow>
    unat (ping_sent (entry_of (sense_run a b evs) p)) = pings p evs \<and>
    unat (pong_recv (entry_of (sense_run a b evs) p)) = pongs p evs"
proof (induction evs rule: rev_induct)
  case Nil
  then show ?case using assms by (simp add: sense_run_def entry_of_init) (simp add: zero_entry_def pings_def pongs_def)
next
  case (snoc e evs)
  let ?e = "entry_of (sense_run a b evs) p"
  have s: "solicited p evs" "pongs p (evs @ [e]) \<le> pings p (evs @ [e])" using solicited_snoc [OF snoc.prems(2)] by auto
  have ih: "unat (ping_sent ?e) = pings p evs" "unat (pong_recv ?e) = pongs p evs"
    using snoc s by auto
  have le: "pings p evs \<le> length evs" "pongs p evs \<le> length evs" by (simp_all add: pings_def pongs_def)
  have b: "unat (ping_sent ?e + 1) = pings p evs + 1" "unat (pong_recv ?e + 1) = pongs p evs + 1"
    using snoc.prems(1) le by (simp_all add: ih unat_add_no_wrap)
  have q: "pongs p evs \<le> pings p evs" using s(1) spec [of _ "length evs"] by (fastforce simp: solicited_def)
  show ?case
  proof (cases e)
    case (Ping now r)
    then show ?thesis
      using assms ih b q by (auto simp: sense_run_snoc entry_of_step [OF sense_run_ok] ping_entry_def Let_def
          counts_snoc word_less_nat_alt simp del: sense_step.simps)
  next
    case (Pong now r x)
    then show ?thesis
      using assms ih b s(2) by (auto simp: sense_run_snoc entry_of_step [OF sense_run_ok] pong_entry_def Let_def
          counts_snoc word_less_nat_alt simp del: sense_step.simps)
  qed
qed

text \<open>C37: The loss counter of a peer. However pings and pongs are interleaved, wrapped or duplicated, the counter of
  received pongs never passes that of sent pings and the loss count is their difference; and as long as
  fewer than 2^32 events happened and no pong was unsolicited, the three are exactly the number of
  pings, of pongs, and of pings still unanswered.\<close>

theorem loss_counter:
  fixes node_id node_num p :: u32
  assumes "\<not> peer_invalid p"
  defines "e \<equiv> \<lambda>evs. entry_of (sense_run node_id node_num evs) p"
  shows "pong_recv (e evs) \<le> ping_sent (e evs) \<and> loss_count (e evs) = ping_sent (e evs) - pong_recv (e evs) \<and>
    (length evs < 2 ^ 32 \<and> solicited p evs \<longrightarrow>
      unat (ping_sent (e evs)) = pings p evs \<and> unat (pong_recv (e evs)) = pongs p evs \<and>
      unat (loss_count (e evs)) = pings p evs - pongs p evs)"
  using run_counters_ok [OF assms(1)] run_counts [OF assms(1)]
  unfolding e_def counters_ok_def by (auto simp: unat_sub_no_wrap)

theorem loss_counter_witness:
  "loss_count (entry_of (sense_run 1 3 [Ping 10 2, Ping 20 2, Pong 30 2 (Fin 5)]) 2) = 1"
proof -
  have "solicited 2 [Ping 10 2, Ping 20 2, Pong 30 2 (Fin 5)]"
    by (auto simp: solicited_def pings_def pongs_def le_Suc_eq numeral_eq_Suc)
  then show ?thesis
    using loss_counter [of 2 1 3 "[Ping 10 2, Ping 20 2, Pong 30 2 (Fin 5)]"]
    by (simp add: peer_invalid_def sense_sizes pings_def pongs_def word_unat_eq_iff)
qed

section \<open>The report\<close>

lemma report_peers_nth:
  assumes "unat peer + n \<le> 17"
  shows "length (report_peers tbl snp node_num n peer) = min n (Suc (unat node_num) - unat peer) \<and>
    (\<forall>k < length (report_peers tbl snp node_num n peer).
      report_peers tbl snp node_num n peer ! k =
        (let q = peer + of_nat k; avg = snp_avg_us snp ! unat q
         in \<lparr>rep_peer_id = q, rep_avg_rtt_us = (if fle (Fin 0) avg then to_float avg else Fin (- 1)),
              rep_loss_count = loss_count (tbl_entries tbl ! unat q)\<rparr>))"
  using assms
proof (induction n arbitrary: peer)
  case (Suc n)
  have p: "unat (peer + 1) = unat peer + 1" using Suc.prems by (simp add: unat_add_no_wrap)
  note ih = Suc.IH [of "peer + 1"]
  show ?case
  proof (cases "peer \<le> node_num")
    case True
    then have le: "unat peer \<le> unat node_num" by (simp add: word_le_nat_alt)
    show ?thesis
    proof (intro conjI allI impI)
      show "length (report_peers tbl snp node_num (Suc n) peer) = min (Suc n) (Suc (unat node_num) - unat peer)"
        using True ih Suc.prems p le by (simp add: Let_def)
    next
      fix k assume k: "k < length (report_peers tbl snp node_num (Suc n) peer)"
      show "report_peers tbl snp node_num (Suc n) peer ! k =
        (let q = peer + of_nat k; avg = snp_avg_us snp ! unat q
         in \<lparr>rep_peer_id = q, rep_avg_rtt_us = (if fle (Fin 0) avg then to_float avg else Fin (- 1)),
              rep_loss_count = loss_count (tbl_entries tbl ! unat q)\<rparr>)"
        using k True ih Suc.prems p by (cases k) (simp_all add: Let_def ac_simps)
    qed
  next
    case False
    then show ?thesis by (simp add: word_le_nat_alt)
  qed
qed simp


text \<open>The report the collector gets. After any run, a snapshot and \<^verbatim>\<open>sense_stats_build_report\<close> give a packet with
  one entry for each of the peers 1, 2, ... up to the number of nodes and at most 16, in this order; the
  entry of peer k carries the window average of everything received from k as a float (-1 when there is
  none or it is negative or not a number) and the loss count of k.\<close>

theorem report_of_run:
  fixes a b node_id node_num win :: u32 and now hz :: u64
  defines "s \<equiv> \<lambda>evs win. snapshot_cb now hz (sense_run a b evs\<lparr>snapshot_window_ms := win\<rparr>)"
  shows "\<exists>r. sense_stats_build_report node_id node_num (Some (sense_snapshot_get (s evs win))) (s evs win) = Some r \<and>
    unat (rep_peer_count r) = min 16 (unat node_num) \<and> length (rep_peers r) = min 16 (unat node_num) \<and>
    rep_src_id r = node_id \<and>
    (\<forall>k < length (rep_peers r). let q = of_nat (Suc k); avg = window_avg now (ucast win * hz div 1000) (history q evs [])
      in rep_peers r ! k = \<lparr>rep_peer_id = q, rep_avg_rtt_us = (if fle (Fin 0) avg then to_float avg else Fin (- 1)),
           rep_loss_count = loss_count (entry_of (sense_run a b evs) q)\<rparr>)"
proof -
  let ?r = "sense_run a b evs"
  obtain t where t: "rtt_tbl ?r = Some t" using sense_run_ok(2) by blast
  let ?t = "\<lparr>snp_avg_us = snp_avg_us (snapshot ?r) ! 0 #
          map (\<lambda>p. avg_in_window now hz (of_nat p) win (?r\<lparr>snapshot_window_ms := win\<rparr>)) [1..<17], snp_last_tsc = now\<rparr>"
  have snp: "snapshot (s evs win) = ?t" "rtt_tbl (s evs win) = Some t"
    using t by (simp_all add: s_def snapshot_cb_def sense_sizes)
  let ?ps = "report_peers t ?t node_num 16 1"
  have "unat (1 :: u32) + 16 \<le> 17" by simp
  note P = report_peers_nth [OF this, of t ?t node_num]
  have l: "length ?ps = min 16 (unat node_num)" using P by simp
  have c: "unat (of_nat (length ?ps) :: u8) = length ?ps" using l by (simp add: unat_of_nat)
  have e: "?ps ! k = \<lparr>rep_peer_id = of_nat (Suc k), rep_avg_rtt_us = (let avg = window_avg now (ucast win * hz div 1000) (history (of_nat (Suc k)) evs [])
      in if fle (Fin 0) avg then to_float avg else Fin (- 1)), rep_loss_count = loss_count (entry_of ?r (of_nat (Suc k)))\<rparr>"
    if k: "k < length ?ps" for k
  proof -
    have k16: "k < 16" using k l by simp
    then have u: "unat (of_nat (Suc k) :: u32) = Suc k" by (simp add: unat_of_nat del: of_nat_Suc)
    have v: "\<not> peer_invalid (of_nat (Suc k))"
      using k16 u unsigned_0 [where 'a = 32] by (auto simp: peer_invalid_def sense_sizes simp del: of_nat_Suc)
    have "snp_avg_us ?t ! Suc k = avg_in_window now hz (of_nat (Suc k)) win ?r"
      using k16 by (simp del: of_nat_Suc upt_rec_numeral)
    also have "\<dots> = window_avg now (ucast win * hz div 1000) (history (of_nat (Suc k)) evs [])"
      unfolding sense_run_def by (rule avg_in_window_eq [OF run_ok [OF init_ok] run_rep [OF init_ok init_rep [OF v] v]])
    finally have avg: "snp_avg_us ?t ! Suc k = \<dots>" .
    have i: "1 + of_nat k = (of_nat (Suc k) :: u32)" by simp
    have "?ps ! k = (let q = of_nat (Suc k); avg = snp_avg_us ?t ! unat q
         in \<lparr>rep_peer_id = q, rep_avg_rtt_us = (if fle (Fin 0) avg then to_float avg else Fin (- 1)),
              rep_loss_count = loss_count (tbl_entries t ! unat q)\<rparr>)"
      by (rule conjunct2 [OF P, THEN spec, THEN mp, OF k, unfolded i])
    then show ?thesis unfolding Let_def u avg by (simp add: entry_of_def t u del: of_nat_Suc)
  qed
  show ?thesis
    unfolding sense_stats_build_report_def sense_snapshot_get_def snp sense_sizes
    using l c e by (auto simp: Let_def)
qed

theorem report_of_run_witness:
  "\<exists>r. sense_stats_build_report 1 3 (Some (sense_snapshot_get (snapshot_cb 90 1000 (sense_run 1 3 [Ping 10 2]\<lparr>snapshot_window_ms := 500\<rparr>))))
        (snapshot_cb 90 1000 (sense_run 1 3 [Ping 10 2]\<lparr>snapshot_window_ms := 500\<rparr>)) = Some r \<and>
     unat (rep_peer_count r) = 3 \<and>
     rep_peers r ! 1 = \<lparr>rep_peer_id = 2, rep_avg_rtt_us = Fin (- 1),
       rep_loss_count = loss_count (entry_of (sense_run 1 3 [Ping 10 2]) 2)\<rparr>"
proof -
  obtain r where r: "sense_stats_build_report 1 3 (Some (sense_snapshot_get (snapshot_cb 90 1000 (sense_run 1 3 [Ping 10 2]\<lparr>snapshot_window_ms := 500\<rparr>))))
        (snapshot_cb 90 1000 (sense_run 1 3 [Ping 10 2]\<lparr>snapshot_window_ms := 500\<rparr>)) = Some r"
      "unat (rep_peer_count r) = 3" "length (rep_peers r) = 3" and
    p: "k < length (rep_peers r) \<Longrightarrow> let q = of_nat (Suc k); avg = window_avg 90 (ucast (500 :: u32) * 1000 div 1000) (history q [Ping 10 2] [])
      in rep_peers r ! k = \<lparr>rep_peer_id = q, rep_avg_rtt_us = (if fle (Fin 0) avg then to_float avg else Fin (- 1)),
           rep_loss_count = loss_count (entry_of (sense_run 1 3 [Ping 10 2]) q)\<rparr>" for k
    using report_of_run [where node_num = 3 and now = 90 and hz = 1000 and a = 1 and b = 3
        and evs = "[Ping 10 2]" and win = 500 and node_id = 1] by auto
  have "rep_peers r ! 1 = \<lparr>rep_peer_id = 2, rep_avg_rtt_us = Fin (- 1),
       rep_loss_count = loss_count (entry_of (sense_run 1 3 [Ping 10 2]) 2)\<rparr>"
    using p [of 1] r(3) by (simp add: Let_def window_avg_def)
  then show ?thesis using r by blast
qed

end
