(* ===== verification/SenseConfig.thy ===== *)
theory SenseConfig
  imports CLib SenseStats
begin

text \<open>
  The configuration of the Sense application, \<^verbatim>\<open>app/sense/config.c\<close> and \<^verbatim>\<open>include/config.h\<close>. A
  store outside of the tables of \<^verbatim>\<open>sense_config\<close> and a read through a null pointer are the result
  \<open>None\<close>; the JSON reader is the parameter \<open>J\<close>.
\<close>

section \<open>Data\<close>

definition SENSE_PORT :: u16 where "SENSE_PORT = 9998"

record sense_config_t =
  sc_node_num :: u32
  sc_node_id :: u32
  sc_port_id :: u32
  sc_ip_map :: "string list"
  sc_mac_map :: "ether_addr list"
  collector_enabled :: bool
  collector_port :: u16
  collector_ip :: string
  collector_mac :: ether_addr

definition zero_config :: sense_config_t where
  "zero_config = \<lparr>sc_node_num = 0, sc_node_id = 0, sc_port_id = 0,
     sc_ip_map = replicate (SENSE_MAX_NODES + 1) (replicate 16 CHR 0x00),
     sc_mac_map = replicate (SENSE_MAX_NODES + 1) (replicate 6 0), collector_enabled = False,
     collector_port = 0, collector_ip = replicate 16 CHR 0x00, collector_mac = replicate 6 0\<rparr>"

section \<open>The loader\<close>

text \<open>Six \<^verbatim>\<open>%x\<close> conversions into local integers; the address is stored only when all succeed.\<close>

fun scan_mac :: "nat \<Rightarrow> nat \<Rightarrow> string \<Rightarrow> u32 list option" where
  "scan_mac 0 i s = Some []"
| "scan_mac (Suc n) i s =
     (case (if i = 0 then Some s else case s of c # cs \<Rightarrow> if c = CHR '':'' then Some cs else None | [] \<Rightarrow> None) of
        None \<Rightarrow> None
      | Some s \<Rightarrow> (case scan_x s of
            None \<Rightarrow> None
          | Some (b, rest) \<Rightarrow> map_option ((#) b) (scan_mac n (Suc i) rest)))"

definition sense_parse_mac :: "string \<Rightarrow> ether_addr \<Rightarrow> int \<times> ether_addr" where
  "sense_parse_mac mac_str mac =
     (case scan_mac 6 0 mac_str of None \<Rightarrow> (- 1, mac) | Some b \<Rightarrow> (0, map ucast b))"

text \<open>\<^verbatim>\<open>strncpy\<close> of all but the last character, which is set to NUL.\<close>

definition copy_ip :: "string \<Rightarrow> string" where
  "copy_ip s = strncpy 15 s @ [CHR 0x00]"

text \<open>A round of the loop; the flag says that the loop goes on.\<close>

definition sense_load_peer ::
  "'j jansson_types \<Rightarrow> 'j option \<Rightarrow> 'j option \<Rightarrow> nat \<Rightarrow> sense_config_t \<Rightarrow> (bool \<times> sense_config_t) option" where
  "sense_load_peer J ips macs i cfg =
     (let ip = json_object_get J ips (dec_string i); mac = json_object_get J macs (dec_string i) in
      if \<not> json_is_string J ip \<or> \<not> json_is_string J mac then Some (False, cfg)
      else case (json_string_value J ip, json_string_value J mac) of
          (Some ip_str, Some mac_str) \<Rightarrow>
            if i > SENSE_MAX_NODES then None
            else let cfg = cfg\<lparr>sc_ip_map := (sc_ip_map cfg)[i := copy_ip ip_str]\<rparr>;
                     (rc, m) = sense_parse_mac mac_str (sc_mac_map cfg ! i)
                 in Some (rc = 0, cfg\<lparr>sc_mac_map := (sc_mac_map cfg)[i := m]\<rparr>)
        | _ \<Rightarrow> None)"

fun sense_load_peers ::
  "'j jansson_types \<Rightarrow> 'j option \<Rightarrow> 'j option \<Rightarrow> nat list \<Rightarrow> sense_config_t \<Rightarrow> (bool \<times> sense_config_t) option" where
  "sense_load_peers J ips macs [] cfg = Some (True, cfg)"
| "sense_load_peers J ips macs (i # is) cfg =
     (case sense_load_peer J ips macs i cfg of
        Some (True, cfg) \<Rightarrow> sense_load_peers J ips macs is cfg | r \<Rightarrow> r)"

definition sense_load_collector :: "'j jansson_types \<Rightarrow> 'j option \<Rightarrow> sense_config_t \<Rightarrow> sense_config_t option" where
  "sense_load_collector J collector cfg =
     (if \<not> json_is_object J collector then Some cfg
      else let ip = json_object_get J collector ''ip''; mac = json_object_get J collector ''mac'';
               port = json_object_get J collector ''port'' in
        if \<not> (json_is_string J ip \<and> json_is_string J mac) then Some cfg
        else case (json_string_value J ip, json_string_value J mac) of
            (Some ip_str, Some mac_str) \<Rightarrow>
              let cfg = cfg\<lparr>collector_ip := copy_ip ip_str\<rparr>;
                  (rc, m) = sense_parse_mac mac_str (collector_mac cfg);
                  cfg = cfg\<lparr>collector_mac := m\<rparr>
              in Some (if rc = 0 then
                   (if json_is_integer J port then cfg\<lparr>collector_port := word_of_int (json_integer_value J port)\<rparr> else cfg)
                     \<lparr>collector_enabled := True\<rparr>
                 else cfg)
          | _ \<Rightarrow> None)"

text \<open>The tables and the collector, once the numbers are read.\<close>

definition sense_load_maps :: "'j jansson_types \<Rightarrow> 'j option \<Rightarrow> sense_config_t \<Rightarrow> (int \<times> sense_config_t) option" where
  "sense_load_maps J js cfg =
     (let ips = json_object_get J js ''ip_map''; macs = json_object_get J js ''mac_map'' in
      if \<not> json_is_object J ips \<or> \<not> json_is_object J macs then Some (- 1, cfg)
      else case sense_load_peers J ips macs [1..<unat (sc_node_num cfg) + 1] cfg of
          None \<Rightarrow> None
        | Some (False, cfg) \<Rightarrow> Some (- 1, cfg)
        | Some (True, cfg) \<Rightarrow> map_option (\<lambda>cfg. (0, cfg)) (sense_load_collector J (json_object_get J js ''collector'') cfg))"

definition sense_load_config :: "'j jansson_types \<Rightarrow> string \<Rightarrow> sense_config_t \<Rightarrow> (int \<times> sense_config_t) option" where
  "sense_load_config J filename cfg =
     (case json_load_file J filename of
        None \<Rightarrow> Some (- 1, cfg)
      | Some js \<Rightarrow>
          let get = (\<lambda>k. json_object_get J (Some js) k);
              cfg = zero_config\<lparr>collector_port := SENSE_PORT\<rparr>;
              nid = get ''node_id''; num = get ''node_num''; port = get ''port_id'' in
          if \<not> json_is_integer J nid \<or> \<not> json_is_integer J num \<or> \<not> json_is_integer J port then Some (- 1, cfg)
          else sense_load_maps J (Some js) (cfg\<lparr>sc_node_id := word_of_int (json_integer_value J nid),
                     sc_node_num := word_of_int (json_integer_value J num),
                     sc_port_id := word_of_int (json_integer_value J port)\<rparr>))"

section \<open>What it loads\<close>

definition sense_config_ok :: "sense_config_t \<Rightarrow> bool" where
  "sense_config_ok cfg \<longleftrightarrow> length (sc_ip_map cfg) = 17 \<and> length (sc_mac_map cfg) = 17 \<and>
     (\<forall>s\<in>set (sc_ip_map cfg). length s = 16) \<and> terminated (sc_ip_map cfg) \<and>
     (\<forall>m\<in>set (sc_mac_map cfg). length m = 6) \<and> length (collector_ip cfg) = 16 \<and>
     CHR 0x00 \<in> set (collector_ip cfg) \<and> length (collector_mac cfg) = 6"

text \<open>The file gives peer \<open>i\<close> this address and this MAC address.\<close>

definition json_peer :: "'j jansson_types \<Rightarrow> 'j option \<Rightarrow> 'j option \<Rightarrow> nat \<Rightarrow> string \<Rightarrow> ether_addr \<Rightarrow> bool" where
  "json_peer J ips macs i ip mac \<longleftrightarrow>
     json_is_string J (json_object_get J ips (dec_string i)) \<and> json_is_string J (json_object_get J macs (dec_string i)) \<and>
     json_string_value J (json_object_get J ips (dec_string i)) = Some ip \<and>
     (\<exists>s b. json_string_value J (json_object_get J macs (dec_string i)) = Some s \<and> scan_mac 6 0 s = Some b \<and> mac = map ucast b)"

lemma copy_ip_simps [simp]: "length (copy_ip s) = 16" "CHR 0x00 \<in> set (copy_ip s)"
  by (simp_all add: copy_ip_def)

lemma zero_config_ok: "sense_config_ok (zero_config\<lparr>collector_port := p, sc_node_id := a, sc_node_num := b, sc_port_id := c\<rparr>)"
  by (simp add: sense_config_ok_def zero_config_def terminated_def sense_sizes)

lemma scan_mac_length: "scan_mac n i s = Some b \<Longrightarrow> length b = n"
  by (induction n arbitrary: i s b) (auto split: option.splits if_splits list.splits)

lemma sense_parse_mac_length [simp]: "length mac = 6 \<Longrightarrow> length (snd (sense_parse_mac s mac)) = 6"
  using scan_mac_length [of 6 0 s] by (auto simp: sense_parse_mac_def split: option.splits)

lemma load_peer_ok:
  assumes "sense_load_peer J ips macs i cfg = Some (b, cfg')" "sense_config_ok cfg"
  shows "sense_config_ok cfg'"
proof -
  have "length (snd (sense_parse_mac m (sc_mac_map cfg ! i))) = 6" if "\<not> SENSE_MAX_NODES < i" for m
    using assms(2) that by (simp add: sense_config_ok_def sense_sizes)
  then show ?thesis
    using assms by (auto simp: sense_load_peer_def sense_config_ok_def terminated_def Let_def case_prod_beta
        split: if_splits option.splits dest!: set_update_dest)
qed

lemma load_peers_ok:
  "sense_load_peers J ips macs is cfg = Some (b, cfg') \<Longrightarrow> sense_config_ok cfg \<Longrightarrow> sense_config_ok cfg'"
  by (induction "is" arbitrary: cfg) (auto split: option.splits prod.splits bool.splits dest: load_peer_ok)

lemma load_collector_ok:
  "sense_load_collector J col cfg = Some cfg' \<Longrightarrow> sense_config_ok cfg \<Longrightarrow> sense_config_ok cfg' \<and>
    sc_ip_map cfg' = sc_ip_map cfg \<and> sc_mac_map cfg' = sc_mac_map cfg \<and> sc_node_num cfg' = sc_node_num cfg"
  by (auto simp: sense_load_collector_def sense_config_ok_def Let_def case_prod_beta split: if_splits option.splits)

lemma load_peer_true:
  assumes "sense_load_peer J ips macs i cfg = Some (True, cfg')" "sense_config_ok cfg"
  shows "i \<le> 16 \<and> json_peer J ips macs i (the (json_string_value J (json_object_get J ips (dec_string i)))) (sc_mac_map cfg' ! i) \<and>
    sc_ip_map cfg' ! i = copy_ip (the (json_string_value J (json_object_get J ips (dec_string i)))) \<and>
    (\<forall>j. j \<noteq> i \<longrightarrow> sc_ip_map cfg' ! j = sc_ip_map cfg ! j \<and> sc_mac_map cfg' ! j = sc_mac_map cfg ! j) \<and>
    sc_node_num cfg' = sc_node_num cfg"
  using assms by (auto simp: sense_load_peer_def json_peer_def sense_parse_mac_def sense_config_ok_def sense_sizes Let_def
      split: if_splits option.splits)

lemma load_peers_true:
  assumes "sense_load_peers J ips macs is cfg = Some (True, cfg')" "sense_config_ok cfg" "distinct is"
  shows "(\<forall>i\<in>set is. i \<le> 16 \<and> (\<exists>ip. json_peer J ips macs i ip (sc_mac_map cfg' ! i) \<and> sc_ip_map cfg' ! i = copy_ip ip)) \<and>
    (\<forall>j. j \<notin> set is \<longrightarrow> sc_ip_map cfg' ! j = sc_ip_map cfg ! j \<and> sc_mac_map cfg' ! j = sc_mac_map cfg ! j) \<and>
    sc_node_num cfg' = sc_node_num cfg"
  using assms
proof (induction "is" arbitrary: cfg)
  case (Cons i "is")
  then obtain c where c: "sense_load_peer J ips macs i cfg = Some (True, c)" "sense_load_peers J ips macs is c = Some (True, cfg')"
    by (auto split: option.splits bool.splits)
  note i = load_peer_true [OF c(1) Cons.prems(2)] and ih = Cons.IH [OF c(2) load_peer_ok [OF c(1) Cons.prems(2)]]
  show ?case
    using i ih Cons.prems(3) by auto
qed simp

lemma c_string_copy: "takeWhile (\<lambda>c. c \<noteq> CHR 0x00) (copy_ip s) = takeWhile (\<lambda>c. c \<noteq> CHR 0x00) (take 15 s)"
proof -
  have "takeWhile (\<lambda>c. c \<noteq> CHR 0x00) (xs @ replicate n (CHR 0x00) @ [CHR 0x00]) = takeWhile (\<lambda>c. c \<noteq> CHR 0x00) xs" for xs n
    by (induction xs) (cases n; simp)+
  then show ?thesis by (simp add: copy_ip_def strncpy_def)
qed

lemma load_config_cases:
  assumes "sense_load_config J file cfg = Some (0, cfg')"
  obtains js c1 c2 where "json_load_file J file = Some js" "sense_config_ok c1"
    "sense_load_peers J (json_object_get J (Some js) ''ip_map'') (json_object_get J (Some js) ''mac_map'')
       [1..<unat (sc_node_num c1) + 1] c1 = Some (True, c2)"
    "sense_load_collector J (json_object_get J (Some js) ''collector'') c2 = Some cfg'"
proof -
  obtain js where js: "json_load_file J file = Some js" using assms by (auto simp: sense_load_config_def split: option.splits)
  let ?get = "json_object_get J (Some js)"
  let ?c = "zero_config\<lparr>collector_port := SENSE_PORT, sc_node_id := word_of_int (json_integer_value J (?get ''node_id'')),
    sc_node_num := word_of_int (json_integer_value J (?get ''node_num'')),
    sc_port_id := word_of_int (json_integer_value J (?get ''port_id''))\<rparr>"
  have "sense_load_maps J (Some js) ?c = Some (0, cfg')"
    using assms by (simp add: sense_load_config_def Let_def js split: if_splits)
  then obtain c2 where "sense_load_peers J (?get ''ip_map'') (?get ''mac_map'') [1..<unat (sc_node_num ?c) + 1] ?c = Some (True, c2)"
      "sense_load_collector J (?get ''collector'') c2 = Some cfg'"
    unfolding sense_load_maps_def by (auto simp: Let_def simp del: upt_Suc split: option.splits if_splits bool.splits)
  then show thesis using that [OF js zero_config_ok] by blast
qed


text \<open>A JSON reader for the witnesses: the file says \<open>n\<close> for every number and has the same strings for every node.\<close>

definition demo_json :: "int \<Rightarrow> nat jansson_types" where
  "demo_json n = \<lparr>json_load_file = (\<lambda>_. Some 0),
     json_object_get = (\<lambda>v k. if v = Some 0 then (if k = ''ip_map'' \<or> k = ''mac_map'' then Some 1 else if k = ''collector'' then None else Some 2)
        else if v = Some 1 then Some 3 else None),
     json_integer_value = (\<lambda>v. if v = Some 2 then n else 0),
     json_string_value = (\<lambda>v. if v = Some 3 then Some (print_mac [2, 0, 0, 0, 0, 1]) else None), json_is_true = (\<lambda>_. False),
     json_is_integer = (\<lambda>v. v = Some 2), json_is_object = (\<lambda>v. v = Some 0 \<or> v = Some 1), json_is_string = (\<lambda>v. v = Some 3)\<rparr>"

lemma scan_x_hex2:
  "rest = [] \<or> (\<exists>cs. rest = CHR '':'' # cs) \<Longrightarrow> scan_x (hex2 b @ rest) = Some (ucast (ucast b :: u64), rest)"
  by (simp add: scan_x_def scan_ulong_hex2)

lemma demo_mac: "\<exists>b. scan_mac 6 0 (print_mac [2, 0, 0, 0, 0, 1]) = Some b"
  by (simp add: numeral_eq_Suc scan_x_hex2 scan_x_hex2 [where rest = "[]", simplified])

lemma demo_load: "\<exists>cfg'. sense_load_config (demo_json 1) ''config.json'' zero_config = Some (0, cfg') \<and> sc_node_num cfg' = 1"
  using demo_mac
  by (auto simp: sense_load_config_def demo_json_def sense_load_maps_def sense_load_peer_def Let_def sense_parse_mac_def sense_sizes
      sense_load_collector_def zero_config_def)


section \<open>Too many nodes\<close>

lemma load_peer_json:
  assumes "json_peer J ips macs i ip mac" "i \<le> 16"
  shows "\<exists>cfg'. sense_load_peer J ips macs i cfg = Some (True, cfg')"
  using assms by (auto simp: sense_load_peer_def json_peer_def sense_parse_mac_def sense_sizes Let_def)

lemma load_peers_overrun:
  assumes "\<forall>i\<in>set is. i \<le> 16 \<longrightarrow> (\<exists>ip mac. json_peer J ips macs i ip mac)" "k \<in> set is" "k > 16"
    "\<forall>i\<in>set is. i > 16 \<longrightarrow> (\<exists>ip mac. json_peer J ips macs i ip mac)"
  shows "sense_load_peers J ips macs is cfg = None"
  using assms
proof (induction "is" arbitrary: cfg)
  case (Cons i "is")
  show ?case
  proof (cases "i \<le> 16")
    case True
    then obtain cfg' where "sense_load_peer J ips macs i cfg = Some (True, cfg')"
      using load_peer_json Cons.prems(1) by fastforce
    then show ?thesis using Cons.IH [of cfg'] Cons.prems True by auto
  next
    case False
    then show ?thesis using Cons.prems(4) by (auto simp: sense_load_peer_def json_peer_def sense_sizes Let_def)
  qed
qed simp

text \<open>The node number is not checked against the size of the tables. When the file has a valid entry for each of
  its nodes and says there are more than 16, the loader stores the address of the 17th outside of
  \<^verbatim>\<open>ip_map\<close>.\<close>

theorem sense_load_config_overruns:
  fixes J :: "'j jansson_types"
  assumes js: "json_load_file J file = Some js"
  defines "get \<equiv> json_object_get J (Some js)"
  assumes ints: "json_is_integer J (get ''node_id'')" "json_is_integer J (get ''node_num'')" "json_is_integer J (get ''port_id'')"
    and objs: "json_is_object J (get ''ip_map'')" "json_is_object J (get ''mac_map'')"
    and many: "unat (word_of_int (json_integer_value J (get ''node_num'')) :: u32) > 16"
    and all: "\<And>i. \<exists>ip mac. json_peer J (get ''ip_map'') (get ''mac_map'') i ip mac"
  shows "sense_load_config J file cfg = None"
proof -
  let ?n = "unat (word_of_int (json_integer_value J (get ''node_num'')) :: u32)"
  have "sense_load_peers J (get ''ip_map'') (get ''mac_map'') [1..<?n + 1] c = None" for c
    using load_peers_overrun [of "[1..<?n + 1]" J "get ''ip_map''" "get ''mac_map''" ?n c] all many by (simp del: upt_Suc)
  then show ?thesis
    using ints objs by (simp add: sense_load_config_def sense_load_maps_def js flip: get_def del: upt_Suc)
qed

theorem sense_load_config_overruns_witness:
  "sense_load_config (demo_json 17) ''config.json'' zero_config = None"
  by (rule sense_load_config_overruns [where js = 0])
    (use demo_mac in \<open>auto simp: demo_json_def json_peer_def simp del: print_mac.simps\<close>)

end
