(* ===== verification/RteEther.thy ===== *)
theory RteEther
  imports RteMbuf RteRandom "HOL-Library.Char_ord"
begin

text \<open>
  Ethernet addresses and VLAN tags, \<^verbatim>\<open>lib/net/rte_ether.c\<close> and \<^verbatim>\<open>rte_ether.h\<close>. An address is the list of
  its six bytes. A C string is the list of its characters without the NUL; reading at its end gives
  NUL, and the scanners below never read past that.
\<close>

section \<open>Predicates and random addresses\<close>

type_synonym rte_ether_addr = "u8 list"

definition RTE_ETHER_ADDR_LEN :: nat where "RTE_ETHER_ADDR_LEN = 6"
definition RTE_ETHER_LOCAL_ADMIN_ADDR :: u8 where "RTE_ETHER_LOCAL_ADMIN_ADDR = 0x02"
definition RTE_ETHER_GROUP_ADDR :: u8 where "RTE_ETHER_GROUP_ADDR = 0x01"

definition rte_is_same_ether_addr :: "rte_ether_addr \<Rightarrow> rte_ether_addr \<Rightarrow> bool" where
  "rte_is_same_ether_addr ea1 ea2 \<longleftrightarrow>
     ((ld16 ea1 0 XOR ld16 ea2 0) OR (ld16 ea1 2 XOR ld16 ea2 2) OR (ld16 ea1 4 XOR ld16 ea2 4)) = 0"

definition rte_is_zero_ether_addr :: "rte_ether_addr \<Rightarrow> bool" where
  "rte_is_zero_ether_addr ea \<longleftrightarrow> (ld16 ea 0 OR ld16 ea 2 OR ld16 ea 4) = 0"

definition rte_is_unicast_ether_addr :: "rte_ether_addr \<Rightarrow> bool" where
  "rte_is_unicast_ether_addr ea \<longleftrightarrow> (ea ! 0) AND RTE_ETHER_GROUP_ADDR = 0"

definition rte_is_multicast_ether_addr :: "rte_ether_addr \<Rightarrow> bool" where
  "rte_is_multicast_ether_addr ea \<longleftrightarrow> (ea ! 0) AND RTE_ETHER_GROUP_ADDR \<noteq> 0"

definition rte_is_broadcast_ether_addr :: "rte_ether_addr \<Rightarrow> bool" where
  "rte_is_broadcast_ether_addr ea \<longleftrightarrow> (ld16 ea 0 AND ld16 ea 2 AND ld16 ea 4) = 0xFFFF"

definition rte_is_universal_ether_addr :: "rte_ether_addr \<Rightarrow> bool" where
  "rte_is_universal_ether_addr ea \<longleftrightarrow> (ea ! 0) AND RTE_ETHER_LOCAL_ADMIN_ADDR = 0"

definition rte_is_local_admin_ether_addr :: "rte_ether_addr \<Rightarrow> bool" where
  "rte_is_local_admin_ether_addr ea \<longleftrightarrow> (ea ! 0) AND RTE_ETHER_LOCAL_ADMIN_ADDR \<noteq> 0"

definition rte_is_valid_assigned_ether_addr :: "rte_ether_addr \<Rightarrow> bool" where
  "rte_is_valid_assigned_ether_addr ea \<longleftrightarrow> rte_is_unicast_ether_addr ea \<and> \<not> rte_is_zero_ether_addr ea"

text \<open>The six low bytes of a random value, the multicast bit cleared, the local bit set. \<open>rand\<close> is the
  value that \<^verbatim>\<open>rte_rand\<close> returned.\<close>

definition rte_eth_random_addr :: "u64 \<Rightarrow> rte_ether_addr" where
  "rte_eth_random_addr rand =
     (let addr = map (\<lambda>i. ucast (drop_bit (8 * i) rand)) [0..<RTE_ETHER_ADDR_LEN];
          addr = addr[0 := addr ! 0 AND NOT RTE_ETHER_GROUP_ADDR];
          addr = addr[0 := addr ! 0 OR RTE_ETHER_LOCAL_ADMIN_ADDR]
      in addr)"

section \<open>Formatting\<close>

text \<open>\<^verbatim>\<open>snprintf\<close> with \<^verbatim>\<open>"%02X:%02X:%02X:%02X:%02X:%02X"\<close>: the string written, cut to \<open>sz - 1\<close>
  characters; nothing is written when \<open>sz\<close> is 0.\<close>

definition HEX_digit :: "nat \<Rightarrow> char" where
  "HEX_digit n = char_of (if n < 10 then 48 + n else 55 + n)"

definition HEX2 :: "u8 \<Rightarrow> string" where
  "HEX2 b = [HEX_digit (unat b div 16), HEX_digit (unat b mod 16)]"

fun join_with :: "char \<Rightarrow> string list \<Rightarrow> string" where
  "join_with c [] = []"
| "join_with c [s] = s"
| "join_with c (s # t # ts) = s @ c # join_with c (t # ts)"

definition rte_ether_format_addr :: "u16 \<Rightarrow> rte_ether_addr \<Rightarrow> string option" where
  "rte_ether_format_addr sz ea =
     (if sz = 0 then None
      else Some (take (unat sz - 1) (join_with (CHR '':'') (map HEX2 (take RTE_ETHER_ADDR_LEN ea)))))"

section \<open>Parsing\<close>

definition chr_at :: "string \<Rightarrow> char" where
  "chr_at s = (case s of [] \<Rightarrow> CHR 0x00 | c # _ \<Rightarrow> c)"

text \<open>\<^verbatim>\<open>char\<close> is compared with ASCII constants; the result is the \<^verbatim>\<open>int8_t\<close>.\<close>

definition get_xdigit :: "char \<Rightarrow> int" where
  "get_xdigit ch =
     (if CHR ''0'' \<le> ch \<and> ch \<le> CHR ''9'' then of_char ch - 48
      else if CHR ''a'' \<le> ch \<and> ch \<le> CHR ''f'' then of_char ch - 97 + 10
      else if CHR ''A'' \<le> ch \<and> ch \<le> CHR ''F'' then of_char ch - 65 + 10
      else - 1)"

text \<open>The loop of \<^verbatim>\<open>get_ether_addr6\<close> from byte \<open>i\<close> on; \<open>n\<close> bytes are left.\<close>

fun get_ether_addr6_from :: "nat \<Rightarrow> nat \<Rightarrow> string \<Rightarrow> rte_ether_addr \<Rightarrow> char \<Rightarrow> bool \<times> rte_ether_addr" where
  "get_ether_addr6_from 0 i s ea sep = (s = [], ea)"
| "get_ether_addr6_from (Suc n) i s ea sep =
     (let x = get_xdigit (chr_at s); s = tl s in
      if x < 0 then (False, ea)
      else let ea = ea[i := of_int x] in
        if chr_at s \<noteq> sep \<and> chr_at s \<noteq> CHR 0x00 then
          let y = get_xdigit (chr_at s); s = tl s in
          if y < 0 then (False, ea)
          else let ea = ea[i := push_bit 4 (ea ! i) OR of_int y] in
            if i < RTE_ETHER_ADDR_LEN - 1 then
              if chr_at s \<noteq> sep then (False, ea) else get_ether_addr6_from n (i + 1) (tl s) ea sep
            else get_ether_addr6_from n (i + 1) s ea sep
        else if i < RTE_ETHER_ADDR_LEN - 1 then
          if chr_at s \<noteq> sep then (False, ea) else get_ether_addr6_from n (i + 1) (tl s) ea sep
        else get_ether_addr6_from n (i + 1) s ea sep)"

definition get_ether_addr6 :: "string \<Rightarrow> rte_ether_addr \<Rightarrow> char \<Rightarrow> bool \<times> rte_ether_addr" where
  "get_ether_addr6 s ea sep = get_ether_addr6_from RTE_ETHER_ADDR_LEN 0 s ea sep"

text \<open>Four hexadecimal digits.\<close>

fun get_hex4 :: "nat \<Rightarrow> string \<Rightarrow> u16 \<Rightarrow> (u16 \<times> string) option" where
  "get_hex4 0 s w = Some (w, s)"
| "get_hex4 (Suc j) s w =
     (let x = get_xdigit (chr_at s) in
      if x < 0 then None else get_hex4 j (tl s) (push_bit 4 w OR of_int x))"

fun get_ether_addr3_from :: "nat \<Rightarrow> nat \<Rightarrow> string \<Rightarrow> rte_ether_addr \<Rightarrow> char \<Rightarrow> bool \<times> rte_ether_addr" where
  "get_ether_addr3_from 0 i s ea sep = (s = [], ea)"
| "get_ether_addr3_from (Suc n) i s ea sep =
     (case get_hex4 4 s 0 of
        None \<Rightarrow> (False, ea)
      | Some (w, s) \<Rightarrow>
          let ea = ea[i := ucast (drop_bit 8 w), i + 1 := ucast (w AND 0xff)] in
          if i < RTE_ETHER_ADDR_LEN - 2 then
            if chr_at s \<noteq> sep then (False, ea) else get_ether_addr3_from n (i + 2) (tl s) ea sep
          else get_ether_addr3_from n (i + 2) s ea sep)"

definition get_ether_addr3 :: "string \<Rightarrow> rte_ether_addr \<Rightarrow> char \<Rightarrow> bool \<times> rte_ether_addr" where
  "get_ether_addr3 s ea sep = get_ether_addr3_from 3 0 s ea sep"

text \<open>The first separator in the string, and how often it occurs.\<close>

definition get_ether_sep :: "string \<Rightarrow> nat \<times> char" where
  "get_ether_sep s =
     (case dropWhile (\<lambda>c. c \<notin> set ''-:.'') s of
        [] \<Rightarrow> (0, CHR 0x00)
      | sep # cs \<Rightarrow> (1 + length (filter (\<lambda>c. c = sep) cs), sep))"

text \<open>The result is 0, or \<open>- 1\<close> with \<^verbatim>\<open>rte_errno\<close> set to \<^verbatim>\<open>EINVAL\<close>; a failed scan leaves the address half written.\<close>

definition rte_ether_unformat_addr :: "string \<Rightarrow> rte_ether_addr \<Rightarrow> int \<times> rte_ether_addr" where
  "rte_ether_unformat_addr s ea =
     (let (count, sep) = get_ether_sep s;
          (ok, ea) = (if count = 5 then get_ether_addr6 s ea sep
                      else if count = 2 then get_ether_addr3 s ea sep
                      else (False, ea))
      in (if ok then 0 else - 1, ea))"

section \<open>VLAN tags\<close>

definition RTE_ETHER_TYPE_VLAN :: u16 where "RTE_ETHER_TYPE_VLAN = 0x8100"
definition RTE_MBUF_F_RX_VLAN :: u64 where "RTE_MBUF_F_RX_VLAN = push_bit 0 1"
definition RTE_MBUF_F_RX_VLAN_STRIPPED :: u64 where "RTE_MBUF_F_RX_VLAN_STRIPPED = push_bit 6 1"
definition RTE_MBUF_F_TX_TUNNEL_MASK :: u64 where "RTE_MBUF_F_TX_TUNNEL_MASK = push_bit 45 0xF"
definition RTE_MBUF_F_TX_VLAN :: u64 where "RTE_MBUF_F_TX_VLAN = push_bit 57 1"

definition RTE_MBUF_DIRECT :: "mbuf \<Rightarrow> bool" where
  "RTE_MBUF_DIRECT m \<longleftrightarrow> mb_flags m AND (RTE_MBUF_F_INDIRECT OR RTE_MBUF_F_EXTERNAL) = 0"

text \<open>Both functions look at the head segment only. \<open>None\<close>: a read past the buffer, or the copy to the
  null pointer that \<^verbatim>\<open>rte_pktmbuf_adj\<close> returns for a packet of less than four bytes.\<close>

fun rte_vlan_strip :: "pkt \<Rightarrow> (int \<times> pkt) option" where
  "rte_vlan_strip [] = None"
| "rte_vlan_strip (m # ms) =
     (let eh = unat (mb_off m); b = mb_buf m in
      if length b < eh + 16 then None
      else if ld16 b (eh + 12) \<noteq> bswap16 RTE_ETHER_TYPE_VLAN then Some (- 1, m # ms)
      else let m = m\<lparr>mb_flags := mb_flags m OR (RTE_MBUF_F_RX_VLAN OR RTE_MBUF_F_RX_VLAN_STRIPPED),
                     mb_vlan_tci := bswap16 (ld16 b (eh + 14))\<rparr>
           in (case rte_pktmbuf_adj (m # ms) 4 of
                 Some (Some (_, d), q) \<Rightarrow>
                   Some (0, upd_head (\<lambda>m. m\<lparr>mb_buf := st_bytes d (take 12 (drop eh b)) b\<rparr>) q)
               | _ \<Rightarrow> None))"

fun rte_vlan_insert :: "pkt \<Rightarrow> (int \<times> pkt) option" where
  "rte_vlan_insert [] = None"
| "rte_vlan_insert (m # ms) =
     (if \<not> RTE_MBUF_DIRECT m \<or> mb_refcnt m > 1 then Some (- EINVAL, m # ms)
      else if mb_len m < 12 then Some (- EINVAL, m # ms)
      else case rte_pktmbuf_prepend (m # ms) 4 of
          None \<Rightarrow> None
        | Some (None, q) \<Rightarrow> Some (- ENOSPC, q)
        | Some (Some (_, nh), q) \<Rightarrow>
            let b = mb_buf m;
                b = st_bytes nh (take 12 (drop (unat (mb_off m)) b)) b;
                b = st16 (nh + 12) (bswap16 RTE_ETHER_TYPE_VLAN) b;
                b = st16 (nh + 14) (bswap16 (mb_vlan_tci m)) b;
                fl = mb_flags m AND NOT (RTE_MBUF_F_RX_VLAN_STRIPPED OR RTE_MBUF_F_TX_VLAN)
            in Some (0, upd_head (\<lambda>m.
                 if fl AND RTE_MBUF_F_TX_TUNNEL_MASK \<noteq> 0
                 then m\<lparr>mb_buf := b, mb_flags := fl, mb_outer_l2_len := mb_outer_l2_len m + 4\<rparr>
                 else m\<lparr>mb_buf := b, mb_flags := fl, mb_l2_len := mb_l2_len m + 4\<rparr>) q))"

section \<open>Predicates\<close>

lemma base256_eq:
  assumes "(x :: nat) \<le> 255" "y \<le> 255" and e: "x + 256 * u = y + 256 * v"
  shows "x = y \<and> u = v"
proof -
  have "(x + 256 * u) mod 256 = x" "(y + 256 * v) mod 256 = y" using assms(1,2) by simp_all
  then have "x = y" using e by simp
  then show ?thesis using e by simp
qed

lemma ld16_eq_iff: "ld16 a i = ld16 b j \<longleftrightarrow> a ! i = b ! j \<and> a ! (i + 1) = b ! (j + 1)"
proof
  assume "ld16 a i = ld16 b j"
  then have e: "unat (a ! i) + 256 * unat (a ! (i + 1)) = unat (b ! j) + 256 * unat (b ! (j + 1))"
    using unat_ld16 [of a i] unat_ld16 [of b j] by simp
  have "unat (a ! i) = unat (b ! j) \<and> unat (a ! (i + 1)) = unat (b ! (j + 1))"
    by (rule base256_eq [OF unat_u8_le unat_u8_le e])
  then show "a ! i = b ! j \<and> a ! (i + 1) = b ! (j + 1)" by (simp add: word_unat_eq_iff)
qed (simp add: ld16_def)

lemma six_bytes:
  assumes "length (ea :: u8 list) = 6"
  obtains a b c d e f where "ea = [a, b, c, d, e, f]"
  using assms by (auto simp: length_Suc_conv numeral_eq_Suc)

lemma same_ether_addr_iff:
  assumes "length a = 6" "length b = 6"
  shows "rte_is_same_ether_addr a b \<longleftrightarrow> a = b"
proof -
  have x: "(u XOR v) = 0 \<longleftrightarrow> u = v" for u v :: u16
  proof
    assume z: "u XOR v = 0"
    have "u = (u XOR v) XOR v" by (simp add: xor.assoc)
    then show "u = v" using z by simp
  qed simp
  have "rte_is_same_ether_addr a b \<longleftrightarrow> ld16 a 0 = ld16 b 0 \<and> ld16 a 2 = ld16 b 2 \<and> ld16 a 4 = ld16 b 4"
    by (simp add: rte_is_same_ether_addr_def or_eq_0_iff x)
  also have "\<dots> \<longleftrightarrow> a = b"
    using assms by (elim six_bytes) (auto simp: ld16_eq_iff numeral_eq_Suc)
  finally show ?thesis .
qed

lemma random_addr_bytes:
  obtains b bs where "rte_eth_random_addr r = ((b AND NOT 1) OR 2) # bs" "length bs = 5"
  by (simp add: rte_eth_random_addr_def Let_def RTE_ETHER_ADDR_LEN_def RTE_ETHER_GROUP_ADDR_def
      RTE_ETHER_LOCAL_ADMIN_ADDR_def numeral_eq_Suc)

lemma random_addr_valid:
  "length (rte_eth_random_addr r) = 6 \<and> rte_is_valid_assigned_ether_addr (rte_eth_random_addr r) \<and>
   rte_is_local_admin_ether_addr (rte_eth_random_addr r) \<and> \<not> rte_is_multicast_ether_addr (rte_eth_random_addr r)"
proof -
  obtain b bs where r: "rte_eth_random_addr r = ((b AND NOT 1) OR 2) # bs" "length bs = 5" by (rule random_addr_bytes)
  let ?b = "(b AND NOT 1) OR 2 :: u8"
  have u: "?b AND 1 = 0" by (rule bit_word_eqI) (auto simp: bit_simps)
  have l: "?b AND 2 = 2"
  proof (rule bit_word_eqI)
    fix n assume "n < LENGTH(8)"
    show "bit (?b AND 2) n = bit (2 :: u8) n" by (auto simp: bit_simps)
  qed
  have nz: "?b \<noteq> 0"
  proof
    assume z: "?b = 0"
    have "(2 :: u8) = 0" using l unfolding z by simp
    then show False by simp
  qed
  have "ld16 (rte_eth_random_addr r) 0 \<noteq> 0"
  proof
    assume "ld16 (rte_eth_random_addr r) 0 = 0"
    then have "unat ?b = 0" using unat_ld16 [of "rte_eth_random_addr r" 0] by (simp add: r)
    with nz show False by (simp add: unat_eq_zero)
  qed
  then show ?thesis
    using r u l by (simp add: rte_is_valid_assigned_ether_addr_def rte_is_unicast_ether_addr_def rte_is_zero_ether_addr_def
        rte_is_local_admin_ether_addr_def rte_is_multicast_ether_addr_def RTE_ETHER_GROUP_ADDR_def
        RTE_ETHER_LOCAL_ADMIN_ADDR_def or_eq_0_iff)
qed

section \<open>Reading back a formatted address\<close>

lemma HEX_digits:
  assumes "n < 16"
  shows "get_xdigit (HEX_digit n) = int n" "HEX_digit n \<notin> set ''-:.''" "HEX_digit n \<noteq> CHR 0x00"
proof -
  have "\<forall>n\<in>set [0..<16]. get_xdigit (HEX_digit n) = int n \<and> HEX_digit n \<notin> set ''-:.'' \<and> HEX_digit n \<noteq> CHR 0x00"
    by code_simp
  then show "get_xdigit (HEX_digit n) = int n" "HEX_digit n \<notin> set ''-:.''" "HEX_digit n \<noteq> CHR 0x00"
    using assms by auto
qed

lemma nibbles: "unat (b :: u8) div 16 < 16" "unat b mod 16 < 16"
  "push_bit 4 (word_of_nat (unat b div 16)) OR word_of_nat (unat b mod 16) = b"
proof -
  show "unat b div 16 < 16" "unat b mod 16 < 16" using unat_u8_le [of b] by (simp_all add: less_mult_imp_div_less)
  have "unat b div 16 < 256" using unat_u8_le [of b] by linarith
  then have "word_of_nat (unat b div 16) = drop_bit 4 b" "word_of_nat (unat b mod 16) = take_bit 4 b"
    by (simp_all add: word_unat_eq_iff unat_of_nat drop_bit_eq_div take_bit_eq_mod unat_div unat_mod)
  moreover have "push_bit 4 (drop_bit 4 b) OR take_bit 4 b = b" by (rule bit_word_eqI) (auto simp: bit_simps)
  ultimately show "push_bit 4 (word_of_nat (unat b div 16)) OR word_of_nat (unat b mod 16) = b" by simp
qed

lemma addr6_step:
  assumes "i < length ea" "i < 5"
  shows "get_ether_addr6_from (Suc n) i (HEX2 b @ CHR '':'' # rest) ea (CHR '':'') =
     get_ether_addr6_from n (i + 1) rest (ea[i := b]) (CHR '':'')"
  using assms HEX_digits [OF nibbles(1) [of b]] HEX_digits [OF nibbles(2) [of b]] nibbles(3) [of b]
  by (simp add: HEX2_def chr_at_def Let_def RTE_ETHER_ADDR_LEN_def)

lemma addr6_last:
  assumes "i = 5" "i < length ea"
  shows "get_ether_addr6_from (Suc 0) i (HEX2 b) ea (CHR '':'') = (True, ea[i := b])"
  using assms HEX_digits [OF nibbles(1) [of b]] HEX_digits [OF nibbles(2) [of b]] nibbles(3) [of b]
  by (simp add: HEX2_def chr_at_def Let_def RTE_ETHER_ADDR_LEN_def)

lemma sep_of_digits:
  "dropWhile (\<lambda>c. c \<notin> set ''-:.'') (HEX2 b @ CHR '':'' # s) = CHR '':'' # s"
  "length (filter (\<lambda>c. c = CHR '':'') (HEX2 b @ s)) = length (filter (\<lambda>c. c = CHR '':'') s)"
  using HEX_digits(2) [OF nibbles(1) [of b]] HEX_digits(2) [OF nibbles(2) [of b]] by (auto simp: HEX2_def)

lemma unformat_format:
  assumes "length ea = 6" "length old = 6"
  shows "rte_ether_unformat_addr (join_with (CHR '':'') (map HEX2 ea)) old = (0, ea)"
proof -
  obtain a b c d e f where ea: "ea = [a, b, c, d, e, f]" using six_bytes [OF assms(1)] .
  obtain a' b' c' d' e' f' where old: "old = [a', b', c', d', e', f']" using six_bytes [OF assms(2)] .
  have f: "length (filter (\<lambda>c. c = CHR '':'') (HEX2 f)) = 0" using sep_of_digits(2) [of f "[]"] by simp
  have sep: "get_ether_sep (join_with (CHR '':'') (map HEX2 ea)) = (5, CHR '':'')"
    using f by (simp add: ea get_ether_sep_def sep_of_digits(1) [simplified] sep_of_digits(2) del: filter_append)
  have g6: "get_ether_addr6_from 6 0 s o' (CHR '':'') = get_ether_addr6_from (Suc (Suc (Suc (Suc (Suc (Suc 0)))))) 0 s o' (CHR '':'')" for s o'
    by (simp add: numeral_eq_Suc)
  have "get_ether_addr6 (join_with (CHR '':'') (map HEX2 ea)) old (CHR '':'') = (True, ea)"
    unfolding get_ether_addr6_def RTE_ETHER_ADDR_LEN_def g6 ea list.map join_with.simps
    by (simp add: old addr6_step addr6_last del: get_ether_addr6_from.simps)
  then show ?thesis by (simp add: rte_ether_unformat_addr_def sep)
qed

section \<open>Tagging and untagging\<close>

lemma st16_st_bytes: "off + 1 < length m \<Longrightarrow> st16 off v m = st_bytes off [ucast v, ucast (drop_bit 8 v)] m"
  by (rule nth_equalityI) auto

text \<open>A store into the data part of a segment.\<close>

lemma seg_data_store:
  assumes "seg_ok m" "k + length bs \<le> unat (mb_len m)"
  shows "seg_data (m\<lparr>mb_buf := st_bytes (unat (mb_off m) + k) bs (mb_buf m)\<rparr>) = st_bytes k bs (seg_data m)"
    "seg_ok (m\<lparr>mb_buf := st_bytes (unat (mb_off m) + k) bs (mb_buf m)\<rparr>)"
proof -
  let ?o = "unat (mb_off m)"
  have fit: "?o + k + length bs \<le> length (mb_buf m)" using assms unfolding seg_ok_def by linarith
  then have len: "length (st_bytes (?o + k) bs (mb_buf m)) = length (mb_buf m)" by simp
  then show s: "seg_ok (m\<lparr>mb_buf := st_bytes (?o + k) bs (mb_buf m)\<rparr>)" using assms(1) by (simp add: seg_ok_def)
  show "seg_data (m\<lparr>mb_buf := st_bytes (?o + k) bs (mb_buf m)\<rparr>) = st_bytes k bs (seg_data m)"
  proof (rule nth_equalityI)
    show "length (seg_data (m\<lparr>mb_buf := st_bytes (?o + k) bs (mb_buf m)\<rparr>)) = length (st_bytes k bs (seg_data m))"
      using assms s by simp
  next
    fix i assume "i < length (seg_data (m\<lparr>mb_buf := st_bytes (?o + k) bs (mb_buf m)\<rparr>))"
    then have i: "i < unat (mb_len m)" using s by simp
    then have "?o + i < length (mb_buf m)" using assms unfolding seg_ok_def by linarith
    note i = i this
    have l: "length (seg_data m) = unat (mb_len m)" using assms(1) by simp
    show "seg_data (m\<lparr>mb_buf := st_bytes (?o + k) bs (mb_buf m)\<rparr>) ! i = st_bytes k bs (seg_data m) ! i"
      using i fit l assms(2) by (auto simp: seg_data_def)
  qed
qed

definition vlan_tag :: "u16 \<Rightarrow> u8 list" where
  "vlan_tag tci = [0x81, 0x00, ucast (drop_bit 8 tci), ucast tci]"

lemma bswap16_bytes:
  "ucast (bswap16 v) = (ucast (drop_bit 8 v) :: u8)" "ucast (drop_bit 8 (bswap16 v)) = (ucast v :: u8)"
  by (rule bit_word_eqI; auto simp: bswap16_def bit_simps)+

lemma bswap16_bswap16 [simp]: "bswap16 (bswap16 v) = v"
  by (rule bit_word_eqI) (auto simp: bswap16_def bit_simps)

text \<open>The data of the head after the address copy and the two stores of \<^verbatim>\<open>rte_vlan_insert\<close>.\<close>

lemma tag_stores:
  assumes "length x = 4" "12 \<le> length d"
  shows "st_bytes 14 (drop 2 (vlan_tag tci)) (st_bytes 12 (take 2 (vlan_tag tci)) (st_bytes 0 (take 12 d) (x @ d)))
    = take 12 d @ vlan_tag tci @ drop 12 d"
  using assms by (simp add: st_bytes_def vlan_tag_def)

lemma take12_seg: "seg_ok m \<Longrightarrow> 12 \<le> unat (mb_len m) \<Longrightarrow> take 12 (drop (unat (mb_off m)) (mb_buf m)) = take 12 (seg_data m)"
  by (simp add: seg_data_def min_def)

lemma vlan_insert_spec:
  assumes ok: "pkt_ok p" and d: "RTE_MBUF_DIRECT (hd p)" "\<not> mb_refcnt (hd p) > 1"
    and n: "12 \<le> unat (mb_len (hd p))" "4 \<le> rte_pktmbuf_headroom (hd p)" "length (payload p) + 4 < 2 ^ 32"
  shows "\<exists>q. rte_vlan_insert p = Some (0, q) \<and> pkt_ok q \<and> mb_vlan_tci (hd q) = mb_vlan_tci (hd p) \<and>
     seg_data (hd q) = take 12 (seg_data (hd p)) @ vlan_tag (mb_vlan_tci (hd p)) @ drop 12 (seg_data (hd p)) \<and> tl q = tl p"
proof -
  obtain m ms where p: "p = m # ms" using ok by (cases p) (auto simp: pkt_ok_def)
  have sm: "seg_ok m" using ok by (simp add: p pkt_ok_def)
  have "length (payload p) + unat (4 :: u16) < 2 ^ 32" using n(3) by simp
  from prepend_spec [OF ok n(2) this] obtain q x where
    q: "rte_pktmbuf_prepend p 4 = Some (Some (0, unat (mb_off (hd q))), q)" "pkt_ok q" "payload q = x @ payload p"
      "length x = unat (4 :: u16)" "tl q = tl p" "mb_buf (hd q) = mb_buf (hd p)" by blast
  obtain h where h: "q = h # ms" using q(2,5) by (cases q) (auto simp: pkt_ok_def p)
  have sh: "seg_ok h" using q(2) by (simp add: h pkt_ok_def)
  have sd: "seg_data h = x @ seg_data m" using q(3) by (simp add: h p)
  have lh: "unat (mb_len h) = 4 + unat (mb_len m)"
    using arg_cong [OF sd, of length] sh sm q(4) by simp
  have hb: "mb_buf h = mb_buf m" using q(6) by (simp add: h p)
  have hv: "mb_vlan_tci h = mb_vlan_tci m" using q(1) n(2) by (auto simp: p h Let_def split: if_splits)
  let ?nh = "unat (mb_off h)" and ?tci = "mb_vlan_tci m"
  let ?b0 = "st_bytes ?nh (take 12 (seg_data m)) (mb_buf h)"
  let ?b1 = "st16 (?nh + 12) (bswap16 RTE_ETHER_TYPE_VLAN) ?b0"
  let ?b2 = "st16 (?nh + 14) (bswap16 ?tci) ?b1"
  have fit: "?nh + 16 \<le> length (mb_buf h)" using sh lh n(1) unfolding seg_ok_def by (simp add: p)
  have l12: "length (take 12 (seg_data m)) = 12" using sm n(1) by (simp add: p)
  have l0: "length ?b0 = length (mb_buf h)" using fit l12 by simp
  have v1: "?b1 = st_bytes (?nh + 12) (take 2 (vlan_tag ?tci)) ?b0"
    by (subst st16_st_bytes) (use fit l0 in \<open>simp_all add: RTE_ETHER_TYPE_VLAN_def vlan_tag_def bswap16_def\<close>)
  have v2: "?b2 = st_bytes (?nh + 14) (drop 2 (vlan_tag ?tci)) ?b1"
    by (subst st16_st_bytes) (use fit l0 in \<open>simp_all add: bswap16_bytes vlan_tag_def\<close>)
  note S0 = seg_data_store [of h 0 "take 12 (seg_data m)", OF sh]
  let ?h0 = "h\<lparr>mb_buf := ?b0\<rparr>" and ?h1 = "h\<lparr>mb_buf := ?b1\<rparr>" and ?h2 = "h\<lparr>mb_buf := ?b2\<rparr>"
  have h0: "seg_ok ?h0" "seg_data ?h0 = st_bytes 0 (take 12 (seg_data m)) (seg_data h)"
    using S0 l12 lh n(1) by (simp_all add: p)
  have h1: "seg_ok ?h1" "seg_data ?h1 = st_bytes 12 (take 2 (vlan_tag ?tci)) (seg_data ?h0)"
    using seg_data_store [OF h0(1), of 12 "take 2 (vlan_tag ?tci)"] lh n(1) unfolding v1 by (simp_all add: p vlan_tag_def)
  have h2: "seg_ok ?h2" "seg_data ?h2 = st_bytes 14 (drop 2 (vlan_tag ?tci)) (seg_data ?h1)"
    using seg_data_store [OF h1(1), of 14 "drop 2 (vlan_tag ?tci)"] lh n(1) unfolding v2 by (simp_all add: p vlan_tag_def)
  have sd2: "seg_data ?h2 = take 12 (seg_data m) @ vlan_tag ?tci @ drop 12 (seg_data m)"
    unfolding h2(2) h1(2) h0(2) sd using q(4) sm n(1) by (intro tag_stores) (simp_all add: p)
  let ?fl = "mb_flags m AND NOT (RTE_MBUF_F_RX_VLAN_STRIPPED OR RTE_MBUF_F_TX_VLAN)"
  let ?g = "\<lambda>m'. if ?fl AND RTE_MBUF_F_TX_TUNNEL_MASK \<noteq> 0
                 then m'\<lparr>mb_buf := ?b2, mb_flags := ?fl, mb_outer_l2_len := mb_outer_l2_len m' + 4\<rparr>
                 else m'\<lparr>mb_buf := ?b2, mb_flags := ?fl, mb_l2_len := mb_l2_len m' + 4\<rparr>"
  have "\<not> mb_len m < 12" using n(1) by (simp add: p word_less_nat_alt)
  then have ins: "rte_vlan_insert p = Some (0, ?g h # ms)"
    using d q(1) n(1) take12_seg [OF sm] by (simp add: p h hb Let_def)
  have g: "seg_ok (?g h)" "seg_data (?g h) = seg_data ?h2" "mb_vlan_tci (?g h) = ?tci" "mb_pkt_len (?g h) = mb_pkt_len h"
    "mb_nb_segs (?g h) = mb_nb_segs h"
    using h2(1) hv by (auto simp: seg_ok_def seg_data_def)
  have "length (seg_data ?h2) = length (seg_data h)" using sd2 sd q(4) l12 by (simp add: vlan_tag_def)
  then have "pkt_ok (?g h # ms)" using q(2) g by (simp add: pkt_ok_def h)
  then show ?thesis using ins g sd2 by (simp add: p)
qed

lemma vlan_strip_spec:
  assumes ok: "pkt_ok q" and sd: "seg_data (hd q) = a @ vlan_tag tci @ b" "length a = 12"
  shows "\<exists>r. rte_vlan_strip q = Some (0, r) \<and> pkt_ok r \<and> mb_vlan_tci (hd r) = tci \<and>
     seg_data (hd r) = a @ b \<and> tl r = tl q"
proof -
  obtain m ms where q: "q = m # ms" using ok by (cases q) (auto simp: pkt_ok_def)
  have sm: "seg_ok m" using ok by (simp add: q pkt_ok_def)
  let ?eh = "unat (mb_off m)" and ?b = "mb_buf m"
  have ml: "unat (mb_len m) = 16 + length b"
    using arg_cong [OF sd(1), of length] sm sd(2) by (simp add: q vlan_tag_def)
  have fit: "?eh + 16 + length b \<le> length ?b" using sm ml unfolding seg_ok_def by linarith
  have byte: "?b ! (?eh + i) = (a @ vlan_tag tci @ b) ! i" if "i < 16" for i
  proof -
    have "?b ! (?eh + i) = seg_data m ! i" using that ml fit by (simp add: seg_data_def)
    then show ?thesis using sd(1) by (simp add: q)
  qed
  have b12: "?b ! (?eh + 12) = 0x81" "?b ! (?eh + 13) = 0" "?b ! (?eh + 14) = ucast (drop_bit 8 tci)" "?b ! (?eh + 15) = ucast tci"
    using byte [of 12] byte [of 13] byte [of 14] byte [of 15] sd(2) by (simp_all add: nth_append vlan_tag_def)
  have t: "ld16 ?b (?eh + 12) = bswap16 RTE_ETHER_TYPE_VLAN"
  proof -
    have i: "?eh + 12 + 1 = ?eh + 13" by simp
    show ?thesis unfolding ld16_def i b12 by (simp add: RTE_ETHER_TYPE_VLAN_def bswap16_def)
  qed
  have v: "bswap16 (ld16 ?b (?eh + 14)) = tci"
  proof -
    have "ld16 ?b (?eh + 14) = bswap16 tci"
    proof -
      have i: "?eh + 14 + 1 = ?eh + 15" by simp
      have "unat (ld16 ?b (?eh + 14)) =
          unat (ucast (bswap16 tci) :: u8) + 256 * unat (ucast (drop_bit 8 (bswap16 tci)) :: u8)"
        unfolding unat_ld16 i b12 bswap16_bytes ..
      then show ?thesis by (simp only: word_unat_eq_iff unat_bytes16)
    qed
    then show ?thesis by simp
  qed
  let ?m = "m\<lparr>mb_flags := mb_flags m OR (RTE_MBUF_F_RX_VLAN OR RTE_MBUF_F_RX_VLAN_STRIPPED), mb_vlan_tci := tci\<rparr>"
  have ok': "pkt_ok (?m # ms)" using ok by (simp add: q pkt_ok_def)
  have "4 \<le> mb_len (hd (?m # ms))" using ml by (simp add: word_le_nat_alt)
  from adj_spec [OF ok' this] obtain r where r: "rte_pktmbuf_adj (?m # ms) 4 = Some (Some (0, unat (mb_off (hd r))), r)"
    "pkt_ok r" "payload r = drop (unat (4 :: u16)) (payload (?m # ms))" "tl r = ms" "mb_buf (hd r) = ?b"
    by auto
  obtain h where h: "r = h # ms" using r(2,4) by (cases r) (auto simp: pkt_ok_def)
  have sh: "seg_ok h" using r(2) by (simp add: h pkt_ok_def)
  have hv: "mb_vlan_tci h = tci" using r(1) by (auto simp: h Let_def split: if_splits)
  have sdh: "seg_data h = drop 4 (seg_data m)"
    using r(3) sm ml by (simp add: h)
  have lh: "unat (mb_len h) = 12 + length b" using arg_cong [OF sdh, of length] sh sm ml by simp
  let ?h = "h\<lparr>mb_buf := st_bytes (unat (mb_off h)) (take 12 (drop ?eh ?b)) ?b\<rparr>"
  have a12: "take 12 (drop ?eh ?b) = a" using take12_seg [OF sm] ml sd by (simp add: q)
  have S: "seg_ok ?h" "seg_data ?h = st_bytes 0 a (seg_data h)"
    using seg_data_store [OF sh, of 0 a] lh sd(2) r(5) unfolding a12 by (simp_all add: h)
  have "st_bytes 0 a (seg_data h) = a @ b"
    using sd by (simp add: st_bytes_def sdh q vlan_tag_def)
  then have sd': "seg_data ?h = a @ b" using S(2) by simp
  have "length (seg_data ?h) = length (seg_data h)" using sd' lh sh sd(2) by simp
  then have "pkt_ok (?h # ms)" using r(2) S(1) by (simp add: pkt_ok_def h)
  moreover have "rte_vlan_strip q = Some (0, ?h # ms)"
    using fit t v r(1) by (simp add: q h Let_def)
  ultimately show ?thesis using sd' hv by (simp add: q)
qed

section \<open>Properties\<close>

text \<open>C34: Parsing the text of \<^verbatim>\<open>rte_ether_format_addr\<close> with a buffer of at least 18 bytes gives the address
  back, whatever the destination held.\<close>

theorem ether_unformat_format:
  assumes "length ea = 6" "length old = 6" "18 \<le> unat sz"
  shows "\<exists>s. rte_ether_format_addr sz ea = Some s \<and> rte_ether_unformat_addr s old = (0, ea)"
proof -
  obtain a b c d e f where ea: "ea = [a, b, c, d, e, f]" using six_bytes [OF assms(1)] .
  have "sz \<noteq> 0" using assms(3) by auto
  moreover have "length (join_with (CHR '':'') (map HEX2 ea)) = 17" by (simp add: ea HEX2_def)
  ultimately have "rte_ether_format_addr sz ea = Some (join_with (CHR '':'') (map HEX2 ea))"
    using assms(1,3) by (simp add: rte_ether_format_addr_def RTE_ETHER_ADDR_LEN_def)
  then show ?thesis using unformat_format [OF assms(1,2)] by blast
qed

lemma ether_unformat_format_witness:
  "\<exists>s. rte_ether_format_addr 18 [0x1c, 0x34, 0xda, 0x72, 0xfa, 0xd6] = Some s \<and>
     rte_ether_unformat_addr s (replicate 6 0) = (0, [0x1c, 0x34, 0xda, 0x72, 0xfa, 0xd6])"
  by (rule ether_unformat_format) simp_all

text \<open>\<^verbatim>\<open>rte_vlan_strip\<close> undoes \<^verbatim>\<open>rte_vlan_insert\<close>: on a direct, unshared packet with at least 12 bytes in the
  first segment and 4 bytes of headroom the tag goes in between the addresses and the type, and stripping
  it gives the payload back and the same tag in \<^verbatim>\<open>vlan_tci\<close>.\<close>

theorem vlan_strip_insert:
  assumes ok: "pkt_ok p" and d: "RTE_MBUF_DIRECT (hd p)" "\<not> mb_refcnt (hd p) > 1"
    and n: "12 \<le> unat (mb_len (hd p))" "4 \<le> rte_pktmbuf_headroom (hd p)" "length (payload p) + 4 < 2 ^ 32"
  shows "\<exists>q r. rte_vlan_insert p = Some (0, q) \<and> pkt_ok q \<and>
     payload q = take 12 (payload p) @ vlan_tag (mb_vlan_tci (hd p)) @ drop 12 (payload p) \<and>
     rte_vlan_strip q = Some (0, r) \<and> pkt_ok r \<and> payload r = payload p \<and> mb_vlan_tci (hd r) = mb_vlan_tci (hd p)"
proof -
  obtain m ms where p: "p = m # ms" using ok by (cases p) (auto simp: pkt_ok_def)
  have l: "12 \<le> length (seg_data m)" using ok n(1) by (simp add: p pkt_ok_def)
  from vlan_insert_spec [OF assms] obtain q where q: "rte_vlan_insert p = Some (0, q)" "pkt_ok q"
    "seg_data (hd q) = take 12 (seg_data m) @ vlan_tag (mb_vlan_tci m) @ drop 12 (seg_data m)" "tl q = ms"
    by (auto simp: p)
  from vlan_strip_spec [OF q(2,3)] l obtain r where r: "rte_vlan_strip q = Some (0, r)" "pkt_ok r"
    "mb_vlan_tci (hd r) = mb_vlan_tci m" "seg_data (hd r) = seg_data m" "tl r = ms"
    using q(4) by auto
  have "payload x = seg_data (hd x) @ payload (tl x)" if "pkt_ok x" for x
    using that by (cases x) (simp_all add: pkt_ok_def)
  then show ?thesis using q r l ok by (auto simp: p)
qed

definition demo_frame :: pkt where
  "demo_frame = [\<lparr>mb_buf = [0, 0, 0, 0, 1, 2, 3, 4, 5, 6, 7, 8, 9, 10, 11, 12, 8, 0, 69], mb_off = 4, mb_len = 15,
     mb_pkt_len = 15, mb_nb_segs = 1, mb_refcnt = 1, mb_flags = 0, mb_vlan_tci = 0x1234, mb_l2_len = 0, mb_outer_l2_len = 0\<rparr>]"

lemma vlan_strip_insert_witness:
  "\<exists>q r. rte_vlan_insert demo_frame = Some (0, q) \<and> rte_vlan_strip q = Some (0, r) \<and> payload r = payload demo_frame"
proof -
  have "pkt_ok demo_frame" "RTE_MBUF_DIRECT (hd demo_frame)" "\<not> mb_refcnt (hd demo_frame) > 1" "12 \<le> unat (mb_len (hd demo_frame))"
    "4 \<le> rte_pktmbuf_headroom (hd demo_frame)" "length (payload demo_frame) + 4 < 2 ^ 32"
    by (simp_all add: demo_frame_def pkt_ok_def seg_ok_def payload_def seg_data_def RTE_MBUF_DIRECT_def rte_pktmbuf_headroom_def)
  from vlan_strip_insert [OF this] show ?thesis by blast
qed

text \<open>A random address is six bytes long, unicast, not zero, and marked as locally administered.\<close>

lemma eth_random_addr_valid:
  "length (rte_eth_random_addr r) = 6 \<and> rte_is_valid_assigned_ether_addr (rte_eth_random_addr r) \<and>
   rte_is_local_admin_ether_addr (rte_eth_random_addr r) \<and> \<not> rte_is_multicast_ether_addr (rte_eth_random_addr r)"
  by (rule random_addr_valid)

end
