(* ===== verification/PingPong.thy ===== *)
theory PingPong
  imports SenseConfig RteEther
begin

text \<open>
  The two programs \<^verbatim>\<open>app/pingpong-ping/main.c\<close> and \<^verbatim>\<open>app/pingpong-pong/main.c\<close>: one sends a frame with
  the string "ping" and answers every "pong", the other answers every "ping" with "pong". They differ in
  the constants and the first frame, so the functions take the program as an argument. The pool with the
  append of \<open>n\<close> bytes to the \<open>k\<close>-th buffer is the parameter \<open>pool\<close>, the address of the port is
  \<open>own_mac\<close>. A received buffer is its packet length and its memory from the data pointer on, which
  is longer than the packet; \<^verbatim>\<open>printf("%s")\<close> reads up to a NUL, and reading past the memory
  is the trap \<open>None\<close>. Signals, the set-up of the port and the delay between polls are left out.
\<close>

section \<open>The programs\<close>

record pp_prog =
  awaited :: "u8 list"
  answer :: "u8 list"
  peer_mac :: ether_addr

definition PING :: "u8 list" where "PING = [0x70, 0x69, 0x6e, 0x67]"
definition PONG :: "u8 list" where "PONG = [0x70, 0x6f, 0x6e, 0x67]"
definition CUSTOM_ETHER_TYPE :: u16 where "CUSTOM_ETHER_TYPE = 0x88B5"
definition MIN_PAYLOAD_SIZE :: u16 where "MIN_PAYLOAD_SIZE = 4"

definition ping_prog :: pp_prog where
  "ping_prog = \<lparr>awaited = PONG, answer = PING, peer_mac = [0x08, 0xC0, 0xEB, 0xD1, 0xFC, 0x52]\<rparr>"

definition pong_prog :: pp_prog where
  "pong_prog = \<lparr>awaited = PING, answer = PONG, peer_mac = [0x10, 0x70, 0xFD, 0x86, 0x65, 0x7E]\<rparr>"

record pp_env =
  own_mac :: ether_addr
  pp_pool :: "nat \<Rightarrow> nat \<Rightarrow> u8 list option"

text \<open>\<open>pp_tx\<close>: the frames handed to the port; \<open>pp_freed\<close>: the received buffers that were freed.\<close>

record pp_sys =
  dest_mac :: ether_addr
  expected_src_mac :: ether_addr
  pp_allocs :: nat
  pp_tx :: "u8 list list"
  pp_freed :: nat

record pp_buf =
  buf_pkt_len :: u32
  buf_mem :: "u8 list"

definition pp_boot :: "pp_prog \<Rightarrow> pp_sys" where
  "pp_boot pr = \<lparr>dest_mac = peer_mac pr, expected_src_mac = peer_mac pr, pp_allocs = 0, pp_tx = [], pp_freed = 0\<rparr>"

section \<open>Sending and receiving\<close>

definition pp_frame :: "ether_addr \<Rightarrow> ether_addr \<Rightarrow> u8 list \<Rightarrow> u8 list \<Rightarrow> u8 list" where
  "pp_frame own dst msg m =
     (let m = st_bytes 6 own m;
          m = st_bytes 0 dst m;
          m = st16 12 (bswap16 CUSTOM_ETHER_TYPE) m
      in st_bytes 14 (msg @ [0]) m)"

text \<open>A failed append frees the buffer; it is the same case of \<open>pp_pool\<close> as a failed allocation.\<close>

definition send_string :: "pp_env \<Rightarrow> u8 list \<Rightarrow> pp_sys \<Rightarrow> pp_sys" where
  "send_string e msg s =
     (let plen = length msg + 1; room = pp_pool e (pp_allocs s) (14 + plen); s = s\<lparr>pp_allocs := pp_allocs s + 1\<rparr>
      in case room of
           None \<Rightarrow> s
         | Some m \<Rightarrow> s\<lparr>pp_tx := pp_tx s @ [pp_frame (own_mac e) (dest_mac s) msg m]\<rparr>)"

definition pp_free :: "pp_sys \<Rightarrow> pp_sys" where
  "pp_free s = s\<lparr>pp_freed := pp_freed s + 1\<rparr>"

definition c_string :: "u8 list \<Rightarrow> u8 list option" where
  "c_string m = (if 0 \<in> set m then Some (takeWhile (\<lambda>b. b \<noteq> 0) m) else None)"

definition pp_handle :: "pp_prog \<Rightarrow> pp_env \<Rightarrow> pp_buf \<Rightarrow> pp_sys \<Rightarrow> pp_sys option" where
  "pp_handle pr e b s =
     (let m = buf_mem b in
      if ld16 m 12 \<noteq> bswap16 CUSTOM_ETHER_TYPE then Some (pp_free s)
      else if \<not> rte_is_same_ether_addr (drop 6 m) (expected_src_mac s) then Some (pp_free s)
      else let payload_len = ucast ((ucast (buf_pkt_len b) :: u64) - 14) :: u16 in
        if payload_len < MIN_PAYLOAD_SIZE then Some (pp_free s)
        else case c_string (drop 14 m) of
            None \<Rightarrow> None
          | Some txt \<Rightarrow>
              Some (pp_free (if txt = awaited pr then send_string e (answer pr) s else s)))"

fun pp_process_packets :: "pp_prog \<Rightarrow> pp_env \<Rightarrow> pp_buf list \<Rightarrow> pp_sys \<Rightarrow> pp_sys option" where
  "pp_process_packets pr e [] s = Some s"
| "pp_process_packets pr e (b # bufs) s = do {
     s \<leftarrow> pp_handle pr e b s;
     pp_process_packets pr e bufs s }"

section \<open>Start\<close>

definition pp_parse_mac :: "string \<Rightarrow> ether_addr \<Rightarrow> int \<times> ether_addr" where
  "pp_parse_mac mac_str mac =
     (case scan_mac 6 0 mac_str of None \<Rightarrow> (- 1, mac) | Some b \<Rightarrow> (0, map ucast b))"

text \<open>\<^verbatim>\<open>atoi\<close> of the port, converted to \<^verbatim>\<open>uint16_t\<close>: \<^verbatim>\<open>strtol\<close> stops at the limits of \<^verbatim>\<open>long\<close>.\<close>

fun scan_dec :: "nat \<Rightarrow> string \<Rightarrow> nat" where
  "scan_dec v [] = v"
| "scan_dec v (c # cs) =
     (let n = (of_char c :: nat) in if 48 \<le> n \<and> n \<le> 57 then scan_dec (10 * v + (n - 48)) cs else v)"

definition atoi_u16 :: "string \<Rightarrow> u16" where
  "atoi_u16 s = (let (neg, s) = scan_sign (dropWhile isspace s); v = int (scan_dec 0 s)
     in word_of_int (if neg then max (- (2 ^ 63)) (- v) else min (2 ^ 63 - 1) v))"

definition parse_arg :: "string \<Rightarrow> u16 \<times> pp_sys \<Rightarrow> (u16 \<times> pp_sys) option" where
  "parse_arg arg st =
     (if take 11 arg = ''--dest-mac='' then
        let (rc, m) = pp_parse_mac (drop 11 arg) (dest_mac (snd st))
        in if rc < 0 then None else Some (fst st, (snd st)\<lparr>dest_mac := m\<rparr>)
      else if take 7 arg = ''--port='' then Some (atoi_u16 (drop 7 arg), snd st)
      else Some st)"

fun parse_args :: "string list \<Rightarrow> u16 \<times> pp_sys \<Rightarrow> (u16 \<times> pp_sys) option" where
  "parse_args [] st = Some st"
| "parse_args (arg # args) st = do { st \<leftarrow> parse_arg arg st; parse_args args st }"

text \<open>\<^verbatim>\<open>main\<close> up to the loop; \<open>None\<close> is \<^verbatim>\<open>rte_exit\<close> for an address that cannot be read.\<close>

definition ping_start :: "pp_env \<Rightarrow> string list \<Rightarrow> (u16 \<times> pp_sys) option" where
  "ping_start e args = do {
     (port, s) \<leftarrow> parse_args args (2, pp_boot ping_prog);
     Some (port, send_string e PING s) }"

definition pong_start :: "string list \<Rightarrow> (u16 \<times> pp_sys) option" where
  "pong_start args = parse_args args (2, pp_boot pong_prog)"

section \<open>Frames\<close>

definition frame_of :: "ether_addr \<Rightarrow> ether_addr \<Rightarrow> u8 list \<Rightarrow> u8 list" where
  "frame_of own dst msg = dst @ own @ [0x88, 0xB5] @ msg @ [0]"

lemma pp_frame_eq:
  assumes "length own = 6" "length dst = 6" "length m = 15 + length msg"
  shows "pp_frame own dst msg m = frame_of own dst msg"
proof (rule nth_equalityI)
  have b: "bswap16 CUSTOM_ETHER_TYPE = 0xB588" by (simp add: bswap16_def CUSTOM_ETHER_TYPE_def)
  show "length (pp_frame own dst msg m) = length (frame_of own dst msg)"
    using assms by (simp add: pp_frame_def frame_of_def Let_def)
  fix i assume "i < length (pp_frame own dst msg m)"
  then have "i < 15 + length msg" using assms by (simp add: pp_frame_def Let_def)
  then consider "i < 12" | "i = 12" | "i = 13" | "14 \<le> i" "i < 15 + length msg" by linarith
  then show "pp_frame own dst msg m ! i = frame_of own dst msg ! i"
    by cases (use assms in \<open>auto simp: pp_frame_def frame_of_def Let_def b nth_append nth_Cons'\<close>)
qed

lemma frame_fields:
  assumes "length own = 6" "length dst = 6"
  shows "ld16 (frame_of own dst msg @ t) 12 = bswap16 CUSTOM_ETHER_TYPE"
    "rte_is_same_ether_addr (drop 6 (frame_of own dst msg @ t)) mac \<longleftrightarrow> rte_is_same_ether_addr own mac"
    "drop 14 (frame_of own dst msg @ t) = msg @ 0 # t"
proof -
  show "ld16 (frame_of own dst msg @ t) 12 = bswap16 CUSTOM_ETHER_TYPE"
    using assms by (intro ld16_eqI) (simp_all add: frame_of_def nth_append bswap16_def CUSTOM_ETHER_TYPE_def)
  show "rte_is_same_ether_addr (drop 6 (frame_of own dst msg @ t)) mac \<longleftrightarrow> rte_is_same_ether_addr own mac"
    using assms by (simp add: frame_of_def rte_is_same_ether_addr_def ld16_def nth_append)
  show "drop 14 (frame_of own dst msg @ t) = msg @ 0 # t" using assms by (simp add: frame_of_def)
qed

lemma c_string_msg: "0 \<notin> set msg \<Longrightarrow> c_string (msg @ 0 # t) = Some msg"
  by (simp add: c_string_def takeWhile_tail) (metis takeWhile_append2)

section \<open>The exchange\<close>

text \<open>A frame arrives in a buffer whose memory goes on after the packet.\<close>

definition carries :: "u8 list \<Rightarrow> pp_buf \<Rightarrow> bool" where
  "carries fr b \<longleftrightarrow> buf_pkt_len b = of_nat (length fr) \<and> take (length fr) (buf_mem b) = fr"

definition pp_env_ok :: "pp_env \<Rightarrow> bool" where
  "pp_env_ok e \<longleftrightarrow> length (own_mac e) = 6 \<and> (\<forall>k n. \<exists>m. pp_pool e k n = Some m \<and> length m = n)"

text \<open>The two programs and the frames on the two directions of the link; a poll takes a burst of at most 32
  frames.\<close>

inductive pp_reach :: "pp_env \<Rightarrow> pp_env \<Rightarrow> pp_sys \<Rightarrow> pp_sys \<Rightarrow> u8 list list \<Rightarrow> u8 list list \<Rightarrow> bool"
  for ea eb where
  pp_start: "ping_start ea [] = Some (port, a) \<Longrightarrow> pong_start [] = Some (port', b) \<Longrightarrow> pp_reach ea eb a b (pp_tx a) []"
| poll_pong: "pp_reach ea eb a b q r \<Longrightarrow> n \<le> 32 \<Longrightarrow> list_all2 carries (take n q) bufs \<Longrightarrow>
    pp_process_packets pong_prog eb bufs b = Some b' \<Longrightarrow>
    pp_reach ea eb a b' (drop n q) (r @ drop (length (pp_tx b)) (pp_tx b'))"
| poll_ping: "pp_reach ea eb a b q r \<Longrightarrow> n \<le> 32 \<Longrightarrow> list_all2 carries (take n r) bufs \<Longrightarrow>
    pp_process_packets ping_prog ea bufs a = Some a' \<Longrightarrow>
    pp_reach ea eb a' b (q @ drop (length (pp_tx a)) (pp_tx a')) (drop n r)"

lemma send_string_ok:
  assumes "pp_env_ok e" "length (dest_mac s) = 6"
  shows "send_string e msg s = s\<lparr>pp_allocs := pp_allocs s + 1, pp_tx := pp_tx s @ [frame_of (own_mac e) (dest_mac s) msg]\<rparr>"
proof -
  obtain m where "pp_pool e (pp_allocs s) (14 + (length msg + 1)) = Some m" "length m = 14 + (length msg + 1)"
    using assms(1) unfolding pp_env_ok_def by blast
  then show ?thesis using assms by (simp add: send_string_def Let_def pp_frame_eq pp_env_ok_def)
qed

lemma answered:
  assumes e: "pp_env_ok e" "length (dest_mac s) = 6" and src: "length src = 6" "expected_src_mac s = src" "length dst = 6"
    and msg: "length (awaited pr) = 4" "0 \<notin> set (awaited pr)" and b: "carries (frame_of src dst (awaited pr)) b"
  shows "\<exists>s'. pp_process_packets pr e [b] s = Some s' \<and> dest_mac s' = dest_mac s \<and> expected_src_mac s' = src \<and>
    pp_tx s' = pp_tx s @ [frame_of (own_mac e) (dest_mac s) (answer pr)]"
proof -
  let ?fr = "frame_of src dst (awaited pr)"
  define t where "t = drop (length ?fr) (buf_mem b)"
  have t: "buf_mem b = ?fr @ t" using b append_take_drop_id [of "length ?fr" "buf_mem b"] by (simp add: carries_def t_def)
  have l: "buf_pkt_len b = 19" using b src(1,3) msg(1) by (simp add: carries_def frame_of_def)
  show ?thesis
    using frame_fields [OF src(1,3)] c_string_msg [OF msg(2)] send_string_ok [OF e] src(2) same_ether_addr_iff [OF src(1,1)]
    by (simp add: pp_handle_def t l MIN_PAYLOAD_SIZE_def Let_def pp_free_def)
qed

definition ping_fr :: "u8 list" where "ping_fr = frame_of (peer_mac pong_prog) (peer_mac ping_prog) PING"
definition pong_fr :: "u8 list" where "pong_fr = frame_of (peer_mac ping_prog) (peer_mac pong_prog) PONG"

definition macs_ok :: "pp_prog \<Rightarrow> pp_sys \<Rightarrow> bool" where
  "macs_ok pr s \<longleftrightarrow> dest_mac s = peer_mac pr \<and> expected_src_mac s = peer_mac pr"

definition rally :: "pp_sys \<Rightarrow> pp_sys \<Rightarrow> u8 list list \<Rightarrow> u8 list list \<Rightarrow> bool" where
  "rally a b q r \<longleftrightarrow> (\<exists>k. pp_tx a = replicate (k + 1) ping_fr \<and>
     (q = [ping_fr] \<and> r = [] \<and> pp_tx b = replicate k pong_fr \<or>
      q = [] \<and> r = [pong_fr] \<and> pp_tx b = replicate (k + 1) pong_fr))"

lemmas prog_defs = ping_prog_def pong_prog_def PING_def PONG_def

lemma pong_answers:
  assumes "pp_env_ok eb" "own_mac eb = peer_mac ping_prog" "macs_ok pong_prog s" "carries ping_fr b"
  shows "\<exists>s'. pp_process_packets pong_prog eb [b] s = Some s' \<and> macs_ok pong_prog s' \<and> pp_tx s' = pp_tx s @ [pong_fr]"
proof -
  have "length (dest_mac s) = 6" "expected_src_mac s = peer_mac pong_prog" "dest_mac s = peer_mac pong_prog"
    using assms(3) by (simp_all add: macs_ok_def prog_defs)
  moreover have "carries (frame_of (peer_mac pong_prog) (peer_mac ping_prog) (awaited pong_prog)) b"
    using assms(4) by (simp add: ping_fr_def prog_defs)
  ultimately show ?thesis
    using answered [OF assms(1), of s "peer_mac pong_prog" "peer_mac ping_prog" pong_prog b] assms(2)
    by (simp add: macs_ok_def pong_fr_def) (simp add: prog_defs)
qed

lemma ping_answers:
  assumes "pp_env_ok ea" "own_mac ea = peer_mac pong_prog" "macs_ok ping_prog s" "carries pong_fr b"
  shows "\<exists>s'. pp_process_packets ping_prog ea [b] s = Some s' \<and> macs_ok ping_prog s' \<and> pp_tx s' = pp_tx s @ [ping_fr]"
proof -
  have "length (dest_mac s) = 6" "expected_src_mac s = peer_mac ping_prog" "dest_mac s = peer_mac ping_prog"
    using assms(3) by (simp_all add: macs_ok_def prog_defs)
  moreover have "carries (frame_of (peer_mac ping_prog) (peer_mac pong_prog) (awaited ping_prog)) b"
    using assms(4) by (simp add: pong_fr_def prog_defs)
  ultimately show ?thesis
    using answered [OF assms(1), of s "peer_mac ping_prog" "peer_mac pong_prog" ping_prog b] assms(2)
    by (simp add: macs_ok_def ping_fr_def) (simp add: prog_defs)
qed

lemma burst_cases:
  assumes "list_all2 carries (take n q) bufs" "q = [] \<or> q = [fr]"
  obtains "bufs = []" "drop n q = q" | b where "bufs = [b]" "carries fr b" "q = [fr]" "drop n q = []"
  using assms by (cases n) (auto simp: list_all2_Cons1)

lemma pp_reach_rally:
  assumes "pp_reach ea eb a b q r"
    and ok: "pp_env_ok ea" "pp_env_ok eb" "own_mac ea = peer_mac pong_prog" "own_mac eb = peer_mac ping_prog"
  shows "macs_ok ping_prog a \<and> macs_ok pong_prog b \<and> rally a b q r"
  using assms(1)
proof induction
  case (pp_start port a port' b)
  have a: "a = send_string ea PING (pp_boot ping_prog)" using pp_start by (auto simp: ping_start_def)
  have "length (dest_mac (pp_boot ping_prog)) = 6" by (simp add: pp_boot_def ping_prog_def)
  from send_string_ok [OF ok(1) this, of PING]
  have "pp_tx a = [ping_fr]" "macs_ok ping_prog a"
    using ok(3) by (simp_all add: a macs_ok_def pp_boot_def ping_fr_def)
  then show ?case using pp_start by (auto simp: pong_start_def macs_ok_def pp_boot_def rally_def)
next
  case (poll_pong a b q r n bufs b')
  then have q: "q = [] \<or> q = [ping_fr]" and b: "macs_ok pong_prog b" by (auto simp: rally_def)
  show ?case
  proof (rule burst_cases [OF poll_pong.hyps(3) q])
    assume "bufs = []" "drop n q = q"
    then show ?thesis using poll_pong by auto
  next
    fix b0 assume "bufs = [b0]" "carries ping_fr b0" "q = [ping_fr]" "drop n q = []"
    moreover from this have "macs_ok pong_prog b'" "pp_tx b' = pp_tx b @ [pong_fr]"
      using pong_answers [OF ok(2,4) b, of b0] poll_pong.hyps(4) by auto
    ultimately show ?thesis using poll_pong.IH by (auto simp: rally_def replicate_append_same)
  qed
next
  case (poll_ping a b q r n bufs a')
  then have r: "r = [] \<or> r = [pong_fr]" and a: "macs_ok ping_prog a" and b: "macs_ok pong_prog b" by (auto simp: rally_def)
  show ?case
  proof (rule burst_cases [OF poll_ping.hyps(3) r])
    assume "bufs = []" "drop n r = r"
    then show ?thesis using poll_ping by auto
  next
    fix b0 assume "bufs = [b0]" "carries pong_fr b0" "r = [pong_fr]" "drop n r = []"
    moreover from this have "macs_ok ping_prog a'" "pp_tx a' = pp_tx a @ [ping_fr]"
      using ping_answers [OF ok(1,3) a, of b0] poll_ping.hyps(4) by auto
    moreover obtain k where "pp_tx a = replicate (k + 1) ping_fr" "q = []" "pp_tx b = replicate (k + 1) pong_fr"
      using poll_ping.IH \<open>r = [pong_fr]\<close> by (auto simp: rally_def)
    moreover from this(1) have "replicate (k + 1) ping_fr @ [ping_fr] = replicate (Suc k + 1) ping_fr"
      by (simp add: replicate_append_same)
    ultimately have "rally a' b (q @ drop (length (pp_tx a)) (pp_tx a')) (drop n r)"
      unfolding rally_def by (intro exI [of _ "Suc k"]) (simp del: replicate.simps, simp)
    then show ?thesis using \<open>macs_ok ping_prog a'\<close> b by blast
  qed
qed

section \<open>Properties\<close>


definition demo_pp_env :: "ether_addr \<Rightarrow> pp_env" where
  "demo_pp_env mac = \<lparr>own_mac = mac, pp_pool = (\<lambda>k n. Some (replicate n 0xAA))\<rparr>"

lemma demo_pp_env_ok: "length mac = 6 \<Longrightarrow> pp_env_ok (demo_pp_env mac)"
  by (simp add: pp_env_ok_def demo_pp_env_def)


text \<open>\<^verbatim>\<open>--dest-mac\<close> sends to another peer but still expects the built-in one: whatever the peer at the given
  address sends, nothing is answered.\<close>

theorem dest_mac_peer_is_ignored:
  assumes "ping_start e [''--dest-mac='' @ mac_str] = Some (port, s)" "pp_parse_mac mac_str (peer_mac ping_prog) = (rc, mac)"
    and "length mac = 6" "mac \<noteq> peer_mac ping_prog" "\<forall>b\<in>set bufs. take 6 (drop 6 (buf_mem b)) = mac"
  shows "dest_mac s = mac \<and> (\<exists>s'. pp_process_packets ping_prog e bufs s = Some s' \<and> pp_tx s' = pp_tx s)"
proof -
  have s: "dest_mac s = mac" "expected_src_mac s = peer_mac ping_prog"
    using assms(1,2) by (auto simp: ping_start_def parse_arg_def pp_boot_def send_string_def Let_def
        bind_eq_Some_conv split: if_splits option.splits)
  have "\<exists>s'. pp_process_packets ping_prog e bufs s = Some s' \<and> pp_tx s' = pp_tx s"
    using assms(5) s(2)
  proof (induction bufs arbitrary: s)
    case (Cons b bufs)
    have "\<not> rte_is_same_ether_addr (drop 6 (buf_mem b)) (peer_mac ping_prog)"
      using same_ether_addr_iff [of mac "peer_mac ping_prog"] Cons.prems(1) assms(3,4)
      by (auto simp: rte_is_same_ether_addr_def ld16_def prog_defs)
    then have "pp_handle ping_prog e b s = Some (pp_free s)" using Cons.prems(2) by (simp add: pp_handle_def Let_def)
    then show ?case using Cons.IH [of "pp_free s"] Cons.prems by (simp add: pp_free_def)
  qed simp
  then show ?thesis using s(1) by blast
qed

lemma pp_parse_mac_print: "pp_parse_mac (print_mac [a, b, c, d, e, f]) m = (0, [a, b, c, d, e, f])"
proof -
  have w: "(ucast (ucast (ucast x :: u64) :: u32) :: u8) = x" for x by (rule bit_word_eqI) (simp add: bit_simps)
  have "scan_mac 6 0 (print_mac [a, b, c, d, e, f]) = Some (map (\<lambda>x. ucast (ucast x :: u64)) [a, b, c, d, e, f])"
    by (simp add: numeral_eq_Suc scan_x_hex2 scan_x_hex2 [where rest = "[]", simplified])
  then show ?thesis by (simp add: pp_parse_mac_def w del: print_mac.simps)
qed

lemma dest_mac_peer_is_ignored_witness:
  "\<exists>s s'. ping_start (demo_pp_env (peer_mac pong_prog)) [''--dest-mac='' @ print_mac [0, 12, 41, 211, 204, 137]] = Some (2, s) \<and>
     dest_mac s = [0, 12, 41, 211, 204, 137] \<and>
     pp_process_packets ping_prog (demo_pp_env (peer_mac pong_prog))
       [\<lparr>buf_pkt_len = 19, buf_mem = frame_of (dest_mac s) (peer_mac pong_prog) PONG\<rparr>] s = Some s' \<and> pp_tx s' = pp_tx s"
proof -
  let ?e = "demo_pp_env (peer_mac pong_prog)" and ?m = "[0, 12, 41, 211, 204, 137] :: u8 list"
  let ?s = "send_string ?e PING ((pp_boot ping_prog)\<lparr>dest_mac := ?m\<rparr>)"
  have start: "ping_start ?e [''--dest-mac='' @ print_mac ?m] = Some (2, ?s)"
    by (simp add: ping_start_def parse_arg_def pp_parse_mac_print pp_boot_def del: print_mac.simps)
  have src: "\<forall>b\<in>set [\<lparr>buf_pkt_len = 19, buf_mem = frame_of ?m (peer_mac pong_prog) PONG\<rparr>]. take 6 (drop 6 (buf_mem b)) = ?m"
    by (simp add: frame_of_def prog_defs)
  show ?thesis
    using dest_mac_peer_is_ignored [OF start pp_parse_mac_print _ _ src] start by (auto simp: prog_defs)
qed

end
