(* ===== verification/RteMeter.thy ===== *)
theory RteMeter
  imports CDouble "HOL-Library.Monad_Syntax"
begin

text \<open>
  Traffic metering, \<^verbatim>\<open>lib/meter/rte_meter.c\<close> and \<^verbatim>\<open>rte_meter.h\<close>: the single-rate and two-rate three
  colour markers of RFC 2697, 2698 and 4115. A null pointer is \<open>None\<close>; a check returns \<open>None\<close> when
  it divides by a period of zero, and the configuration when a \<^verbatim>\<open>double\<close> does not fit the
  \<^verbatim>\<open>uint64_t\<close> it is converted to.
\<close>

section \<open>Data\<close>

datatype rte_color = RTE_COLOR_GREEN | RTE_COLOR_YELLOW | RTE_COLOR_RED

record srtcm_params =
  sp_cir :: u64
  sp_cbs :: u64
  sp_ebs :: u64

record trtcm_params =
  tp_cir :: u64
  tp_pir :: u64
  tp_cbs :: u64
  tp_pbs :: u64

record rfc4115_params =
  rp_cir :: u64
  rp_eir :: u64
  rp_cbs :: u64
  rp_ebs :: u64

record srtcm_profile =
  s_cbs :: u64
  s_ebs :: u64
  s_cir_period :: u64
  s_cir_bytes_per_period :: u64

record srtcm =
  s_time :: u64
  s_tc :: u64
  s_te :: u64

record trtcm_profile =
  t_cbs :: u64
  t_pbs :: u64
  t_cir_period :: u64
  t_cir_bytes_per_period :: u64
  t_pir_period :: u64
  t_pir_bytes_per_period :: u64

record trtcm =
  t_time_tc :: u64
  t_time_tp :: u64
  t_tc :: u64
  t_tp :: u64

record rfc4115_profile =
  r_cbs :: u64
  r_ebs :: u64
  r_cir_period :: u64
  r_cir_bytes_per_period :: u64
  r_eir_period :: u64
  r_eir_bytes_per_period :: u64

record rfc4115 =
  r_time_tc :: u64
  r_time_te :: u64
  r_tc :: u64
  r_te :: u64

section \<open>Configuration\<close>

definition RTE_METER_TB_PERIOD_MIN :: nat where "RTE_METER_TB_PERIOD_MIN = 100"

text \<open>The period and the bytes per period.\<close>

definition rte_meter_get_tb_params :: "u64 \<Rightarrow> u64 \<Rightarrow> (u64 \<times> u64) option" where
  "rte_meter_get_tb_params hz rate =
     (if rate = 0 then Some (of_nat RTE_METER_TB_PERIOD_MIN, 0)
      else let period = fdiv (fp_of_nat (unat hz)) (fp_of_nat (unat rate))
           in if fle (fp_of_nat RTE_METER_TB_PERIOD_MIN) period then do {
                tb_period \<leftarrow> to_u64 period;
                Some (tb_period, 1) }
              else do {
                tb_bytes_per_period \<leftarrow> to_u64 (fceil (fdiv (fp_of_nat RTE_METER_TB_PERIOD_MIN) period));
                Some ((hz * tb_bytes_per_period) div rate, tb_bytes_per_period) })"

definition rte_meter_srtcm_profile_config ::
  "u64 \<Rightarrow> srtcm_profile option \<Rightarrow> srtcm_params option \<Rightarrow> (int \<times> srtcm_profile option) option" where
  "rte_meter_srtcm_profile_config hz p params =
     (case (p, params) of
        (Some _, Some ps) \<Rightarrow>
          if sp_cir ps = 0 \<or> (sp_cbs ps = 0 \<and> sp_ebs ps = 0) then Some (- EINVAL, p)
          else do {
            (period, bytes) \<leftarrow> rte_meter_get_tb_params hz (sp_cir ps);
            Some (0, Some \<lparr>s_cbs = sp_cbs ps, s_ebs = sp_ebs ps, s_cir_period = period,
              s_cir_bytes_per_period = bytes\<rparr>) }
      | _ \<Rightarrow> Some (- EINVAL, p))"

definition rte_meter_srtcm_config ::
  "u64 \<Rightarrow> srtcm option \<Rightarrow> srtcm_profile option \<Rightarrow> int \<times> srtcm option" where
  "rte_meter_srtcm_config now m p =
     (case (m, p) of
        (Some _, Some p) \<Rightarrow> (0, Some \<lparr>s_time = now, s_tc = s_cbs p, s_te = s_ebs p\<rparr>)
      | _ \<Rightarrow> (- EINVAL, m))"

definition rte_meter_trtcm_profile_config ::
  "u64 \<Rightarrow> trtcm_profile option \<Rightarrow> trtcm_params option \<Rightarrow> (int \<times> trtcm_profile option) option" where
  "rte_meter_trtcm_profile_config hz p params =
     (case (p, params) of
        (Some _, Some ps) \<Rightarrow>
          if tp_cir ps = 0 \<or> tp_pir ps = 0 \<or> tp_pir ps < tp_cir ps \<or> tp_cbs ps = 0 \<or> tp_pbs ps = 0
          then Some (- EINVAL, p)
          else do {
            (cper, cbytes) \<leftarrow> rte_meter_get_tb_params hz (tp_cir ps);
            (pper, pbytes) \<leftarrow> rte_meter_get_tb_params hz (tp_pir ps);
            Some (0, Some \<lparr>t_cbs = tp_cbs ps, t_pbs = tp_pbs ps, t_cir_period = cper,
              t_cir_bytes_per_period = cbytes, t_pir_period = pper, t_pir_bytes_per_period = pbytes\<rparr>) }
      | _ \<Rightarrow> Some (- EINVAL, p))"

definition rte_meter_trtcm_config ::
  "u64 \<Rightarrow> trtcm option \<Rightarrow> trtcm_profile option \<Rightarrow> int \<times> trtcm option" where
  "rte_meter_trtcm_config now m p =
     (case (m, p) of
        (Some _, Some p) \<Rightarrow> (0, Some \<lparr>t_time_tc = now, t_time_tp = now, t_tc = t_cbs p, t_tp = t_pbs p\<rparr>)
      | _ \<Rightarrow> (- EINVAL, m))"

definition rte_meter_trtcm_rfc4115_profile_config ::
  "u64 \<Rightarrow> rfc4115_profile option \<Rightarrow> rfc4115_params option \<Rightarrow> (int \<times> rfc4115_profile option) option" where
  "rte_meter_trtcm_rfc4115_profile_config hz p params =
     (case (p, params) of
        (Some _, Some ps) \<Rightarrow>
          if (rp_cir ps \<noteq> 0 \<and> rp_cbs ps = 0) \<or> (rp_eir ps \<noteq> 0 \<and> rp_ebs ps = 0) then Some (- EINVAL, p)
          else do {
            (cper, cbytes) \<leftarrow> rte_meter_get_tb_params hz (rp_cir ps);
            (eper, ebytes) \<leftarrow> rte_meter_get_tb_params hz (rp_eir ps);
            Some (0, Some \<lparr>r_cbs = rp_cbs ps, r_ebs = rp_ebs ps, r_cir_period = cper,
              r_cir_bytes_per_period = cbytes, r_eir_period = eper, r_eir_bytes_per_period = ebytes\<rparr>) }
      | _ \<Rightarrow> Some (- EINVAL, p))"

definition rte_meter_trtcm_rfc4115_config ::
  "u64 \<Rightarrow> rfc4115 option \<Rightarrow> rfc4115_profile option \<Rightarrow> int \<times> rfc4115 option" where
  "rte_meter_trtcm_rfc4115_config now m p =
     (case (m, p) of
        (Some _, Some p) \<Rightarrow> (0, Some \<lparr>r_time_tc = now, r_time_te = now, r_tc = r_cbs p, r_te = r_ebs p\<rparr>)
      | _ \<Rightarrow> (- EINVAL, m))"

section \<open>Metering\<close>

text \<open>The whole periods since the last update of a bucket; a bucket filled up to its limit.\<close>

definition periods :: "u64 \<Rightarrow> u64 \<Rightarrow> u64 \<Rightarrow> u64 option" where
  "periods time prev period = (if period = 0 then None else Some ((time - prev) div period))"

definition fill :: "u64 \<Rightarrow> u64 \<Rightarrow> u64 \<Rightarrow> u64 \<Rightarrow> u64" where
  "fill t n bytes cap = (let t = t + n * bytes in if t > cap then cap else t)"

text \<open>The update of the two buckets of srTCM: what overflows from C goes into E.\<close>

definition srtcm_update :: "srtcm \<Rightarrow> srtcm_profile \<Rightarrow> u64 \<Rightarrow> srtcm option" where
  "srtcm_update m p time = do {
     n \<leftarrow> periods time (s_time m) (s_cir_period p);
     let tc = s_tc m + n * s_cir_bytes_per_period p;
     let te = s_te m;
     let (tc, te) =
       (if tc > s_cbs p then
          let te = te + (tc - s_cbs p); te = (if te > s_ebs p then s_ebs p else te) in (s_cbs p, te)
        else (tc, te));
     Some \<lparr>s_time = s_time m + n * s_cir_period p, s_tc = tc, s_te = te\<rparr> }"

definition rte_meter_srtcm_color_blind_check ::
  "srtcm \<Rightarrow> srtcm_profile \<Rightarrow> u64 \<Rightarrow> u32 \<Rightarrow> (rte_color \<times> srtcm) option" where
  "rte_meter_srtcm_color_blind_check m p time pkt_len = do {
     m \<leftarrow> srtcm_update m p time;
     if s_tc m \<ge> ucast pkt_len then Some (RTE_COLOR_GREEN, m\<lparr>s_tc := s_tc m - ucast pkt_len\<rparr>)
     else if s_te m \<ge> ucast pkt_len then Some (RTE_COLOR_YELLOW, m\<lparr>s_te := s_te m - ucast pkt_len\<rparr>)
     else Some (RTE_COLOR_RED, m) }"

definition rte_meter_srtcm_color_aware_check ::
  "srtcm \<Rightarrow> srtcm_profile \<Rightarrow> u64 \<Rightarrow> u32 \<Rightarrow> rte_color \<Rightarrow> (rte_color \<times> srtcm) option" where
  "rte_meter_srtcm_color_aware_check m p time pkt_len pkt_color = do {
     m \<leftarrow> srtcm_update m p time;
     if pkt_color = RTE_COLOR_GREEN \<and> s_tc m \<ge> ucast pkt_len
     then Some (RTE_COLOR_GREEN, m\<lparr>s_tc := s_tc m - ucast pkt_len\<rparr>)
     else if pkt_color \<noteq> RTE_COLOR_RED \<and> s_te m \<ge> ucast pkt_len
     then Some (RTE_COLOR_YELLOW, m\<lparr>s_te := s_te m - ucast pkt_len\<rparr>)
     else Some (RTE_COLOR_RED, m) }"

definition trtcm_update :: "trtcm \<Rightarrow> trtcm_profile \<Rightarrow> u64 \<Rightarrow> trtcm option" where
  "trtcm_update m p time = do {
     n_tc \<leftarrow> periods time (t_time_tc m) (t_cir_period p);
     n_tp \<leftarrow> periods time (t_time_tp m) (t_pir_period p);
     Some \<lparr>t_time_tc = t_time_tc m + n_tc * t_cir_period p, t_time_tp = t_time_tp m + n_tp * t_pir_period p,
       t_tc = fill (t_tc m) n_tc (t_cir_bytes_per_period p) (t_cbs p),
       t_tp = fill (t_tp m) n_tp (t_pir_bytes_per_period p) (t_pbs p)\<rparr> }"

definition rte_meter_trtcm_color_blind_check ::
  "trtcm \<Rightarrow> trtcm_profile \<Rightarrow> u64 \<Rightarrow> u32 \<Rightarrow> (rte_color \<times> trtcm) option" where
  "rte_meter_trtcm_color_blind_check m p time pkt_len = do {
     m \<leftarrow> trtcm_update m p time;
     if t_tp m < ucast pkt_len then Some (RTE_COLOR_RED, m)
     else if t_tc m < ucast pkt_len then Some (RTE_COLOR_YELLOW, m\<lparr>t_tp := t_tp m - ucast pkt_len\<rparr>)
     else Some (RTE_COLOR_GREEN, m\<lparr>t_tc := t_tc m - ucast pkt_len, t_tp := t_tp m - ucast pkt_len\<rparr>) }"

definition rte_meter_trtcm_color_aware_check ::
  "trtcm \<Rightarrow> trtcm_profile \<Rightarrow> u64 \<Rightarrow> u32 \<Rightarrow> rte_color \<Rightarrow> (rte_color \<times> trtcm) option" where
  "rte_meter_trtcm_color_aware_check m p time pkt_len pkt_color = do {
     m \<leftarrow> trtcm_update m p time;
     if pkt_color = RTE_COLOR_RED \<or> t_tp m < ucast pkt_len then Some (RTE_COLOR_RED, m)
     else if pkt_color = RTE_COLOR_YELLOW \<or> t_tc m < ucast pkt_len
     then Some (RTE_COLOR_YELLOW, m\<lparr>t_tp := t_tp m - ucast pkt_len\<rparr>)
     else Some (RTE_COLOR_GREEN, m\<lparr>t_tc := t_tc m - ucast pkt_len, t_tp := t_tp m - ucast pkt_len\<rparr>) }"

definition rfc4115_update :: "rfc4115 \<Rightarrow> rfc4115_profile \<Rightarrow> u64 \<Rightarrow> rfc4115 option" where
  "rfc4115_update m p time = do {
     n_tc \<leftarrow> periods time (r_time_tc m) (r_cir_period p);
     n_te \<leftarrow> periods time (r_time_te m) (r_eir_period p);
     Some \<lparr>r_time_tc = r_time_tc m + n_tc * r_cir_period p, r_time_te = r_time_te m + n_te * r_eir_period p,
       r_tc = fill (r_tc m) n_tc (r_cir_bytes_per_period p) (r_cbs p),
       r_te = fill (r_te m) n_te (r_eir_bytes_per_period p) (r_ebs p)\<rparr> }"

definition rte_meter_trtcm_rfc4115_color_blind_check ::
  "rfc4115 \<Rightarrow> rfc4115_profile \<Rightarrow> u64 \<Rightarrow> u32 \<Rightarrow> (rte_color \<times> rfc4115) option" where
  "rte_meter_trtcm_rfc4115_color_blind_check m p time pkt_len = do {
     m \<leftarrow> rfc4115_update m p time;
     if r_tc m \<ge> ucast pkt_len then Some (RTE_COLOR_GREEN, m\<lparr>r_tc := r_tc m - ucast pkt_len\<rparr>)
     else if r_te m \<ge> ucast pkt_len then Some (RTE_COLOR_YELLOW, m\<lparr>r_te := r_te m - ucast pkt_len\<rparr>)
     else Some (RTE_COLOR_RED, m) }"

definition rte_meter_trtcm_rfc4115_color_aware_check ::
  "rfc4115 \<Rightarrow> rfc4115_profile \<Rightarrow> u64 \<Rightarrow> u32 \<Rightarrow> rte_color \<Rightarrow> (rte_color \<times> rfc4115) option" where
  "rte_meter_trtcm_rfc4115_color_aware_check m p time pkt_len pkt_color = do {
     m \<leftarrow> rfc4115_update m p time;
     if pkt_color = RTE_COLOR_GREEN \<and> r_tc m \<ge> ucast pkt_len
     then Some (RTE_COLOR_GREEN, m\<lparr>r_tc := r_tc m - ucast pkt_len\<rparr>)
     else if pkt_color \<noteq> RTE_COLOR_RED \<and> r_te m \<ge> ucast pkt_len
     then Some (RTE_COLOR_YELLOW, m\<lparr>r_te := r_te m - ucast pkt_len\<rparr>)
     else Some (RTE_COLOR_RED, m) }"

section \<open>Colours\<close>

instantiation rte_color :: linorder
begin

definition "rank_color c = (case c of RTE_COLOR_GREEN \<Rightarrow> 0 | RTE_COLOR_YELLOW \<Rightarrow> 1 | RTE_COLOR_RED \<Rightarrow> (2 :: nat))"
definition "a \<le> b \<longleftrightarrow> rank_color a \<le> rank_color b"
definition "a < b \<longleftrightarrow> rank_color a < rank_color b"

instance
  by standard (auto simp: less_eq_rte_color_def less_rte_color_def rank_color_def split: rte_color.splits)

end

lemmas color_order = less_eq_rte_color_def less_rte_color_def rank_color_def

lemma blind_is_aware_green:
  "rte_meter_srtcm_color_blind_check sm sp time len =
     rte_meter_srtcm_color_aware_check sm sp time len RTE_COLOR_GREEN"
  "rte_meter_trtcm_color_blind_check tm tp time len =
     rte_meter_trtcm_color_aware_check tm tp time len RTE_COLOR_GREEN"
  "rte_meter_trtcm_rfc4115_color_blind_check rm rp time len =
     rte_meter_trtcm_rfc4115_color_aware_check rm rp time len RTE_COLOR_GREEN"
  by (simp_all add: rte_meter_srtcm_color_blind_check_def rte_meter_srtcm_color_aware_check_def
      rte_meter_trtcm_color_blind_check_def rte_meter_trtcm_color_aware_check_def
      rte_meter_trtcm_rfc4115_color_blind_check_def rte_meter_trtcm_rfc4115_color_aware_check_def cong: if_cong)

lemma aware_never_upgrades:
  "rte_meter_srtcm_color_aware_check sm sp time len col = Some (c, sm') \<Longrightarrow> col \<le> c"
  "rte_meter_trtcm_color_aware_check tm tp time len col = Some (c, tm') \<Longrightarrow> col \<le> c"
  "rte_meter_trtcm_rfc4115_color_aware_check rm rp time len col = Some (c, rm') \<Longrightarrow> col \<le> c"
  by (cases col; auto simp: rte_meter_srtcm_color_aware_check_def rte_meter_trtcm_color_aware_check_def
      rte_meter_trtcm_rfc4115_color_aware_check_def color_order split: bind_splits if_splits rte_color.splits)+

section \<open>The token bucket contract\<close>

text \<open>
  What all the markers promise of a bucket: a check at a time not before its clock adds the tokens
  of the whole periods that have passed, never more, moves the clock by those periods, and takes
  the length of a packet of the colours that the bucket pays for.
\<close>

locale token_bucket =
  fixes check :: "'m \<Rightarrow> u64 \<Rightarrow> u32 \<Rightarrow> rte_color \<Rightarrow> (rte_color \<times> 'm) option"
    and clock :: "'m \<Rightarrow> u64" and tokens :: "'m \<Rightarrow> nat"
    and pays :: "rte_color \<Rightarrow> bool" and period :: u64 and bytes :: u64
  assumes check_law: "check m t len col = Some (c, m') \<Longrightarrow> clock m \<le> t \<Longrightarrow>
    \<exists>n. unat (clock m') = unat (clock m) + n * unat period \<and> unat (clock m') \<le> unat t \<and>
      tokens m' + (if pays c then unat len else 0) \<le> tokens m + n * unat bytes"
    and check_pos: "check m t len col = Some r \<Longrightarrow> period \<noteq> 0"

text \<open>A run of a marker over packets with their time, length and colour, and the bytes a bucket paid.\<close>

fun run_meter :: "('m \<Rightarrow> u64 \<Rightarrow> u32 \<Rightarrow> rte_color \<Rightarrow> (rte_color \<times> 'm) option) \<Rightarrow> 'm \<Rightarrow>
    (u64 \<times> u32 \<times> rte_color) list \<Rightarrow> (rte_color list \<times> 'm) option" where
  "run_meter check m [] = Some ([], m)"
| "run_meter check m ((t, len, col) # ps) = do {
     (c, m) \<leftarrow> check m t len col;
     (cs, m) \<leftarrow> run_meter check m ps;
     Some (c # cs, m) }"

fun paid :: "(rte_color \<Rightarrow> bool) \<Rightarrow> (u64 \<times> u32 \<times> rte_color) list \<Rightarrow> rte_color list \<Rightarrow> nat" where
  "paid pays ((t, len, col) # ps) (c # cs) = (if pays c then unat len else 0) + paid pays ps cs"
| "paid pays _ _ = 0"

context token_bucket
begin

lemma run_conforms:
  assumes "run_meter check m ps = Some (cs, m')" "sorted (map fst ps)" "\<forall>p\<in>set ps. clock m \<le> fst p \<and> fst p \<le> t"
  shows "\<exists>n. paid pays ps cs + tokens m' \<le> tokens m + n * unat bytes \<and>
     (ps \<noteq> [] \<longrightarrow> unat (clock m) + n * unat period \<le> unat t) \<and> (ps = [] \<longrightarrow> n = 0)"
  using assms
proof (induction ps arbitrary: m cs)
  case (Cons p ps)
  obtain u len col where p: "p = (u, len, col)" by (cases p)
  from Cons.prems(1) obtain c m1 cs1 where c: "check m u len col = Some (c, m1)"
      and r: "run_meter check m1 ps = Some (cs1, m')" "cs = c # cs1"
    by (auto simp: p split: bind_splits)
  have "clock m \<le> u" using Cons.prems(3) by (simp add: p)
  from check_law [OF c this]
  obtain n where n: "unat (clock m1) = unat (clock m) + n * unat period" "unat (clock m1) \<le> unat u"
      "tokens m1 + (if pays c then unat len else 0) \<le> tokens m + n * unat bytes"
    by blast
  have u: "clock m1 \<le> u" "u \<le> t" using n(2) Cons.prems(3) by (auto simp: p word_le_nat_alt)
  have "\<forall>q\<in>set ps. clock m1 \<le> fst q \<and> fst q \<le> t"
    using Cons.prems(2,3) u by (auto simp: p)
  then obtain k where k: "paid pays ps cs1 + tokens m' \<le> tokens m1 + k * unat bytes"
      "ps \<noteq> [] \<longrightarrow> unat (clock m1) + k * unat period \<le> unat t" "ps = [] \<longrightarrow> k = 0"
    using Cons.IH [OF r(1)] Cons.prems(2) by (auto simp: p)
  have "unat (clock m) + (n + k) * unat period \<le> unat t"
  proof (cases "ps = []")
    case True
    then show ?thesis using k(3) n u by (simp add: word_le_nat_alt)
  next
    case False
    then show ?thesis using k(2) n(1) by (simp add: distrib_right)
  qed
  moreover have "paid pays (p # ps) cs + tokens m' \<le> tokens m + (n + k) * unat bytes"
    using k(1) n(3) by (simp add: p r(2) distrib_right)
  ultimately show ?case by blast
qed simp

lemma rate_conforms:
  assumes run: "run_meter check m ps = Some (cs, m')" and s: "sorted (map fst ps)"
    and b: "\<forall>p\<in>set ps. clock m \<le> fst p \<and> fst p \<le> t"
  shows "paid pays ps cs \<le> tokens m + (unat t - unat (clock m)) div unat period * unat bytes"
proof (cases ps)
  case Nil
  then show ?thesis using run by simp
next
  case (Cons p qs)
  then obtain r where "check m (fst p) (fst (snd p)) (snd (snd p)) = Some r"
    using run by (cases p) (auto split: bind_splits)
  then have "0 < unat period" using check_pos unat_gt_0 by blast
  moreover obtain n where n: "paid pays ps cs + tokens m' \<le> tokens m + n * unat bytes"
      "unat (clock m) + n * unat period \<le> unat t"
    using run_conforms [OF run s b] Cons by auto
  ultimately have "n \<le> (unat t - unat (clock m)) div unat period" by (simp add: less_eq_div_iff_mult_less_eq)
  then have "n * unat bytes \<le> (unat t - unat (clock m)) div unat period * unat bytes" by (rule mult_le_mono1)
  then show ?thesis using n(1) by linarith
qed

end

section \<open>The markers keep the contract\<close>

lemma periods_Some:
  assumes "periods t prev per = Some n" "prev \<le> t"
  shows "unat (prev + n * per) = unat prev + unat n * unat per \<and> unat (prev + n * per) \<le> unat t \<and> per \<noteq> 0"
proof -
  have per: "per \<noteq> 0" and n: "n = (t - prev) div per" using assms(1) by (auto simp: periods_def split: if_splits)
  have "unat n = (unat t - unat prev) div unat per"
    using assms(2) by (simp add: n unat_div unat_sub_no_wrap)
  then have le: "unat n * unat per \<le> unat t - unat prev" by simp
  have le': "unat prev \<le> unat t" using assms(2) by (simp add: word_le_nat_alt)
  have t: "unat t < 2 ^ LENGTH(64)" by (rule unsigned_less)
  have "unat n * unat per < 2 ^ LENGTH(64)" using le t by linarith
  then have m: "unat (n * per) = unat n * unat per" by (simp only: unat_mult_lem [THEN iffD1])
  moreover have "unat prev + unat n * unat per < 2 ^ LENGTH(64)" using le le' t by linarith
  ultimately have "unat (prev + n * per) = unat prev + unat n * unat per"
    by (subst unat_add_no_wrap) simp_all
  then show ?thesis using le le' per by simp
qed

lemma unat_add_mult_le: "unat (a + n * b :: u64) \<le> unat a + unat n * unat b"
proof -
  have "unat (a + n * b) = (unat a + unat n * unat b) mod 2 ^ 64"
    by (simp add: unat_word_ariths mod_simps)
  then show ?thesis by (metis mod_less_eq_dividend)
qed

lemma fill_le: "unat (fill a n b cap) \<le> unat a + unat n * unat b"
  using unat_add_mult_le [of a n b] by (auto simp: fill_def Let_def word_less_nat_alt)

lemma fill_le_cap: "fill a n b cap \<le> cap"
  by (simp add: fill_def Let_def linorder_not_less)

lemma unat_len [simp]: "unat (ucast (len :: u32) :: u64) = unat len"
proof -
  have "unat len < 4294967296" by (rule unat_less_32)
  then have "unat len < 18446744073709551616" by linarith
  then show ?thesis by (simp only: unsigned_ucast_eq) (simp add: take_bit_eq_mod)
qed

lemma take_tokens: "ucast (len :: u32) \<le> (tk :: u64) \<Longrightarrow> unat (tk - ucast len) + unat len = unat tk"
  by (simp add: unat_sub_no_wrap word_le_nat_alt)

lemma srtcm_update_Some:
  assumes "srtcm_update m p t = Some m'" "s_time m \<le> t"
  obtains n where "unat (s_time m') = unat (s_time m) + n * unat (s_cir_period p)" "unat (s_time m') \<le> unat t"
    "unat (s_tc m') + unat (s_te m') \<le> unat (s_tc m) + unat (s_te m) + n * unat (s_cir_bytes_per_period p)"
    "unat (s_tc m') \<le> unat (s_tc m) + n * unat (s_cir_bytes_per_period p)" "s_cir_period p \<noteq> 0"
    "s_tc m' \<le> s_cbs p"
proof -
  from assms(1) obtain n where n: "periods t (s_time m) (s_cir_period p) = Some n"
    by (auto simp: srtcm_update_def split: bind_splits)
  let ?tc = "s_tc m + n * s_cir_bytes_per_period p"
  let ?te = "let te = s_te m + (?tc - s_cbs p) in if te > s_ebs p then s_ebs p else te"
  have m': "m' = \<lparr>s_time = s_time m + n * s_cir_period p, s_tc = (if ?tc > s_cbs p then s_cbs p else ?tc),
      s_te = (if ?tc > s_cbs p then ?te else s_te m)\<rparr>"
    using assms(1) n by (simp add: srtcm_update_def Let_def split: if_splits)
  note P = periods_Some [OF n assms(2)] and A = unat_add_mult_le [of "s_tc m" n "s_cir_bytes_per_period p"]
  have te: "unat ?te \<le> unat (s_te m) + (unat ?tc - unat (s_cbs p))" if "?tc > s_cbs p"
  proof -
    have "unat (s_te m + (?tc - s_cbs p)) \<le> unat (s_te m) + unat (?tc - s_cbs p)"
      using unat_add_mult_le [of "s_te m" 1 "?tc - s_cbs p"] by simp
    moreover have "unat (?tc - s_cbs p) = unat ?tc - unat (s_cbs p)"
      using that by (simp add: unat_sub_no_wrap)
    ultimately show ?thesis by (auto simp: Let_def word_less_nat_alt)
  qed
  have "unat (s_tc m') + unat (s_te m') \<le> unat ?tc + unat (s_te m)"
    using te by (auto simp: m' word_less_nat_alt simp del: unat_less_64)
  then have "unat (s_tc m') + unat (s_te m') \<le> unat (s_tc m) + unat (s_te m) + unat n * unat (s_cir_bytes_per_period p)"
    using A by linarith
  moreover have "unat (s_tc m') \<le> unat (s_tc m) + unat n * unat (s_cir_bytes_per_period p)"
    using A by (auto simp: m' word_less_nat_alt)
  moreover have "s_tc m' \<le> s_cbs p" by (simp add: m' linorder_not_less)
  ultimately show ?thesis using that [of "unat n"] P by (simp add: m')
qed

abbreviation srtcm_check where
  "srtcm_check p m \<equiv> rte_meter_srtcm_color_aware_check m p"
abbreviation trtcm_check where
  "trtcm_check p m \<equiv> rte_meter_trtcm_color_aware_check m p"
abbreviation rfc4115_check where
  "rfc4115_check p m \<equiv> rte_meter_trtcm_rfc4115_color_aware_check m p"

lemma srtcm_check_cases:
  assumes "srtcm_check p m t len col = Some (c, m')"
  obtains m1 where "srtcm_update m p t = Some m1" "s_time m' = s_time m1"
    "unat (s_tc m') + (if c = RTE_COLOR_GREEN then unat len else 0) = unat (s_tc m1)"
    "unat (s_te m') + (if c = RTE_COLOR_YELLOW then unat len else 0) = unat (s_te m1)"
  using assms take_tokens
  by (fastforce simp: rte_meter_srtcm_color_aware_check_def split: bind_splits if_splits)

interpretation srtcm_c: token_bucket "srtcm_check p" s_time "\<lambda>m. unat (s_tc m)" "\<lambda>c. c = RTE_COLOR_GREEN"
  "s_cir_period p" "s_cir_bytes_per_period p" for p
proof unfold_locales
  fix m t len col c m'
  assume c: "srtcm_check p m t len col = Some (c, m')" and t: "s_time m \<le> t"
  obtain m1 where m1: "srtcm_update m p t = Some m1" "s_time m' = s_time m1"
      "unat (s_tc m') + (if c = RTE_COLOR_GREEN then unat len else 0) = unat (s_tc m1)"
    using srtcm_check_cases [OF c] by metis
  show "\<exists>n. unat (s_time m') = unat (s_time m) + n * unat (s_cir_period p) \<and> unat (s_time m') \<le> unat t \<and>
      unat (s_tc m') + (if c = RTE_COLOR_GREEN then unat len else 0)
        \<le> unat (s_tc m) + n * unat (s_cir_bytes_per_period p)"
    using srtcm_update_Some [OF m1(1) t] by (metis m1(2,3))
next
  fix m t len col r
  assume "srtcm_check p m t len col = Some r"
  then show "s_cir_period p \<noteq> 0"
    by (auto simp: rte_meter_srtcm_color_aware_check_def srtcm_update_def periods_def split: bind_splits if_splits)
qed

interpretation srtcm_ce: token_bucket "srtcm_check p" s_time "\<lambda>m. unat (s_tc m) + unat (s_te m)"
  "\<lambda>c. c \<noteq> RTE_COLOR_RED" "s_cir_period p" "s_cir_bytes_per_period p" for p
proof unfold_locales
  fix m t len col c m'
  assume c: "srtcm_check p m t len col = Some (c, m')" and t: "s_time m \<le> t"
  obtain m1 where m1: "srtcm_update m p t = Some m1" "s_time m' = s_time m1"
      "unat (s_tc m') + (if c = RTE_COLOR_GREEN then unat len else 0) = unat (s_tc m1)"
      "unat (s_te m') + (if c = RTE_COLOR_YELLOW then unat len else 0) = unat (s_te m1)"
    using srtcm_check_cases [OF c] by metis
  have "unat (s_tc m') + unat (s_te m') + (if c \<noteq> RTE_COLOR_RED then unat len else 0) = unat (s_tc m1) + unat (s_te m1)"
    using m1(3,4) by (cases c) simp_all
  then show "\<exists>n. unat (s_time m') = unat (s_time m) + n * unat (s_cir_period p) \<and> unat (s_time m') \<le> unat t \<and>
      unat (s_tc m') + unat (s_te m') + (if c \<noteq> RTE_COLOR_RED then unat len else 0)
        \<le> unat (s_tc m) + unat (s_te m) + n * unat (s_cir_bytes_per_period p)"
    using srtcm_update_Some [OF m1(1) t] by (metis m1(2))
qed (rule srtcm_c.check_pos)

lemma trtcm_update_Some:
  assumes "trtcm_update m p t = Some m'"
  shows "t_time_tc m \<le> t \<Longrightarrow> \<exists>n. unat (t_time_tc m') = unat (t_time_tc m) + n * unat (t_cir_period p) \<and>
      unat (t_time_tc m') \<le> unat t \<and> unat (t_tc m') \<le> unat (t_tc m) + n * unat (t_cir_bytes_per_period p)"
    and "t_time_tp m \<le> t \<Longrightarrow> \<exists>n. unat (t_time_tp m') = unat (t_time_tp m) + n * unat (t_pir_period p) \<and>
      unat (t_time_tp m') \<le> unat t \<and> unat (t_tp m') \<le> unat (t_tp m) + n * unat (t_pir_bytes_per_period p)"
    and "t_cir_period p \<noteq> 0" "t_pir_period p \<noteq> 0" "t_tc m' \<le> t_cbs p" "t_tp m' \<le> t_pbs p"
proof -
  from assms obtain n k where n: "periods t (t_time_tc m) (t_cir_period p) = Some n"
      and k: "periods t (t_time_tp m) (t_pir_period p) = Some k"
    by (auto simp: trtcm_update_def split: bind_splits)
  then have m': "m' = \<lparr>t_time_tc = t_time_tc m + n * t_cir_period p, t_time_tp = t_time_tp m + k * t_pir_period p,
       t_tc = fill (t_tc m) n (t_cir_bytes_per_period p) (t_cbs p),
       t_tp = fill (t_tp m) k (t_pir_bytes_per_period p) (t_pbs p)\<rparr>"
    using assms by (simp add: trtcm_update_def)
  show "t_cir_period p \<noteq> 0" "t_pir_period p \<noteq> 0" "t_tc m' \<le> t_cbs p" "t_tp m' \<le> t_pbs p"
    using n k by (simp_all add: m' fill_le_cap periods_def split: if_splits)
  show "t_time_tc m \<le> t \<Longrightarrow> \<exists>n. unat (t_time_tc m') = unat (t_time_tc m) + n * unat (t_cir_period p) \<and>
      unat (t_time_tc m') \<le> unat t \<and> unat (t_tc m') \<le> unat (t_tc m) + n * unat (t_cir_bytes_per_period p)"
    using periods_Some [OF n] by (intro exI [of _ "unat n"]) (simp add: m' fill_le)
  show "t_time_tp m \<le> t \<Longrightarrow> \<exists>n. unat (t_time_tp m') = unat (t_time_tp m) + n * unat (t_pir_period p) \<and>
      unat (t_time_tp m') \<le> unat t \<and> unat (t_tp m') \<le> unat (t_tp m) + n * unat (t_pir_bytes_per_period p)"
    using periods_Some [OF k] by (intro exI [of _ "unat k"]) (simp add: m' fill_le)
qed

lemma trtcm_check_cases:
  assumes "trtcm_check p m t len col = Some (c, m')"
  obtains m1 where "trtcm_update m p t = Some m1" "t_time_tc m' = t_time_tc m1" "t_time_tp m' = t_time_tp m1"
    "unat (t_tc m') + (if c = RTE_COLOR_GREEN then unat len else 0) = unat (t_tc m1)"
    "unat (t_tp m') + (if c \<noteq> RTE_COLOR_RED then unat len else 0) = unat (t_tp m1)"
  using assms take_tokens
  by (fastforce simp: rte_meter_trtcm_color_aware_check_def not_less split: bind_splits if_splits)

interpretation trtcm_c: token_bucket "trtcm_check p" t_time_tc "\<lambda>m. unat (t_tc m)" "\<lambda>c. c = RTE_COLOR_GREEN"
  "t_cir_period p" "t_cir_bytes_per_period p" for p
proof unfold_locales
  fix m t len col c m'
  assume c: "trtcm_check p m t len col = Some (c, m')" and t: "t_time_tc m \<le> t"
  then show "\<exists>n. unat (t_time_tc m') = unat (t_time_tc m) + n * unat (t_cir_period p) \<and> unat (t_time_tc m') \<le> unat t \<and>
      unat (t_tc m') + (if c = RTE_COLOR_GREEN then unat len else 0)
        \<le> unat (t_tc m) + n * unat (t_cir_bytes_per_period p)"
    using trtcm_check_cases [OF c] trtcm_update_Some(1) [OF _ t] by metis
next
  fix m t len col r
  assume "trtcm_check p m t len col = Some r"
  then show "t_cir_period p \<noteq> 0"
    using trtcm_update_Some(3) by (auto simp: rte_meter_trtcm_color_aware_check_def split: bind_splits)
qed

interpretation trtcm_p: token_bucket "trtcm_check p" t_time_tp "\<lambda>m. unat (t_tp m)" "\<lambda>c. c \<noteq> RTE_COLOR_RED"
  "t_pir_period p" "t_pir_bytes_per_period p" for p
proof unfold_locales
  fix m t len col c m'
  assume c: "trtcm_check p m t len col = Some (c, m')" and t: "t_time_tp m \<le> t"
  then show "\<exists>n. unat (t_time_tp m') = unat (t_time_tp m) + n * unat (t_pir_period p) \<and> unat (t_time_tp m') \<le> unat t \<and>
      unat (t_tp m') + (if c \<noteq> RTE_COLOR_RED then unat len else 0)
        \<le> unat (t_tp m) + n * unat (t_pir_bytes_per_period p)"
    using trtcm_check_cases [OF c] trtcm_update_Some(2) [OF _ t] by metis
next
  fix m t len col r
  assume "trtcm_check p m t len col = Some r"
  then show "t_pir_period p \<noteq> 0"
    using trtcm_update_Some(4) by (auto simp: rte_meter_trtcm_color_aware_check_def split: bind_splits)
qed

lemma rfc4115_update_Some:
  assumes "rfc4115_update m p t = Some m'"
  shows "r_time_tc m \<le> t \<Longrightarrow> \<exists>n. unat (r_time_tc m') = unat (r_time_tc m) + n * unat (r_cir_period p) \<and>
      unat (r_time_tc m') \<le> unat t \<and> unat (r_tc m') \<le> unat (r_tc m) + n * unat (r_cir_bytes_per_period p)"
    and "r_time_te m \<le> t \<Longrightarrow> \<exists>n. unat (r_time_te m') = unat (r_time_te m) + n * unat (r_eir_period p) \<and>
      unat (r_time_te m') \<le> unat t \<and> unat (r_te m') \<le> unat (r_te m) + n * unat (r_eir_bytes_per_period p)"
    and "r_cir_period p \<noteq> 0" "r_eir_period p \<noteq> 0" "r_tc m' \<le> r_cbs p" "r_te m' \<le> r_ebs p"
proof -
  from assms obtain n k where n: "periods t (r_time_tc m) (r_cir_period p) = Some n"
      and k: "periods t (r_time_te m) (r_eir_period p) = Some k"
    by (auto simp: rfc4115_update_def split: bind_splits)
  then have m': "m' = \<lparr>r_time_tc = r_time_tc m + n * r_cir_period p, r_time_te = r_time_te m + k * r_eir_period p,
       r_tc = fill (r_tc m) n (r_cir_bytes_per_period p) (r_cbs p),
       r_te = fill (r_te m) k (r_eir_bytes_per_period p) (r_ebs p)\<rparr>"
    using assms by (simp add: rfc4115_update_def)
  show "r_cir_period p \<noteq> 0" "r_eir_period p \<noteq> 0" "r_tc m' \<le> r_cbs p" "r_te m' \<le> r_ebs p"
    using n k by (simp_all add: m' fill_le_cap periods_def split: if_splits)
  show "r_time_tc m \<le> t \<Longrightarrow> \<exists>n. unat (r_time_tc m') = unat (r_time_tc m) + n * unat (r_cir_period p) \<and>
      unat (r_time_tc m') \<le> unat t \<and> unat (r_tc m') \<le> unat (r_tc m) + n * unat (r_cir_bytes_per_period p)"
    using periods_Some [OF n] by (intro exI [of _ "unat n"]) (simp add: m' fill_le)
  show "r_time_te m \<le> t \<Longrightarrow> \<exists>n. unat (r_time_te m') = unat (r_time_te m) + n * unat (r_eir_period p) \<and>
      unat (r_time_te m') \<le> unat t \<and> unat (r_te m') \<le> unat (r_te m) + n * unat (r_eir_bytes_per_period p)"
    using periods_Some [OF k] by (intro exI [of _ "unat k"]) (simp add: m' fill_le)
qed

lemma rfc4115_check_cases:
  assumes "rfc4115_check p m t len col = Some (c, m')"
  obtains m1 where "rfc4115_update m p t = Some m1" "r_time_tc m' = r_time_tc m1" "r_time_te m' = r_time_te m1"
    "unat (r_tc m') + (if c = RTE_COLOR_GREEN then unat len else 0) = unat (r_tc m1)"
    "unat (r_te m') + (if c = RTE_COLOR_YELLOW then unat len else 0) = unat (r_te m1)"
  using assms take_tokens
  by (fastforce simp: rte_meter_trtcm_rfc4115_color_aware_check_def split: bind_splits if_splits)

interpretation rfc4115_c: token_bucket "rfc4115_check p" r_time_tc "\<lambda>m. unat (r_tc m)" "\<lambda>c. c = RTE_COLOR_GREEN"
  "r_cir_period p" "r_cir_bytes_per_period p" for p
proof unfold_locales
  fix m t len col c m'
  assume c: "rfc4115_check p m t len col = Some (c, m')" and t: "r_time_tc m \<le> t"
  then show "\<exists>n. unat (r_time_tc m') = unat (r_time_tc m) + n * unat (r_cir_period p) \<and> unat (r_time_tc m') \<le> unat t \<and>
      unat (r_tc m') + (if c = RTE_COLOR_GREEN then unat len else 0)
        \<le> unat (r_tc m) + n * unat (r_cir_bytes_per_period p)"
    using rfc4115_check_cases [OF c] rfc4115_update_Some(1) [OF _ t] by metis
next
  fix m t len col r
  assume "rfc4115_check p m t len col = Some r"
  then show "r_cir_period p \<noteq> 0"
    using rfc4115_update_Some(3) by (auto simp: rte_meter_trtcm_rfc4115_color_aware_check_def split: bind_splits)
qed

interpretation rfc4115_e: token_bucket "rfc4115_check p" r_time_te "\<lambda>m. unat (r_te m)" "\<lambda>c. c = RTE_COLOR_YELLOW"
  "r_eir_period p" "r_eir_bytes_per_period p" for p
proof unfold_locales
  fix m t len col c m'
  assume c: "rfc4115_check p m t len col = Some (c, m')" and t: "r_time_te m \<le> t"
  then show "\<exists>n. unat (r_time_te m') = unat (r_time_te m) + n * unat (r_eir_period p) \<and> unat (r_time_te m') \<le> unat t \<and>
      unat (r_te m') + (if c = RTE_COLOR_YELLOW then unat len else 0)
        \<le> unat (r_te m) + n * unat (r_eir_bytes_per_period p)"
    using rfc4115_check_cases [OF c] rfc4115_update_Some(2) [OF _ t] by metis
next
  fix m t len col r
  assume "rfc4115_check p m t len col = Some r"
  then show "r_eir_period p \<noteq> 0"
    using rfc4115_update_Some(4) by (auto simp: rte_meter_trtcm_rfc4115_color_aware_check_def split: bind_splits)
qed

section \<open>The bucket parameters\<close>

lemma tb_params:
  assumes hz: "0 < unat hz" "unat hz \<le> 2 ^ 53" and rate: "0 < unat rate" "unat rate \<le> 2 ^ 53"
  shows "\<exists>period bytes. rte_meter_get_tb_params hz rate = Some (period, bytes) \<and> 99 \<le> unat period \<and> 1 \<le> unat bytes \<and>
     unat period * unat rate \<le> unat hz * unat bytes + 1 \<and> unat hz * unat bytes \<le> (unat period + 1) * unat rate + 1"
proof -
  define h r where "h = (of_nat (unat hz) :: rat)" and "r = (of_nat (unat rate) :: rat)"
  let ?u = "1 / 2 ^ 53 :: rat"
  have "(of_nat (unat hz) :: rat) \<le> of_nat (2 ^ 53)" "(of_nat (unat rate) :: rat) \<le> of_nat (2 ^ 53)"
    using hz rate by (simp_all only: of_nat_le_iff)
  moreover have "1 \<le> (of_nat (unat hz) :: rat)" "1 \<le> (of_nat (unat rate) :: rat)"
    using hz rate by (metis One_nat_def Suc_leI of_nat_1 of_nat_mono)+
  ultimately have B: "1 \<le> h" "h \<le> 2 ^ 53" "1 \<le> r" "r \<le> 2 ^ 53" by (simp_all add: h_def r_def)
  have r0: "rate \<noteq> 0" using rate by auto
  define x0 where "x0 = h / r"
  have q: "1 / 2 ^ 64 \<le> x0" "x0 \<le> 2 ^ 128" "1 / 2 ^ 53 \<le> x0" "x0 \<le> 2 ^ 53"
  proof -
    have "1 / 2 ^ 53 \<le> 1 / r" using B by (intro divide_left_mono) simp_all
    also have "\<dots> \<le> x0" using B by (simp add: x0_def divide_right_mono)
    finally show lo: "1 / 2 ^ 53 \<le> x0" .
    have "(1 / 2 ^ 64 :: rat) \<le> 1 / 2 ^ 53" by simp
    with lo show "1 / 2 ^ 64 \<le> x0" by linarith
    have "x0 \<le> h" using B by (simp add: x0_def field_simps mult_le_cancel_left1)
    with B show hi: "x0 \<le> 2 ^ 53" by linarith
    have "(2 ^ 53 :: rat) \<le> 2 ^ 128" by simp
    with hi show "x0 \<le> 2 ^ 128" by linarith
  qed
  obtain p where p: "dbl x0 = Fin p" "x0 * (1 - ?u) \<le> p" "p \<le> x0 * (1 + ?u)"
    using dbl_normal [OF q(1,2)] by blast
  have period: "fdiv (fp_of_nat (unat hz)) (fp_of_nat (unat rate)) = Fin p"
    using p(1) B unfolding x0_def fp_of_nat_exact [OF hz(2)] fp_of_nat_exact [OF rate(2)] h_def [symmetric] r_def [symmetric]
    by simp
  have c100: "fp_of_nat RTE_METER_TB_PERIOD_MIN = Fin 100" by (simp add: RTE_METER_TB_PERIOD_MIN_def fp_of_nat_exact)
  have pr: "h * (1 - ?u) \<le> p * r" "p * r \<le> h * (1 + ?u)"
    using p(2,3) B by (simp_all add: x0_def field_simps)
  have xp: "0 < x0" using q(3) by (rule less_le_trans [rotated]) simp
  have "x0 / 2 \<le> p" by (rule order_trans [OF _ p(2)]) (use xp in simp)
  moreover have "p \<le> 2 * x0" by (rule order_trans [OF p(3)]) (use xp in simp)
  ultimately have ph: "x0 / 2 \<le> p" "p \<le> 2 * x0" .
  have p0: "0 < p" using ph(1) xp by linarith
  have "(2 :: rat) * 2 ^ 53 = 2 ^ 54" by simp
  then have pu: "p \<le> 2 ^ 54" using ph(2) q(4) by linarith
  show ?thesis
  proof (cases "100 \<le> p")
    case True
    have "p < 2 ^ 64" using pu by (rule le_less_trans) simp
    then obtain w where w: "to_u64 (Fin p) = Some w" "unat w = nat \<lfloor>p\<rfloor>" using to_u64_floor [of p] p0 by auto
    have "(of_nat (unat w) :: rat) = of_int \<lfloor>p\<rfloor>" using w(2) p0 by simp
    then have f: "of_nat (unat w) \<le> p" "p < of_nat (unat w) + 1" by linarith+
    have "100 \<le> \<lfloor>p\<rfloor>" using True by simp
    then have g: "99 \<le> unat w" unfolding w(2) by linarith
    have "rte_meter_get_tb_params hz rate = Some (w, 1)"
      using r0 w(1) True by (simp add: rte_meter_get_tb_params_def period c100)
    moreover have "unat w * unat rate \<le> unat hz + 1"
    proof -
      have "of_nat (unat w) * r \<le> p * r" using f B by (intro mult_right_mono) simp_all
      also have "\<dots> \<le> h + 1" using pr(2) B by (simp add: field_simps)
      finally show ?thesis unfolding h_def r_def by (metis (mono_tags) of_nat_1 of_nat_add of_nat_le_iff of_nat_mult)
    qed
    moreover have "unat hz \<le> (unat w + 1) * unat rate + 1"
    proof -
      have "h - 1 \<le> p * r" using pr(1) B by (simp add: field_simps)
      also have "\<dots> \<le> (of_nat (unat w) + 1) * r" using f B by (intro mult_right_mono) simp_all
      finally have "h \<le> (of_nat (unat w) + 1) * r + 1" by simp
      then show ?thesis unfolding h_def r_def by (metis (mono_tags) of_nat_1 of_nat_add of_nat_le_iff of_nat_mult)
    qed
    ultimately show ?thesis using g by auto
  next
    case False
    let ?x = "100 / p"
    have x: "1 \<le> ?x" using False p0 by simp
    have xu: "?x \<le> 2 ^ 61"
    proof -
      have "(1 / 2 ^ 54 :: rat) = 1 / 2 ^ 53 / 2" by simp
      also have "\<dots> \<le> x0 / 2" by (rule divide_right_mono [OF q(3)]) simp
      also have "\<dots> \<le> p" by (rule ph(1))
      finally have "1 / 2 ^ 54 \<le> p" .
      then have "100 / p \<le> 100 / (1 / 2 ^ 54)" by (intro divide_left_mono) (use p0 in simp_all)
      then show ?thesis by simp
    qed
    have "1 / 2 ^ 64 \<le> ?x" by (rule order_trans [OF _ x]) simp
    moreover have "?x \<le> 2 ^ 128" by (rule order_trans [OF xu]) simp
    ultimately obtain y where y: "dbl ?x = Fin y" "?x * (1 - ?u) \<le> y" "y \<le> ?x * (1 + ?u)"
      using dbl_normal [of ?x] by blast
    define c where "c = \<lceil>y\<rceil>"
    have k0: "0 \<le> c" "0 < c" using y(2) x by (simp_all add: c_def less_ceiling_iff mult_pos_pos) 
    let ?k = "of_int c :: rat"
    have k: "y \<le> ?k" "?k < y + 1" by (simp_all add: c_def) linarith
    have u: "(1 + ?u) * (99 / 100) \<le> 1 - ?u" "100 / 101 \<le> 1 - ?u" "1 + ?u \<le> 102 / 101" by simp_all
    define X where "X = h * ?x"
    have X: "X * (1 - ?u) \<le> 100 * r" "100 * r \<le> X * (1 + ?u)" "0 \<le> X"
      using pr p0 B by (simp_all add: X_def field_simps)
    have "X * (100 / 101) \<le> 100 * r" by (rule order_trans [OF mult_left_mono [OF u(2) X(3)] X(1)])
    then have X101: "X \<le> 101 * r" by linarith
    have "h * y \<le> X * (1 + ?u)" unfolding X_def mult.assoc by (rule mult_left_mono [OF y(3)]) (use B in simp)
    also have "\<dots> \<le> X * (102 / 101)" by (rule mult_left_mono [OF u(3) X(3)])
    finally have hy: "h * y \<le> 102 * r" using X101 by linarith
    have "h * ?k \<le> h * (y + 1)" using k B by (intro mult_left_mono) simp_all
    then have up: "h * ?k \<le> 102 * r + h" using hy unfolding distrib_left by linarith
    have "X * ((1 + ?u) * (99 / 100)) \<le> X * (1 - ?u)" by (rule mult_left_mono [OF u(1) X(3)])
    also have "\<dots> \<le> h * y" unfolding X_def mult.assoc by (rule mult_left_mono [OF y(2)]) (use B in simp)
    also have "\<dots> \<le> h * ?k" using k B by (intro mult_left_mono) simp_all
    finally have "X * (1 + ?u) * (99 / 100) \<le> h * ?k" unfolding mult.assoc .
    then have lo: "99 * r \<le> h * ?k" using mult_right_mono [OF X(2), of "99 / 100"] by linarith
    have "?k \<le> h * ?k" using B(1) k0 by (simp add: mult_le_cancel_right1)
    then have "?k \<le> 103 * 2 ^ 53" using up B by linarith
    then have "?k < 2 ^ 64" by (rule le_less_trans) simp
    moreover have "0 \<le> ?k" using k0 by simp
    ultimately obtain w where w: "to_u64 (Fin ?k) = Some w" "unat w = nat \<lfloor>?k\<rfloor>" using to_u64_floor [of ?k] by blast
    have wk: "of_nat (unat w) = ?k" using w(2) k0 by simp
    have prod: "of_nat (unat hz * unat w) = h * ?k" by (simp only: of_nat_mult wk h_def)
    have "h * ?k \<le> 103 * 2 ^ 53" using up B by linarith
    then have "of_nat (unat hz * unat w) \<le> (of_nat (103 * 2 ^ 53) :: rat)" using prod by simp
    then have "unat hz * unat w \<le> 103 * 2 ^ 53" by (simp only: of_nat_le_iff)
    then have nowrap: "unat (hz * w) = unat hz * unat w" by (subst unat_mult_lem [THEN iffD1]) simp_all
    have "of_nat (99 * unat rate) \<le> (of_nat (unat hz * unat w) :: rat)" using lo prod by (simp add: r_def)
    then have n99: "99 * unat rate \<le> unat hz * unat w" by (simp only: of_nat_le_iff)
    let ?t = "(hz * w) div rate"
    have t: "unat ?t = (unat hz * unat w) div unat rate" by (simp add: unat_div nowrap)
    have g: "99 \<le> unat ?t" using n99 rate(1) by (simp add: t less_eq_div_iff_mult_less_eq)
    have d: "unat ?t * unat rate \<le> unat hz * unat w" "unat hz * unat w < (unat ?t + 1) * unat rate"
      using rate(1) by (simp_all add: t) (metis dividend_less_div_times add.commute)
    have "rte_meter_get_tb_params hz rate = Some (?t, w)"
      using r0 w(1) False y(1) p0 by (simp add: rte_meter_get_tb_params_def period c100 c_def)
    moreover have "1 \<le> unat w" using w(2) k0 by simp
    ultimately show ?thesis using g d by auto
  qed
qed

section \<open>Properties\<close>

text \<open>C29: RFC 2697: over any run of an srTCM marker from its configuration on, with the clock never running
  backwards, the green bytes are at most the committed burst plus the tokens of the whole periods that
  have passed, and the green and yellow bytes together at most both bursts plus those tokens.\<close>

theorem srtcm_conforms:
  assumes cfg: "rte_meter_srtcm_config now m0 (Some p) = (0, Some m)"
    and run: "run_meter (srtcm_check p) m ps = Some (cs, m')"
    and times: "sorted (map fst ps)" "\<forall>q\<in>set ps. now \<le> fst q \<and> fst q \<le> t"
  shows "paid (\<lambda>c. c = RTE_COLOR_GREEN) ps cs
       \<le> unat (s_cbs p) + (unat t - unat now) div unat (s_cir_period p) * unat (s_cir_bytes_per_period p) \<and>
     paid (\<lambda>c. c \<noteq> RTE_COLOR_RED) ps cs
       \<le> unat (s_cbs p) + unat (s_ebs p) + (unat t - unat now) div unat (s_cir_period p) * unat (s_cir_bytes_per_period p)"
proof -
  have m: "m = \<lparr>s_time = now, s_tc = s_cbs p, s_te = s_ebs p\<rparr>"
    using cfg by (simp add: rte_meter_srtcm_config_def EINVAL_def split: option.splits)
  have b: "\<forall>q\<in>set ps. s_time m \<le> fst q \<and> fst q \<le> t" using times(2) by (simp add: m)
  show ?thesis
    using srtcm_c.rate_conforms [OF run times(1) b] srtcm_ce.rate_conforms [OF run times(1) b] by (simp add: m)
qed

definition demo_srtcm :: srtcm_profile where
  "demo_srtcm = \<lparr>s_cbs = 100, s_ebs = 50, s_cir_period = 10, s_cir_bytes_per_period = 1\<rparr>"

lemma srtcm_conforms_witness:
  "\<exists>m'. run_meter (srtcm_check demo_srtcm) \<lparr>s_time = 7, s_tc = 100, s_te = 50\<rparr>
       [(8, 80, RTE_COLOR_GREEN), (9, 40, RTE_COLOR_GREEN), (9, 40, RTE_COLOR_GREEN)]
     = Some ([RTE_COLOR_GREEN, RTE_COLOR_YELLOW, RTE_COLOR_RED], m') \<and> 80 + 40 \<le> (150 :: nat)"
proof -
  let ?m = "\<lparr>s_time = 7, s_tc = 100, s_te = 50\<rparr> :: srtcm"
  let ?ps = "[(8, 80, RTE_COLOR_GREEN), (9, 40, RTE_COLOR_GREEN), (9, 40, RTE_COLOR_GREEN)] :: (u64 \<times> u32 \<times> rte_color) list"
  have c: "rte_meter_srtcm_config 7 (Some ?m) (Some demo_srtcm) = (0, Some ?m)"
    by (simp add: rte_meter_srtcm_config_def demo_srtcm_def)
  have r: "run_meter (srtcm_check demo_srtcm) ?m ?ps
      = Some ([RTE_COLOR_GREEN, RTE_COLOR_YELLOW, RTE_COLOR_RED], \<lparr>s_time = 7, s_tc = 20, s_te = 10\<rparr>)"
    by (simp add: rte_meter_srtcm_color_aware_check_def srtcm_update_def periods_def demo_srtcm_def)
  have "sorted (map fst ?ps)" "\<forall>q\<in>set ?ps. 7 \<le> fst q \<and> fst q \<le> (9 :: u64)" by simp_all
  from srtcm_conforms [OF c r this] show ?thesis using r by (simp add: demo_srtcm_def)
qed

text \<open>C30: RFC 2698: the green bytes of a trTCM run are bounded by the committed burst and rate, the green
  and yellow bytes by the peak burst and rate.\<close>

theorem trtcm_conforms:
  assumes cfg: "rte_meter_trtcm_config now m0 (Some p) = (0, Some m)"
    and run: "run_meter (trtcm_check p) m ps = Some (cs, m')"
    and times: "sorted (map fst ps)" "\<forall>q\<in>set ps. now \<le> fst q \<and> fst q \<le> t"
  shows "paid (\<lambda>c. c = RTE_COLOR_GREEN) ps cs
       \<le> unat (t_cbs p) + (unat t - unat now) div unat (t_cir_period p) * unat (t_cir_bytes_per_period p) \<and>
     paid (\<lambda>c. c \<noteq> RTE_COLOR_RED) ps cs
       \<le> unat (t_pbs p) + (unat t - unat now) div unat (t_pir_period p) * unat (t_pir_bytes_per_period p)"
proof -
  have m: "m = \<lparr>t_time_tc = now, t_time_tp = now, t_tc = t_cbs p, t_tp = t_pbs p\<rparr>"
    using cfg by (simp add: rte_meter_trtcm_config_def EINVAL_def split: option.splits)
  have b: "\<forall>q\<in>set ps. t_time_tc m \<le> fst q \<and> fst q \<le> t" "\<forall>q\<in>set ps. t_time_tp m \<le> fst q \<and> fst q \<le> t"
    using times(2) by (simp_all add: m)
  show ?thesis
    using trtcm_c.rate_conforms [OF run times(1) b(1)] trtcm_p.rate_conforms [OF run times(1) b(2)] by (simp add: m)
qed

definition demo_trtcm :: trtcm_profile where
  "demo_trtcm = \<lparr>t_cbs = 100, t_pbs = 150, t_cir_period = 10, t_cir_bytes_per_period = 1,
     t_pir_period = 5, t_pir_bytes_per_period = 1\<rparr>"

lemma trtcm_conforms_witness:
  "\<exists>m'. run_meter (trtcm_check demo_trtcm) \<lparr>t_time_tc = 7, t_time_tp = 7, t_tc = 100, t_tp = 150\<rparr>
       [(8, 80, RTE_COLOR_GREEN), (9, 40, RTE_COLOR_GREEN), (9, 40, RTE_COLOR_GREEN)]
     = Some ([RTE_COLOR_GREEN, RTE_COLOR_YELLOW, RTE_COLOR_RED], m') \<and> 80 + 40 \<le> (150 :: nat)"
proof -
  let ?m = "\<lparr>t_time_tc = 7, t_time_tp = 7, t_tc = 100, t_tp = 150\<rparr> :: trtcm"
  let ?ps = "[(8, 80, RTE_COLOR_GREEN), (9, 40, RTE_COLOR_GREEN), (9, 40, RTE_COLOR_GREEN)] :: (u64 \<times> u32 \<times> rte_color) list"
  have c: "rte_meter_trtcm_config 7 (Some ?m) (Some demo_trtcm) = (0, Some ?m)"
    by (simp add: rte_meter_trtcm_config_def demo_trtcm_def)
  have r: "run_meter (trtcm_check demo_trtcm) ?m ?ps
      = Some ([RTE_COLOR_GREEN, RTE_COLOR_YELLOW, RTE_COLOR_RED], \<lparr>t_time_tc = 7, t_time_tp = 7, t_tc = 20, t_tp = 30\<rparr>)"
    by (simp add: rte_meter_trtcm_color_aware_check_def trtcm_update_def periods_def fill_def demo_trtcm_def)
  have "sorted (map fst ?ps)" "\<forall>q\<in>set ?ps. 7 \<le> fst q \<and> fst q \<le> (9 :: u64)" by simp_all
  from trtcm_conforms [OF c r this] show ?thesis using r by (simp add: demo_trtcm_def)
qed

text \<open>RFC 4115: the committed and the excess bucket are independent.\<close>

lemma rfc4115_conforms:
  assumes cfg: "rte_meter_trtcm_rfc4115_config now m0 (Some p) = (0, Some m)"
    and run: "run_meter (rfc4115_check p) m ps = Some (cs, m')"
    and times: "sorted (map fst ps)" "\<forall>q\<in>set ps. now \<le> fst q \<and> fst q \<le> t"
  shows "paid (\<lambda>c. c = RTE_COLOR_GREEN) ps cs
       \<le> unat (r_cbs p) + (unat t - unat now) div unat (r_cir_period p) * unat (r_cir_bytes_per_period p) \<and>
     paid (\<lambda>c. c = RTE_COLOR_YELLOW) ps cs
       \<le> unat (r_ebs p) + (unat t - unat now) div unat (r_eir_period p) * unat (r_eir_bytes_per_period p)"
proof -
  have m: "m = \<lparr>r_time_tc = now, r_time_te = now, r_tc = r_cbs p, r_te = r_ebs p\<rparr>"
    using cfg by (simp add: rte_meter_trtcm_rfc4115_config_def EINVAL_def split: option.splits)
  have b: "\<forall>q\<in>set ps. r_time_tc m \<le> fst q \<and> fst q \<le> t" "\<forall>q\<in>set ps. r_time_te m \<le> fst q \<and> fst q \<le> t"
    using times(2) by (simp_all add: m)
  show ?thesis
    using rfc4115_c.rate_conforms [OF run times(1) b(1)] rfc4115_e.rate_conforms [OF run times(1) b(2)] by (simp add: m)
qed

text \<open>The colour-blind checks of the three markers are the colour-aware checks of a green packet, and
  a colour-aware check never returns a better colour than the packet came with.\<close>

theorem color_checks_agree:
  "rte_meter_srtcm_color_blind_check sm sp time len = srtcm_check sp sm time len RTE_COLOR_GREEN \<and>
   rte_meter_trtcm_color_blind_check tm tp time len = trtcm_check tp tm time len RTE_COLOR_GREEN \<and>
   rte_meter_trtcm_rfc4115_color_blind_check rm rp time len = rfc4115_check rp rm time len RTE_COLOR_GREEN \<and>
   pred_option (\<lambda>r. col \<le> fst r) (srtcm_check sp sm time len col) \<and>
   pred_option (\<lambda>r. col \<le> fst r) (trtcm_check tp tm time len col) \<and>
   pred_option (\<lambda>r. col \<le> fst r) (rfc4115_check rp rm time len col)"
  using blind_is_aware_green aware_never_upgrades by (auto simp: pred_option_def)



end
