(* ===== verification/SenseNet.thy ===== *)
theory SenseNet
  imports NetHeaders SenseConfig
begin

text \<open>
  The packets of the Sense application, \<^verbatim>\<open>app/sense/networking.c\<close> and \<^verbatim>\<open>include/packet.h\<close>: pings,
  pongs and statistics reports in UDP frames. Frames are built by stores over the stale bytes of the
  buffer. The pool and the append of \<open>n\<close> bytes to the \<open>k\<close>-th buffer are the parameter
  \<open>room k n\<close> (the bytes, or nothing), \<^verbatim>\<open>inet_addr\<close> is the parameter \<open>inet\<close>; a frame that arrives is
  the memory of its buffer from the data pointer on. A handler reads the cycle counter once.
\<close>

section \<open>Formats\<close>

definition MSG_PING_RTT :: u8 where "MSG_PING_RTT = 10"
definition MSG_PONG_RTT :: u8 where "MSG_PONG_RTT = 11"

text \<open>The packed structures as bytes: \<^verbatim>\<open>sense_ping_packet\<close> (21), \<^verbatim>\<open>sense_pong_packet\<close> (25),
  \<^verbatim>\<open>sense_peer_stats_entry\<close> (12) and \<^verbatim>\<open>sense_stats_report_packet\<close> (208).\<close>

definition ping_bytes :: "u32 \<Rightarrow> u64 \<Rightarrow> u64 \<Rightarrow> u8 list" where
  "ping_bytes src ts hz = st64 13 hz (st64 5 ts (st32 1 src (st8 0 MSG_PING_RTT (replicate 21 0))))"

definition pong_bytes :: "u32 \<Rightarrow> u32 \<Rightarrow> u64 \<Rightarrow> u64 \<Rightarrow> u8 list" where
  "pong_bytes dst src ts hz =
     st64 17 hz (st64 9 ts (st32 5 src (st32 1 dst (st8 0 MSG_PONG_RTT (replicate 25 0)))))"

fun store_peers :: "nat \<Rightarrow> sense_peer_stats_entry list \<Rightarrow> u8 list \<Rightarrow> u8 list" where
  "store_peers off [] m = m"
| "store_peers off (e # es) m = store_peers (off + 12) es
     (st32 (off + 8) (rep_loss_count e) (st32 (off + 4) (f32_bits (rep_avg_rtt_us e)) (st32 off (rep_peer_id e) m)))"

definition report_bytes :: "sense_stats_report_packet \<Rightarrow> u8 list" where
  "report_bytes r = store_peers 16 (rep_peers r)
     (st64 8 (rep_seq r) (st32 4 (rep_src_id r) (st16 2 (rep_reserved r)
       (st8 1 (rep_peer_count r) (st8 0 (rep_msg_type r) (replicate 208 0))))))"

section \<open>Sending\<close>

text \<open>\<open>Tx_trap\<close>: a read outside of the address tables.\<close>

datatype sense_tx = Tx_none | Tx_trap | Tx_frame "u8 list"

text \<open>The headers, in the order of the stores; the MAC address of the sender first.\<close>

definition put_ether :: "ether_addr \<Rightarrow> ether_addr \<Rightarrow> u8 list \<Rightarrow> u8 list" where
  "put_ether src dst m = st16 12 (bswap16 RTE_ETHER_TYPE_IPV4) (st_bytes 0 dst (st_bytes 6 src m))"

definition put_ipv4 :: "nat \<Rightarrow> u8 list \<Rightarrow> u8 list" where
  "put_ipv4 payload_len m =
     (let m = st8 14 0x45 m;
          m = st8 15 0 m;
          m = st16 16 (bswap16 (of_nat (20 + 8 + payload_len))) m;
          m = st16 18 (bswap16 0) m;
          m = st16 20 (bswap16 0) m;
          m = st8 22 64 m
      in st8 23 IPPROTO_UDP m)"

definition put_udp :: "u16 \<Rightarrow> nat \<Rightarrow> u8 list \<Rightarrow> u8 list" where
  "put_udp dst_port payload_len m =
     (let m = st16 34 (bswap16 SENSE_PORT) m;
          m = st16 36 (bswap16 dst_port) m
      in st16 38 (bswap16 (of_nat (8 + payload_len))) m)"

definition put_cksums :: "u8 list \<Rightarrow> u8 list" where
  "put_cksums m =
     (let m = st16 24 (rte_ipv4_cksum (drop 14 m)) m
      in st16 40 (rte_ipv4_udptcp_cksum (drop 14 m) (drop 34 m)) m)"

definition send_udp_payload ::
  "(string \<Rightarrow> u32) \<Rightarrow> sense_config_t \<Rightarrow> (nat \<Rightarrow> u8 list option) \<Rightarrow> u8 list \<Rightarrow> string \<Rightarrow> ether_addr \<Rightarrow> u16 \<Rightarrow> sense_tx" where
  "send_udp_payload inet cfg room payload dst_ip dst_mac dst_port =
     (if payload = [] \<or> dst_ip = [] then Tx_none
      else case room (14 + 20 + 8 + length payload) of
        None \<Rightarrow> Tx_none
      | Some m \<Rightarrow>
          let self = unat (sc_node_id cfg) in
          if self \<ge> length (sc_mac_map cfg) then Tx_trap
          else let m = put_ipv4 (length payload) (put_ether (sc_mac_map cfg ! self) dst_mac m)
               in case c_string_at (sc_ip_map cfg) self of
                 None \<Rightarrow> Tx_trap
               | Some src_ip \<Rightarrow>
                   if src_ip = [] then Tx_none
                   else let m = st32 30 (inet dst_ip) (st32 26 (inet src_ip) m);
                            m = st_bytes 42 payload (put_udp dst_port (length payload) m)
                        in Tx_frame (put_cksums m))"

definition send_raw_packet ::
  "(string \<Rightarrow> u32) \<Rightarrow> sense_config_t \<Rightarrow> (nat \<Rightarrow> u8 list option) \<Rightarrow> u8 list \<Rightarrow> u16 \<Rightarrow> sense_tx" where
  "send_raw_packet inet cfg room payload dst_id =
     (if dst_id = 0 \<or> ucast dst_id > sc_node_num cfg then Tx_none
      else if unat dst_id \<ge> length (sc_ip_map cfg) then Tx_trap
      else case c_string_at (sc_ip_map cfg) (unat dst_id) of
        None \<Rightarrow> Tx_trap
      | Some dst_ip \<Rightarrow>
          if dst_ip = [] then Tx_none
          else send_udp_payload inet cfg room payload dst_ip (sc_mac_map cfg ! unat dst_id) SENSE_PORT)"

text \<open>The process: its statistics, the frames handed to the device (oldest first), the buffers taken
  and freed by the receiver, and the report sequence number. \<open>None\<close> is a trap.\<close>

record sense_sys =
  stats :: sense_stats
  tx_frames :: "u8 list list"
  allocs :: nat
  rx_freed :: nat
  stats_seq :: u64

record sense_env =
  inet_addr :: "string \<Rightarrow> u32"
  pool :: "nat \<Rightarrow> nat \<Rightarrow> u8 list option"
  tsc_hz :: u64

definition transmit :: "sense_tx \<Rightarrow> sense_sys \<Rightarrow> sense_sys option" where
  "transmit r s = (case r of
      Tx_trap \<Rightarrow> None
    | Tx_none \<Rightarrow> Some (s\<lparr>allocs := allocs s + 1\<rparr>)
    | Tx_frame m \<Rightarrow> Some (s\<lparr>allocs := allocs s + 1, tx_frames := tx_frames s @ [m]\<rparr>))"

definition send_ping_packet :: "sense_env \<Rightarrow> sense_config_t \<Rightarrow> u64 \<Rightarrow> u32 \<Rightarrow> sense_sys \<Rightarrow> sense_sys option" where
  "send_ping_packet e cfg now peer_id s =
     (let pkt = ping_bytes (sc_node_id cfg) now (tsc_hz e);
          s = s\<lparr>stats := sense_stats_record_ping now peer_id (stats s)\<rparr>
      in transmit (send_raw_packet (inet_addr e) cfg (pool e (allocs s)) pkt (ucast peer_id)) s)"

definition send_pong_packet :: "sense_env \<Rightarrow> sense_config_t \<Rightarrow> u32 \<Rightarrow> u64 \<Rightarrow> u64 \<Rightarrow> sense_sys \<Rightarrow> sense_sys option" where
  "send_pong_packet e cfg dst_id echoed_ts hz s =
     transmit (send_raw_packet (inet_addr e) cfg (pool e (allocs s))
       (pong_bytes dst_id (sc_node_id cfg) echoed_ts hz) (ucast dst_id)) s"

section \<open>Receiving\<close>

definition udp_payload :: "u8 list \<Rightarrow> u8 list option" where
  "udp_payload m =
     (if ld16 m 12 \<noteq> bswap16 RTE_ETHER_TYPE_IPV4 then None
      else if ld8 m 23 \<noteq> IPPROTO_UDP then None
      else if ld16 m 36 \<noteq> bswap16 SENSE_PORT \<and> ld16 m 34 \<noteq> bswap16 SENSE_PORT then None
      else Some (drop 42 m))"

definition rtt_us_of :: "u64 \<Rightarrow> u64 \<Rightarrow> u64 \<Rightarrow> fp" where
  "rtt_us_of now echoed_ts hz =
     (let rtt_cycles = now - echoed_ts
      in fdiv (fmul (fp_of_nat (unat rtt_cycles)) (Fin 1000000)) (fp_of_nat (unat hz)))"

definition handle_ping :: "sense_env \<Rightarrow> sense_config_t \<Rightarrow> u8 list \<Rightarrow> sense_sys \<Rightarrow> sense_sys option" where
  "handle_ping e cfg pl s =
     (let src_id = ld32 pl 1 in
      if src_id = 0 \<or> src_id > sc_node_num cfg then Some s
      else send_pong_packet e cfg src_id (ld64 pl 5) (ld64 pl 13) s)"

definition handle_pong :: "sense_config_t \<Rightarrow> u64 \<Rightarrow> u8 list \<Rightarrow> sense_sys \<Rightarrow> sense_sys" where
  "handle_pong cfg now pl s =
     (let src_id = ld32 pl 5; dst_id = ld32 pl 1 in
      if dst_id \<noteq> sc_node_id cfg \<or> src_id = 0 \<or> src_id > sc_node_num cfg then s
      else let rtt_us = rtt_us_of now (ld64 pl 9) (ld64 pl 17)
           in s\<lparr>stats := sense_samples_append now src_id rtt_us (sense_stats_update now src_id rtt_us (stats s))\<rparr>)"

definition handle_frame :: "sense_env \<Rightarrow> sense_config_t \<Rightarrow> u64 \<Rightarrow> u8 list \<Rightarrow> sense_sys \<Rightarrow> sense_sys option" where
  "handle_frame e cfg now m s =
     (case udp_payload m of
        None \<Rightarrow> Some s
      | Some pl \<Rightarrow>
          if ld8 pl 0 = MSG_PING_RTT then handle_ping e cfg pl s
          else if ld8 pl 0 = MSG_PONG_RTT then Some (handle_pong cfg now pl s)
          else Some s)"

text \<open>\<^verbatim>\<open>process_rx\<close> over the burst, each frame with the time at which it is handled; every buffer is
  freed.\<close>

fun process_rx :: "sense_env \<Rightarrow> sense_config_t \<Rightarrow> (u64 \<times> u8 list) list \<Rightarrow> sense_sys \<Rightarrow> sense_sys option" where
  "process_rx e cfg [] s = Some s"
| "process_rx e cfg ((now, m) # rx_bufs) s = do {
     s \<leftarrow> handle_frame e cfg now m s;
     process_rx e cfg rx_bufs (s\<lparr>rx_freed := rx_freed s + 1\<rparr>) }"

section \<open>Publishing\<close>

definition sense_publish_stats ::
  "sense_env \<Rightarrow> sense_config_t \<Rightarrow> sense_rtt_snapshot option \<Rightarrow> sense_sys \<Rightarrow> sense_sys option" where
  "sense_publish_stats e cfg snp s =
     (if \<not> collector_enabled cfg \<or> snp = None then Some s
      else case c_string_at [collector_ip cfg] 0 of
        None \<Rightarrow> None
      | Some ip \<Rightarrow>
          if ip = [] then Some s
          else case sense_stats_build_report (sc_node_id cfg) (sc_node_num cfg) snp (stats s) of
            None \<Rightarrow> Some s
          | Some r \<Rightarrow>
              let s = s\<lparr>stats_seq := stats_seq s + 1\<rparr>;
                  r = r\<lparr>rep_seq := stats_seq s\<rparr>;
                  payload_len = 16 + unat (rep_peer_count r) * 12;
                  payload_len = (if payload_len > 208 then 208 else payload_len);
                  dst_port = (if collector_port cfg \<noteq> 0 then collector_port cfg else SENSE_PORT)
              in transmit (send_udp_payload (inet_addr e) cfg (pool e (allocs s)) (take payload_len (report_bytes r))
                   ip (collector_mac cfg) dst_port) s)"

section \<open>Reading back what was written\<close>

lemma ping_fields [simp]:
  "length (ping_bytes src ts hz) = 21" "ld8 (ping_bytes src ts hz) 0 = MSG_PING_RTT" "ld32 (ping_bytes src ts hz) 1 = src"
  "ld64 (ping_bytes src ts hz) 5 = ts" "ld64 (ping_bytes src ts hz) 13 = hz"
proof -
  show "length (ping_bytes src ts hz) = 21" by (simp add: ping_bytes_def)
  show "ld8 (ping_bytes src ts hz) 0 = MSG_PING_RTT" by (simp add: ping_bytes_def ld8_def)
  show "ld32 (ping_bytes src ts hz) 1 = src" by (rule ld32_bytes) (simp_all add: ping_bytes_def)
  show "ld64 (ping_bytes src ts hz) 5 = ts" by (rule ld64_bytes) (simp add: ping_bytes_def)
  show "ld64 (ping_bytes src ts hz) 13 = hz" by (rule ld64_bytes) (simp add: ping_bytes_def)
qed

lemma pong_fields [simp]:
  "length (pong_bytes dst src ts hz) = 25" "ld8 (pong_bytes dst src ts hz) 0 = MSG_PONG_RTT"
  "ld32 (pong_bytes dst src ts hz) 1 = dst" "ld32 (pong_bytes dst src ts hz) 5 = src"
  "ld64 (pong_bytes dst src ts hz) 9 = ts" "ld64 (pong_bytes dst src ts hz) 17 = hz"
proof -
  show "length (pong_bytes dst src ts hz) = 25" by (simp add: pong_bytes_def)
  show "ld8 (pong_bytes dst src ts hz) 0 = MSG_PONG_RTT" by (simp add: pong_bytes_def ld8_def)
  show "ld32 (pong_bytes dst src ts hz) 1 = dst" by (rule ld32_bytes) (simp_all add: pong_bytes_def)
  show "ld32 (pong_bytes dst src ts hz) 5 = src" by (rule ld32_bytes) (simp_all add: pong_bytes_def)
  show "ld64 (pong_bytes dst src ts hz) 9 = ts" by (rule ld64_bytes) (simp add: pong_bytes_def)
  show "ld64 (pong_bytes dst src ts hz) 17 = hz" by (rule ld64_bytes) (simp add: pong_bytes_def)
qed

lemmas wire_fields = ping_fields(3) [unfolded One_nat_def] pong_fields(3) [unfolded One_nat_def]

lemma bswap16_sense [simp]: "bswap16 9998 = 0x0e27"
  by (simp add: bswap16_def)

text \<open>What the pool hands out has the length that was asked for.\<close>

definition pool_ok :: "sense_env \<Rightarrow> bool" where
  "pool_ok e \<longleftrightarrow> (\<forall>k n. pred_option (\<lambda>m. length m = n) (pool e k n))"

lemma pool_okD: "pool_ok e \<Longrightarrow> pool e k n = Some m \<Longrightarrow> length m = n"
  by (metis option.pred_inject(2) pool_ok_def)

lemma length_puts:
  "14 \<le> length m \<Longrightarrow> length s = 6 \<Longrightarrow> length d = 6 \<Longrightarrow> length (put_ether s d m) = length m"
  "length (put_ipv4 n m) = length m" "length (put_udp p n m) = length m" "length (put_cksums m) = length m"
  "42 + length pl \<le> length m \<Longrightarrow> length (st_bytes 42 pl m) = length m"
  by (simp_all add: put_ether_def put_ipv4_def put_udp_def put_cksums_def Let_def)

lemma nth_put_ether:
  assumes "42 \<le> length m" "length s = 6" "length d = 6" "i < length m"
  shows "put_ether s d m ! i = (if i < 6 then d ! i else if i < 12 then s ! (i - 6)
     else if i = 12 then 8 else if i = 13 then 0 else m ! i)"
  using assms by (auto simp: put_ether_def RTE_ETHER_TYPE_IPV4_def)

lemma nth_put_ipv4:
  assumes "42 \<le> length m"
  shows "i < 14 \<Longrightarrow> put_ipv4 n m ! i = m ! i" "put_ipv4 n m ! 23 = 17"
  using assms by (auto simp: put_ipv4_def Let_def IPPROTO_UDP_def)

lemma nth_put_udp:
  assumes "42 \<le> length m"
  shows "i < 34 \<Longrightarrow> put_udp p n m ! i = m ! i" "put_udp p n m ! 34 = 0x27" "put_udp p n m ! 35 = 0x0e"
  using assms by (auto simp: put_udp_def Let_def SENSE_PORT_def)

lemma nth_put_cksums:
  assumes "42 \<le> length m" "i \<noteq> 24 \<and> i \<noteq> 25 \<and> i \<noteq> 40 \<and> i \<noteq> 41"
  shows "put_cksums m ! i = m ! i"
  using assms by (simp add: put_cksums_def Let_def)

lemma send_udp_payload_frame:
  assumes room: "room (42 + length payload) = Some m" "length m = 42 + length payload"
    and cfg: "sense_config_ok cfg" "unat (sc_node_id cfg) \<le> 16" "hd (sc_ip_map cfg ! unat (sc_node_id cfg)) \<noteq> CHR 0x00"
    and pl: "payload \<noteq> []" "dst_ip \<noteq> []" "length dst_mac = 6"
  shows "\<exists>frm. send_udp_payload inet cfg room payload dst_ip dst_mac dst_port = Tx_frame frm \<and>
    length frm = 42 + length payload \<and> take 6 frm = dst_mac \<and>
    take 6 (drop 6 frm) = sc_mac_map cfg ! unat (sc_node_id cfg) \<and> udp_payload frm = Some payload"
proof -
  let ?i = "unat (sc_node_id cfg)"
  have i: "?i < length (sc_mac_map cfg)" "?i < length (sc_ip_map cfg)" "terminated (sc_ip_map cfg)"
    "length (sc_mac_map cfg ! ?i) = 6" "length (sc_ip_map cfg ! ?i) = 16"
    using cfg by (simp_all add: sense_config_ok_def)
  let ?src = "takeWhile (\<lambda>c. c \<noteq> CHR 0x00) (sc_ip_map cfg ! ?i)"
  have src: "c_string_at (sc_ip_map cfg) ?i = Some ?src" using i by (simp add: c_string_at_terminated)
  have ne: "?src \<noteq> []" using cfg(3) i(5) by (cases "sc_ip_map cfg ! ?i") auto
  let ?h = "put_ipv4 (length payload) (put_ether (sc_mac_map cfg ! ?i) dst_mac m)"
  let ?u = "put_udp dst_port (length payload) (st32 30 (inet dst_ip) (st32 26 (inet ?src) ?h))"
  let ?f = "put_cksums (st_bytes 42 payload ?u)"
  have fr: "send_udp_payload inet cfg room payload dst_ip dst_mac dst_port = Tx_frame ?f"
    using room i pl src ne by (simp add: send_udp_payload_def Let_def)
  have lu: "length ?u = 42 + length payload" and lh: "length ?h = 42 + length payload"
    using room i pl by (simp_all add: length_puts)
  have l: "length ?f = 42 + length payload" using lu by (simp add: length_puts)
  have h: "?h ! j = (if j < 6 then dst_mac ! j else if j < 12 then sc_mac_map cfg ! ?i ! (j - 6) else if j = 12 then 8 else if j = 13 then 0
      else 17)" if "j < 14 \<or> j = 23" for j
    using that room i pl by (auto simp: nth_put_ipv4 nth_put_ether length_puts)
  have b: "?f ! j = (if 42 \<le> j then payload ! (j - 42) else ?u ! j)" if "j \<noteq> 24 \<and> j \<noteq> 25 \<and> j \<noteq> 40 \<and> j \<noteq> 41" "j < 42 + length payload" for j
    using that lu by (simp add: nth_put_cksums)
  have u: "?u ! j = (if j = 34 then 0x27 else if j = 35 then 0x0e else ?h ! j)" if "j < 26 \<or> j = 34 \<or> j = 35" for j
    using that lh by (auto simp: nth_put_udp)
  have n: "?f ! j = (if j < 6 then dst_mac ! j else if j < 12 then sc_mac_map cfg ! ?i ! (j - 6) else if j = 12 then 8 else if j = 13 then 0
      else if j = 23 then 17 else if j = 34 then 0x27 else if j = 35 then 0x0e else payload ! (j - 42))"
    if "j < 14 \<or> j = 23 \<or> j = 34 \<or> j = 35 \<or> 42 \<le> j" "j < 42 + length payload" for j
    using that by (subst b) (auto simp: u h)
  define f where "f = ?f"
  note l = l [folded f_def] and n = n [folded f_def] and fr = fr [folded f_def]
  have "ld16 f 12 = 8" by (rule ld16_eqI) (simp_all add: l n)
  moreover have "ld16 f 34 = 0x0e27" by (rule ld16_eqI) (simp_all add: l n)
  moreover have "ld8 f 23 = 17" by (simp add: ld8_def n)
  ultimately have "udp_payload f = Some (drop 42 f)"
    by (simp add: udp_payload_def RTE_ETHER_TYPE_IPV4_def SENSE_PORT_def IPPROTO_UDP_def)
  moreover have "drop 42 f = payload" by (rule nth_equalityI) (simp_all add: l n)
  moreover have "take 6 f = dst_mac" by (rule nth_equalityI) (use pl in \<open>simp_all add: l n\<close>)
  moreover have "take 6 (drop 6 f) = sc_mac_map cfg ! ?i" by (rule nth_equalityI) (use i in \<open>simp_all add: l n\<close>)
  ultimately show ?thesis using fr l by auto
qed

section \<open>A round trip\<close>

text \<open>A configuration the loader accepts, whose node is one of its nodes and whose addresses are not empty.\<close>

definition sense_node_ok :: "sense_config_t \<Rightarrow> bool" where
  "sense_node_ok cfg \<longleftrightarrow> sense_config_ok cfg \<and> unat (sc_node_num cfg) \<le> 16 \<and> sc_node_id cfg \<noteq> 0 \<and>
     sc_node_id cfg \<le> sc_node_num cfg \<and> (\<forall>i. 1 \<le> i \<and> i \<le> 16 \<longrightarrow> hd (sc_ip_map cfg ! i) \<noteq> CHR 0x00)"

lemma send_raw_packet_frame:
  assumes cfg: "sense_node_ok cfg" and dst: "dst \<noteq> 0" "dst \<le> sc_node_num cfg"
    and room: "room (42 + length payload) = Some m" "length m = 42 + length payload" and pl: "payload \<noteq> []"
  shows "\<exists>frm. send_raw_packet inet cfg room payload (ucast dst) = Tx_frame frm \<and>
    length frm = 42 + length payload \<and> take 6 frm = sc_mac_map cfg ! unat dst \<and>
    take 6 (drop 6 frm) = sc_mac_map cfg ! unat (sc_node_id cfg) \<and> udp_payload frm = Some payload"
proof -
  have n: "unat dst \<le> 16" "1 \<le> unat dst"
    using cfg dst unat_gt_0 [of dst] by (auto simp: sense_node_ok_def word_le_nat_alt)
  then have u: "unat (ucast dst :: u16) = unat dst" "ucast (ucast dst :: u16) = dst" "(ucast dst :: u16) \<noteq> 0"
    by (auto simp: unsigned_ucast_eq unsigned_take_bit_eq take_bit_nat_eq_self word_unat_eq_iff)
  let ?ip = "sc_ip_map cfg ! unat dst"
  have c: "sense_config_ok cfg" using cfg by (simp add: sense_node_ok_def)
  have i: "unat dst < length (sc_ip_map cfg)" "terminated (sc_ip_map cfg)" "length ?ip = 16" "hd ?ip \<noteq> CHR 0x00"
    "length (sc_mac_map cfg ! unat dst) = 6"
    using cfg n by (auto simp: sense_node_ok_def sense_config_ok_def)
  have at: "c_string_at (sc_ip_map cfg) (unat dst) = Some (takeWhile (\<lambda>c. c \<noteq> CHR 0x00) ?ip)"
    using i by (simp add: c_string_at_terminated)
  have ne: "takeWhile (\<lambda>c. c \<noteq> CHR 0x00) ?ip \<noteq> []" using i by (cases ?ip) auto
  have self: "unat (sc_node_id cfg) \<le> 16" "1 \<le> unat (sc_node_id cfg)"
    using cfg unat_gt_0 [of "sc_node_id cfg"] by (auto simp: sense_node_ok_def word_le_nat_alt)
  then have "hd (sc_ip_map cfg ! unat (sc_node_id cfg)) \<noteq> CHR 0x00" using cfg by (simp add: sense_node_ok_def)
  from send_udp_payload_frame [of room payload m cfg, OF room c self(1) this pl ne i(5), of inet SENSE_PORT]
  show ?thesis
    using dst u i at ne by (auto simp: send_raw_packet_def)
qed

section \<open>A small network\<close>

definition demo_cfg :: "u32 \<Rightarrow> sense_config_t" where
  "demo_cfg i = zero_config\<lparr>sc_node_num := 2, sc_node_id := i, sc_ip_map := replicate 17 (copy_ip ''10.0.0.1''),
     sc_mac_map := replicate 17 [2, 0, 0, 0, 0, 1], collector_enabled := True, collector_ip := copy_ip ''10.0.0.9'',
     collector_mac := [2, 0, 0, 0, 0, 9]\<rparr>"

definition demo_env :: sense_env where
  "demo_env = \<lparr>inet_addr = (\<lambda>_. 0x0100000a), pool = (\<lambda>k n. Some (replicate n 0)), tsc_hz = 1000000\<rparr>"

definition demo_sys :: sense_sys where
  "demo_sys = \<lparr>stats = sense_run 1 2 [], tx_frames = [], allocs = 0, rx_freed = 0, stats_seq = 0\<rparr>"

lemma demo_nodes_ok: "sense_node_ok (demo_cfg 1)" "sense_node_ok (demo_cfg 2)" "pool_ok demo_env"
  "hd (collector_ip (demo_cfg 1)) \<noteq> CHR 0x00"
proof -
  have c: "terminated (replicate 17 (copy_ip s))" for s by (simp add: terminated_def)
  have h: "hd (copy_ip ''10.0.0.1'') \<noteq> CHR 0x00"
    by (simp add: copy_ip_def strncpy_def)
  show "sense_node_ok (demo_cfg 1)" "sense_node_ok (demo_cfg 2)"
    using c h by (simp_all add: sense_node_ok_def demo_cfg_def sense_config_ok_def zero_config_def)
  show "pool_ok demo_env" by (simp add: pool_ok_def demo_env_def)
  show "hd (collector_ip (demo_cfg 1)) \<noteq> CHR 0x00" by (simp add: demo_cfg_def copy_ip_def strncpy_def)
qed



section \<open>Accuracy\<close>

lemma one_le_of_nat: "0 < n \<Longrightarrow> (1 :: rat) \<le> of_nat n"
  by (cases n) simp_all

lemma of_nat_le_2_53: "n \<le> 2 ^ 53 \<Longrightarrow> (of_nat n :: rat) \<le> 2 ^ 53"
proof -
  assume "n \<le> 2 ^ 53"
  then have "(of_nat n :: rat) \<le> of_nat (2 ^ 53)" by (simp only: of_nat_le_iff)
  then show ?thesis by simp
qed

lemma two_roundings:
  fixes c h :: rat
  assumes c: "1 \<le> c" "c \<le> 2 ^ 53" and h: "1 \<le> h" "h \<le> 2 ^ 53"
  defines "x \<equiv> c * 1000000 / h"
  shows "\<exists>p r. dbl (c * 1000000) = Fin p \<and> dbl (p / h) = Fin r \<and> \<bar>r - x\<bar> \<le> x * (4 / 2 ^ 53)"
proof -
  define u where "u = (1 / 2 ^ 53 :: rat)"
  have u: "0 < u" "u \<le> 1 / 1000" by (simp_all add: u_def)
  have "1 / 2 ^ 64 \<le> c * 1000000" using c(1) by (simp add: order_trans [of _ 1])
  moreover have "c * 1000000 \<le> 2 ^ 128" using mult_right_mono [OF c(2), of 1000000] by simp
  ultimately obtain p where p: "dbl (c * 1000000) = Fin p" "c * 1000000 * (1 - u) \<le> p" "p \<le> c * 1000000 * (1 + u)"
    using dbl_normal unfolding u_def by metis
  have x: "x = c * 1000000 / h" by (simp only: x_def)
  have h0: "0 < h" using h by simp
  have ph: "x * (1 - u) \<le> p / h" "p / h \<le> x * (1 + u)"
    using divide_right_mono [OF p(2), of h] divide_right_mono [OF p(3), of h] h0 by (simp_all add: x)
  have x0: "1000000 / 2 ^ 53 \<le> x"
  proof -
    have "1000000 / 2 ^ 53 \<le> 1000000 / h" using h h0 by (intro divide_left_mono) simp_all
    also have "\<dots> \<le> x" using c(1) h0 by (simp add: x divide_right_mono)
    finally show ?thesis .
  qed
  have x1: "x \<le> 2 ^ 53 * 1000000"
  proof -
    have "x \<le> c * 1000000 / 1" unfolding x using h c by (intro divide_left_mono) simp_all
    also have "\<dots> \<le> 2 ^ 53 * 1000000" using c(2) by simp
    finally show ?thesis .
  qed
  have xu: "x * (1 / 2) \<le> x * (1 - u)" "x * (1 + u) \<le> x * 2" using x0 u by (intro mult_left_mono; simp)+
  have "1 / 2 ^ 64 \<le> 1000000 / 2 ^ 53 * (1 / 2 :: rat)" by simp
  also have "\<dots> \<le> x * (1 / 2)" using x0 by (intro mult_right_mono) simp_all
  also note order_trans [OF xu(1) ph(1)]
  finally have "1 / 2 ^ 64 \<le> p / h" .
  moreover have "p / h \<le> 2 ^ 128"
  proof -
    have "x * 2 \<le> 2 ^ 53 * 1000000 * 2" using x1 by (intro mult_right_mono) simp_all
    also have "\<dots> \<le> (2 ^ 128 :: rat)" by simp
    finally show ?thesis using order_trans [OF ph(2) xu(2)] by (rule order_trans [rotated])
  qed
  ultimately obtain r where r: "dbl (p / h) = Fin r" "p / h * (1 - u) \<le> r" "r \<le> p / h * (1 + u)"
    using dbl_normal unfolding u_def by metis
  have "x * (1 - u) * (1 - u) \<le> p / h * (1 - u)" "p / h * (1 + u) \<le> x * (1 + u) * (1 + u)"
    using ph u by (intro mult_right_mono; simp)+
  then have "x * (1 - u) * (1 - u) \<le> r" "r \<le> x * (1 + u) * (1 + u)" using r by linarith+
  moreover have "x * (1 + u) * (1 + u) \<le> x + x * (4 * u)" "x - x * (4 * u) \<le> x * (1 - u) * (1 - u)"
  proof -
    have "x * (u * u) \<le> x * u" using u x0 by (intro mult_left_mono) (simp_all add: mult_left_le)
    then show "x * (1 + u) * (1 + u) \<le> x + x * (4 * u)" "x - x * (4 * u) \<le> x * (1 - u) * (1 - u)"
      using u x0 by (simp_all add: algebra_simps)
  qed
  ultimately have "\<bar>r - x\<bar> \<le> x * (4 * u)" by linarith
  then show ?thesis using p(1) r(1) by (simp add: u_def)
qed

text \<open>The round-trip time in microseconds is accurate. For a frequency up to 2^53 Hz and between one and 2^53
  elapsed cycles (also across a wrap of the cycle counter), the computed double is the exact
  \<open>cycles * 10^6 / hz\<close> up to a relative error of 4 units in 2^53.\<close>

theorem rtt_us_accurate:
  assumes hz: "0 < unat hz" "unat hz \<le> 2 ^ 53" and cyc: "0 < unat (now - echoed)" "unat (now - echoed) \<le> 2 ^ 53"
  defines "x \<equiv> (of_nat (unat (now - echoed)) :: rat) * 1000000 / of_nat (unat hz)"
  shows "\<exists>r. rtt_us_of now echoed hz = Fin r \<and> \<bar>r - x\<bar> \<le> x * (4 / 2 ^ 53)"
proof -
  define c where "c = (of_nat (unat (now - echoed)) :: rat)"
  define h where "h = (of_nat (unat hz) :: rat)"
  have c: "1 \<le> c" "c \<le> 2 ^ 53" unfolding c_def by (rule one_le_of_nat [OF cyc(1)], rule of_nat_le_2_53 [OF cyc(2)])
  have h: "1 \<le> h" "h \<le> 2 ^ 53" unfolding h_def by (rule one_le_of_nat [OF hz(1)], rule of_nat_le_2_53 [OF hz(2)])
  have e: "fp_of_nat (unat (now - echoed)) = Fin c" "fp_of_nat (unat hz) = Fin h"
    using fp_of_nat_exact [OF cyc(2)] fp_of_nat_exact [OF hz(2)] by (simp_all only: c_def h_def)
  have x: "x = c * 1000000 / h" by (simp only: x_def c_def h_def)
  obtain p r where "dbl (c * 1000000) = Fin p" "dbl (p / h) = Fin r" "\<bar>r - x\<bar> \<le> x * (4 / 2 ^ 53)"
    using two_roundings [OF c h] unfolding x by blast
  moreover from this have "rtt_us_of now echoed hz = Fin r"
    using h by (simp add: rtt_us_of_def Let_def e)
  ultimately show ?thesis by blast
qed

theorem rtt_us_accurate_witness:
  "\<exists>r. rtt_us_of 3 (- 2) 3000000 = Fin r \<and> \<bar>r - 5 / 3\<bar> \<le> 5 / 3 * (4 / 2 ^ 53)"
  using rtt_us_accurate [of 3000000 3 "- 2"] by simp

section \<open>The report on the wire\<close>

lemma length_store_peers [simp]: "length (store_peers off es m) = length m"
  by (induction es arbitrary: off m) simp_all

lemma nth_store_peers:
  "i < off \<Longrightarrow> off + 12 * length es \<le> length m \<Longrightarrow> store_peers off es m ! i = m ! i"
  by (induction es arbitrary: off m) simp_all

lemma ld_store_peers:
  assumes "off + 12 * length es \<le> length m" "k < length es"
  shows "ld32 (store_peers off es m) (off + 12 * k) = rep_peer_id (es ! k) \<and>
    ld32 (store_peers off es m) (off + 12 * k + 4) = f32_bits (rep_avg_rtt_us (es ! k)) \<and>
    ld32 (store_peers off es m) (off + 12 * k + 8) = rep_loss_count (es ! k)"
  using assms
proof (induction es arbitrary: off m k)
  case (Cons e es)
  let ?m = "st32 (off + 8) (rep_loss_count e) (st32 (off + 4) (f32_bits (rep_avg_rtt_us e)) (st32 off (rep_peer_id e) m))"
  show ?case
  proof (cases k)
    case 0
    have n: "store_peers (off + 12) es ?m ! i = ?m ! i" if "i < off + 12" for i
      using Cons.prems that by (intro nth_store_peers) simp_all
    have "ld32 (store_peers (off + 12) es ?m) off = rep_peer_id e"
      using Cons.prems by (intro ld32_bytes) (simp_all add: n)
    moreover have "ld32 (store_peers (off + 12) es ?m) (off + 4) = f32_bits (rep_avg_rtt_us e)"
      using Cons.prems by (intro ld32_bytes) (simp_all add: n)
    moreover have "ld32 (store_peers (off + 12) es ?m) (off + 8) = rep_loss_count e"
      using Cons.prems by (intro ld32_bytes) (simp_all add: n)
    ultimately show ?thesis using 0 by simp
  next
    case (Suc j)
    have o: "off + 12 * Suc j = off + 12 + 12 * j" by simp
    have "off + 12 + 12 * length es \<le> length ?m" "j < length es" using Cons.prems Suc by simp_all
    from Cons.IH [OF this] show ?thesis unfolding Suc o by simp
  qed
qed simp

lemma report_fields:
  assumes "length (rep_peers r) \<le> 16"
  shows "length (report_bytes r) = 208" "ld8 (report_bytes r) 0 = rep_msg_type r" "ld8 (report_bytes r) 1 = rep_peer_count r"
    "ld32 (report_bytes r) 4 = rep_src_id r" "ld64 (report_bytes r) 8 = rep_seq r"
proof -
  let ?m = "st64 8 (rep_seq r) (st32 4 (rep_src_id r) (st16 2 (rep_reserved r)
       (st8 1 (rep_peer_count r) (st8 0 (rep_msg_type r) (replicate 208 0)))))"
  have n: "report_bytes r ! i = ?m ! i" if "i < 16" for i
    unfolding report_bytes_def using assms that by (intro nth_store_peers) simp_all
  show "length (report_bytes r) = 208" by (simp add: report_bytes_def)
  show "ld8 (report_bytes r) 0 = rep_msg_type r" "ld8 (report_bytes r) 1 = rep_peer_count r"
    by (simp_all add: ld8_def n)
  show "ld32 (report_bytes r) 4 = rep_src_id r" by (rule ld32_bytes) (simp_all add: n)
  show "ld64 (report_bytes r) 8 = rep_seq r" by (rule ld64_bytes) (simp add: n)
qed

lemma ld_take:
  "off + 4 \<le> n \<Longrightarrow> ld32 (take n m) off = ld32 m off"
  "off + 8 \<le> n \<Longrightarrow> ld64 (take n m) off = ld64 m off"
  "off < n \<Longrightarrow> ld8 (take n m) off = ld8 m off"
  by (simp_all add: ld64_def ld32_def ld16_def ld8_def)

lemma build_report_shape:
  assumes "unat node_num \<le> 16" "sense_stats_build_report node_id node_num (Some snp) s = Some r"
  shows "rep_msg_type r = MSG_STATS_REPORT" "rep_src_id r = node_id" "length (rep_peers r) = unat node_num"
    "unat (rep_peer_count r) = unat node_num" "k < unat node_num \<Longrightarrow> rep_peer_id (rep_peers r ! k) = of_nat (k + 1)"
proof -
  obtain t where t: "rtt_tbl s = Some t" using assms(2) by (auto simp: sense_stats_build_report_def split: option.splits)
  define ps where "ps = report_peers t snp node_num 16 1"
  have re: "r = \<lparr>rep_msg_type = MSG_STATS_REPORT, rep_peer_count = of_nat (length ps), rep_reserved = 0,
               rep_src_id = node_id, rep_seq = 0, rep_peers = ps\<rparr>"
    using assms(2) t by (simp add: sense_stats_build_report_def sense_sizes Let_def ps_def)
  have "unat (1 :: u32) + 16 \<le> 17" by simp
  note P = report_peers_nth [OF this, of t snp node_num, folded ps_def]
  have l: "length ps = unat node_num" using P assms(1) by simp
  then show "rep_msg_type r = MSG_STATS_REPORT" "rep_src_id r = node_id" "length (rep_peers r) = unat node_num"
    by (simp_all add: re)
  have "unat (of_nat j :: u8) = j" if "j \<le> 16" for j using that by (simp add: unat_of_nat)
  from this [of "length ps"] show "unat (rep_peer_count r) = unat node_num"
    unfolding re l using assms(1) by (simp only: sense_stats_report_packet.simps)
  show "rep_peer_id (rep_peers r ! k) = of_nat (k + 1)" if "k < unat node_num"
    using P that l by (simp add: re Let_def)
qed

lemma report_entries:
  assumes "length (rep_peers r) \<le> 16" "k < length (rep_peers r)"
  shows "ld32 (report_bytes r) (16 + 12 * k) = rep_peer_id (rep_peers r ! k)"
    "ld32 (report_bytes r) (20 + 12 * k) = f32_bits (rep_avg_rtt_us (rep_peers r ! k))"
    "ld32 (report_bytes r) (24 + 12 * k) = rep_loss_count (rep_peers r ! k)"
proof -
  have o: "16 + 12 * k + 4 = 20 + 12 * k" "16 + 12 * k + 8 = 24 + 12 * k" by simp_all
  show "ld32 (report_bytes r) (16 + 12 * k) = rep_peer_id (rep_peers r ! k)"
    "ld32 (report_bytes r) (20 + 12 * k) = f32_bits (rep_avg_rtt_us (rep_peers r ! k))"
    "ld32 (report_bytes r) (24 + 12 * k) = rep_loss_count (rep_peers r ! k)"
    unfolding report_bytes_def o [symmetric] using ld_store_peers [of 16 "rep_peers r"] assms by simp_all
qed

lemma node_self:
  assumes "sense_node_ok cfg"
  shows "sense_config_ok cfg" "unat (sc_node_id cfg) \<le> 16" "hd (sc_ip_map cfg ! unat (sc_node_id cfg)) \<noteq> CHR 0x00"
proof -
  have "unat (sc_node_id cfg) \<le> 16" "1 \<le> unat (sc_node_id cfg)"
    using assms unat_gt_0 [of "sc_node_id cfg"] by (auto simp: sense_node_ok_def word_le_nat_alt)
  then show "sense_config_ok cfg" "unat (sc_node_id cfg) \<le> 16" "hd (sc_ip_map cfg ! unat (sc_node_id cfg)) \<noteq> CHR 0x00"
    using assms by (auto simp: sense_node_ok_def)
qed

text \<open>What the collector receives. With the collector configured and a buffer at hand, \<^verbatim>\<open>sense_publish_stats\<close> sends
  one frame to its MAC address whose payload is cut to the peers there are, holds the next sequence
  number, and in which the k-th entry is peer k with the bits of its average and its loss count as
  \<^verbatim>\<open>sense_stats_build_report\<close> gave them.\<close>

theorem report_on_the_wire:
  assumes cfg: "sense_node_ok cfg" "collector_enabled cfg" "hd (collector_ip cfg) \<noteq> CHR 0x00"
    and r: "sense_stats_build_report (sc_node_id cfg) (sc_node_num cfg) (Some snp) (stats s) = Some r"
    and mem: "pool_ok e" "pool e (allocs s) (58 + 12 * unat (sc_node_num cfg)) \<noteq> None"
  shows "\<exists>frm pl. sense_publish_stats e cfg (Some snp) s =
       Some (s\<lparr>allocs := allocs s + 1, stats_seq := stats_seq s + 1, tx_frames := tx_frames s @ [frm]\<rparr>) \<and>
     take 6 frm = collector_mac cfg \<and> udp_payload frm = Some pl \<and> length pl = 16 + 12 * unat (sc_node_num cfg) \<and>
     ld8 pl 0 = MSG_STATS_REPORT \<and> unat (ld8 pl 1) = unat (sc_node_num cfg) \<and> ld32 pl 4 = sc_node_id cfg \<and>
     ld64 pl 8 = stats_seq s + 1 \<and>
     (\<forall>k < unat (sc_node_num cfg). ld32 pl (16 + 12 * k) = of_nat (k + 1) \<and>
        ld32 pl (20 + 12 * k) = f32_bits (rep_avg_rtt_us (rep_peers r ! k)) \<and>
        ld32 pl (24 + 12 * k) = rep_loss_count (rep_peers r ! k))"
proof -
  let ?n = "unat (sc_node_num cfg)" and ?r = "r\<lparr>rep_seq := stats_seq s + 1\<rparr>"
  let ?pl = "take (16 + ?n * 12) (report_bytes ?r)" and ?ip = "takeWhile (\<lambda>c. c \<noteq> CHR 0x00) (collector_ip cfg)"
  have n16: "?n \<le> 16" using cfg by (simp add: sense_node_ok_def)
  note B = build_report_shape [OF n16 r]
  have r16: "length (rep_peers ?r) \<le> 16" using B(3) n16 by simp
  note F = report_fields [OF r16]
  have lp: "length ?pl = 16 + 12 * ?n" using F(1) n16 by simp
  have ip: "c_string_at [collector_ip cfg] 0 = Some ?ip" "?ip \<noteq> []" "length (collector_mac cfg) = 6"
    using node_self(1) [OF cfg(1)] cfg(3)
    by (auto simp: c_string_at_def sense_config_ok_def neq_Nil_conv) (cases "collector_ip cfg"; simp)+
  obtain m where m: "pool e (allocs s) (58 + 12 * ?n) = Some m" "length m = 58 + 12 * ?n"
    using mem pool_okD [OF mem(1)] by blast
  have "pool e (allocs s) (42 + length ?pl) = Some m" "length m = 42 + length ?pl" "?pl \<noteq> []"
    using m lp by (simp_all add: lp flip: length_0_conv del: length_take)
  from send_udp_payload_frame [where room = "pool e (allocs s)", OF this(1,2) node_self [OF cfg(1)] this(3) ip(2,3)]
  obtain frm where f: "send_udp_payload (inet_addr e) cfg (pool e (allocs s)) ?pl ?ip (collector_mac cfg)
      (if collector_port cfg \<noteq> 0 then collector_port cfg else SENSE_PORT) = Tx_frame frm"
      "take 6 frm = collector_mac cfg" "udp_payload frm = Some ?pl"
    by blast
  have cl: "\<not> 208 < 16 + ?n * 12" using n16 by simp
  have "sense_publish_stats e cfg (Some snp) s =
       Some (s\<lparr>allocs := allocs s + 1, stats_seq := stats_seq s + 1, tx_frames := tx_frames s @ [frm]\<rparr>)"
    using cfg(2) ip(1,2) r B(4) cl f(1) by (simp add: sense_publish_stats_def Let_def transmit_def)
  moreover have "ld32 ?pl (16 + 12 * k) = of_nat (k + 1) \<and> ld32 ?pl (20 + 12 * k) = f32_bits (rep_avg_rtt_us (rep_peers r ! k)) \<and>
        ld32 ?pl (24 + 12 * k) = rep_loss_count (rep_peers r ! k)" if k: "k < ?n" for k
    using report_entries [OF r16, of k] k B(3) B(5) [OF k] by (simp add: ld_take)
  moreover have "ld8 ?pl 0 = MSG_STATS_REPORT" "unat (ld8 ?pl 1) = ?n" "ld32 ?pl 4 = sc_node_id cfg" "ld64 ?pl 8 = stats_seq s + 1"
    using F B by (simp_all add: ld_take)
  ultimately show ?thesis using f(2,3) lp by blast
qed

theorem report_on_the_wire_witness:
  "\<exists>frm pl. sense_publish_stats demo_env (demo_cfg 1) (Some zero_snapshot) demo_sys =
       Some (demo_sys\<lparr>allocs := 1, stats_seq := 1, tx_frames := [frm]\<rparr>) \<and>
     take 6 frm = [2, 0, 0, 0, 0, 9] \<and> udp_payload frm = Some pl \<and> length pl = 40 \<and> ld64 pl 8 = 1 \<and> ld32 pl 28 = 2"
proof -
  have id: "sc_node_id (demo_cfg 1) = 1" "sc_node_num (demo_cfg 1) = 2" "collector_mac (demo_cfg 1) = [2, 0, 0, 0, 0, 9]"
    "collector_enabled (demo_cfg 1)" by (simp_all add: demo_cfg_def)
  have mem: "pool demo_env k n \<noteq> None" for k n by (simp add: demo_env_def)
  obtain t where "rtt_tbl (stats demo_sys) = Some t" using sense_run_ok(2) [of 1 2 "[]"] by (auto simp: demo_sys_def)
  then obtain r where r: "sense_stats_build_report (sc_node_id (demo_cfg 1)) (sc_node_num (demo_cfg 1)) (Some zero_snapshot) (stats demo_sys) = Some r"
    by (simp add: sense_stats_build_report_def Let_def)
  have s: "allocs demo_sys = 0" "tx_frames demo_sys = []" "stats_seq demo_sys = 0" by (simp_all add: demo_sys_def)
  obtain frm pl where F: "sense_publish_stats demo_env (demo_cfg 1) (Some zero_snapshot) demo_sys =
       Some (demo_sys\<lparr>allocs := 1, stats_seq := 1, tx_frames := [frm]\<rparr>)"
     "take 6 frm = [2, 0, 0, 0, 0, 9]" "udp_payload frm = Some pl" "length pl = 40" "ld64 pl 8 = 1"
     and k: "\<And>k. k < 2 \<Longrightarrow> ld32 pl (16 + 12 * k) = of_nat (k + 1)"
    using report_on_the_wire [OF demo_nodes_ok(1) id(4) demo_nodes_ok(4) r demo_nodes_ok(3) mem] by (auto simp: id s)
  show ?thesis using F k [of 1] by auto
qed

end
