(* ===== verification/SenseMain.thy ===== *)
theory SenseMain
  imports SenseNet RteTimerManage
begin

text \<open>
  The rest of the Sense application: the port statistics of \<^verbatim>\<open>app/sense/metadata.c\<close>, the snapshots
  of \<^verbatim>\<open>api.c\<close>, the periodic snapshot of \<^verbatim>\<open>stats.c\<close> on the timer library, and the loops of
  \<^verbatim>\<open>main.c\<close>. What \<^verbatim>\<open>rte_eth_xstats_get\<close> and \<^verbatim>\<open>rte_eth_xstats_get_names\<close> answer, which is up to the
  driver, is the record \<open>eth_xstats\<close>: the number of statistics, and for a table of \<open>n\<close> entries the return
  value and what is stored.
\<close>

section \<open>Port statistics\<close>

definition SENSE_MAX_XSTATS :: int where "SENSE_MAX_XSTATS = 256"

record eth_xstats =
  xs_len :: int
  xs_get :: "int \<Rightarrow> int \<times> u64 list"
  xs_get_names :: "int \<Rightarrow> int \<times> string list"

record xstats_cache =
  cached_port :: u16
  cached_len :: int
  cached_names :: "string list"

record sense_xstats_snapshot =
  snap_port_id :: u32
  snap_count :: u32
  snap_names :: "string list"
  snap_values :: "u64 list"

definition cache_boot :: xstats_cache where
  "cache_boot = \<lparr>cached_port = 0xffff, cached_len = 0, cached_names = []\<rparr>"

text \<open>The result code, the snapshot when it was written, and the cache. A name is copied into 63 characters and
  terminated.\<close>

definition copy_name :: "string \<Rightarrow> string" where
  "copy_name s = strncpy 63 s @ [CHR 0x00]"

definition sense_metadata_snapshot ::
  "eth_xstats \<Rightarrow> u16 \<Rightarrow> xstats_cache \<Rightarrow> int \<times> sense_xstats_snapshot option \<times> xstats_cache" where
  "sense_metadata_snapshot dev port_id c =
     (let len = xs_len dev in
      if len \<le> 0 then (- 1, None, c)
      else let len = (if len > SENSE_MAX_XSTATS then SENSE_MAX_XSTATS else len);
               (ret, xstats) = xs_get dev len in
        if ret < 0 then (- 2, None, c)
        else let (ret, c') = (if cached_len c = 0 \<or> cached_port c \<noteq> port_id \<or> cached_len c \<noteq> len then
                   let (ret, names) = xs_get_names dev len in
                   if ret < 0 then (- 3 :: int, c\<lparr>cached_names := names\<rparr>)
                   else (0, c\<lparr>cached_names := names, cached_port := port_id, cached_len := len\<rparr>)
                 else (0, c)) in
          if ret < 0 then (- 3, None, c')
          else (0, Some \<lparr>snap_port_id = ucast port_id, snap_count = word_of_int len,
             snap_names = map (\<lambda>i. copy_name (cached_names c' ! i)) [0..<nat len],
             snap_values = map (\<lambda>i. xstats ! i) [0..<nat len]\<rparr>, c'))"

section \<open>Unified snapshots\<close>

record sense_unified_snapshot =
  uni_rtt :: sense_rtt_snapshot
  uni_xstats :: "sense_xstats_snapshot option"
  uni_tsc :: u64

definition sense_get_unified_snapshot ::
  "eth_xstats \<Rightarrow> u64 \<Rightarrow> u64 \<Rightarrow> u32 \<Rightarrow> u16 \<Rightarrow> sense_stats \<Rightarrow> xstats_cache \<Rightarrow> (int \<times> sense_unified_snapshot) \<times> xstats_cache" where
  "sense_get_unified_snapshot dev now hz window_ms port_id s c =
     (let (ret, xs, c) = sense_metadata_snapshot dev port_id c
      in ((ret, \<lparr>uni_rtt = sense_get_rtt_avg_all now hz window_ms s, uni_xstats = xs, uni_tsc = now\<rparr>), c))"

definition sense_get_unified_snapshot_latest ::
  "eth_xstats \<Rightarrow> u64 \<Rightarrow> u16 \<Rightarrow> sense_stats \<Rightarrow> xstats_cache \<Rightarrow> (int \<times> sense_unified_snapshot) \<times> xstats_cache" where
  "sense_get_unified_snapshot_latest dev now port_id s c =
     (let (ret, xs, c) = sense_metadata_snapshot dev port_id c
      in ((ret, \<lparr>uni_rtt = sense_snapshot_get s, uni_xstats = xs, uni_tsc = now\<rparr>), c))"

section \<open>The snapshot timer\<close>

datatype sense_cb = Snapshot_cb

definition snapshot_timer :: nat where "snapshot_timer = 1"

definition sense_snapshot_enable ::
  "eal \<Rightarrow> u32 \<Rightarrow> u32 \<Rightarrow> sense_stats \<times> sense_cb timer_data \<Rightarrow> int \<times> sense_stats \<times> sense_cb timer_data" where
  "sense_snapshot_enable e interval_ms window_ms sd =
     (let s = (fst sd)\<lparr>snapshot_window_ms := window_ms\<rparr>;
          cycles = ucast interval_ms * timer_hz e div 1000;
          d = rte_timer_init snapshot_timer (snd sd);
          (ret, d) = rte_timer_reset e snapshot_timer cycles PERIODICAL (lcore_id e) Snapshot_cb d
      in (ret, s, d))"

definition sense_call :: "eal \<Rightarrow> sense_cb \<Rightarrow> sense_sys \<times> sense_cb timer_data \<Rightarrow> sense_sys \<times> sense_cb timer_data" where
  "sense_call e cb sd = ((fst sd)\<lparr>stats := snapshot_cb (timer_cycles e) (timer_hz e) (stats (fst sd))\<rparr>, snd sd)"

section \<open>The loops\<close>

text \<open>One ping to every peer but the node itself.\<close>

definition sense_peers :: "sense_config_t \<Rightarrow> u32 list" where
  "sense_peers cfg = filter (\<lambda>p. p \<noteq> sc_node_id cfg) (map of_nat [1..<unat (sc_node_num cfg) + 1])"

fun send_pings :: "sense_env \<Rightarrow> sense_config_t \<Rightarrow> u64 \<Rightarrow> u32 list \<Rightarrow> sense_sys \<Rightarrow> sense_sys option" where
  "send_pings e cfg now [] s = Some s"
| "send_pings e cfg now (p # ps) s = do { s \<leftarrow> send_ping_packet e cfg now p s; send_pings e cfg now ps s }"

text \<open>A round of the loop of \<^verbatim>\<open>main\<close>: the burst, the timers, and the pings once a second.\<close>

definition sense_main_round ::
  "sense_env \<Rightarrow> sense_config_t \<Rightarrow> eal \<Rightarrow> (u64 \<times> u8 list) list \<Rightarrow> u64 \<times> sense_sys \<times> sense_cb timer_data \<Rightarrow>
     (u64 \<times> sense_sys \<times> sense_cb timer_data) option" where
  "sense_main_round env cfg e rx ls = do {
     let (last_ping, s, d) = ls;
     s \<leftarrow> process_rx env cfg rx s;
     let (_, s, d) = rte_timer_manage e (sense_call e) (s, d);
     let now = timer_cycles e;
     if now - last_ping \<ge> timer_hz e then do {
       s \<leftarrow> send_pings env cfg now (sense_peers cfg) s;
       Some (now, s, d) }
     else Some (last_ping, s, d) }"

text \<open>A round of \<^verbatim>\<open>xstats_worker\<close>: every five seconds, when the port statistics can be read, the latest snapshot
  is published.\<close>

definition xstats_worker_round ::
  "sense_env \<Rightarrow> sense_config_t \<Rightarrow> eth_xstats \<Rightarrow> eal \<Rightarrow> u64 \<times> xstats_cache \<times> sense_sys \<Rightarrow> (u64 \<times> xstats_cache \<times> sense_sys) option" where
  "xstats_worker_round env cfg dev e ls =
     (let (last_run, c, s) = ls; interval = timer_hz e * 5; now = timer_cycles e in
      if now - last_run \<ge> interval then
        let ((ret, snap), c) = sense_get_unified_snapshot_latest dev now (ucast (sc_port_id cfg)) (stats s) c in
        if ret = 0 then do { s \<leftarrow> sense_publish_stats env cfg (Some (uni_rtt snap)) s; Some (now, c, s) }
        else Some (now, c, s)
      else Some (last_run, c, s))"

section \<open>Names and values belong together\<close>

text \<open>A driver whose port keeps the number and the names of its statistics and answers.\<close>

definition stable_dev :: "(u16 \<Rightarrow> string list) \<Rightarrow> u16 \<Rightarrow> eth_xstats \<Rightarrow> bool" where
  "stable_dev nm p dev \<longleftrightarrow> xs_len dev = int (length (nm p)) \<and>
     (\<forall>n. fst (xs_get_names dev n) \<ge> 0 \<and> snd (xs_get_names dev n) = take (nat n) (nm p))"

fun metadata_run :: "(u16 \<times> eth_xstats) list \<Rightarrow> xstats_cache \<Rightarrow> xstats_cache" where
  "metadata_run [] c = c"
| "metadata_run ((p, dev) # calls) c = metadata_run calls (snd (snd (sense_metadata_snapshot dev p c)))"

definition cache_ok :: "(u16 \<Rightarrow> string list) \<Rightarrow> xstats_cache \<Rightarrow> bool" where
  "cache_ok nm c \<longleftrightarrow> 0 \<le> cached_len c \<and>
     (cached_len c \<noteq> 0 \<longrightarrow> cached_names c = take (nat (cached_len c)) (nm (cached_port c)))"

lemma metadata_snapshot_cache:
  assumes "stable_dev nm p dev" "cache_ok nm c" "sense_metadata_snapshot dev p c = (ret, xs, c')"
  shows "cache_ok nm c'" "ret = 0 \<Longrightarrow> cached_names c' = take 256 (nm p) \<and>
      xs = Some \<lparr>snap_port_id = ucast p, snap_count = of_nat (min 256 (length (nm p))),
        snap_names = map (\<lambda>i. copy_name (cached_names c' ! i)) [0..<min 256 (length (nm p))],
        snap_values = map (\<lambda>i. snd (xs_get dev (int (min 256 (length (nm p))))) ! i) [0..<min 256 (length (nm p))]\<rparr>"
proof -
  let ?n = "length (nm p)"
  have m: "(if int ?n > SENSE_MAX_XSTATS then SENSE_MAX_XSTATS else int ?n) = int (min 256 ?n)"
    by (simp add: SENSE_MAX_XSTATS_def)
  obtain r xsv where g: "xs_get dev (int (min 256 ?n)) = (r, xsv)" by fastforce
  obtain r' nms where h: "xs_get_names dev (int (min 256 ?n)) = (r', nms)" by fastforce
  have hn: "0 \<le> r'" "nms = take 256 (nm p)"
    using assms(1) h unfolding stable_dev_def by (metis fst_conv, metis snd_conv nat_int take_all_iff min.commute take_take length_take nle_le order_refl)
  have len: "xs_len dev = int ?n" using assms(1) by (simp add: stable_dev_def)
  have t: "take (min 256 ?n) (nm p) = take 256 (nm p)" by (metis length_take min.commute order_refl take_all take_take)
  show "cache_ok nm c'" "ret = 0 \<Longrightarrow> cached_names c' = take 256 (nm p) \<and>
      xs = Some \<lparr>snap_port_id = ucast p, snap_count = of_nat (min 256 (length (nm p))),
        snap_names = map (\<lambda>i. copy_name (cached_names c' ! i)) [0..<min 256 (length (nm p))],
        snap_values = map (\<lambda>i. snd (xs_get dev (int (min 256 (length (nm p))))) ! i) [0..<min 256 (length (nm p))]\<rparr>"
    using assms(2,3) hn t unfolding sense_metadata_snapshot_def Let_def len m g h
    by (auto simp: cache_ok_def g split: if_splits)
qed

lemma metadata_run_cache:
  "\<forall>(p, dev)\<in>set calls. stable_dev nm p dev \<Longrightarrow> cache_ok nm c \<Longrightarrow> cache_ok nm (metadata_run calls c)"
proof (induction calls arbitrary: c)
  case (Cons a calls)
  obtain p dev where a: "a = (p, dev)" by fastforce
  obtain ret xs c' where r: "sense_metadata_snapshot dev p c = (ret, xs, c')" by (metis prod_cases3)
  have "cache_ok nm c'" by (rule metadata_snapshot_cache(1) [OF _ Cons.prems(2) r]) (use Cons.prems a in auto)
  then show ?case using Cons a r by simp
qed simp

text \<open>The cache of names never mixes up ports. Whatever snapshots of whatever ports were taken before, as long as the
  statistics of a port keep their names, a successful snapshot pairs the i-th value the driver reports with
  the name of the i-th statistic of that port, cut to 63 characters, for at most 256 statistics.\<close>

theorem xstats_names_match:
  assumes "\<forall>(p, dev)\<in>set calls. stable_dev nm p dev" "stable_dev nm p dev"
    and "sense_metadata_snapshot dev p (metadata_run calls cache_boot) = (0, xs, c')"
  shows "xs = Some \<lparr>snap_port_id = ucast p, snap_count = of_nat (min 256 (length (nm p))),
      snap_names = map (\<lambda>i. copy_name (nm p ! i)) [0..<min 256 (length (nm p))],
      snap_values = map (\<lambda>i. snd (xs_get dev (int (min 256 (length (nm p))))) ! i) [0..<min 256 (length (nm p))]\<rparr>"
proof -
  have "cache_ok nm (metadata_run calls cache_boot)"
    by (rule metadata_run_cache [OF assms(1)]) (simp add: cache_ok_def cache_boot_def)
  from metadata_snapshot_cache(2) [OF assms(2) this assms(3)] show ?thesis by simp
qed

definition demo_dev :: "string list \<Rightarrow> eth_xstats" where
  "demo_dev nms = \<lparr>xs_len = int (length nms), xs_get = (\<lambda>n. (n, replicate (nat n) 7)), xs_get_names = (\<lambda>n. (n * n, take (nat n) nms))\<rparr>"

theorem xstats_names_match_witness:
  "\<exists>xs c'. sense_metadata_snapshot (demo_dev [''rx'', ''tx'']) 1
      (metadata_run [(0, demo_dev [''a'', ''b''])] cache_boot) = (0, Some xs, c') \<and>
     snap_names xs = [copy_name ''rx'', copy_name ''tx''] \<and> snap_values xs = [7, 7]"
proof -
  let ?nm = "\<lambda>p :: u16. if p = 1 then [''rx'', ''tx''] else [''a'', ''b'']"
  have st: "stable_dev ?nm 0 (demo_dev [''a'', ''b''])" "stable_dev ?nm 1 (demo_dev [''rx'', ''tx''])"
    by (simp_all add: stable_dev_def demo_dev_def)
  have r: "fst (sense_metadata_snapshot (demo_dev [''rx'', ''tx'']) 1 (metadata_run [(0, demo_dev [''a'', ''b''])] cache_boot)) = 0"
    by (simp add: sense_metadata_snapshot_def demo_dev_def cache_boot_def Let_def SENSE_MAX_XSTATS_def)
  obtain xs c' where c: "sense_metadata_snapshot (demo_dev [''rx'', ''tx'']) 1 (metadata_run [(0, demo_dev [''a'', ''b''])] cache_boot) = (0, xs, c')"
    using r by (metis prod.collapse)
  then show ?thesis using xstats_names_match [OF _ st(2) c] st(1)
    by (simp add: upt_rec demo_dev_def numeral_2_eq_2)
qed

text \<open>Too many statistics go unnoticed. When a port has more than 256, \<^verbatim>\<open>rte_eth_xstats_get\<close> of a table of 256
  returns the number that would be needed and stores nothing, as its documentation says; the code takes the
  positive result for success and reports 256 values that were never read from the device.\<close>

theorem xstats_overflow_unnoticed:
  assumes "xs_len dev > 256" "xs_get dev 256 = (xs_len dev, stale)"
    and "xs_get_names dev 256 = (xs_len dev, nms)"
  shows "\<exists>xs c'. sense_metadata_snapshot dev p cache_boot = (0, Some xs, c') \<and>
    snap_count xs = 256 \<and> snap_values xs = map (\<lambda>i. stale ! i) [0..<256]"
  using assms by (simp add: sense_metadata_snapshot_def Let_def SENSE_MAX_XSTATS_def cache_boot_def)

theorem xstats_overflow_unnoticed_witness:
  "\<exists>xs c'. sense_metadata_snapshot \<lparr>xs_len = 300, xs_get = (\<lambda>n. if n < 300 then (300, replicate 256 0xdead) else (300, replicate 300 1)),
      xs_get_names = (\<lambda>n. (300, replicate 256 ''stale''))\<rparr> 0 cache_boot = (0, Some xs, c') \<and> snap_count xs = 256"
  using xstats_overflow_unnoticed [of "\<lparr>xs_len = 300, xs_get = (\<lambda>n. if n < 300 then (300, replicate 256 0xdead) else (300, replicate 300 1)),
      xs_get_names = (\<lambda>n. (300, replicate 256 ''stale''))\<rparr>" "replicate 256 0xdead" "replicate 256 ''stale''" 0]
  by auto

section \<open>The callback and the timer library\<close>

definition sense_serves :: "eal \<Rightarrow> nat \<Rightarrow> sense_cb \<Rightarrow> bool" where
  "sense_serves e t cb \<longleftrightarrow> lcore_id e < RTE_MAX_LCORE"

interpretation sense_timers: timer_callbacks e "sense_call e" "sense_serves e" for e
  by unfold_locales (simp_all add: sense_serves_def sense_call_def)

lemma snapshot_enable_spec:
  fixes s :: sense_stats and d :: "sense_cb timer_data" and interval_ms window_ms :: u32
  assumes inv: "timer_inv d" and st: "state (tims d snapshot_timer) = RTE_TIMER_STOP" and l: "lcore_id e < RTE_MAX_LCORE"
    and cyc: "timer_cycles e + ucast interval_ms * timer_hz e div 1000 \<noteq> 0"
  defines "r \<equiv> sense_snapshot_enable e interval_ms window_ms (s, d)"
  shows "fst r = 0" "fst (snd r) = s\<lparr>snapshot_window_ms := window_ms\<rparr>" "timer_inv (snd (snd r))"
    "tims (snd (snd r)) snapshot_timer = \<lparr>expire = timer_cycles e + ucast interval_ms * timer_hz e div 1000,
       state = RTE_TIMER_PENDING, owner = int (lcore_id e), period = ucast interval_ms * timer_hz e div 1000, f = Some Snapshot_cb\<rparr>"
proof -
  let ?c = "ucast interval_ms * timer_hz e div 1000" and ?d = "rte_timer_init snapshot_timer d"
  have i: "timer_inv ?d" using rte_timer_init_inv [OF inv] st by simp
  have g: "timer_grab e snapshot_timer ?d \<noteq> None" by (simp add: timer_grab_None_iff rte_timer_init_def)
  have any: "lcore_id e \<noteq> LCORE_ID_ANY" using l by (simp add: RTE_MAX_LCORE_def LCORE_ID_ANY_def)
  note R = rte_timer_reset_at_spec [OF i g any cyc, where per = ?c and cb = Snapshot_cb]
  have e: "r = (fst (rte_timer_reset_at e snapshot_timer (timer_cycles e + ?c) ?c (lcore_id e) Snapshot_cb ?d),
      s\<lparr>snapshot_window_ms := window_ms\<rparr>, snd (rte_timer_reset_at e snapshot_timer (timer_cycles e + ?c) ?c (lcore_id e) Snapshot_cb ?d))"
    using rte_timer_reset_eq [OF timer_invD(1) [OF i]] by (simp add: r_def sense_snapshot_enable_def Let_def case_prod_beta)
  show "fst r = 0" "fst (snd r) = s\<lparr>snapshot_window_ms := window_ms\<rparr>" "timer_inv (snd (snd r))"
    "tims (snd (snd r)) snapshot_timer = \<lparr>expire = timer_cycles e + ?c,
       state = RTE_TIMER_PENDING, owner = int (lcore_id e), period = ?c, f = Some Snapshot_cb\<rparr>"
    using R(1,2,5) by (simp_all add: e)
qed

text \<open>The periodic snapshot. When the snapshot timer is the pending timer of the lcore and its time has come,
  a round of \<^verbatim>\<open>rte_timer_manage\<close> takes exactly one snapshot, of the averages of that moment over the window
  that \<^verbatim>\<open>sense_snapshot_enable\<close> set, keeps the timer library consistent, and has the timer pending again, due one
  period after the time it was due (not after the time it ran).\<close>

theorem snapshot_timer_period:
  fixes d :: "sense_cb timer_data"
  assumes inv: "timer_inv d" and pl: "pending_list (lcore_id e) d = [snapshot_timer]"
    and t: "tims d snapshot_timer = \<lparr>expire = x, state = RTE_TIMER_PENDING, owner = int (lcore_id e), period = p, f = Some Snapshot_cb\<rparr>"
    and due: "x \<le> timer_cycles e" and p: "p \<noteq> 0" "x + p \<noteq> 0" and l: "lcore_id e < RTE_MAX_LCORE"
  shows "\<exists>d'. rte_timer_manage e (sense_call e) (s, d) =
      (0, s\<lparr>stats := snapshot_cb (timer_cycles e) (timer_hz e) (stats s)\<rparr>, d') \<and> timer_inv d' \<and>
    snapshot_timer \<in> set (pending_list (lcore_id e) d') \<and> expire (tims d' snapshot_timer) = x + p"
proof -
  let ?t = snapshot_timer and ?l = "lcore_id e"
  have ex: "expired_list e d = [?t]" using pl t due by (simp add: expired_list_def ex_of_def)
  have x0: "x \<noteq> 0" using timer_invD(5) [OF inv, of ?t ?l] pl t by (simp add: ex_of_def)
  note S = start_expired_spec [OF inv, where e = e]
  define d0 where "d0 = start_expired e d"
  have t0: "tims d0 ?t = (tims d ?t)\<lparr>state := RTE_TIMER_RUNNING\<rparr>" using S(5) [of ?t] ex t by (simp add: d0_def)
  define d1 where "d1 = set_priv ?l (\<lambda>q. q\<lparr>updated := False, running_tim := Some ?t\<rparr>) d0"
  define d2 where "d2 = set_tim ?t (\<lambda>q. q\<lparr>state := RTE_TIMER_PENDING, owner := int ?l\<rparr>) d1"
  have t1: "tims d1 ?t = (tims d ?t)\<lparr>state := RTE_TIMER_RUNNING\<rparr>" using t0 by (simp add: d1_def)
  have t2: "tims d2 ?t = tims d ?t" using t1 t by (simp add: d2_def)
  have u1: "\<not> updated (priv d1 ?l)" by (simp add: d1_def)
  have "timer_inv d1" unfolding d1_def d0_def by (rule set_flags_inv [OF S(2)])
  from timer_invD [OF this] t1 have "timer_inv_but ?t d1"
    unfolding timer_inv_but_def by (intro conjI allI impI ballI) simp_all
  then have but: "timer_inv_but ?t d2" unfolding d2_def by (rule timer_inv_but_set_tim)
  have any: "?l \<noteq> LCORE_ID_ANY" using l by (simp add: RTE_MAX_LCORE_def LCORE_ID_ANY_def)
  have st2: "state (tims d2 ?t) = RTE_TIMER_PENDING" "owner (tims d2 ?t) = int ?l" "ex_of d2 ?t \<noteq> 0"
    using t t2 x0 by (simp_all add: ex_of_def)
  note R = rearm_spec [OF but st2 p(2) any, where per = p and cb = Snapshot_cb and e = e]
  have run: "run_timer e (sense_call e) ?t (s, d0) =
      (s\<lparr>stats := snapshot_cb (timer_cycles e) (timer_hz e) (stats s)\<rparr>,
       snd (rte_timer_reset_at e ?t (x + p) p ?l Snapshot_cb d2))"
    using t1 t p(1) u1 t2 by (simp add: run_timer_def Let_def d1_def [symmetric] d2_def [symmetric] sense_call_def t0)
  have "rte_timer_manage e (sense_call e) (s, d) = (0, s\<lparr>stats := snapshot_cb (timer_cycles e) (timer_hz e) (stats s)\<rparr>,
      set_priv ?l (\<lambda>p. p\<lparr>running_tim := None\<rparr>) (snd (rte_timer_reset_at e ?t (x + p) p ?l Snapshot_cb d2)))"
    using rte_timer_manage_eq [OF inv, of e "sense_call e" s] by (simp add: ex d0_def [symmetric] run)
  moreover note set_running_tim_inv [OF R(2), of ?l None]
  moreover have "pending_list ?l (set_priv ?l (\<lambda>p. p\<lparr>running_tim := None\<rparr>) d') = pending_list ?l d'" for d' :: "sense_cb timer_data"
    by (simp add: pending_list_def)
  ultimately show ?thesis using R(6,7) by (simp add: ex_of_def)
qed

text \<open>An lcore at cycle 100 of a 1 kHz counter, and the timers after the snapshot was enabled at cycle 40 for 50 ms.\<close>

definition demo_at :: "u64 \<Rightarrow> eal" where
  "demo_at now = \<lparr>lcore_id = 0, main_lcore = 0, lcore_enabled = (\<lambda>_. True), timer_hz = 1000, timer_cycles = now\<rparr>"

definition demo_enabled :: "sense_cb timer_data" where
  "demo_enabled = snd (snd (sense_snapshot_enable (demo_at 40) 50 5000 (stats_boot, boot_timers)))"

lemma demo_enabled_ok:
  "timer_inv demo_enabled" "pending_list 0 demo_enabled = [snapshot_timer]"
  "tims demo_enabled snapshot_timer = \<lparr>expire = 90, state = RTE_TIMER_PENDING, owner = int 0, period = 50, f = Some Snapshot_cb\<rparr>"
proof -
  have l: "lcore_id (demo_at 40) < RTE_MAX_LCORE" by (simp add: demo_at_def RTE_MAX_LCORE_def)
  have c: "timer_cycles (demo_at 40) + ucast (50 :: u32) * timer_hz (demo_at 40) div 1000 \<noteq> 0" by (simp add: demo_at_def)
  note E = snapshot_enable_spec [OF boot_timers_ok l c, of 5000 stats_boot, folded demo_enabled_def]
  show inv: "timer_inv demo_enabled" by (rule E(3))
  show t: "tims demo_enabled snapshot_timer = \<lparr>expire = 90, state = RTE_TIMER_PENDING, owner = int 0, period = 50, f = Some Snapshot_cb\<rparr>"
    using E(4) by (simp add: demo_at_def)
  have "u = snapshot_timer" if "state (tims demo_enabled u) = RTE_TIMER_PENDING" for u
  proof (rule ccontr)
    assume u: "u \<noteq> snapshot_timer"
    let ?b = "boot_timers :: sense_cb timer_data"
    have i: "timer_inv (rte_timer_init snapshot_timer ?b)" 
      by (rule rte_timer_init_inv [OF boot_timers_ok(1)]) (simp add: boot_timers_ok(2))
    have g: "timer_grab (demo_at 40) snapshot_timer (rte_timer_init snapshot_timer ?b) \<noteq> None"
      by (simp add: timer_grab_None_iff rte_timer_init_def)
    have any: "lcore_id (demo_at 40) \<noteq> LCORE_ID_ANY" by (simp add: demo_at_def LCORE_ID_ANY_def)
    have "demo_enabled = snd (rte_timer_reset_at (demo_at 40) snapshot_timer (timer_cycles (demo_at 40) + ucast (50 :: u32) * timer_hz (demo_at 40) div 1000)
        (ucast (50 :: u32) * timer_hz (demo_at 40) div 1000) (lcore_id (demo_at 40)) Snapshot_cb (rte_timer_init snapshot_timer ?b))"
      by (simp add: demo_enabled_def sense_snapshot_enable_def Let_def case_prod_beta rte_timer_reset_eq [OF timer_invD(1) [OF i]])
    note eq = this
    have "tims demo_enabled u = tims (rte_timer_init snapshot_timer ?b) u"
      unfolding eq by (rule rte_timer_reset_at_spec(6) [OF i g any c u])
    then show False using that u by (simp add: rte_timer_init_def boot_timers_ok(2))
  qed
  then have "set (pending_list 0 demo_enabled) = {snapshot_timer}"
    using timer_invD(4) [OF inv, of _ 0] t by auto
  then show "pending_list 0 demo_enabled = [snapshot_timer]"
    using timer_inv_pending_list(1) [OF inv, of 0] by (metis distinct.simps(2) distinct_singleton empty_set insert_not_empty neq_Nil_conv set_ConsD set_simps(2) singletonD singletonI list.set_intros(1) list.set_intros(2))
qed

theorem snapshot_timer_period_witness:
  "\<exists>d'. rte_timer_manage (demo_at 100) (sense_call (demo_at 100)) (demo_sys, demo_enabled) =
      (0, demo_sys\<lparr>stats := snapshot_cb 100 1000 (stats demo_sys)\<rparr>, d') \<and> expire (tims d' snapshot_timer) = 140"
  using snapshot_timer_period [of demo_enabled "demo_at 100" 90 50 demo_sys] demo_enabled_ok
  by (auto simp: demo_at_def RTE_MAX_LCORE_def)

section \<open>A round of pings\<close>

lemma send_ping_frame:
  assumes cfg: "sense_node_ok cfg" and pool: "pool_ok env" "\<forall>k n. pool env k n \<noteq> None" and p: "p \<noteq> 0" "p \<le> sc_node_num cfg"
  shows "\<exists>frm. send_ping_packet env cfg now p s = Some (s\<lparr>stats := sense_stats_record_ping now p (stats s),
      allocs := allocs s + 1, tx_frames := tx_frames s @ [frm]\<rparr>) \<and>
    take 6 frm = sc_mac_map cfg ! unat p \<and> udp_payload frm = Some (ping_bytes (sc_node_id cfg) now (tsc_hz env))"
proof -
  let ?pl = "ping_bytes (sc_node_id cfg) now (tsc_hz env)"
  obtain m where m: "pool env (allocs s) 63 = Some m" using pool(2) by blast
  then have "pool env (allocs s) (42 + length ?pl) = Some m" "length m = 42 + length ?pl" "?pl \<noteq> []"
    using pool_okD [OF pool(1) m] by (simp_all flip: length_0_conv)
  from send_raw_packet_frame [where room = "pool env (allocs s)", OF cfg p this, of "inet_addr env"]
  show ?thesis by (auto simp: send_ping_packet_def transmit_def Let_def)
qed

lemma send_pings_frames:
  assumes "sense_node_ok cfg" "pool_ok env" "\<forall>k n. pool env k n \<noteq> None"
  shows "\<forall>p\<in>set ps. p \<noteq> 0 \<and> p \<le> sc_node_num cfg \<Longrightarrow>
    \<exists>frms. send_pings env cfg now ps s = Some (s\<lparr>stats := fold (sense_stats_record_ping now) ps (stats s),
      allocs := allocs s + length ps, tx_frames := tx_frames s @ frms\<rparr>) \<and>
    map (take 6) frms = map (\<lambda>p. sc_mac_map cfg ! unat p) ps \<and>
    (\<forall>frm\<in>set frms. udp_payload frm = Some (ping_bytes (sc_node_id cfg) now (tsc_hz env)))"
proof (induction ps arbitrary: s)
  case Nil
  then show ?case by (intro exI [of _ "[]"]) simp
next
  case (Cons p ps)
  then obtain frm where f: "send_ping_packet env cfg now p s = Some (s\<lparr>stats := sense_stats_record_ping now p (stats s),
      allocs := allocs s + 1, tx_frames := tx_frames s @ [frm]\<rparr>)"
    "take 6 frm = sc_mac_map cfg ! unat p" "udp_payload frm = Some (ping_bytes (sc_node_id cfg) now (tsc_hz env))"
    using send_ping_frame [OF assms] by (metis list.set_intros(1))
  let ?s = "s\<lparr>stats := sense_stats_record_ping now p (stats s), allocs := allocs s + 1, tx_frames := tx_frames s @ [frm]\<rparr>"
  have "\<forall>p\<in>set ps. p \<noteq> 0 \<and> p \<le> sc_node_num cfg" using Cons.prems by simp
  from Cons.IH [OF this, of ?s] obtain frms where
    g: "send_pings env cfg now ps ?s = Some (?s\<lparr>stats := fold (sense_stats_record_ping now) ps (stats ?s),
      allocs := allocs ?s + length ps, tx_frames := tx_frames ?s @ frms\<rparr>)"
    "map (take 6) frms = map (\<lambda>p. sc_mac_map cfg ! unat p) ps"
    "\<forall>frm\<in>set frms. udp_payload frm = Some (ping_bytes (sc_node_id cfg) now (tsc_hz env))"
    by blast
  show ?case using f g by (intro exI [of _ "frm # frms"]) simp
qed

lemma of_nat_node: "k \<le> unat (n :: u32) \<Longrightarrow> unat (of_nat k :: u32) = k"
  using le_less_trans [OF _ unat_less_32, of k n] by (simp add: unat_of_nat)

lemma set_sense_peers: "set (sense_peers cfg) = {p. p \<noteq> 0 \<and> p \<le> sc_node_num cfg \<and> p \<noteq> sc_node_id cfg}"
proof -
  have "p \<in> of_nat ` {1..<unat (sc_node_num cfg) + 1} \<longleftrightarrow> p \<noteq> 0 \<and> p \<le> sc_node_num cfg" for p :: u32
  proof
    assume "p \<in> of_nat ` {1..<unat (sc_node_num cfg) + 1}"
    then obtain k where k: "p = of_nat k" "1 \<le> k" "k \<le> unat (sc_node_num cfg)" by auto
    then have "unat p = k" using of_nat_node by blast
    then show "p \<noteq> 0 \<and> p \<le> sc_node_num cfg" using k by (auto simp: word_le_nat_alt)
  next
    assume "p \<noteq> 0 \<and> p \<le> sc_node_num cfg"
    then have "unat p \<in> {1..<unat (sc_node_num cfg) + 1}" using unat_gt_0 [of p] by (auto simp: word_le_nat_alt)
    then show "p \<in> of_nat ` {1..<unat (sc_node_num cfg) + 1}" by (intro image_eqI [of _ _ "unat p"]) simp_all
  qed
  then show ?thesis by (auto simp: sense_peers_def simp del: upt_Suc)
qed

text \<open>The measuring loop. In a round of the main loop in which a second has passed since the last pings, nothing
  arrives and no timer is due, exactly one ping goes to every other node, in the order of their numbers and to the
  MAC address of each, stamped with the present time; each of them is counted as sent, and the time is
  noted.\<close>

theorem main_round_pings:
  assumes cfg: "sense_node_ok cfg" and pool: "pool_ok env" "\<forall>k n. pool env k n \<noteq> None"
    and quiet: "timer_inv d" "expired_list e d = []" and second: "timer_cycles e - last_ping \<ge> timer_hz e"
  shows "\<exists>frms. sense_main_round env cfg e [] (last_ping, s, d) = Some (timer_cycles e,
       s\<lparr>stats := fold (sense_stats_record_ping (timer_cycles e)) (sense_peers cfg) (stats s),
         allocs := allocs s + length (sense_peers cfg), tx_frames := tx_frames s @ frms\<rparr>, d) \<and>
     map (take 6) frms = map (\<lambda>p. sc_mac_map cfg ! unat p) (sense_peers cfg) \<and>
     (\<forall>frm\<in>set frms. udp_payload frm = Some (ping_bytes (sc_node_id cfg) (timer_cycles e) (tsc_hz env))) \<and>
     set (sense_peers cfg) = {p. p \<noteq> 0 \<and> p \<le> sc_node_num cfg \<and> p \<noteq> sc_node_id cfg} \<and> distinct (sense_peers cfg)"
proof -
  have m: "rte_timer_manage e (sense_call e) (s, d) = (0, s, d)"
    using rte_timer_manage_eq [OF quiet(1), of e "sense_call e" s] quiet(2) by simp
  have "\<forall>p\<in>set (sense_peers cfg). p \<noteq> 0 \<and> p \<le> sc_node_num cfg" by (simp add: set_sense_peers)
  from send_pings_frames [OF cfg pool this, of "timer_cycles e" s] obtain frms where
    g: "send_pings env cfg (timer_cycles e) (sense_peers cfg) s = Some (s\<lparr>stats := fold (sense_stats_record_ping (timer_cycles e)) (sense_peers cfg) (stats s),
         allocs := allocs s + length (sense_peers cfg), tx_frames := tx_frames s @ frms\<rparr>)"
     "map (take 6) frms = map (\<lambda>p. sc_mac_map cfg ! unat p) (sense_peers cfg)"
     "\<forall>frm\<in>set frms. udp_payload frm = Some (ping_bytes (sc_node_id cfg) (timer_cycles e) (tsc_hz env))" by blast
  have "inj_on (of_nat :: nat \<Rightarrow> u32) (set [1..<unat (sc_node_num cfg) + 1])"
    using of_nat_node [of _ "sc_node_num cfg"] by (intro inj_on_inverseI [where g = unat]) auto
  then have "distinct (sense_peers cfg)" by (simp add: sense_peers_def distinct_map del: upt_Suc)
  then show ?thesis using g second m by (auto simp: sense_main_round_def Let_def set_sense_peers)
qed

theorem main_round_pings_witness:
  "\<exists>frms. sense_main_round demo_env (demo_cfg 1) (demo_at 9000) [] (8000, demo_sys, boot_timers) = Some (9000,
       demo_sys\<lparr>stats := sense_stats_record_ping 9000 2 (stats demo_sys), allocs := 1, tx_frames := frms\<rparr>, boot_timers) \<and>
     map (take 6) frms = [[2, 0, 0, 0, 0, 1]]"
proof -
  have pool: "\<forall>k n. pool demo_env k n \<noteq> None" by (simp add: demo_env_def)
  have ex: "expired_list (demo_at 9000) (boot_timers :: sense_cb timer_data) = []"
    by (simp add: expired_list_def boot_timers_list)
  have t: "timer_hz (demo_at 9000) \<le> timer_cycles (demo_at 9000) - 8000" "timer_cycles (demo_at 9000) = 9000" by (simp_all add: demo_at_def)
  have p: "sense_peers (demo_cfg 1) = [2]" by (simp add: sense_peers_def demo_cfg_def upt_rec)
  have m: "sc_mac_map (demo_cfg 1) ! 2 = [2, 0, 0, 0, 0, 1]" by (simp add: demo_cfg_def)
  have s: "allocs demo_sys = 0" "tx_frames demo_sys = []" by (simp_all add: demo_sys_def)
  show ?thesis
    using main_round_pings [OF demo_nodes_ok(1,3) pool boot_timers_ok(1) ex t(1), of demo_sys] by (auto simp: p m s t(2))
qed

end
