(* ===== verification/Spec2Isabelle.thy ===== *)
theory Spec2Isabelle
  imports RteMbufClone RteCksum RteRingInit RteRingThreads NeConfig RaftLoops RaftNet RteRandMax PingPong RteMeter RteEther SenseMain
begin

text \<open>
  A verification library for the leader-election programs of this repository and for the parts of
  DPDK 23.11 they are built on. Paths are relative to \<^verbatim>\<open>src/dpdk-23.11\<close>.

  \<^bold>\<open>The programs.\<close> A \<^verbatim>\<open>raft\<close> node (\<^verbatim>\<open>app/raft\<close>, and the same sources in \<^verbatim>\<open>app/raft-netelect\<close>) polls a
  port, hands every Raft packet to \<^verbatim>\<open>raft_handle_packet\<close>, runs its timers with \<^verbatim>\<open>rte_timer_manage\<close> and, as a
  leader, broadcasts a heartbeat. Elections start when the election timer fires; its delay is drawn with
  \<^verbatim>\<open>rte_rand\<close>. The NetElect node (\<^verbatim>\<open>app/raft-netelect-backup\<close>) also measures its peers with periodic PS
  packets, and takes its election timeout from these measurements. \<^verbatim>\<open>app/sense\<close> measures round-trip times
  with pings and pongs, keeps windowed averages and publishes them. The two \<^verbatim>\<open>app/pingpong\<close> programs answer
  each other's frames. All of them use the timer library, the packet buffers, the header and checksum
  helpers, the Ethernet helpers and the random generator of DPDK, and packet buffers come from pools that
  are kept in a ring behind a cache for each lcore; the meters are a further library.

  \<^bold>\<open>Conventions.\<close> A C struct is a record, a \<^verbatim>\<open>w\<close>-bit integer a word, memory a list of bytes (little endian),
  a \<^verbatim>\<open>double\<close> the rational it stands for or an infinity or NaN. Statics are fields of a state that the
  functions return updated. An access outside of an array, a null dereference or a division by zero is
  the value \<open>None\<close> (or \<open>Bad_index\<close>, \<open>Tx_trap\<close>), an error code of the source is an integer or an option of
  the result. What is not in the repository is an argument: the JSON reader (\<open>jansson\<close>), \<^verbatim>\<open>inet_addr\<close>, the
  contents of fresh buffers, the cycle counter and its frequency (\<open>eal\<close>), the statistics of the port.

  \<^bold>\<open>The theories.\<close>
  \<^item> \<open>Prelude\<close>, \<open>CLib\<close>: integer types, \<^verbatim>\<open>strncpy\<close>, \<^verbatim>\<open>sscanf\<close>, tables of strings, the JSON reader.
    \<open>CDouble\<close>, \<open>CDoubleOrder\<close>: rounding of doubles and floats, its error and its monotony.
  \<^item> \<open>RteRandom\<close>, \<open>RteRandMax\<close> (\<^verbatim>\<open>lib/eal/common/rte_random.c\<close>): the LFSR generators. Their step is linear
    over the bits; it keeps the registers out of the degenerate range and has no fixed point but zero, from
    which the termination of the rejection loop of \<^verbatim>\<open>rte_rand_max\<close> follows for every state.
  \<^item> \<open>RteTimer\<close> (\<^verbatim>\<open>lib/timer/rte_timer.c\<close>): handles, skip lists, \<^verbatim>\<open>reset\<close>, \<^verbatim>\<open>stop\<close>, \<^verbatim>\<open>manage\<close>. \<open>RteTimerLists\<close> is the
    skip list as pure lists, \<open>RteTimerFacts\<close> the invariant and the refinement of reset and stop to ordered
    insertion and deletion, \<open>RteTimerManage\<close> the manage loop. Its locale \<open>timer_callbacks\<close> is what the library
    asks of callbacks; it is interpreted for the callbacks of \<^verbatim>\<open>election.c\<close> (in \<open>RaftTimers\<close>) and of
    \<^verbatim>\<open>stats.c\<close> (in \<open>SenseMain\<close>).
  \<^item> \<open>RaftConfig\<close>, \<open>RaftTimeout\<close>, \<open>RaftElection\<close> (\<^verbatim>\<open>app/raft/config.c\<close>, \<^verbatim>\<open>timeout.c\<close>, \<^verbatim>\<open>election.c\<close>, \<^verbatim>\<open>main.c\<close>): the node.
    \<open>RaftTimers\<close> proves that it never traps and keeps its timer armed while it is not leader. \<open>RaftLoops\<close>
    has the broadcast loop with its counter.
  \<^item> \<open>RaftSpec\<close> is the abstract node without timers and the refinement of the handlers to it, \<open>RaftCluster\<close>
    the abstract cluster on a network that loses, duplicates and reorders, with the election invariant.
    \<open>RaftImpl\<close> has the locale \<open>raft_impl\<close>: whatever makes the steps of the abstract node has its safety.
    \<open>RaftSystem\<close> interprets it for the handlers of \<^verbatim>\<open>app/raft\<close>, \<open>NeCluster\<close> for those of NetElect. \<open>RaftRuns\<close> and
    \<open>NeRuns\<close> have the converse, so that safety is not about an empty set of runs, and \<open>RaftRuns\<close> the
    counterexample with five nodes.
  \<^item> \<open>RaftNet\<close> (\<^verbatim>\<open>app/raft/networking.c\<close>): frames over stale buffer contents and their receipt, with
    \<open>NetHeaders\<close> (\<^verbatim>\<open>lib/net/rte_ip.h\<close>): the Internet checksum against its sum in ones' complement.
  \<^item> \<open>NeElection\<close>, \<open>NeEstimate\<close>, \<open>NeNet\<close>, \<open>NeWire\<close>, \<open>NeConfig\<close> (\<^verbatim>\<open>app/raft-netelect-backup\<close>): handlers, estimators in
    doubles, clock synchronisation, frames, main loop and loader of the NetElect node.
  \<^item> \<open>SenseConfig\<close>, \<open>SenseStats\<close>, \<open>SenseNet\<close>, \<open>SenseMain\<close> (\<^verbatim>\<open>app/sense\<close>): loader, statistics, frames, main loop. The
    ring of samples is refined to the history of pongs.
  \<^item> \<open>PingPong\<close> (\<^verbatim>\<open>app/pingpong-ping\<close>, \<^verbatim>\<open>app/pingpong-pong\<close>): the two programs and their exchange.
  \<^item> \<open>RteRing\<close> (\<^verbatim>\<open>lib/ring\<close>): the lock-free ring. \<open>RteRingCopy\<close> proves the unrolled copy loops equal to a loop over
    the elements, \<open>RteRingInit\<close> what creation accepts and leaves behind. \<open>RteRingQueue\<close> has the locale \<open>ring_mode\<close>,
    what a synchronisation mode promises to one thread, from which a run refines a bounded list; it is
    interpreted for the single and multi, the relaxed and the head-tail mode and for the functions that choose
    among them. \<open>RteRingThreads\<close> lets producers and consumers interleave statement by statement and has
    the invariant over reserved places behind order, capacity and freedom from deadlock.
  \<^item> \<open>RteMempool\<close> (\<^verbatim>\<open>lib/mempool\<close>, \<^verbatim>\<open>drivers/mempool/ring\<close>): pools of objects, the caches of the lcores over the
    ring. \<open>RteMempoolFacts\<close> has the multiset of what a pool holds and that get, put and flush conserve it.
  \<^item> \<open>RteMbufRefs\<close> (\<^verbatim>\<open>lib/mbuf\<close>): allocation, reference counts, attachment, release and clones of packet buffers
    in a memory of addressed mbufs. \<open>RteMbufOwn\<close> says what the counts mean, for sets of mbufs and without code;
    \<open>RteMbufLife\<close> has the invariant of the memory and that each function keeps it; \<open>RteMbufClone\<close> the clone and
    the runs of users: no use after free, no double free, no leak.
  \<^item> \<open>RteMbuf\<close> (\<^verbatim>\<open>lib/mbuf\<close>): the data operations on segmented packets, refined to lists of bytes.
    \<open>RteCksum\<close> (\<^verbatim>\<open>lib/net/rte_ip.h\<close>): checksums over segmented packets, exactly when they are those of the bytes, and IPv6.
    \<open>RteEther\<close> (\<^verbatim>\<open>lib/net/rte_ether.c\<close>): addresses and VLAN tags. \<open>RteMeter\<close> (\<^verbatim>\<open>lib/meter\<close>): the three markers; the
    locale \<open>token_bucket\<close> is interpreted for each of their buckets.

  \<^bold>\<open>Bounds and fuel.\<close> No definition has fuel: loops over tables and bursts are recursions on lists, \<^verbatim>\<open>%x\<close> and
  decimal scans recursions on strings, and the loops whose end depends on the state (\<open>draw_below\<close>, and
  the walks over the segments of a packet in \<open>rte_pktmbuf_free\<close> and \<open>clone_loop\<close>) are partial functions that are
  proved to return. Cluster theorems bound the number of elections by \<open>2 ^ 32\<close>, where
  the term counter wraps. The random delay is bounded by the configured range; the parameters of a meter
  by \<open>2 ^ 53\<close>, where a double stops being exact; the entries reserved in a run of ring threads by
  \<open>2 ^ 32\<close>, where an index returns to an old value; the references to an mbuf by \<open>2 ^ 16 - 1\<close>, what its count holds.

  \<^bold>\<open>Not modelled.\<close> Start-up of ports, pools and shared memory (\<^verbatim>\<open>net_init\<close>, \<^verbatim>\<open>net_attach_secondary\<close>,
  \<^verbatim>\<open>publish_mp_info\<close>), because it only calls drivers; console output (\<^verbatim>\<open>print_stats\<close>, \<^verbatim>\<open>app/see-metadata\<close>,
  \<^verbatim>\<open>latency.c\<close>); data races between lcores: each function is one atomic step, except in
  \<open>RteRingThreads\<close>, whose steps are single accesses to sequentially consistent memory. Of the timer
  library the alternate instances, \<^verbatim>\<open>rte_timer_stop_all\<close> and the dump, of the packet buffers full copies, bulk free,
  sanity checks and buffers of several pools, of the mempools their creation and population in memory zones, of the
  ring its memory zones, its peek interface and interleavings of the relaxed and the head-tail mode. The rest of DPDK (drivers, the environment
  layer, hash, flow classification, cryptography and its other libraries and example programs) is
  upstream code that the programs above do not call or only call through a driver.
\<close>

end
